(* ===== verification/Prelude.thy ===== *)
theory Prelude
  imports Main "HOL-Library.Word" "HOL-Library.Monad_Syntax"
begin

text \<open>
  What the components share: the machine integer types of the sources, the little-endian memory
  image of an integer (the sources copy integers to and from byte buffers by \<open>memcpy\<close> and
  \<open>reinterpret_cast\<close> on x86-64), and the generic facts on lists, options and words that the
  component proofs use. The collection \<open>codec\<close> gathers the rewrite rules of the byte codecs.
\<close>

unbundle bit_operations_syntax

named_theorems codec \<open>rewrite rules of the byte-level encoders and decoders\<close>

type_synonym u8 = "8 word"
type_synonym u16 = "16 word"
type_synonym u32 = "32 word"
type_synonym u64 = "64 word"
type_synonym bytes = "u8 list"

section \<open>Buffers\<close>

text \<open>\<open>memcpy (buf + off, bs)\<close> on a buffer held as a list.\<close>

definition overwrite :: "nat \<Rightarrow> 'a list \<Rightarrow> 'a list \<Rightarrow> 'a list" where
  "overwrite off bs buf = take off buf @ bs @ drop (off + length bs) buf"

lemma length_overwrite [simp]:
  "off + length bs \<le> length buf \<Longrightarrow> length (overwrite off bs buf) = length buf"
  by (simp add: overwrite_def)

lemma take_overwrite [simp]:
  "off \<le> length buf \<Longrightarrow> take (off + length bs) (overwrite off bs buf) = take off buf @ bs"
  by (simp add: overwrite_def)

section \<open>The memory image of an integer\<close>

text \<open>The first \<open>n\<close> bytes of the little-endian memory image of a word.\<close>

primrec le_bytes :: "nat \<Rightarrow> 'a::len word \<Rightarrow> bytes" where
  "le_bytes 0 w = []"
| "le_bytes (Suc n) w = ucast w # le_bytes n (drop_bit 8 w)"

text \<open>The word whose memory image starts with the given bytes and is zero afterwards.\<close>

primrec le_word :: "bytes \<Rightarrow> 'a::len word" where
  "le_word [] = 0"
| "le_word (b # bs) = ucast b OR push_bit 8 (le_word bs)"

lemma length_le_bytes [simp, codec]: "length (le_bytes n w) = n"
  by (induction n arbitrary: w) simp_all

lemma le_bytes_append:
  "le_bytes (m + n) w = le_bytes m w @ le_bytes n (drop_bit (8 * m) w)"
  by (induction m arbitrary: w) (simp_all add: algebra_simps drop_bit_drop_bit)

lemma bit_le_word:
  "bit (le_word bs :: 'a::len word) i \<longleftrightarrow>
     i < LENGTH('a) \<and> i div 8 < length bs \<and> bit (bs ! (i div 8)) (i mod 8)"
proof (induction bs arbitrary: i)
  case Nil
  then show ?case by simp
next
  case (Cons b bs)
  show ?case
  proof (cases "i < 8")
    case True
    then show ?thesis
      by (auto simp: bit_simps)
  next
    case False
    then obtain j where j: "i = j + 8" by (metis add.commute le_Suc_ex not_less)
    have "\<not> bit b (j + 8)"
      using bit_imp_le_length [of b "j + 8"] by auto
    moreover have "(j + 8) div 8 = Suc (j div 8)" by simp
    ultimately show ?thesis
      using j Cons.IH [of j] by (auto simp: bit_simps)
  qed
qed

lemma nth_le_bytes: "i < n \<Longrightarrow> le_bytes n w ! i = ucast (drop_bit (8 * i) w)"
  by (induction n arbitrary: w i) (auto simp: nth_Cons drop_bit_drop_bit algebra_simps split: nat.splits)

lemma le_word_le_bytes:
  "(le_word (le_bytes n w) :: 'a::len word) = take_bit (8 * n) (ucast w)"
  for w :: "'b::len word"
proof (rule bit_word_eqI)
  fix i assume i: "i < LENGTH('a)"
  have "8 * (i div 8) + i mod 8 = i" by simp
  moreover have "i div 8 < n \<longleftrightarrow> i < 8 * n" by auto
  ultimately show "bit (le_word (le_bytes n w) :: 'a word) i
      = bit (take_bit (8 * n) (ucast w) :: 'a word) i"
    using i by (auto simp: bit_le_word nth_le_bytes bit_simps dest: bit_imp_le_length)
qed

corollary le_word_le_bytes_full [simp, codec]:
  "LENGTH('a) = 8 * n \<Longrightarrow> (le_word (le_bytes n w) :: 'a::len word) = w"
  by (simp add: le_word_le_bytes take_bit_word_eq_self)

end
