(* ===== verification/Archive.thy ===== *)
theory Archive
  imports Prelude
begin

text \<open>
  The archives of \<open>serialization/oarchive.hpp\<close> and \<open>serialization/iarchive.hpp\<close>: the byte sink
  and the byte source that every encoder of the storage layer writes to and reads from.
  An output archive either owns a growing buffer (\<open>out == NULL\<close>) or forwards to an
  \<open>std::ostream\<close>; the stream is the list of the bytes it has received. An input archive reads a
  memory buffer (\<open>buf != NULL\<close>), the mode the block decoders use; a read past the end of the
  buffer is undefined behaviour in the code and \<open>None\<close> here. The locales \<open>byte_sink\<close> and
  \<open>byte_source\<close> are the interfaces the codecs rely on. Buffer sizes are \<open>nat\<close>: no buffer reaches
  \<open>2 ^ 64\<close> bytes.
\<close>

section \<open>Output archives\<close>

text \<open>
  \<open>o_fill\<close> stands for the indeterminate bytes that \<open>realloc\<close> leaves in the part of the buffer it
  adds; nothing below depends on them.
\<close>

record oarchive =
  o_out :: "bytes option"
  o_vchar :: bool
  o_fill :: "nat \<Rightarrow> u8"
  o_buf :: bytes
  o_off :: nat
  o_len :: nat

definition oarchive_new :: "(nat \<Rightarrow> u8) \<Rightarrow> oarchive" where
  "oarchive_new fill =
     \<lparr>o_out = None, o_vchar = False, o_fill = fill, o_buf = [], o_off = 0, o_len = 0\<rparr>"

definition oarchive_vector :: "bytes \<Rightarrow> oarchive" where
  "oarchive_vector vec =
     \<lparr>o_out = None, o_vchar = True, o_fill = (\<lambda>_. 0), o_buf = vec, o_off = 0, o_len = length vec\<rparr>"

definition oarchive_stream :: oarchive where
  "oarchive_stream =
     \<lparr>o_out = Some [], o_vchar = False, o_fill = (\<lambda>_. 0), o_buf = [], o_off = 0, o_len = 0\<rparr>"

definition expand_buf :: "nat \<Rightarrow> oarchive \<Rightarrow> oarchive" where
  "expand_buf s a =
     (if o_len a < o_off a + s then
        let len = 2 * (s + o_len a);
            grown = (if o_vchar a then replicate (len - length (o_buf a)) 0
                     else map (o_fill a) [length (o_buf a)..<len])
        in a\<lparr>o_len := len, o_buf := o_buf a @ grown\<rparr>
      else a)"

definition oarc_write :: "bytes \<Rightarrow> oarchive \<Rightarrow> oarchive" where
  "oarc_write c a =
     (case o_out a of
        None \<Rightarrow>
          let a = expand_buf (length c) a
          in a\<lparr>o_buf := overwrite (o_off a) c (o_buf a), o_off := o_off a + length c\<rparr>
      | Some s \<Rightarrow> a\<lparr>o_out := Some (s @ c)\<rparr>)"

text \<open>\<open>direct_assign (t)\<close>: the argument is the memory image of \<open>t\<close>, \<open>sizeof (T)\<close> bytes.\<close>

definition direct_assign :: "bytes \<Rightarrow> oarchive \<Rightarrow> oarchive" where
  "direct_assign t a =
     (case o_out a of
        None \<Rightarrow>
          let a = expand_buf (length t) a
          in a\<lparr>o_buf := overwrite (o_off a) t (o_buf a), o_off := o_off a + length t\<rparr>
      | Some s \<Rightarrow> a\<lparr>o_out := Some (s @ t)\<rparr>)"

text \<open>The bytes an archive holds, and the invariant of its buffer.\<close>

definition oarc_contents :: "oarchive \<Rightarrow> bytes" where
  "oarc_contents a = (case o_out a of None \<Rightarrow> take (o_off a) (o_buf a) | Some s \<Rightarrow> s)"

definition oarc_ok :: "oarchive \<Rightarrow> bool" where
  "oarc_ok a \<longleftrightarrow> length (o_buf a) = o_len a \<and> o_off a \<le> o_len a"

lemma oarc_ok_new [simp]:
  "oarc_ok (oarchive_new fill)" "oarc_ok (oarchive_vector vec)" "oarc_ok oarchive_stream"
  by (simp_all add: oarc_ok_def oarchive_new_def oarchive_vector_def oarchive_stream_def)

lemma oarc_contents_new [simp]:
  "oarc_contents (oarchive_new fill) = []" "oarc_contents (oarchive_vector vec) = []"
  "oarc_contents oarchive_stream = []"
  by (simp_all add: oarc_contents_def oarchive_new_def oarchive_vector_def oarchive_stream_def)

lemma expand_buf_ok: "oarc_ok a \<Longrightarrow> oarc_ok (expand_buf s a)"
  by (auto simp: expand_buf_def oarc_ok_def Let_def)

lemma expand_buf_room:
  "oarc_ok a \<Longrightarrow> o_off (expand_buf s a) + s \<le> length (o_buf (expand_buf s a))"
  by (auto simp: expand_buf_def oarc_ok_def Let_def)

lemma expand_buf_frame [simp]:
  "o_off (expand_buf s a) = o_off a" "o_out (expand_buf s a) = o_out a"
  by (simp_all add: expand_buf_def Let_def)

lemma expand_buf_prefix: "oarc_ok a \<Longrightarrow> take (o_off a) (o_buf (expand_buf s a)) = take (o_off a) (o_buf a)"
  by (auto simp: expand_buf_def oarc_ok_def Let_def)

lemma direct_assign_write: "direct_assign t a = oarc_write t a"
  by (simp add: direct_assign_def oarc_write_def)

lemma oarc_write_ok: "oarc_ok a \<Longrightarrow> oarc_ok (oarc_write c a)"
  using expand_buf_ok [of a "length c"] expand_buf_room [of a "length c"]
  by (auto simp: oarc_write_def oarc_ok_def Let_def split: option.splits)

lemma oarc_contents_write: "oarc_ok a \<Longrightarrow> oarc_contents (oarc_write c a) = oarc_contents a @ c"
  using expand_buf_room [of a "length c"] expand_buf_prefix [of a "length c"]
  by (auto simp: oarc_write_def oarc_contents_def Let_def split: option.splits)

lemma oarc_off_write:
  "o_out a = None \<Longrightarrow> o_out (oarc_write c a) = None \<and> o_off (oarc_write c a) = o_off a + length c"
  by (simp add: oarc_write_def Let_def)

text \<open>
  The interface of a byte sink: writing appends to the contents and keeps the invariant. The
  client lemma covers every sequence of writes, which is how each encoder uses the archive.
\<close>

locale byte_sink =
  fixes emit :: "bytes \<Rightarrow> 'a \<Rightarrow> 'a"
    and contents :: "'a \<Rightarrow> bytes"
    and ok :: "'a \<Rightarrow> bool"
  assumes contents_emit: "ok a \<Longrightarrow> contents (emit bs a) = contents a @ bs"
    and ok_emit: "ok a \<Longrightarrow> ok (emit bs a)"
begin

lemma ok_fold: "ok a \<Longrightarrow> ok (fold emit bss a)"
  by (induction bss arbitrary: a) (auto simp: ok_emit)

lemma contents_fold: "ok a \<Longrightarrow> contents (fold emit bss a) = contents a @ concat bss"
  by (induction bss arbitrary: a) (auto simp: contents_emit ok_emit)

end

interpretation osink: byte_sink oarc_write oarc_contents oarc_ok
  by unfold_locales (simp_all add: oarc_contents_write oarc_write_ok)

interpretation oassign: byte_sink direct_assign oarc_contents oarc_ok
  by unfold_locales (simp_all add: direct_assign_write oarc_contents_write oarc_write_ok)

declare osink.contents_emit [codec] osink.ok_emit [codec]
  oassign.contents_emit [codec] oassign.ok_emit [codec]

section \<open>Input archives\<close>

record iarchive =
  i_buf :: bytes
  i_off :: nat
  i_len :: nat

definition iarchive_new :: "bytes \<Rightarrow> nat \<Rightarrow> iarchive" where
  "iarchive_new buf len = \<lparr>i_buf = buf, i_off = 0, i_len = len\<rparr>"

definition iarc_read :: "nat \<Rightarrow> iarchive \<Rightarrow> (bytes \<times> iarchive) option" where
  "iarc_read l a =
     (if l \<le> length (i_buf a) - i_off a
      then Some (take l (drop (i_off a) (i_buf a)), a\<lparr>i_off := i_off a + l\<rparr>)
      else None)"

definition read_char :: "iarchive \<Rightarrow> (u8 \<times> iarchive) option" where
  "read_char a =
     (if i_off a < length (i_buf a)
      then Some (i_buf a ! i_off a, a\<lparr>i_off := i_off a + 1\<rparr>)
      else None)"

text \<open>\<open>read_into\<close> and \<open>operator>>\<close> on a plain integer of \<open>n\<close> bytes.\<close>

definition read_into :: "nat \<Rightarrow> iarchive \<Rightarrow> ('a::len word \<times> iarchive) option" where
  "read_into n a = do { (bs, a) \<leftarrow> iarc_read n a; Some (le_word bs, a) }"

definition iarc_fail :: "iarchive \<Rightarrow> bool" where
  "iarc_fail a \<longleftrightarrow> i_len a < i_off a"

definition iarc_rest :: "iarchive \<Rightarrow> bytes" where
  "iarc_rest a = drop (i_off a) (i_buf a)"

definition iarc_skip :: "nat \<Rightarrow> iarchive \<Rightarrow> iarchive" where
  "iarc_skip n a = a\<lparr>i_off := i_off a + n\<rparr>"

lemma iarc_rest_new [simp]: "iarc_rest (iarchive_new buf len) = buf"
  by (simp add: iarc_rest_def iarchive_new_def)

lemma iarc_rest_skip: "iarc_rest (iarc_skip n a) = drop n (iarc_rest a)"
  by (simp add: iarc_rest_def iarc_skip_def add.commute)

lemma iarc_skip_skip: "iarc_skip n (iarc_skip m a) = iarc_skip (m + n) a"
  by (simp add: iarc_skip_def add.assoc)

lemma iarc_skip_0: "iarc_skip 0 a = a"
  by (simp add: iarc_skip_def)

lemma iarc_read_skip:
  "iarc_rest a = bs @ r \<Longrightarrow> length bs = l \<Longrightarrow> iarc_read l a = Some (bs, iarc_skip l a)"
proof -
  assume rest: "iarc_rest a = bs @ r" and l: "length bs = l"
  have "length (i_buf a) - i_off a = l + length r"
    using arg_cong [OF rest, of length] l by (simp add: iarc_rest_def)
  then show ?thesis
    using rest l by (simp add: iarc_read_def iarc_skip_def iarc_rest_def)
qed

lemma iarc_read_overrun: "length (iarc_rest a) < l \<Longrightarrow> iarc_read l a = None"
  by (simp add: iarc_read_def iarc_rest_def)

text \<open>
  The interface of a byte source: a read returns the next bytes and moves past them, and fails
  when they are not there. The client lemma reads a sequence of adjacent fields.
\<close>

locale byte_source =
  fixes fetch :: "nat \<Rightarrow> 'a \<Rightarrow> (bytes \<times> 'a) option"
    and skip :: "nat \<Rightarrow> 'a \<Rightarrow> 'a"
    and rest :: "'a \<Rightarrow> bytes"
  assumes fetch: "rest a = bs @ r \<Longrightarrow> length bs = l \<Longrightarrow> fetch l a = Some (bs, skip l a)"
    and fetch_overrun: "length (rest a) < l \<Longrightarrow> fetch l a = None"
    and rest_skip: "rest (skip n a) = drop n (rest a)"
    and skip_skip: "skip n (skip m a) = skip (m + n) a"
    and skip_0: "skip 0 a = a"
begin

fun fetch_fields :: "nat list \<Rightarrow> 'a \<Rightarrow> (bytes list \<times> 'a) option" where
  "fetch_fields [] a = Some ([], a)"
| "fetch_fields (l # ls) a =
     do { (bs, a) \<leftarrow> fetch l a; (bss, a) \<leftarrow> fetch_fields ls a; Some (bs # bss, a) }"

lemma fetch_fields_concat:
  "rest a = concat bss @ r \<Longrightarrow>
   fetch_fields (map length bss) a = Some (bss, skip (length (concat bss)) a)"
proof (induction bss arbitrary: a)
  case Nil
  then show ?case by (simp add: skip_0)
next
  case (Cons bs bss)
  have read: "fetch (length bs) a = Some (bs, skip (length bs) a)"
    using Cons.prems by (intro fetch [where r = "concat bss @ r"]) simp_all
  have "rest (skip (length bs) a) = concat bss @ r"
    using Cons.prems by (simp add: rest_skip)
  from Cons.IH [OF this] read show ?case
    by (simp add: skip_skip)
qed

lemma fetch_None_iff: "fetch l a = None \<longleftrightarrow> length (rest a) < l"
proof (cases "length (rest a) < l")
  case True
  then show ?thesis by (simp add: fetch_overrun)
next
  case False
  have "fetch l a = Some (take l (rest a), skip l a)"
    using False by (intro fetch [where r = "drop l (rest a)"]) simp_all
  with False show ?thesis by simp
qed

end

interpretation isource: byte_source iarc_read iarc_skip iarc_rest
  by unfold_locales
    (simp_all add: iarc_read_skip iarc_read_overrun iarc_rest_skip iarc_skip_skip iarc_skip_0)

declare iarc_rest_skip [simp, codec] iarc_skip_skip [simp, codec] iarc_skip_0 [simp, codec]

lemma read_into_skip [codec]:
  "iarc_rest a = bs @ r \<Longrightarrow> length bs = l \<Longrightarrow> read_into l a = Some (le_word bs, iarc_skip l a)"
  by (simp add: read_into_def iarc_read_skip)

lemma read_char_skip:
  "iarc_rest a = b # r \<Longrightarrow> read_char a = Some (b, iarc_skip 1 a)"
proof -
  assume rest: "iarc_rest a = b # r"
  then have "i_off a < length (i_buf a)"
    by (metis drop_all iarc_rest_def list.distinct(1) not_less)
  with rest show ?thesis
    by (simp add: read_char_def iarc_skip_def iarc_rest_def nth_via_drop)
qed

end
