(* ===== verification/Bitops.thy ===== *)
theory Bitops
  imports Prelude
begin

text \<open>
  The bit utilities of \<open>graphlab/util/bitops.hpp\<close>, over words of any width: the templates are
  enabled for the unsigned integer types. The compiler builtins (\<open>__builtin_popcount\<close>,
  \<open>__builtin_ctz\<close>, \<open>__builtin_clz\<close> and their wider forms) count over the bits of the word. The
  lemmas characterise the counts by the positions of the bits, and the rounded logarithms by
  powers of two.
\<close>

section \<open>Definitions\<close>

definition is_power_of_2 :: "'a::len word \<Rightarrow> bool" where
  "is_power_of_2 x \<longleftrightarrow> x AND (x - 1) = 0"

definition bit_on :: "'a::len word \<Rightarrow> nat \<Rightarrow> bool" where
  "bit_on x b \<longleftrightarrow> x AND push_bit b 1 \<noteq> 0"

definition bit_off :: "'a::len word \<Rightarrow> nat \<Rightarrow> bool" where
  "bit_off x b \<longleftrightarrow> x AND push_bit b 1 = 0"

definition set_bit_off :: "'a::len word \<Rightarrow> nat \<Rightarrow> 'a word" where
  "set_bit_off x b = x AND NOT (push_bit b 1)"

definition set_bit_on :: "'a::len word \<Rightarrow> nat \<Rightarrow> 'a word" where
  "set_bit_on x b = x OR push_bit b 1"

definition flip_bit_at :: "'a::len word \<Rightarrow> nat \<Rightarrow> 'a word" where
  "flip_bit_at x b = x XOR push_bit b 1"

definition bit_mask :: "nat \<Rightarrow> 'a::len word" where
  "bit_mask n_bits = push_bit n_bits 1 - 1"

definition bit_mask_range :: "nat \<Rightarrow> nat \<Rightarrow> 'a::len word" where
  "bit_mask_range index_begin index_end = bit_mask index_begin XOR bit_mask index_end"

definition num_bits_on :: "'a::len word \<Rightarrow> nat" where
  "num_bits_on v = length (filter (bit v) [0..<LENGTH('a)])"

definition n_trailing_zeros :: "'a::len word \<Rightarrow> nat" where
  "n_trailing_zeros v =
     (if v = 0 then LENGTH('a) else length (takeWhile (\<lambda>i. \<not> bit v i) [0..<LENGTH('a)]))"

definition n_trailing_ones :: "'a::len word \<Rightarrow> nat" where
  "n_trailing_ones v = n_trailing_zeros (NOT v)"

definition index_first_on_bit :: "'a::len word \<Rightarrow> nat" where
  "index_first_on_bit v = n_trailing_zeros v"

definition n_leading_zeros :: "'a::len word \<Rightarrow> nat" where
  "n_leading_zeros v =
     (if v = 0 then LENGTH('a) else length (takeWhile (\<lambda>i. \<not> bit v i) (rev [0..<LENGTH('a)])))"

definition n_leading_ones :: "'a::len word \<Rightarrow> nat" where
  "n_leading_ones v = n_leading_zeros (NOT v)"

text \<open>
  \<open>((!v) - 1) & e\<close> is \<open>0\<close> for \<open>v = 0\<close> and \<open>e\<close> otherwise: \<open>(!v) - 1\<close> is the \<open>int\<close> \<open>0\<close> or \<open>-1\<close>.
\<close>

definition index_last_on_bit :: "'a::len word \<Rightarrow> nat" where
  "index_last_on_bit v = LENGTH('a) - (if v = 0 then 0 else 1 + n_leading_zeros v)"

definition bitwise_log2_ceil :: "'a::len word \<Rightarrow> nat" where
  "bitwise_log2_ceil v =
     (if v = 0 then 0 else index_last_on_bit v + (if is_power_of_2 v then 0 else 1))"

definition bitwise_log2_floor :: "'a::len word \<Rightarrow> nat" where
  "bitwise_log2_floor v = (if v = 0 then 0 else index_last_on_bit v)"

definition bitwise_pow2_mod :: "'a::len word \<Rightarrow> nat \<Rightarrow> 'a word" where
  "bitwise_pow2_mod v pow2_idx = ((if pow2_idx \<noteq> 0 then 1 else 0) * bit_mask pow2_idx) AND v"

definition first_n_bits_on :: "'a::len word \<Rightarrow> nat \<Rightarrow> bool" where
  "first_n_bits_on v top_bit \<longleftrightarrow> v AND bit_mask top_bit = bit_mask top_bit"

section \<open>Single bits and masks\<close>

lemma and_exp_eq: "x AND 2 ^ b = (if bit x b then 2 ^ b else 0)" for x :: "'a::len word"
  by (rule bit_word_eqI) (auto simp: bit_simps)

lemma bit_on_iff: "bit_on x b \<longleftrightarrow> bit x b"
  by (auto simp: bit_on_def and_exp_eq dest: bit_imp_le_length)

lemma bit_off_iff: "bit_off x b \<longleftrightarrow> \<not> bit_on x b"
  by (simp add: bit_off_def bit_on_def)

lemma bit_set_bit_on: "bit (set_bit_on x b) i \<longleftrightarrow> bit x i \<or> (i = b \<and> i < LENGTH('a))"
  for x :: "'a::len word"
  by (auto simp: set_bit_on_def bit_simps)

lemma bit_set_bit_off: "bit (set_bit_off x b) i \<longleftrightarrow> bit x i \<and> i \<noteq> b"
  for x :: "'a::len word"
  by (auto simp: set_bit_off_def bit_simps dest: bit_imp_le_length)

lemma bit_flip_bit_at: "bit (flip_bit_at x b) i \<longleftrightarrow> (bit x i \<noteq> (i = b \<and> i < LENGTH('a)))"
  for x :: "'a::len word"
  by (auto simp: flip_bit_at_def bit_simps)

lemma bit_mask_mask: "bit_mask n = (mask n :: 'a::len word)"
  by (simp add: bit_mask_def mask_eq_exp_minus_1 push_bit_eq_mult)

lemma bit_bit_mask_range:
  "b \<le> e \<Longrightarrow> bit (bit_mask_range b e :: 'a::len word) i \<longleftrightarrow> b \<le> i \<and> i < e \<and> i < LENGTH('a)"
  by (auto simp: bit_mask_range_def bit_mask_mask bit_simps)

lemma bitwise_pow2_mod_eq: "bitwise_pow2_mod v n = take_bit n v"
  by (cases "n = 0") (simp_all add: bitwise_pow2_mod_def bit_mask_mask take_bit_eq_mask and.commute)

lemma first_n_bits_on_iff:
  "n \<le> LENGTH('a) \<Longrightarrow> first_n_bits_on (v :: 'a::len word) n \<longleftrightarrow> (\<forall>i < n. bit v i)"
  unfolding first_n_bits_on_def bit_mask_mask bit_eq_iff
  by (auto simp: bit_simps) (metis less_le_trans)

section \<open>Counting bits\<close>

lemma num_bits_on_card: "num_bits_on v = card {i. bit v i}" for v :: "'a::len word"
proof -
  have "{i. bit v i} = set (filter (bit v) [0..<LENGTH('a)])"
    by (auto dest: bit_imp_le_length)
  then show ?thesis
    by (metis num_bits_on_def distinct_card distinct_filter distinct_upt)
qed

lemma finite_bits [simp]: "finite {i. bit v i}" for v :: "'a::len word"
  by (rule finite_subset [of _ "{..<LENGTH('a)}"]) (auto dest: bit_imp_le_length)

lemma takeWhile_nth_first:
  assumes "x \<in> set xs" and "\<not> P x"
  shows "length (takeWhile P xs) < length xs" "\<not> P (xs ! length (takeWhile P xs))"
proof -
  show less: "length (takeWhile P xs) < length xs"
    using assms by (metis length_takeWhile_le nat_less_le takeWhile_eq_all_conv takeWhile_eq_take take_all)
  then show "\<not> P (xs ! length (takeWhile P xs))"
    by (rule nth_length_takeWhile)
qed

lemma n_trailing_zeros_bits:
  fixes v :: "'a::len word"
  assumes "v \<noteq> 0"
  shows "n_trailing_zeros v < LENGTH('a)" "bit v (n_trailing_zeros v)"
    and "j < n_trailing_zeros v \<Longrightarrow> \<not> bit v j"
proof -
  let ?P = "\<lambda>i. \<not> bit v i" and ?xs = "[0..<LENGTH('a)]"
  from assms obtain i where i: "bit v i" by (auto simp: bit_eq_iff)
  then have "i \<in> set ?xs" by (auto dest: bit_imp_le_length)
  with i have *: "length (takeWhile ?P ?xs) < LENGTH('a)" "bit v (?xs ! length (takeWhile ?P ?xs))"
    using takeWhile_nth_first [of i ?xs ?P] by simp_all
  then show "n_trailing_zeros v < LENGTH('a)" "bit v (n_trailing_zeros v)"
    using assms by (simp_all add: n_trailing_zeros_def)
  show "\<not> bit v j" if "j < n_trailing_zeros v"
    using that assms * takeWhile_nth [of j ?P ?xs] nth_mem [of j "takeWhile ?P ?xs"]
    by (auto simp: n_trailing_zeros_def dest!: set_takeWhileD)
qed

lemma n_trailing_zeros_Least: "v \<noteq> 0 \<Longrightarrow> n_trailing_zeros v = (LEAST i. bit v i)"
  for v :: "'a::len word"
  by (rule Least_equality [symmetric]) (use n_trailing_zeros_bits in \<open>auto simp: not_less [symmetric]\<close>)

lemma n_leading_zeros_bits:
  fixes v :: "'a::len word"
  assumes "v \<noteq> 0"
  shows "n_leading_zeros v < LENGTH('a)" "bit v (LENGTH('a) - 1 - n_leading_zeros v)"
    and "bit v j \<Longrightarrow> j \<le> LENGTH('a) - 1 - n_leading_zeros v"
proof -
  let ?P = "\<lambda>i. \<not> bit v i" and ?xs = "rev [0..<LENGTH('a)]"
  from assms obtain i where i: "bit v i" by (auto simp: bit_eq_iff)
  then have "i \<in> set ?xs" by (auto dest: bit_imp_le_length)
  with i have *: "length (takeWhile ?P ?xs) < LENGTH('a)" "bit v (?xs ! length (takeWhile ?P ?xs))"
    using takeWhile_nth_first [of i ?xs ?P] by simp_all
  then show "n_leading_zeros v < LENGTH('a)" "bit v (LENGTH('a) - 1 - n_leading_zeros v)"
    using assms by (simp_all add: n_leading_zeros_def rev_nth)
  show "j \<le> LENGTH('a) - 1 - n_leading_zeros v" if j: "bit v j"
  proof (rule ccontr)
    assume "\<not> ?thesis"
    then have k: "LENGTH('a) - 1 - j < length (takeWhile ?P ?xs)"
      using bit_imp_le_length [OF j] assms by (simp add: n_leading_zeros_def)
    have "takeWhile ?P ?xs ! (LENGTH('a) - 1 - j) = j"
      using bit_imp_le_length [OF j] by (subst takeWhile_nth [OF k]) (simp add: rev_nth)
    with nth_mem [OF k] have "?P j" by (metis (mono_tags, lifting) set_takeWhileD)
    with j show False by simp
  qed
qed

lemma index_last_on_bit_bits:
  fixes v :: "'a::len word"
  assumes "v \<noteq> 0"
  shows "bit v (index_last_on_bit v)" and "bit v j \<Longrightarrow> j \<le> index_last_on_bit v"
  using assms n_leading_zeros_bits [of v] by (simp_all add: index_last_on_bit_def)

text \<open>The number of significant bits bounds the value.\<close>

lemma unat_less_significant:
  "unat v < 2 ^ (LENGTH('a) - n_leading_zeros v)" for v :: "'a::len word"
proof (cases "v = 0")
  case False
  have "take_bit (LENGTH('a) - n_leading_zeros v) v = v"
    using n_leading_zeros_bits [OF False]
    by (intro bit_word_eqI) (fastforce simp: bit_simps)
  then show ?thesis
    by (metis unsigned_take_bit_eq take_bit_nat_less_exp)
qed (simp add: n_leading_zeros_def)

lemma significant_le:
  fixes v :: "'a::len word"
  assumes "unat v < 2 ^ n"
  shows "LENGTH('a) - n_leading_zeros v \<le> n"
proof (cases "v = 0")
  case False
  let ?k = "LENGTH('a) - 1 - n_leading_zeros v"
  have "bit (unat v) ?k"
    using n_leading_zeros_bits(2) [OF False] by (simp add: bit_unsigned_iff)
  then have "?k < n"
    using assms by (metis bit_take_bit_iff take_bit_nat_eq_self)
  then show ?thesis
    using n_leading_zeros_bits(1) [OF False] by linarith
qed (simp add: n_leading_zeros_def)

section \<open>Powers of two and logarithms\<close>

text \<open>Subtracting one clears the lowest set bit and sets the bits below it.\<close>

lemma minus_1_lowest:
  fixes x :: "'a::len word"
  assumes "x \<noteq> 0"
  shows "x - 1 = (x AND NOT (2 ^ n_trailing_zeros x)) OR mask (n_trailing_zeros x)"
proof -
  let ?t = "n_trailing_zeros x" and ?y = "x AND NOT (2 ^ n_trailing_zeros x)"
  note t = n_trailing_zeros_bits [OF assms]
  have "?y AND 2 ^ ?t = 0" and disj: "?y AND mask ?t = 0"
    using t by (auto simp: bit_eq_iff bit_simps)
  then have "?y + 2 ^ ?t = ?y OR 2 ^ ?t" and or: "?y + mask ?t = ?y OR mask ?t"
    by (simp_all add: disjunctive_add_eq_or)
  moreover have "?y OR 2 ^ ?t = x"
    using t by (intro bit_word_eqI) (auto simp: bit_simps)
  ultimately have "x = ?y + 2 ^ ?t" by simp
  then have "x - 1 = ?y + mask ?t"
    by (simp add: mask_eq_exp_minus_1)
  then show ?thesis using or by simp
qed

lemma clear_lowest:
  fixes x :: "'a::len word"
  assumes "x \<noteq> 0"
  shows "{i. bit (x AND (x - 1)) i} = {i. bit x i} - {n_trailing_zeros x}"
proof -
  have "bit (x AND (x - 1)) i \<longleftrightarrow> bit x i \<and> i \<noteq> n_trailing_zeros x" for i
    using n_trailing_zeros_bits(3) [OF assms, of i] bit_imp_le_length [of x i]
    by (auto simp: minus_1_lowest [OF assms] bit_simps)
  then show ?thesis by auto
qed

lemma bits_empty_iff: "{i. bit v i} = {} \<longleftrightarrow> v = 0" for v :: "'a::len word"
  using bit_imp_le_length [of v] by (auto simp: bit_eq_iff)

lemma is_power_of_2_iff_num_bits: "is_power_of_2 x \<longleftrightarrow> num_bits_on x \<le> 1"
proof (cases "x = 0")
  case False
  note t = n_trailing_zeros_bits(2) [OF False]
  have "is_power_of_2 x \<longleftrightarrow> card ({i. bit x i} - {n_trailing_zeros x}) = 0"
    using clear_lowest [OF False] bits_empty_iff [of "x AND (x - 1)"]
    by (simp add: is_power_of_2_def)
  also have "\<dots> \<longleftrightarrow> num_bits_on x \<le> 1"
    using t by (simp add: num_bits_on_card del: card_0_eq)
  finally show ?thesis .
qed (simp add: is_power_of_2_def num_bits_on_card)

lemma unat_ge_highest:
  fixes v :: "'a::len word"
  assumes "v \<noteq> 0"
  shows "2 ^ index_last_on_bit v \<le> unat v"
proof -
  have "bit (unat v) (index_last_on_bit v)"
    using index_last_on_bit_bits(1) [OF assms] by (simp add: bit_unsigned_iff)
  then show ?thesis
    by (metis bit_take_bit_iff less_irrefl not_le take_bit_nat_eq_self)
qed

lemma unat_less_Suc_highest:
  fixes v :: "'a::len word"
  assumes "v \<noteq> 0"
  shows "unat v < 2 ^ (index_last_on_bit v + 1)"
  using unat_less_significant [of v] n_leading_zeros_bits(1) [OF assms] assms
  by (simp add: index_last_on_bit_def Suc_diff_Suc)

lemma unat_exp: "k < LENGTH('a) \<Longrightarrow> unat (2 ^ k :: 'a::len word) = 2 ^ k"
  using unat_of_nat [of "2 ^ k", where ?'a = 'a] by (simp add: take_bit_eq_mod)

lemma card_le_1_member: "finite A \<Longrightarrow> k \<in> A \<Longrightarrow> card A \<le> 1 \<longleftrightarrow> A = {k}"
  by (auto simp: card_le_Suc0_iff_eq)

lemma power_of_2_highest:
  fixes v :: "'a::len word"
  assumes "v \<noteq> 0"
  shows "is_power_of_2 v \<longleftrightarrow> unat v = 2 ^ index_last_on_bit v"
proof -
  let ?k = "index_last_on_bit v"
  note k = index_last_on_bit_bits [OF assms]
  have len: "?k < LENGTH('a)" using k(1) by (rule bit_imp_le_length)
  have "is_power_of_2 v \<longleftrightarrow> {i. bit v i} = {?k}"
    using k(1) card_le_1_member [of "{i. bit v i}" ?k]
    by (simp add: is_power_of_2_iff_num_bits num_bits_on_card)
  also have "\<dots> \<longleftrightarrow> v = 2 ^ ?k"
  proof
    assume "{i. bit v i} = {?k}"
    then show "v = 2 ^ ?k" using len by (intro bit_word_eqI) (auto simp: bit_simps)
  next
    assume "v = 2 ^ ?k"
    then have "bit v i \<longleftrightarrow> i = ?k" for i using len by (metis bit_exp_iff possible_bit_word)
    then show "{i. bit v i} = {?k}" by simp
  qed
  also have "\<dots> \<longleftrightarrow> unat v = 2 ^ ?k"
    using unat_exp [OF len] by (metis word_unat_eq_iff)
  finally show ?thesis .
qed

section \<open>Rounded logarithms\<close>

text \<open>
  The two logarithms round as their names say: for a non-zero value, \<open>bitwise_log2_floor\<close> is
  the exponent of the largest power of two that is not above it, and \<open>bitwise_log2_ceil\<close> the
  exponent of the smallest one that is not below it.
\<close>

theorem bitwise_log2_bounds:
  fixes v :: "'a::len word"
  assumes "v \<noteq> 0"
  shows "2 ^ bitwise_log2_floor v \<le> unat v \<and> unat v < 2 ^ (bitwise_log2_floor v + 1)
    \<and> unat v \<le> 2 ^ bitwise_log2_ceil v
    \<and> (bitwise_log2_ceil v = 0 \<or> 2 ^ (bitwise_log2_ceil v - 1) < unat v)"
proof (cases "is_power_of_2 v")
  case True
  then have "unat v = 2 ^ index_last_on_bit v" using power_of_2_highest [OF assms] by simp
  then show ?thesis
    using assms True by (cases "index_last_on_bit v") (simp_all add: bitwise_log2_floor_def bitwise_log2_ceil_def)
next
  case False
  then have "unat v \<noteq> 2 ^ index_last_on_bit v" using power_of_2_highest [OF assms] by simp
  with unat_ge_highest [OF assms] have "2 ^ index_last_on_bit v < unat v" by simp
  moreover note unat_less_Suc_highest [OF assms]
  moreover have "bitwise_log2_floor v = index_last_on_bit v" "bitwise_log2_ceil v = index_last_on_bit v + 1"
    using assms False by (simp_all add: bitwise_log2_floor_def bitwise_log2_ceil_def)
  ultimately show ?thesis by simp
qed

theorem bitwise_log2_bounds_witness:
  "(77 :: u32) \<noteq> 0 \<and> 2 ^ bitwise_log2_floor (77 :: u32) \<le> unat (77 :: u32)
   \<and> unat (77 :: u32) \<le> 2 ^ bitwise_log2_ceil (77 :: u32)"
proof -
  have "(77 :: u32) \<noteq> 0" by simp
  then show ?thesis using bitwise_log2_bounds [of "77 :: u32"] by blast
qed

end
