(* ===== verification/Integer_Pack.thy ===== *)
theory Integer_Pack
  imports Archive Bitops
begin

text \<open>
  The integer codecs of \<open>sframe/integer_pack.hpp\<close> and \<open>sframe/integer_pack_impl.hpp\<close>: the byte
  aligned variable length code, the sign folding of 64-bit integers, the bit packers written as
  Duff's devices, and the frame-of-reference code for groups of up to 128 integers. An encoder
  takes and returns the output archive; a decoder returns the value and the archive after it.
  \<open>None\<close> is a failed assertion or a read of memory the code does not own.
\<close>

section \<open>Variable length code\<close>

definition variable_encode :: "u64 \<Rightarrow> oarchive \<Rightarrow> oarchive" where
  "variable_encode s oarc =
     (if drop_bit (8 - 1) s = 0 then
        let trunc_s = (ucast (push_bit 1 s) :: u8) in direct_assign (le_bytes 1 trunc_s) oarc
      else if drop_bit (16 - 2) s = 0 then
        let trunc_s = (ucast s :: u16) in direct_assign (le_bytes 2 (push_bit 2 trunc_s OR 1)) oarc
      else if drop_bit (24 - 3) s = 0 then
        let trunc_s = (ucast s :: u32) in oarc_write (le_bytes 3 (push_bit 3 trunc_s OR 3)) oarc
      else if drop_bit (32 - 4) s = 0 then
        let trunc_s = (ucast s :: u32) in direct_assign (le_bytes 4 (push_bit 4 trunc_s OR 7)) oarc
      else if drop_bit (40 - 5) s = 0 then
        oarc_write (le_bytes 5 (push_bit 5 s OR 15)) oarc
      else if drop_bit (48 - 6) s = 0 then
        oarc_write (le_bytes 6 (push_bit 6 s OR 31)) oarc
      else if drop_bit (56 - 7) s = 0 then
        oarc_write (le_bytes 7 (push_bit 7 s OR 63)) oarc
      else
        let c = (127 :: u8) in direct_assign (le_bytes 8 s) (direct_assign (le_bytes 1 c) oarc))"

text \<open>The union of \<open>intval\<close> and \<open>chars\<close> is the word whose memory image starts with the bytes read.\<close>

definition variable_decode :: "iarchive \<Rightarrow> (u64 \<times> iarchive) option" where
  "variable_decode iarc = do {
     (c, iarc) \<leftarrow> iarc_read 1 iarc;
     let intval = (le_word c :: u64) in
     if intval AND 1 = 0 then Some (drop_bit 1 intval, iarc)
     else if intval AND 3 = 1 then
       do { (d, iarc) \<leftarrow> iarc_read 1 iarc; Some (drop_bit 2 (le_word (c @ d)), iarc) }
     else if intval AND 7 = 3 then
       do { (d, iarc) \<leftarrow> iarc_read 2 iarc; Some (drop_bit 3 (le_word (c @ d)), iarc) }
     else if intval AND 15 = 7 then
       do { (d, iarc) \<leftarrow> iarc_read 3 iarc; Some (drop_bit 4 (le_word (c @ d)), iarc) }
     else if intval AND 31 = 15 then
       do { (d, iarc) \<leftarrow> iarc_read 4 iarc; Some (drop_bit 5 (le_word (c @ d)), iarc) }
     else if intval AND 63 = 31 then
       do { (d, iarc) \<leftarrow> iarc_read 5 iarc; Some (drop_bit 6 (le_word (c @ d)), iarc) }
     else if intval AND 127 = 63 then
       do { (d, iarc) \<leftarrow> iarc_read 6 iarc; Some (drop_bit 7 (le_word (c @ d)), iarc) }
     else
       do { (d, iarc) \<leftarrow> iarc_read 8 iarc; Some (le_word d, iarc) }
   }"

section \<open>Sign folding\<close>

text \<open>
  Signed 64-bit values are words; \<open>>>\<close> on them is the arithmetic shift. The sums of the source
  are signed: where they overflow (\<open>val = INT64_MIN\<close>) the model wraps, as the compiled code does.
\<close>

definition shifted_integer_encode :: "u64 \<Rightarrow> u64" where
  "shifted_integer_encode val =
     (let sign = signed_drop_bit 63 val;
          absval = (val + sign) XOR sign
      in push_bit 1 absval + sign)"

definition shifted_integer_decode :: "u64 \<Rightarrow> u64" where
  "shifted_integer_decode val =
     (let sign = - (val AND 1);
          absval = drop_bit 1 val - sign
      in (absval + sign) XOR sign)"

section \<open>Bit packing\<close>

text \<open>
  \<open>pack_1\<close>, \<open>pack_2\<close> and \<open>pack_4\<close> are Duff's devices: a \<open>switch\<close> jumps into an unrolled
  loop of eight labelled statements. The label \<open>j\<close> counts down from 8 (the source's \<open>case 0\<close>)
  to 1; at label \<open>j\<close> the next value is shifted by \<open>sh j\<close> into \<open>c\<close>, and where \<open>em j\<close> holds the
  byte is complete and is written. \<open>n\<close> is the number of passes left. Reading past \<open>src\<close> is \<open>None\<close>.
\<close>

fun duff_pack :: "(nat \<Rightarrow> nat) \<Rightarrow> (nat \<Rightarrow> bool) \<Rightarrow> nat \<Rightarrow> nat \<Rightarrow> u64 list \<Rightarrow> u8 \<Rightarrow> bytes option" where
  "duff_pack sh em j n [] c = None"
| "duff_pack sh em j n (v # src) c =
     (let c = c OR ucast (push_bit (sh j) v);
          next = (\<lambda>c. if j \<le> 1 then (if 0 < n - 1 then duff_pack sh em 8 (n - 1) src c else Some [])
                      else duff_pack sh em (j - 1) n src c)
      in if em j then map_option (Cons c) (next 0) else next c)"

text \<open>
  The unpackers run the same labels: a value is the low \<open>w\<close> bits of \<open>c\<close>, and after a label
  with \<open>em j\<close> the next byte is loaded, unless the last pass is over.
\<close>

function duff_unpack ::
  "(nat \<Rightarrow> bool) \<Rightarrow> nat \<Rightarrow> nat \<Rightarrow> nat \<Rightarrow> u8 \<Rightarrow> bytes \<Rightarrow> u64 list option" where
  "duff_unpack em w j n c src =
     (let v = ucast (c AND mask w); c = drop_bit w c in
      map_option (Cons v)
       (if j \<le> 1 then
          (if 0 < n - 1 then
             (case src of [] \<Rightarrow> None | c # src \<Rightarrow> duff_unpack em w 8 (n - 1) c src)
           else Some [])
        else if em j then
          (case src of [] \<Rightarrow> None | c # src \<Rightarrow> duff_unpack em w (j - 1) n c src)
        else duff_unpack em w (j - 1) n c src))"
  by pat_completeness auto
termination
  by (relation "measures [\<lambda>(em, w, j, n, c, src). n, \<lambda>(em, w, j, n, c, src). j]") auto

declare duff_unpack.simps [simp del]

text \<open>The label \<open>switch (srclen % 8)\<close> jumps to.\<close>

definition duff_label :: "nat \<Rightarrow> nat" where
  "duff_label srclen = (if srclen mod 8 = 0 then 8 else srclen mod 8)"

definition pack_1 :: "u64 list \<Rightarrow> bytes option" where
  "pack_1 src =
     duff_pack (\<lambda>j. 8 - j) (\<lambda>j. j = 1) (duff_label (length src)) ((length src + 7) div 8) src 0"

definition pack_2 :: "u64 list \<Rightarrow> bytes option" where
  "pack_2 src =
     duff_pack (\<lambda>j. 2 * ((8 - j) mod 4)) (\<lambda>j. j \<in> {5, 1})
       (duff_label (length src)) ((length src + 7) div 8) src 0"

definition pack_4 :: "u64 list \<Rightarrow> bytes option" where
  "pack_4 src =
     duff_pack (\<lambda>j. 4 * ((8 - j) mod 2)) (\<lambda>j. j \<in> {7, 5, 3, 1})
       (duff_label (length src)) ((length src + 7) div 8) src 0"

definition pack_8 :: "u64 list \<Rightarrow> bytes" where
  "pack_8 src = concat (map (\<lambda>v. le_bytes 1 (ucast v :: u8)) src)"

definition pack_16 :: "u64 list \<Rightarrow> bytes" where
  "pack_16 src = concat (map (\<lambda>v. le_bytes 2 (ucast v :: u16)) src)"

definition pack_32 :: "u64 list \<Rightarrow> bytes" where
  "pack_32 src = concat (map (\<lambda>v. le_bytes 4 (ucast v :: u32)) src)"

text \<open>
  With \<open>nout_values = 0\<close> the loop counter of the source wraps around and the device runs off
  both buffers: \<open>None\<close>.
\<close>

definition unpack_1 :: "bytes \<Rightarrow> nat \<Rightarrow> u64 list option" where
  "unpack_1 src nout =
     (case src of
        [] \<Rightarrow> None
      | c # src \<Rightarrow>
          if nout = 0 then None
          else duff_unpack (\<lambda>j. j = 1) 1 (duff_label nout) ((nout + 7) div 8)
                 (drop_bit ((8 - nout mod 8) mod 8) c) src)"

definition unpack_2 :: "bytes \<Rightarrow> nat \<Rightarrow> u64 list option" where
  "unpack_2 src nout =
     (case src of
        [] \<Rightarrow> None
      | c # src \<Rightarrow>
          if nout = 0 then None
          else duff_unpack (\<lambda>j. j \<in> {5, 1}) 2 (duff_label nout) ((nout + 7) div 8)
                 (drop_bit ((8 - 2 * (nout mod 4)) mod 8) c) src)"

definition unpack_4 :: "bytes \<Rightarrow> nat \<Rightarrow> u64 list option" where
  "unpack_4 src nout =
     (case src of
        [] \<Rightarrow> None
      | c # src \<Rightarrow>
          if nout = 0 then None
          else duff_unpack (\<lambda>j. j \<in> {7, 5, 3, 1}) 4 (duff_label nout) ((nout + 7) div 8)
                 (drop_bit ((8 - 4 * (nout mod 2)) mod 8) c) src)"

text \<open>The wider unpackers read \<open>k\<close> bytes for each value.\<close>

primrec unpack_bytes :: "nat \<Rightarrow> bytes \<Rightarrow> nat \<Rightarrow> u64 list option" where
  "unpack_bytes k src 0 = Some []"
| "unpack_bytes k src (Suc nout) =
     (if k \<le> length src
      then map_option (Cons (le_word (take k src))) (unpack_bytes k (drop k src) nout)
      else None)"

definition unpack_8 :: "bytes \<Rightarrow> nat \<Rightarrow> u64 list option" where
  "unpack_8 src nout = unpack_bytes 1 src nout"

definition unpack_16 :: "bytes \<Rightarrow> nat \<Rightarrow> u64 list option" where
  "unpack_16 src nout = unpack_bytes 2 src nout"

definition unpack_32 :: "bytes \<Rightarrow> nat \<Rightarrow> u64 list option" where
  "unpack_32 src nout = unpack_bytes 4 src nout"

section \<open>Frame of reference code\<close>

definition FRAME_OF_REFERENCE :: u8 where "FRAME_OF_REFERENCE = 0"
definition FRAME_OF_REFERENCE_DELTA :: u8 where "FRAME_OF_REFERENCE_DELTA = 1"
definition FRAME_OF_REFERENCE_DELTA_NEGATIVE :: u8 where "FRAME_OF_REFERENCE_DELTA_NEGATIVE = 2"

lemmas codec_numbers =
  FRAME_OF_REFERENCE_def FRAME_OF_REFERENCE_DELTA_def FRAME_OF_REFERENCE_DELTA_NEGATIVE_def

text \<open>
  The first loop: it updates \<open>minvalue\<close> and leaves at the first value that is below its
  predecessor, so \<open>minvalue\<close> is the minimum of the values up to that point.
\<close>

fun scan_minvalue :: "u64 \<Rightarrow> u64 \<Rightarrow> u64 list \<Rightarrow> u64 \<times> bool" where
  "scan_minvalue minvalue prev [] = (minvalue, True)"
| "scan_minvalue minvalue prev (x # xs) =
     (let minvalue = min minvalue x in
      if x < prev then (minvalue, False) else scan_minvalue minvalue x xs)"

fun deltas :: "u64 \<Rightarrow> u64 list \<Rightarrow> u64 list" where
  "deltas prev [] = []"
| "deltas prev (x # xs) = (x - prev) # deltas x xs"

definition nbits_of :: "u64 list \<Rightarrow> u8" where
  "nbits_of xs = of_nat (64 - n_leading_zeros (fold (OR) xs 0))"

text \<open>
  The choice of the coding technique (the middle part of \<open>frame_of_reference_encode_128\<close>): the
  number of bits, the technique, the reference value and the array that \<open>input\<close> then points to.
\<close>

definition choose_coding :: "u64 list \<Rightarrow> u8 \<times> u8 \<times> u64 \<times> u64 list" where
  "choose_coding input =
     (let (minvalue, is_incremental) = scan_minvalue (hd input) (hd input) (tl input);
          frame = map (\<lambda>x. x - minvalue) input;
          gaps = deltas (hd input) (tl input);
          delta = hd input # gaps;
          delta_negative = hd input # map shifted_integer_encode gaps;
          nbits_delta = (if is_incremental then nbits_of (tl delta) else 255);
          nbits_delta_negative = (if is_incremental then 255 else nbits_of (tl delta_negative));
          nbits_frame = nbits_of frame
      in if nbits_frame \<le> nbits_delta \<and> nbits_frame \<le> nbits_delta_negative
         then (nbits_frame, FRAME_OF_REFERENCE, minvalue, frame)
         else if nbits_delta \<le> nbits_frame \<and> nbits_delta \<le> nbits_delta_negative
         then (nbits_delta, FRAME_OF_REFERENCE_DELTA, minvalue, delta)
         else (nbits_delta_negative, FRAME_OF_REFERENCE_DELTA_NEGATIVE, minvalue, delta_negative))"

definition round_nbits :: "u8 \<Rightarrow> u8" where
  "round_nbits nbits =
     (let nbits = nbits - 1;
          nbits = nbits OR drop_bit 1 nbits;
          nbits = nbits OR drop_bit 2 nbits;
          nbits = nbits OR drop_bit 4 nbits
      in nbits + 1)"

definition pack_switch :: "u8 \<Rightarrow> u64 list \<Rightarrow> bytes option" where
  "pack_switch nbits input =
     (if nbits = 1 then pack_1 input
      else if nbits = 2 then pack_2 input
      else if nbits = 4 then pack_4 input
      else if nbits = 8 then Some (pack_8 input)
      else if nbits = 16 then Some (pack_16 input)
      else if nbits = 32 then Some (pack_32 input)
      else if nbits = 64 then Some (concat (map (le_bytes 8) input))
      else None)"

definition frame_of_reference_encode_128 :: "u64 list \<Rightarrow> oarchive \<Rightarrow> oarchive option" where
  "frame_of_reference_encode_128 input oarc =
     (if input = [] then Some oarc
      else if 128 < length input then None
      else
        let (nbits, coding_technique, minvalue, input) = choose_coding input;
            nbits = round_nbits nbits;
            header = coding_technique +
              (if nbits > 0
               then push_bit 2 (of_nat (64 - n_leading_zeros (ucast nbits :: u64)) :: u8) else 0);
            oarc = direct_assign (le_bytes 1 header) oarc;
            (oarc, input) =
              (if coding_technique = FRAME_OF_REFERENCE then (variable_encode minvalue oarc, input)
               else (variable_encode (hd input) oarc, tl input))
        in if nbits = 0 then Some oarc
           else map_option (\<lambda>pack. oarc_write pack oarc) (pack_switch nbits input))"

definition unpack_switch :: "u8 \<Rightarrow> nat \<Rightarrow> iarchive \<Rightarrow> (u64 list \<times> iarchive) option" where
  "unpack_switch nbits len iarc =
     (let nbytes_to_read = (unat nbits * len + 7) div 8 in
      if nbits = 64 then
        do { (pack, iarc) \<leftarrow> iarc_read (8 * len) iarc;
             out \<leftarrow> unpack_bytes 8 pack len; Some (out, iarc) }
      else if nbits \<in> {1, 2, 4, 8, 16, 32} then
        do { (pack, iarc) \<leftarrow> iarc_read nbytes_to_read iarc;
             out \<leftarrow> (if nbits = 1 then unpack_1 pack len
                    else if nbits = 2 then unpack_2 pack len
                    else if nbits = 4 then unpack_4 pack len
                    else if nbits = 8 then unpack_8 pack len
                    else if nbits = 16 then unpack_16 pack len
                    else unpack_32 pack len);
             Some (out, iarc) }
      else None)"

text \<open>\<open>output[i] += output[i-1]\<close> for each \<open>i\<close>, starting after the value \<open>prev\<close>.\<close>

fun sum_up :: "u64 \<Rightarrow> u64 list \<Rightarrow> u64 list" where
  "sum_up prev [] = []"
| "sum_up prev (d # ds) = (d + prev) # sum_up (d + prev) ds"

text \<open>
  The number of bits from the header byte: \<open>1 << (shiftpos - 1)\<close> is computed as an \<open>int\<close> and
  truncated to a byte; a shift by 32 or more is undefined.
\<close>

definition header_nbits :: "u8 \<Rightarrow> u8 option" where
  "header_nbits header =
     (let shiftpos = drop_bit 2 header in
      if 32 < shiftpos then None
      else if shiftpos > 0 then Some (push_bit (unat shiftpos - 1) 1)
      else Some 0)"

definition frame_of_reference_decode_128 :: "nat \<Rightarrow> iarchive \<Rightarrow> (u64 list \<times> iarchive) option" where
  "frame_of_reference_decode_128 len iarc =
     (if len = 0 then Some ([], iarc)
      else if 128 < len then None
      else do {
        (header, iarc) \<leftarrow> read_into 1 iarc;
        nbits \<leftarrow> header_nbits header;
        let coding_technique = header AND 3 in
        if nbits = 0 then
          do { (minvalue, iarc) \<leftarrow> variable_decode iarc; Some (replicate len minvalue, iarc) }
        else if coding_technique = FRAME_OF_REFERENCE then
          do { (minvalue, iarc) \<leftarrow> variable_decode iarc;
               (out, iarc) \<leftarrow> unpack_switch nbits len iarc;
               Some (map (\<lambda>x. x + minvalue) out, iarc) }
        else if coding_technique = FRAME_OF_REFERENCE_DELTA then
          do { (first, iarc) \<leftarrow> variable_decode iarc;
               (out, iarc) \<leftarrow> unpack_switch nbits (len - 1) iarc;
               Some (first # sum_up first out, iarc) }
        else if coding_technique = FRAME_OF_REFERENCE_DELTA_NEGATIVE then
          do { (first, iarc) \<leftarrow> variable_decode iarc;
               (out, iarc) \<leftarrow> unpack_switch nbits (len - 1) iarc;
               Some (first # sum_up first (map shifted_integer_decode out), iarc) }
        else unpack_switch nbits len iarc
      })"

section \<open>The variable length code is a prefix code\<close>

lemma le_bytes_cong:
  fixes w :: "'a::len word" and w' :: "'b::len word"
  assumes "\<And>i. i < 8 * n \<Longrightarrow> bit w i \<longleftrightarrow> bit w' i"
  shows "le_bytes n w = le_bytes n w'"
proof (rule nth_equalityI)
  fix i assume "i < length (le_bytes n w)"
  then have "i < n" by simp
  with assms show "le_bytes n w ! i = le_bytes n w' ! i"
    by (auto simp: nth_le_bytes bit_eq_iff bit_simps)
qed simp

text \<open>The code with \<open>k\<close> bytes: the value above a terminating zero bit and \<open>k - 1\<close> one bits.\<close>

definition prefix_word :: "nat \<Rightarrow> u64 \<Rightarrow> u64" where
  "prefix_word k s = push_bit k s OR mask (k - 1)"

definition variable_code :: "u64 \<Rightarrow> bytes" where
  "variable_code s =
     (case find (\<lambda>k. drop_bit (7 * k) s = 0) [1..<8] of
        Some k \<Rightarrow> le_bytes k (prefix_word k s)
      | None \<Rightarrow> 127 # le_bytes 8 s)"

lemma upt_1_8: "[1..<8] = [1, 2, 3, 4, 5, 6, 7 :: nat]"
  by (simp add: upt_rec)

lemma le_bytes_prefix_ucast:
  fixes u :: "'b::len word"
  assumes "u = push_bit k (ucast s) OR mask (k - 1)" and "8 * n \<le> LENGTH('b)" and "8 * n \<le> 64"
  shows "le_bytes n u = le_bytes n (prefix_word k s)"
  using assms(2,3) by (intro le_bytes_cong) (auto simp: assms(1) prefix_word_def bit_simps)

lemma variable_encode_code:
  assumes "oarc_ok oarc"
  shows "oarc_contents (variable_encode s oarc) = oarc_contents oarc @ variable_code s"
    and "oarc_ok (variable_encode s oarc)"
proof -
  have 1: "le_bytes 1 (ucast (push_bit 1 s) :: u8) = le_bytes 1 (prefix_word 1 s)"
    by (rule le_bytes_cong) (auto simp: prefix_word_def bit_simps)
  have 2: "le_bytes 2 (push_bit 2 (ucast s :: u16) OR 1) = le_bytes 2 (prefix_word 2 s)"
    by (rule le_bytes_prefix_ucast) (simp_all add: mask_eq_exp_minus_1)
  have 3: "le_bytes 3 (push_bit 3 (ucast s :: u32) OR 3) = le_bytes 3 (prefix_word 3 s)"
    by (rule le_bytes_prefix_ucast) (simp_all add: mask_eq_exp_minus_1)
  have 4: "le_bytes 4 (push_bit 4 (ucast s :: u32) OR 7) = le_bytes 4 (prefix_word 4 s)"
    by (rule le_bytes_prefix_ucast) (simp_all add: mask_eq_exp_minus_1)
  have 5: "push_bit 5 s OR 15 = prefix_word 5 s" "push_bit 6 s OR 31 = prefix_word 6 s"
    "push_bit 7 s OR 63 = prefix_word 7 s"
    by (simp_all add: prefix_word_def mask_eq_exp_minus_1)
  show "oarc_contents (variable_encode s oarc) = oarc_contents oarc @ variable_code s"
    using assms unfolding variable_encode_def Let_def 1 2 3 4 5
    unfolding variable_code_def upt_1_8 by (simp add: codec)
  show "oarc_ok (variable_encode s oarc)"
    using assms unfolding variable_encode_def Let_def by (simp add: codec del: le_bytes.simps)
qed

text \<open>
  The low bits of the first byte select the branch of the decoder: \<open>k - 1\<close> ones and a zero.
\<close>

lemma drop_bit_eq_0_bits: "drop_bit n w = 0 \<longleftrightarrow> (\<forall>i \<ge> n. \<not> bit w i)" for w :: "'a::len word"
proof
  assume "drop_bit n w = 0"
  then have "\<not> bit w (n + j)" for j by (metis bit_0_eq bit_drop_bit_eq bot_apply bot_bool_def comp_apply)
  then show "\<forall>i \<ge> n. \<not> bit w i" by (metis le_iff_add)
next
  assume "\<forall>i \<ge> n. \<not> bit w i"
  then show "drop_bit n w = 0" by (intro bit_word_eqI) (simp add: bit_simps)
qed

lemma le_word_prefix:
  assumes "drop_bit (7 * k) s = 0" and "k \<le> 7"
  shows "le_word (le_bytes k (prefix_word k s)) = prefix_word k s"
proof -
  have "bit s i \<Longrightarrow> i < 7 * k" for i
    using assms(1) by (auto simp: drop_bit_eq_0_bits not_less [symmetric])
  then have "take_bit (8 * k) (prefix_word k s) = prefix_word k s"
    by (intro bit_word_eqI) (fastforce simp: prefix_word_def bit_simps)
  then show ?thesis by (simp add: le_word_le_bytes)
qed

lemma low_bits_prefix:
  assumes "j \<le> 7"
  shows "(le_word (le_bytes 1 (prefix_word k s)) :: u64) AND mask j = take_bit j (prefix_word k s)"
proof -
  have "(le_word (le_bytes 1 (prefix_word k s)) :: u64) AND mask j
      = take_bit j (take_bit (8 * 1) (ucast (prefix_word k s)))"
    by (simp only: le_word_le_bytes take_bit_eq_mask [of j])
  then show ?thesis using assms by (simp add: min_def)
qed

lemma low_bits_select: "0 < k \<Longrightarrow> take_bit k (prefix_word k s) = mask (k - 1)"
  by (intro bit_word_eqI) (auto simp: prefix_word_def bit_simps)

lemma low_bits_reject:
  assumes "0 < j" and "j < k" and "j \<le> 64"
  shows "take_bit j (prefix_word k s) \<noteq> mask (j - 1)"
proof -
  have "bit (take_bit j (prefix_word k s)) (j - 1)" "\<not> bit (mask (j - 1) :: u64) (j - 1)"
    using assms by (auto simp: prefix_word_def bit_simps)
  then show ?thesis by metis
qed

lemma drop_prefix_word:
  assumes "drop_bit (7 * k) s = 0" and "k \<le> 7"
  shows "drop_bit k (prefix_word k s) = s"
proof -
  have "bit s i \<Longrightarrow> k + i < 64" for i
    using assms(2) bit_imp_le_length [of s i] assms(1) [unfolded drop_bit_eq_0_bits, rule_format, of i]
    by (cases "7 * k \<le> i") auto
  then show ?thesis
    by (intro bit_word_eqI) (auto simp: prefix_word_def bit_simps)
qed

text \<open>The decoder's chain of tests looks for the first \<open>j\<close> whose low bits are \<open>j - 1\<close> ones and a zero.\<close>

lemma iarc_read_0: "iarc_read 0 a = Some ([], a)"
  by (simp add: iarc_read_def)

lemma mask_numbers:
  "mask 2 = (3 :: u64)" "mask 3 = (7 :: u64)" "mask 4 = (15 :: u64)"
  "mask 5 = (31 :: u64)" "mask 6 = (63 :: u64)" "mask 7 = (127 :: u64)"
  by (simp_all add: mask_eq_exp_minus_1)

lemma variable_decode_find:
  "variable_decode iarc = do {
     (c, iarc) \<leftarrow> iarc_read 1 iarc;
     (case find (\<lambda>j. (le_word c :: u64) AND mask j = mask (j - 1)) [1..<8] of
        Some k \<Rightarrow> do { (d, iarc) \<leftarrow> iarc_read (k - 1) iarc; Some (drop_bit k (le_word (c @ d)), iarc) }
      | None \<Rightarrow> do { (d, iarc) \<leftarrow> iarc_read 8 iarc; Some (le_word d, iarc) })
   }"
  unfolding variable_decode_def Let_def upt_1_8
  by (cases "iarc_read 1 iarc") (auto simp: iarc_read_0 mask_numbers split: prod.split)

lemma find_upt_Some:
  assumes "a \<le> k" "k < b" "P k" "\<And>j. a \<le> j \<Longrightarrow> j < k \<Longrightarrow> \<not> P j"
  shows "find P [a..<b] = Some k"
  unfolding find_Some_iff using assms by (intro exI [of _ "k - a"]) auto

lemma variable_decode_prefix:
  assumes "drop_bit (7 * k) s = 0" and k: "k \<in> set [1..<8]"
    and rest: "iarc_rest iarc = le_bytes k (prefix_word k s) @ r"
  shows "variable_decode iarc = Some (s, iarc_skip k iarc)"
proof -
  let ?w = "prefix_word k s"
  obtain k' where k': "k = Suc k'" using k unfolding set_upt by (cases k) auto
  have split: "le_bytes k ?w = le_bytes 1 ?w @ le_bytes k' (drop_bit 8 ?w)"
    using le_bytes_append [of 1 k' ?w] k' by simp
  have c: "iarc_read 1 iarc = Some (le_bytes 1 ?w, iarc_skip 1 iarc)"
    using rest split by (intro iarc_read_skip [where r = "le_bytes k' (drop_bit 8 ?w) @ r"]) simp_all
  have d: "iarc_read (k - 1) (iarc_skip 1 iarc)
      = Some (le_bytes k' (drop_bit 8 ?w), iarc_skip (k - 1) (iarc_skip 1 iarc))"
    using rest split k' by (intro iarc_read_skip [where r = r]) simp_all
  have "find (\<lambda>j. (le_word (le_bytes 1 ?w) :: u64) AND mask j = mask (j - 1)) [1..<8] = Some k"
  proof (rule find_upt_Some)
    show "1 \<le> k" "k < 8" using k by auto
    then show "le_word (le_bytes 1 ?w) AND mask k = (mask (k - 1) :: u64)"
      by (subst low_bits_prefix) (simp_all add: low_bits_select)
    fix j assume "1 \<le> j" "j < k"
    with \<open>k < 8\<close> low_bits_reject [of j k s]
    show "le_word (le_bytes 1 ?w) AND mask j \<noteq> (mask (j - 1) :: u64)"
      by (subst low_bits_prefix) simp_all
  qed
  then show ?thesis
    using c d split [symmetric] le_word_prefix [of k s] drop_prefix_word [of k s] assms k'
    by (simp only: variable_decode_find bind.bind_lunit prod.case option.case) auto
qed

lemma variable_decode_code:
  assumes rest: "iarc_rest iarc = variable_code s @ r"
  shows "variable_decode iarc = Some (s, iarc_skip (length (variable_code s)) iarc)"
proof (cases "find (\<lambda>k. drop_bit (7 * k) s = 0) [1..<8]")
  case (Some k)
  then have "drop_bit (7 * k) s = 0" and "k \<in> set [1..<8]"
    by (metis (mono_tags, lifting) find_Some_iff nth_mem)+
  with Some rest variable_decode_prefix [of k s iarc r] show ?thesis
    by (simp add: variable_code_def)
next
  case None
  then have code: "variable_code s = 127 # le_bytes 8 s"
    by (simp add: variable_code_def)
  have "iarc_read 1 iarc = Some ([127], iarc_skip 1 iarc)"
    using rest code by (intro iarc_read_skip [where r = "le_bytes 8 s @ r"]) simp_all
  moreover have "iarc_read 8 (iarc_skip 1 iarc) = Some (le_bytes 8 s, iarc_skip 8 (iarc_skip 1 iarc))"
    using rest code by (intro iarc_read_skip [where r = r]) simp_all
  moreover have "find (\<lambda>j. (le_word [127] :: u64) AND mask j = mask (j - 1)) [1..<8] = None"
    unfolding upt_1_8 by (simp add: mask_numbers)
  ultimately show ?thesis
    using code by (simp add: variable_decode_find)
qed

section \<open>Sign folding\<close>

lemma bit_times_2: "bit (w * 2) n \<longleftrightarrow> 0 < n \<and> n < 64 \<and> bit w (n - 1)" for w :: u64
  by (auto simp: mult.commute [of w 2] bit_double_iff)

lemma sign_word: "signed_drop_bit 63 val = (if bit val 63 then - 1 else 0)" for val :: u64
proof (rule bit_word_eqI)
  fix n assume "n < LENGTH(64)"
  then show "bit (signed_drop_bit 63 val) n = bit (if bit val 63 then - 1 else 0 :: u64) n"
    by (cases "n = 0") (auto simp: bit_simps)
qed

lemma bit_below_63: "\<not> bit w 63 \<Longrightarrow> bit w n \<Longrightarrow> n < 63" for w :: u64
  using bit_imp_le_length [of w n] by (cases "n = 63") auto

lemma drop_bit_double: "\<not> bit w 63 \<Longrightarrow> drop_bit 1 (push_bit 1 w) = w" for w :: u64
  by (rule bit_word_eqI) (auto simp: bit_simps bit_times_2 dest: bit_below_63)

lemma drop_bit_double_Suc: "\<not> bit w 63 \<Longrightarrow> drop_bit 1 (push_bit 1 w OR 1) = w" for w :: u64
  by (rule bit_word_eqI) (auto simp: bit_simps bit_times_2 dest: bit_below_63)

lemma shifted_integer_encode_cases:
  "shifted_integer_encode val = (if bit val 63 then push_bit 1 (NOT val) OR 1 else push_bit 1 val)"
proof (cases "bit val 63")
  case True
  have "push_bit 1 (NOT val) AND 1 = 0"
    by (rule bit_word_eqI) (auto simp: bit_simps bit_times_2)
  then have "push_bit 1 (NOT val) OR 1 = push_bit 1 (NOT val) + 1"
    by (simp add: disjunctive_add_eq_or)
  also have "\<dots> = push_bit 1 (- val) - 1"
    by (simp add: not_eq_complement push_bit_eq_mult algebra_simps)
  finally show ?thesis
    using True by (simp add: shifted_integer_encode_def sign_word Let_def not_eq_complement)
qed (simp add: shifted_integer_encode_def sign_word)

lemma shifted_integer_decode_encode: "shifted_integer_decode (shifted_integer_encode val) = val"
proof (cases "bit val 63")
  case True
  then have "\<not> bit (NOT val) 63" by (simp add: bit_simps)
  then have drop: "drop_bit 1 (push_bit 1 (NOT val) OR 1) = NOT val"
    by (rule drop_bit_double_Suc)
  have "(push_bit 1 (NOT val) OR 1) AND 1 = 1"
    by (rule bit_word_eqI) (auto simp: bit_simps bit_times_2)
  with True drop show ?thesis
    by (simp add: shifted_integer_encode_cases shifted_integer_decode_def Let_def)
next
  case False
  then have "drop_bit 1 (push_bit 1 val) = val" by (rule drop_bit_double)
  moreover have "push_bit 1 val AND 1 = 0"
    by (rule bit_word_eqI) (auto simp: bit_simps bit_times_2)
  ultimately show ?thesis
    using False by (simp add: shifted_integer_encode_cases shifted_integer_decode_def Let_def)
qed

lemma uint_below_63: "\<not> bit w 63 \<Longrightarrow> uint w < 2 ^ 63" for w :: u64
proof -
  assume "\<not> bit w 63"
  then have "take_bit 63 w = w" by (intro bit_word_eqI) (auto simp: bit_simps dest: bit_below_63)
  then have "take_bit 63 (uint w) = uint w" by (metis unsigned_take_bit_eq)
  then show ?thesis by (metis take_bit_int_less_exp)
qed

lemma uint_double: "\<not> bit w 63 \<Longrightarrow> uint (push_bit 1 w) = 2 * uint w" for w :: u64
  using uint_below_63 [of w] by (simp add: uint_word_ariths)

lemma sint_cases: "sint w = (if bit w 63 then uint w - 2 ^ 64 else uint w)" for w :: u64
proof -
  have "take_bit 64 (uint w) = uint w" using uint_bounded [of w] by (simp add: take_bit_int_eq_self)
  then show ?thesis
    by (simp add: sint_uint signed_take_bit_eq_take_bit_minus bit_unsigned_iff)
qed

lemma uint_NOT: "uint (NOT w) = 2 ^ 64 - 1 - uint w" for w :: u64
proof -
  have "NOT w = - 1 - w" by (simp add: not_eq_complement)
  moreover have "uint (- 1 - w) = uint (- 1 :: u64) - uint w"
    by (rule iffD1 [OF uint_minus_simple_iff]) simp
  moreover have "uint (- 1 :: u64) = 2 ^ 64 - 1" by (simp add: unsigned_minus_1_eq_mask mask_eq_exp_minus_1)
  ultimately show ?thesis by simp
qed

lemma shifted_integer_encode_zigzag:
  "uint (shifted_integer_encode val) = (if 0 \<le> sint val then 2 * sint val else - 2 * sint val - 1)"
proof (cases "bit val 63")
  case True
  then have n: "\<not> bit (NOT val) 63" by (simp add: bit_simps)
  have "push_bit 1 (NOT val) OR 1 = push_bit 1 (NOT val) + 1"
    by (rule sym, rule disjunctive_add_eq_or, rule bit_word_eqI) (auto simp: bit_simps bit_times_2)
  moreover have "uint (push_bit 1 (NOT val) + 1) = uint (push_bit 1 (NOT val)) + 1"
    unfolding uint_word_ariths using uint_double [OF n] uint_below_63 [OF n] by (simp add: uint_nonnegative)
  ultimately have "uint (shifted_integer_encode val) = 2 * (2 ^ 64 - 1 - uint val) + 1"
    using True uint_double [OF n] by (simp add: shifted_integer_encode_cases uint_NOT)
  moreover have "sint val < 0"
    using True uint_bounded [of val] by (simp add: sint_cases)
  ultimately show ?thesis
    using True by (simp add: sint_cases)
next
  case False
  then show ?thesis
    using uint_double [OF False] by (simp add: shifted_integer_encode_cases sint_cases)
qed

section \<open>The bit packers\<close>

text \<open>
  What the tables of a packer have to satisfy: the statements between two writes shift by
  consecutive multiples of \<open>w\<close>, and the byte is full when it is written.
\<close>

locale duff_device =
  fixes sh :: "nat \<Rightarrow> nat" and em :: "nat \<Rightarrow> bool" and w :: nat
  assumes width: "0 < w" "w \<le> 8"
    and full: "1 \<le> j \<Longrightarrow> j \<le> 8 \<Longrightarrow> em j \<Longrightarrow> sh j + w = 8"
    and first: "sh 8 = 0" "2 \<le> j \<Longrightarrow> j \<le> 8 \<Longrightarrow> em j \<Longrightarrow> sh (j - 1) = 0"
    and consecutive: "2 \<le> j \<Longrightarrow> j \<le> 8 \<Longrightarrow> \<not> em j \<Longrightarrow> sh (j - 1) = sh j + w"
    and last: "em 1"
    and room: "1 \<le> j \<Longrightarrow> j \<le> 8 \<Longrightarrow> sh j + w \<le> 8"
begin

text \<open>Adding a value of \<open>w\<close> bits to a partial byte.\<close>

lemma add_value:
  fixes c :: u8 and v :: u64
  assumes "take_bit (sh j) c = c" and "take_bit w v = v" and "sh j + w \<le> 8"
  defines "c' \<equiv> c OR ucast (push_bit (sh j) v)"
  shows "take_bit (sh j + w) c' = c'" and "take_bit (sh j) c' = c"
    and "ucast (drop_bit (sh j) c' AND mask w) = v"
proof -
  have c: "bit c i \<Longrightarrow> i < sh j" for i using assms(1) by (metis bit_take_bit_iff)
  have v: "bit v i \<Longrightarrow> i < w" for i using assms(2) by (metis bit_take_bit_iff)
  show "take_bit (sh j + w) c' = c'" "take_bit (sh j) c' = c"
    using assms(3) by (intro bit_word_eqI; fastforce simp: c'_def bit_simps dest: c v)+
  show "ucast (drop_bit (sh j) c' AND mask w) = v"
    using assms(3) by (intro bit_word_eqI) (fastforce simp: c'_def bit_simps dest: c v)
qed

lemma unpack_pack:
  assumes "length vs = j + 8 * (n - 1)" "1 \<le> j" "j \<le> 8" "1 \<le> n"
    and "\<forall>v \<in> set vs. take_bit w v = v" and "take_bit (sh j) c = c"
  shows "\<exists>b bs. duff_pack sh em j n vs c = Some (b # bs) \<and> take_bit (sh j) b = c
      \<and> 8 * length (b # bs) = sh j + w * length vs
      \<and> duff_unpack em w j n (drop_bit (sh j) b) bs = Some vs"
  using assms
proof (induction vs arbitrary: j n c)
  case Nil
  then show ?case by simp
next
  case (Cons v vs)
  let ?c = "c OR ucast (push_bit (sh j) v)"
  have v: "take_bit w v = v" using Cons.prems by simp
  have r: "sh j + w \<le> 8" using Cons.prems room by simp
  note added = add_value [OF Cons.prems(6) v r]
  show ?case
  proof (cases "em j")
    case em: True
    have full': "sh j + w = 8" using Cons.prems full em by simp
    show ?thesis
    proof (cases "j = 1 \<and> n = 1")
      case True
      then have "vs = []" using Cons.prems by simp
      with True em added full' show ?thesis
        by (intro exI [of _ ?c] exI [of _ "[]"]) (simp add: duff_unpack.simps [of _ _ "Suc 0"])
    next
      case False
      define j' n' where "j' = (if j = 1 then 8 else j - 1)" and "n' = (if j = 1 then n - 1 else n)"
      have sh': "sh j' = 0" using Cons.prems em first by (simp add: j'_def)
      have "\<exists>b bs. duff_pack sh em j' n' vs 0 = Some (b # bs) \<and> take_bit (sh j') b = 0
        \<and> 8 * length (b # bs) = sh j' + w * length vs
        \<and> duff_unpack em w j' n' (drop_bit (sh j') b) bs = Some vs"
        using Cons.prems False by (intro Cons.IH) (auto simp: j'_def n'_def)
      then obtain b bs where b: "duff_pack sh em j' n' vs 0 = Some (b # bs)"
        "8 * length (b # bs) = w * length vs" "duff_unpack em w j' n' b bs = Some vs"
        using sh' by auto
      have "duff_pack sh em j n (v # vs) c = Some (?c # b # bs)"
        using b(1) em False Cons.prems by (auto simp: j'_def n'_def Let_def)
      moreover have "duff_unpack em w j n (drop_bit (sh j) ?c) (b # bs) = Some (v # vs)"
        using b(3) em False Cons.prems added(3)
        by (subst duff_unpack.simps) (auto simp: j'_def n'_def Let_def)
      ultimately show ?thesis
        using added b(2) full' by (intro exI [of _ ?c] exI [of _ "b # bs"]) simp
    qed
  next
    case em: False
    then have j: "2 \<le> j" using Cons.prems last by (cases "j = 1") auto
    then have sh': "sh (j - 1) = sh j + w" using Cons.prems consecutive em by simp
    have "\<exists>b bs. duff_pack sh em (j - 1) n vs ?c = Some (b # bs) \<and> take_bit (sh (j - 1)) b = ?c
      \<and> 8 * length (b # bs) = sh (j - 1) + w * length vs
      \<and> duff_unpack em w (j - 1) n (drop_bit (sh (j - 1)) b) bs = Some vs"
      using Cons.prems j added sh' by (intro Cons.IH) auto
    then obtain b bs where b: "duff_pack sh em (j - 1) n vs ?c = Some (b # bs)"
      "take_bit (sh j + w) b = ?c" "8 * length (b # bs) = sh j + w + w * length vs"
      "duff_unpack em w (j - 1) n (drop_bit (sh j + w) b) bs = Some vs"
      using sh' by auto
    have low: "take_bit (sh j) b = c"
      using added(2) b(2) by (metis min.absorb1 le_add1 take_bit_take_bit)
    have "drop_bit (sh j) b AND mask w = drop_bit (sh j) ?c AND mask w"
      using b(2) by (metis (no_types, lifting) add.commute drop_bit_take_bit diff_add_inverse take_bit_eq_mask take_bit_take_bit min.idem)
    then have val: "ucast (drop_bit (sh j) b AND mask w) = v" using added(3) by simp
    have "duff_unpack em w j n (drop_bit (sh j) b) bs = Some (v # vs)"
      using b(4) em j val by (subst duff_unpack.simps) (simp add: Let_def drop_bit_drop_bit add.commute)
    moreover have "duff_pack sh em j n (v # vs) c = Some (b # bs)"
      using b(1) em j by (simp add: Let_def)
    ultimately show ?thesis
      using low b(3) by (intro exI [of _ b] exI [of _ bs]) simp
  qed
qed

end

lemma duff_label_length:
  assumes "0 < len"
  shows "len = duff_label len + 8 * ((len + 7) div 8 - 1)" "1 \<le> duff_label len"
    "duff_label len \<le> 8" "1 \<le> (len + 7) div 8"
proof -
  obtain q r where qr: "len = 8 * q + r" "1 \<le> r" "r \<le> 8"
  proof (cases "len mod 8 = 0")
    case True
    then obtain k where "len = 8 * k" by auto
    then show ?thesis using assms that [of "k - 1" 8] by (cases k) simp_all
  next
    case False
    then show ?thesis using that [of "len div 8" "len mod 8"] by simp
  qed
  then have "(len + 7) div 8 = Suc q" by simp
  moreover have "duff_label len = r"
    using qr by (cases "r = 8") (auto simp: duff_label_def)
  ultimately show "len = duff_label len + 8 * ((len + 7) div 8 - 1)" "1 \<le> duff_label len"
    "duff_label len \<le> 8" "1 \<le> (len + 7) div 8"
    using qr by simp_all
qed

context duff_device
begin

lemma device_round_trip:
  assumes "vs \<noteq> []" and "\<forall>v \<in> set vs. take_bit w v = v"
  defines "j \<equiv> duff_label (length vs)" and "n \<equiv> (length vs + 7) div 8"
  shows "\<exists>b bs. duff_pack sh em j n vs 0 = Some (b # bs) \<and> 8 * length (b # bs) = sh j + w * length vs
      \<and> duff_unpack em w j n (drop_bit (sh j) b) bs = Some vs"
proof -
  have "0 < length vs" using assms(1) by simp
  from duff_label_length [OF this, folded j_def n_def] assms(2)
  show ?thesis using unpack_pack [of vs j n 0] by fastforce
qed

lemma shift_small: "1 \<le> j \<Longrightarrow> j \<le> 8 \<Longrightarrow> sh j < 8"
  using room [of j] width by linarith

end

text \<open>The tables have eight entries, so the laws are checked entry by entry.\<close>

lemma duff_device_table:
  assumes "0 < w" "w \<le> 8" "sh 8 = 0" "em 1"
    and entries: "\<forall>j \<in> {1, 2, 3, 4, 5, 6, 7, 8}. sh j + w \<le> 8 \<and> (em j \<longrightarrow> sh j + w = 8)"
    and steps: "\<forall>j \<in> {2, 3, 4, 5, 6, 7, 8}. sh (j - 1) = (if em j then 0 else sh j + w)"
  shows "duff_device sh em w"
proof -
  have 1: "j \<in> {1, 2, 3, 4, 5, 6, 7, 8}" if "1 \<le> j" "j \<le> 8" for j :: nat using that by auto
  have 2: "j \<in> {2, 3, 4, 5, 6, 7, 8}" if "2 \<le> j" "j \<le> 8" for j :: nat using that by auto
  show ?thesis
    using assms(1-4) entries [rule_format, OF 1] steps [rule_format, OF 2] by unfold_locales auto
qed

interpretation duff_1: duff_device "\<lambda>j. 8 - j" "\<lambda>j. j = 1" 1
  by (rule duff_device_table) simp_all

interpretation duff_2: duff_device "\<lambda>j. 2 * ((8 - j) mod 4)" "\<lambda>j. j \<in> {5, 1}" 2
  by (rule duff_device_table) simp_all

interpretation duff_4: duff_device "\<lambda>j. 4 * ((8 - j) mod 2)" "\<lambda>j. j \<in> {7, 5, 3, 1}" 4
  by (rule duff_device_table) simp_all

lemma shift_label:
  "(8 - len mod 8) mod 8 = 8 - duff_label len"
  "(8 - 2 * (len mod 4)) mod 8 = 2 * ((8 - duff_label len) mod 4)"
  "(8 - 4 * (len mod 2)) mod 8 = 4 * ((8 - duff_label len) mod 2)"
proof -
  have m: "len mod 4 = len mod 8 mod 4" "len mod 2 = len mod 8 mod 2"
    by (simp_all add: mod_mod_cancel)
  define k where "k = len mod 8"
  then have "k < 8" by simp
  then have k: "k = 0 \<or> k = 1 \<or> k = 2 \<or> k = 3 \<or> k = 4 \<or> k = 5 \<or> k = 6 \<or> k = 7" by linarith
  show "(8 - len mod 8) mod 8 = 8 - duff_label len"
    and "(8 - 2 * (len mod 4)) mod 8 = 2 * ((8 - duff_label len) mod 4)"
    and "(8 - 4 * (len mod 2)) mod 8 = 4 * ((8 - duff_label len) mod 2)"
    unfolding m duff_label_def k_def [symmetric] using k by (elim disjE; simp)+
qed

text \<open>Every packer with its unpacker, for values that fit the width.\<close>

lemma pack_length: "8 * n = s + w * l \<Longrightarrow> s < 8 \<Longrightarrow> n = (w * l + 7) div 8" for n :: nat
  by (simp add: div_nat_eqI)

lemma pack_1_unpack:
  assumes "vs \<noteq> []" and "\<forall>v \<in> set vs. take_bit 1 v = v"
  shows "\<exists>bs. pack_1 vs = Some bs \<and> length bs = (1 * length vs + 7) div 8 \<and> unpack_1 bs (length vs) = Some vs"
proof -
  obtain b bs where "pack_1 vs = Some (b # bs)"
    and len: "8 * length (b # bs) = 8 - duff_label (length vs) + 1 * length vs"
    and "unpack_1 (b # bs) (length vs) = Some vs"
    using duff_1.device_round_trip [OF assms] assms(1)
    unfolding pack_1_def unpack_1_def shift_label by auto
  moreover have "8 - duff_label (length vs) < 8"
    using assms(1) duff_label_length [of "length vs"] by simp
  ultimately show ?thesis using pack_length [OF len] by blast
qed

lemma pack_2_unpack:
  assumes "vs \<noteq> []" and "\<forall>v \<in> set vs. take_bit 2 v = v"
  shows "\<exists>bs. pack_2 vs = Some bs \<and> length bs = (2 * length vs + 7) div 8 \<and> unpack_2 bs (length vs) = Some vs"
proof -
  obtain b bs where "pack_2 vs = Some (b # bs)"
    and len: "8 * length (b # bs) = 2 * ((8 - duff_label (length vs)) mod 4) + 2 * length vs"
    and "unpack_2 (b # bs) (length vs) = Some vs"
    using duff_2.device_round_trip [OF assms] assms(1)
    unfolding pack_2_def unpack_2_def shift_label by auto
  moreover have "2 * ((8 - duff_label (length vs)) mod 4) < 8" by simp
  ultimately show ?thesis using pack_length [OF len] by blast
qed

lemma pack_4_unpack:
  assumes "vs \<noteq> []" and "\<forall>v \<in> set vs. take_bit 4 v = v"
  shows "\<exists>bs. pack_4 vs = Some bs \<and> length bs = (4 * length vs + 7) div 8 \<and> unpack_4 bs (length vs) = Some vs"
proof -
  obtain b bs where "pack_4 vs = Some (b # bs)"
    and len: "8 * length (b # bs) = 4 * ((8 - duff_label (length vs)) mod 2) + 4 * length vs"
    and "unpack_4 (b # bs) (length vs) = Some vs"
    using duff_4.device_round_trip [OF assms] assms(1)
    unfolding pack_4_def unpack_4_def shift_label by auto
  moreover have "4 * ((8 - duff_label (length vs)) mod 2) < 8" by simp
  ultimately show ?thesis using pack_length [OF len] by blast
qed

lemma unpack_bytes_image:
  assumes "\<And>v. v \<in> set vs \<Longrightarrow> length (img v) = k \<and> le_word (img v) = v"
  shows "length (concat (map img vs)) = k * length vs \<and> unpack_bytes k (concat (map img vs)) (length vs) = Some vs"
  using assms by (induction vs) auto

lemma fits_ucast:
  fixes v :: u64
  assumes "take_bit (8 * k) v = v" and "LENGTH('b::len) = 8 * k"
  shows "(le_word (le_bytes k (ucast v :: 'b word)) :: u64) = v"
proof -
  have "bit v i \<Longrightarrow> i < 8 * k" for i using assms(1) by (metis bit_take_bit_iff)
  then show ?thesis
    using assms(2) by (intro bit_word_eqI) (auto simp: le_word_le_bytes bit_simps)
qed

text \<open>The unpacker for the width that \<open>nbits\<close> selects.\<close>

definition unpack_width :: "nat \<Rightarrow> bytes \<Rightarrow> nat \<Rightarrow> u64 list option" where
  "unpack_width n pack len =
     (if n = 1 then unpack_1 pack len else if n = 2 then unpack_2 pack len
      else if n = 4 then unpack_4 pack len else unpack_bytes (n div 8) pack len)"

lemma byte_count: "(8 * k * len + 7) div 8 = k * len" for k len :: nat
  by (simp add: div_nat_eqI)

lemma unpack_bytes_words:
  assumes "LENGTH('b::len) = 8 * k" and "\<forall>v \<in> set vs. take_bit (8 * k) v = v"
  defines "bs \<equiv> concat (map (\<lambda>v. le_bytes k (ucast v :: 'b word)) vs)"
  shows "length bs = (8 * k * length vs + 7) div 8 \<and> unpack_bytes k bs (length vs) = Some vs"
  unfolding byte_count bs_def
  by (rule unpack_bytes_image) (use assms in \<open>simp add: fits_ucast\<close>)

lemma pack_switch_width:
  assumes "n \<in> {1, 2, 4, 8, 16, 32, 64}" and "vs \<noteq> []" and fits: "\<forall>v \<in> set vs. take_bit n v = v"
  shows "\<exists>bs. pack_switch (of_nat n) vs = Some bs \<and> length bs = (n * length vs + 7) div 8
      \<and> unpack_width n bs (length vs) = Some vs"
proof -
  consider "n = 1" | "n = 2" | "n = 4" | "n = 8" | "n = 16" | "n = 32" | "n = 64"
    using assms(1) by blast
  then show ?thesis
  proof cases
    case 1
    then show ?thesis using pack_1_unpack assms by (simp add: pack_switch_def unpack_width_def)
  next
    case 2
    then show ?thesis using pack_2_unpack assms by (simp add: pack_switch_def unpack_width_def)
  next
    case 3
    then show ?thesis using pack_4_unpack assms by (simp add: pack_switch_def unpack_width_def)
  next
    case 4
    then show ?thesis
      using unpack_bytes_words [where ?'b = 8 and k = 1 and vs = vs] fits
      by (simp add: pack_switch_def unpack_width_def pack_8_def)
  next
    case 5
    then show ?thesis
      using unpack_bytes_words [where ?'b = 16 and k = 2 and vs = vs] fits
      by (simp add: pack_switch_def unpack_width_def pack_16_def)
  next
    case 6
    then show ?thesis
      using unpack_bytes_words [where ?'b = 32 and k = 4 and vs = vs] fits
      by (simp add: pack_switch_def unpack_width_def pack_32_def)
  next
    case 7
    then show ?thesis
      using unpack_bytes_words [where ?'b = 64 and k = 8 and vs = vs] fits
      by (simp add: pack_switch_def unpack_width_def)
  qed
qed

lemma unpack_switch_width:
  assumes "n \<in> {1, 2, 4, 8, 16, 32, 64}" and "length bs = (n * len + 7) div 8"
    and "unpack_width n bs len = Some vs" and "iarc_rest a = bs @ r"
  shows "unpack_switch (of_nat n) len a = Some (vs, iarc_skip (length bs) a)"
proof -
  have "iarc_read ((n * len + 7) div 8) a = Some (bs, iarc_skip (length bs) a)"
    using iarc_read_skip [OF assms(4) refl] assms(2) by simp
  moreover have "(64 * len + 7) div 8 = 8 * len" using byte_count [of 8 len] by simp
  ultimately show ?thesis
    using assms(1,3) by (auto simp: unpack_switch_def unpack_width_def unpack_8_def unpack_16_def unpack_32_def Let_def)
qed

section \<open>The frame of reference code\<close>

lemma round_nbits_small:
  "n \<le> 64 \<Longrightarrow> \<exists>m \<in> {0, 1, 2, 4, 8, 16, 32, 64}. round_nbits (of_nat n) = of_nat m \<and> n \<le> m \<and> (n = 0 \<longleftrightarrow> m = 0)"
proof -
  have "\<forall>n \<in> set [0..<65]. \<exists>m \<in> set [0, 1, 2, 4, 8, 16, 32, 64]. round_nbits (of_nat n) = of_nat m \<and> n \<le> m \<and> (n = 0 \<longleftrightarrow> m = 0)"
    by code_simp
  moreover assume "n \<le> 64"
  ultimately show ?thesis by simp
qed

definition for_header :: "u8 \<Rightarrow> u8 \<Rightarrow> u8" where
  "for_header coding_technique nbits = coding_technique +
     (if nbits > 0 then push_bit 2 (of_nat (64 - n_leading_zeros (ucast nbits :: u64)) :: u8) else 0)"

lemma for_header_fields:
  assumes "coding_technique \<in> {0, 1, 2}" and "m \<in> {0, 1, 2, 4, 8, 16, 32, 64 :: nat}"
  defines "h \<equiv> for_header coding_technique (of_nat m)"
  shows "h AND 3 = coding_technique" "header_nbits h = Some (of_nat m)"
proof -
  have *: "\<forall>t \<in> set [0, 1, 2]. \<forall>m \<in> set [0, 1, 2, 4, 8, 16, 32, 64 :: nat].
      for_header t (of_nat m) AND 3 = t \<and> header_nbits (for_header t (of_nat m)) = Some (of_nat m)"
    by code_simp
  have "coding_technique \<in> set [0, 1, 2]" "m \<in> set [0, 1, 2, 4, 8, 16, 32, 64]"
    using assms(1,2) by simp_all
  from * [rule_format, OF this] show "h AND 3 = coding_technique" "header_nbits h = Some (of_nat m)"
    unfolding h_def by blast+
qed

lemma bit_fold_or: "bit (fold (OR) xs a) i \<longleftrightarrow> bit a i \<or> (\<exists>x \<in> set xs. bit x i)" for a :: "'a::len word"
  by (induction xs arbitrary: a) (auto simp: bit_simps)

lemma nbits_of_fits:
  obtains n where "nbits_of xs = of_nat n" and "n \<le> 64" and "\<forall>v \<in> set xs. take_bit n v = v"
proof
  let ?or = "fold (OR) xs 0 :: u64" and ?n = "64 - n_leading_zeros (fold (OR) xs 0 :: u64)"
  show "nbits_of xs = of_nat ?n" "?n \<le> 64" by (simp_all add: nbits_of_def)
  show "\<forall>v \<in> set xs. take_bit ?n v = v"
  proof
    fix v assume "v \<in> set xs"
    have "i < ?n" if "bit v i" for i
    proof -
      have or: "bit ?or i" using \<open>v \<in> set xs\<close> that by (auto simp: bit_fold_or)
      then have "?or \<noteq> 0" by auto
      from n_leading_zeros_bits(1,3) [OF this] or show ?thesis by fastforce
    qed
    then show "take_bit ?n v = v" by (intro bit_word_eqI) (auto simp: bit_simps)
  qed
qed

lemma u8_le_255: "of_nat n \<le> (255 :: u8)"
proof -
  have "(255 :: u8) = - 1" by simp
  then show ?thesis by (metis word_order.extremum)
qed

lemma nat_u8_less: "n \<le> 64 \<Longrightarrow> \<not> (255 :: u8) \<le> of_nat n"
  by (simp add: word_le_nat_alt unat_of_nat)

text \<open>
  What a technique sends for the group \<open>xs\<close>: the array \<open>input\<close>, the value sent by the variable
  length code and the values that are packed.
\<close>

inductive coding :: "u64 list \<Rightarrow> u64 \<Rightarrow> u8 \<Rightarrow> u64 list \<Rightarrow> u64 \<Rightarrow> u64 list \<Rightarrow> bool" for xs minvalue where
  frame: "input = map (\<lambda>x. x - minvalue) xs \<Longrightarrow>
    coding xs minvalue FRAME_OF_REFERENCE input minvalue input"
| delta: "vs = deltas (hd xs) (tl xs) \<Longrightarrow> input = hd xs # vs \<Longrightarrow>
    coding xs minvalue FRAME_OF_REFERENCE_DELTA input (hd xs) vs"
| delta_negative: "vs = map shifted_integer_encode (deltas (hd xs) (tl xs)) \<Longrightarrow> input = hd xs # vs \<Longrightarrow>
    coding xs minvalue FRAME_OF_REFERENCE_DELTA_NEGATIVE input (hd xs) vs"

lemma choose_coding_coding:
  assumes "choose_coding xs = (nbits, t, minvalue, input)"
  shows "\<exists>n base vs. nbits = of_nat n \<and> n \<le> 64 \<and> coding xs minvalue t input base vs \<and> (\<forall>v \<in> set vs. take_bit n v = v)"
proof -
  obtain inc where scan: "scan_minvalue (hd xs) (hd xs) (tl xs) = (fst (scan_minvalue (hd xs) (hd xs) (tl xs)), inc)"
    by (metis prod.collapse)
  let ?min = "fst (scan_minvalue (hd xs) (hd xs) (tl xs))"
  let ?gaps = "deltas (hd xs) (tl xs)"
  let ?frame = "map (\<lambda>x. x - ?min) xs"
  obtain nf where nf: "nbits_of ?frame = of_nat nf" "nf \<le> 64" "\<forall>v \<in> set ?frame. take_bit nf v = v"
    by (rule nbits_of_fits)
  obtain nd where nd: "nbits_of ?gaps = of_nat nd" "nd \<le> 64" "\<forall>v \<in> set ?gaps. take_bit nd v = v"
    by (rule nbits_of_fits)
  obtain nn where nn: "nbits_of (map shifted_integer_encode ?gaps) = of_nat nn" "nn \<le> 64"
      "\<forall>v \<in> set (map shifted_integer_encode ?gaps). take_bit nn v = v"
    by (rule nbits_of_fits)
  have min: "minvalue = ?min"
    using assms by (subst (asm) choose_coding_def, subst (asm) scan) (auto simp: Let_def split: if_splits)
  from assms have "(nbits, t, input) = (of_nat nf, FRAME_OF_REFERENCE, ?frame)
      \<or> (nbits, t, input) = (of_nat nd, FRAME_OF_REFERENCE_DELTA, hd xs # ?gaps)
      \<or> (nbits, t, input) = (of_nat nn, FRAME_OF_REFERENCE_DELTA_NEGATIVE, hd xs # map shifted_integer_encode ?gaps)"
    unfolding choose_coding_def
    by (subst (asm) scan)
      (cases inc; auto simp: Let_def nf nd nn u8_le_255 nat_u8_less split: if_splits)
  then show ?thesis
  proof (elim disjE)
    assume "(nbits, t, input) = (of_nat nf, FRAME_OF_REFERENCE, ?frame)"
    then show ?thesis
      using nf(2,3) min by (intro exI [of _ nf] exI [of _ minvalue] exI [of _ ?frame]) (simp add: coding.frame)
  next
    assume "(nbits, t, input) = (of_nat nd, FRAME_OF_REFERENCE_DELTA, hd xs # ?gaps)"
    then show ?thesis
      using nd(2,3) by (intro exI [of _ nd] exI [of _ "hd xs"] exI [of _ ?gaps]) (simp add: coding.delta)
  next
    assume "(nbits, t, input)
      = (of_nat nn, FRAME_OF_REFERENCE_DELTA_NEGATIVE, hd xs # map shifted_integer_encode ?gaps)"
    then show ?thesis
      using nn(2,3)
      by (intro exI [of _ nn] exI [of _ "hd xs"] exI [of _ "map shifted_integer_encode ?gaps"])
        (simp add: coding.delta_negative)
  qed
qed

lemma sum_up_deltas: "sum_up p (deltas p xs) = xs"
  by (induction xs arbitrary: p) simp_all

lemma length_deltas [simp]: "length (deltas p xs) = length xs"
  by (induction xs arbitrary: p) simp_all

lemma deltas_zero: "\<forall>v \<in> set (deltas p xs). v = 0 \<Longrightarrow> xs = replicate (length xs) p"
  by (induction xs arbitrary: p) auto

text \<open>The bytes of the code of a group.\<close>

definition frame_code :: "u64 list \<Rightarrow> bytes" where
  "frame_code xs =
     (if xs = [] then []
      else let (nbits, t, minvalue, input) = choose_coding xs;
               nbits = round_nbits nbits;
               (base, vs) = (if t = FRAME_OF_REFERENCE then (minvalue, input) else (hd input, tl input))
           in for_header t nbits # variable_code base @
              (if nbits = 0 then [] else the (pack_switch nbits vs)))"

lemma fits_mono: "take_bit n v = v \<Longrightarrow> n \<le> m \<Longrightarrow> take_bit m v = v" for v :: "'a::len word"
  by (metis min.absorb1 min.commute take_bit_take_bit)

text \<open>Everything the two directions need to know about the code of a group.\<close>

lemma frame_code_cases:
  assumes "xs \<noteq> []"
  obtains t minvalue input m n base vs where
    "choose_coding xs = (of_nat n, t, minvalue, input)" "round_nbits (of_nat n) = of_nat m"
    "m \<in> {0, 1, 2, 4, 8, 16, 32, 64}" "coding xs minvalue t input base vs"
    "\<forall>v \<in> set vs. take_bit m v = v"
    "frame_code xs = for_header t (of_nat m) # variable_code base @
       (if m = 0 then [] else the (pack_switch (of_nat m) vs))"
proof -
  obtain nbits t minvalue input where c: "choose_coding xs = (nbits, t, minvalue, input)"
    by (metis prod_cases4)
  then obtain n base vs where n: "nbits = of_nat n" "n \<le> 64" "coding xs minvalue t input base vs"
      "\<forall>v \<in> set vs. take_bit n v = v"
    using choose_coding_coding by blast
  obtain m where m: "m \<in> {0, 1, 2, 4, 8, 16, 32, 64}" "round_nbits (of_nat n) = of_nat m" "n \<le> m"
    using round_nbits_small [OF n(2)] by blast
  have "(of_nat m :: u8) = 0 \<longleftrightarrow> m = 0" using m(1) by auto
  moreover have "(if t = FRAME_OF_REFERENCE then (minvalue, input) else (hd input, tl input)) = (base, vs)"
    using n(3) by cases (simp_all add: codec_numbers)
  ultimately have "frame_code xs = for_header t (of_nat m) # variable_code base @
       (if m = 0 then [] else the (pack_switch (of_nat m) vs))"
    using assms c n(1) m(2) by (auto simp: frame_code_def Let_def)
  moreover have "\<forall>v \<in> set vs. take_bit m v = v" using n(4) m(3) fits_mono by blast
  ultimately show ?thesis using that c n m by blast
qed

lemma coding_nonempty: "coding xs minvalue t input base vs \<Longrightarrow> xs \<noteq> [] \<Longrightarrow> input \<noteq> []"
  by (cases rule: coding.cases) auto

lemma coding_technique: "coding xs minvalue t input base vs \<Longrightarrow> t \<in> {0, 1, 2}"
  by (cases rule: coding.cases) (auto simp: codec_numbers)

lemma coding_select:
  "coding xs minvalue t input base vs \<Longrightarrow>
   (if t = FRAME_OF_REFERENCE then (minvalue, input) else (hd input, tl input)) = (base, vs)"
  by (cases rule: coding.cases) (auto simp: codec_numbers)

lemma zero_word: "m \<in> {0, 1, 2, 4, 8, 16, 32, 64} \<Longrightarrow> (of_nat m :: u8) = 0 \<longleftrightarrow> m = 0"
  by auto

text \<open>A group of one value is sent without packing, so no packer runs on an empty array.\<close>

lemma choose_coding_single: "choose_coding [x] = (0, FRAME_OF_REFERENCE, x, [0])"
  by (simp add: choose_coding_def nbits_of_def n_leading_zeros_def)

lemma shifted_integer_decode_zero: "shifted_integer_decode 0 = 0"
  by (simp add: shifted_integer_decode_def)

lemma deltas_Nil: "deltas p xs = [] \<longleftrightarrow> xs = []" "[] = deltas p xs \<longleftrightarrow> xs = []"
  by (cases xs; simp)+

lemma coding_packed:
  assumes "coding xs minvalue t input base vs" and "xs \<noteq> []"
    and "choose_coding xs = (nbits, t, minvalue, input)"
  shows "vs \<noteq> []"
proof
  assume "vs = []"
  have "t \<noteq> FRAME_OF_REFERENCE \<and> tl xs = []"
    using assms(1)
  proof cases
    case frame
    then show ?thesis using \<open>vs = []\<close> assms(2) by simp
  next
    case delta
    then show ?thesis using \<open>vs = []\<close> by (simp add: codec_numbers deltas_Nil)
  next
    case delta_negative
    then show ?thesis using \<open>vs = []\<close> by (simp add: codec_numbers deltas_Nil)
  qed
  with assms(2) obtain x where "xs = [x]" by (cases xs) auto
  with assms(3) \<open>t \<noteq> FRAME_OF_REFERENCE \<and> tl xs = []\<close> show False by (simp add: choose_coding_single)
qed

lemma frame_of_reference_encode_code:
  assumes "length xs \<le> 128" and "oarc_ok oarc"
  obtains oarc' where "frame_of_reference_encode_128 xs oarc = Some oarc'" "oarc_ok oarc'"
    "oarc_contents oarc' = oarc_contents oarc @ frame_code xs"
proof (cases "xs = []")
  case True
  then show ?thesis using that assms by (simp add: frame_of_reference_encode_128_def frame_code_def)
next
  case False
  then obtain t minvalue input m n base vs where c:
    "choose_coding xs = (of_nat n, t, minvalue, input)" "round_nbits (of_nat n) = of_nat m"
    "m \<in> {0, 1, 2, 4, 8, 16, 32, 64}" "coding xs minvalue t input base vs"
    "\<forall>v \<in> set vs. take_bit m v = v"
    "frame_code xs = for_header t (of_nat m) # variable_code base @
       (if m = 0 then [] else the (pack_switch (of_nat m) vs))"
    by (rule frame_code_cases)
  define h where "h = direct_assign [for_header t (of_nat m)] oarc"
  define e where "e = variable_encode base h"
  have h: "oarc_ok h" "oarc_contents h = oarc_contents oarc @ [for_header t (of_nat m)]"
    using assms(2) by (simp_all add: h_def codec)
  then have e: "oarc_ok e" "oarc_contents e = oarc_contents oarc @ for_header t (of_nat m) # variable_code base"
    by (simp_all add: e_def variable_encode_code)
  have enc: "frame_of_reference_encode_128 xs oarc =
      (if m = 0 then Some e else map_option (\<lambda>pack. oarc_write pack e) (pack_switch (of_nat m) vs))"
    using False assms(1) c(1,2) zero_word [OF c(3)] coding_select [OF c(4)]
    by (cases "t = FRAME_OF_REFERENCE")
      (auto simp: frame_of_reference_encode_128_def for_header_def [symmetric] Let_def e_def h_def)
  show ?thesis
  proof (cases "m = 0")
    case True
    then show ?thesis using that enc e c(6) by simp
  next
    case m: False
    have "vs \<noteq> []" by (rule coding_packed [OF c(4) False c(1)])
    then obtain bs where "pack_switch (of_nat m) vs = Some bs"
      using pack_switch_width [of m vs] c(3,5) m by blast
    then show ?thesis using that enc e c(6) m by (simp add: codec)
  qed
qed


lemma frame_of_reference_decode_code:
  assumes "length xs \<le> 128" and rest: "iarc_rest iarc = frame_code xs @ r"
  shows "frame_of_reference_decode_128 (length xs) iarc = Some (xs, iarc_skip (length (frame_code xs)) iarc)"
proof (cases "xs = []")
  case True
  then show ?thesis by (simp add: frame_of_reference_decode_128_def frame_code_def)
next
  case False
  then obtain t minvalue input m n base vs where c:
    "choose_coding xs = (of_nat n, t, minvalue, input)" "round_nbits (of_nat n) = of_nat m"
    "m \<in> {0, 1, 2, 4, 8, 16, 32, 64}" "coding xs minvalue t input base vs"
    "\<forall>v \<in> set vs. take_bit m v = v"
    "frame_code xs = for_header t (of_nat m) # variable_code base @
       (if m = 0 then [] else the (pack_switch (of_nat m) vs))"
    by (rule frame_code_cases)
  let ?h = "for_header t (of_nat m)" and ?a = "iarc_skip 1 iarc"
  note fields = for_header_fields [OF coding_technique [OF c(4)] c(3)]
  have head: "read_into 1 iarc = Some (?h, ?a)"
    using rest c(6) by (subst read_into_skip [where bs = "[?h]"]) simp_all
  have base: "variable_decode ?a = Some (base, iarc_skip (length (variable_code base)) ?a)"
    using rest c(6) by (intro variable_decode_code) simp
  show ?thesis
  proof (cases "m = 0")
    case True
    have "xs = replicate (length xs) base"
      using c(4) False
    proof cases
      case frame
      then have "\<forall>x \<in> set xs. x = minvalue" using c(5) True by simp
      with frame show ?thesis by (simp add: replicate_eqI)
    next
      case delta
      then show ?thesis using c(5) True False deltas_zero [of "hd xs" "tl xs"] by (cases xs) auto
    next
      case delta_negative
      then have "\<forall>v \<in> set (deltas (hd xs) (tl xs)). v = 0"
        using c(5) True shifted_integer_decode_encode shifted_integer_decode_zero by (metis imageI list.set_map take_bit_0)
      with delta_negative show ?thesis using False deltas_zero [of "hd xs" "tl xs"] by (cases xs) auto
    qed
    then have "replicate (length xs) base = xs" by (rule sym)
    with head base fields True False assms(1) c(6) show ?thesis
      by (simp add: frame_of_reference_decode_128_def Let_def)
  next
    case m: False
    have "vs \<noteq> []" by (rule coding_packed [OF c(4) False c(1)])
    then obtain bs where bs: "pack_switch (of_nat m) vs = Some bs" "length bs = (m * length vs + 7) div 8"
        "unpack_width m bs (length vs) = Some vs"
      using pack_switch_width [of m vs] c(3,5) m by blast
    let ?b = "iarc_skip (length (variable_code base)) ?a"
    have "iarc_rest ?b = bs @ r" using rest c(6) bs(1) m by simp
    then have vs: "unpack_switch (of_nat m) (length vs) ?b = Some (vs, iarc_skip (length bs) ?b)"
      using c(3) m bs by (intro unpack_switch_width) auto
    have code: "frame_code xs = ?h # variable_code base @ bs" using c(6) bs(1) m by simp
    note unfold = frame_of_reference_decode_128_def Let_def codec_numbers
    note facts = head base fields zero_word [OF c(3)] m False assms(1) vs code
    show ?thesis
      using c(4)
    proof cases
      case frame
      then show ?thesis using facts by (simp add: unfold comp_def)
    next
      case delta
      then show ?thesis using facts by (simp add: unfold sum_up_deltas)
    next
      case delta_negative
      then show ?thesis using facts
        by (simp add: unfold sum_up_deltas shifted_integer_decode_encode comp_def)
    qed
  qed
qed

section \<open>Properties\<close>

lemma length_variable_code:
  "length (variable_code s) = (case find (\<lambda>k. unat s < 2 ^ (7 * k)) [1..<8] of Some k \<Rightarrow> k | None \<Rightarrow> 9)"
proof -
  have "drop_bit n s = 0 \<longleftrightarrow> unat s < 2 ^ n" for n
    by (metis div_eq_0_iff drop_bit_eq_div not_gr0 power_eq_0_iff unat_drop_bit_eq unat_eq_0 zero_neq_numeral)
  then show ?thesis by (simp add: variable_code_def split: option.split)
qed

text \<open>
  Round trip of the variable length code: \<open>variable_encode\<close> appends a code to whatever the
  archive holds, and \<open>variable_decode\<close>, reading from an archive whose next bytes are this code
  (and any bytes after it), returns the integer and stops right behind the code.
\<close>

theorem variable_round_trip:
  assumes "oarc_ok oarc"
  shows "\<exists>code. oarc_contents (variable_encode s oarc) = oarc_contents oarc @ code
      \<and> (\<forall>iarc r. iarc_rest iarc = code @ r \<longrightarrow>
            variable_decode iarc = Some (s, iarc_skip (length code) iarc))"
  using variable_encode_code(1) [OF assms] variable_decode_code by blast

theorem variable_round_trip_witness:
  "\<exists>code. oarc_contents (variable_encode 300 (oarchive_new (\<lambda>_. 7))) = code
      \<and> variable_decode (iarchive_new (code @ [1, 2]) 0) = Some (300, iarc_skip (length code) (iarchive_new (code @ [1, 2]) 0))"
  using variable_round_trip [of "oarchive_new (\<lambda>_. 7)" 300] by auto

text \<open>
  Size of the variable length code: \<open>k\<close> bytes for the least \<open>k \<le> 7\<close> such that the integer
  has at most \<open>7 * k\<close> bits, and 9 bytes for every integer of 50 bits or more.
\<close>

theorem variable_encode_length:
  assumes "oarc_ok oarc"
  shows "length (oarc_contents (variable_encode s oarc)) = length (oarc_contents oarc) +
      (case find (\<lambda>k. unat s < 2 ^ (7 * k)) [1..<8] of Some k \<Rightarrow> k | None \<Rightarrow> 9)"
  using variable_encode_code(1) [OF assms, of s] length_variable_code [of s] by simp

theorem variable_encode_length_witness:
  "length (oarc_contents (variable_encode 128 oarchive_stream)) = 2"
proof -
  have "find (\<lambda>k. unat (128 :: u64) < 2 ^ (7 * k)) [1..<8] = Some 2"
    by (simp add: upt_rec)
  then show ?thesis using variable_encode_length [of oarchive_stream 128] by simp
qed

text \<open>
  The sign folding is the zigzag numbering: a non-negative \<open>n\<close> goes to \<open>2 n\<close> and a negative
  one to \<open>- 2 n - 1\<close>, so small magnitudes of either sign give small unsigned numbers. This covers
  all 64-bit values, \<open>INT64_MIN\<close> included.
\<close>

theorem shifted_integer_zigzag:
  "uint (shifted_integer_encode val) = (if 0 \<le> sint val then 2 * sint val else - 2 * sint val - 1)"
  by (rule shifted_integer_encode_zigzag)

text \<open>The sign folding is undone by \<open>shifted_integer_decode\<close>, for every 64-bit value.\<close>

theorem shifted_integer_round_trip: "shifted_integer_decode (shifted_integer_encode val) = val"
  by (rule shifted_integer_decode_encode)

text \<open>
  The Duff's devices that pack 1, 2 or 4 bits per value and their unpackers are inverse, for
  every non-empty group whose values fit the width, whatever its length modulo 8: the packer
  produces exactly \<open>ceil (w * len / 8)\<close> bytes and the unpacker of these bytes gives the group back.
\<close>

theorem duff_pack_round_trip:
  assumes "vs \<noteq> []" and "w \<in> {1, 2, 4}" and "\<forall>v \<in> set vs. unat v < 2 ^ w"
  shows "\<exists>bs. (if w = 1 then pack_1 vs else if w = 2 then pack_2 vs else pack_4 vs) = Some bs
      \<and> length bs = (w * length vs + 7) div 8
      \<and> (if w = 1 then unpack_1 bs (length vs) else if w = 2 then unpack_2 bs (length vs)
         else unpack_4 bs (length vs)) = Some vs"
proof -
  have fits: "\<forall>v \<in> set vs. take_bit w v = v"
    using assms(3) by (metis take_bit_nat_eq_self unsigned_take_bit_eq word_eq_iff_unsigned)
  consider "w = 1" | "w = 2" | "w = 4" using assms(2) by blast
  then show ?thesis
    using pack_1_unpack [OF assms(1)] pack_2_unpack [OF assms(1)] pack_4_unpack [OF assms(1)] fits
    by cases simp_all
qed

theorem duff_pack_round_trip_witness:
  "\<exists>bs. pack_2 [3, 0, 1, 2, 1] = Some bs \<and> length bs = 2 \<and> unpack_2 bs 5 = Some [3, 0, 1, 2, 1]"
proof -
  have len: "length [3, 0, 1, 2, 1 :: u64] = 5" by simp
  have "[3, 0, 1, 2, 1 :: u64] \<noteq> []" "(2 :: nat) \<in> {1, 2, 4}"
    "\<forall>v \<in> set [3, 0, 1, 2, 1 :: u64]. unat v < 2 ^ 2" by simp_all
  from duff_pack_round_trip [OF this, unfolded len] show ?thesis by simp
qed

text \<open>
  C4. Round trip of the frame-of-reference code: for every group of at most 128 integers the
  encoder succeeds (no packer reads past its group), keeps the archive well formed and appends a
  code from which the decoder, told the group's length, recovers the group exactly and stops right
  behind the code, whichever of the three techniques and eight widths was chosen.
\<close>

theorem frame_of_reference_round_trip:
  assumes "length xs \<le> 128" and "oarc_ok oarc"
  shows "\<exists>oarc' code. frame_of_reference_encode_128 xs oarc = Some oarc' \<and> oarc_ok oarc'
      \<and> oarc_contents oarc' = oarc_contents oarc @ code
      \<and> (\<forall>iarc r. iarc_rest iarc = code @ r \<longrightarrow>
            frame_of_reference_decode_128 (length xs) iarc = Some (xs, iarc_skip (length code) iarc))"
  using frame_of_reference_encode_code [OF assms] frame_of_reference_decode_code [OF assms(1)] by metis

theorem frame_of_reference_round_trip_witness:
  "\<exists>oarc' code. frame_of_reference_encode_128 [10, 5, 900, 12] (oarchive_new (\<lambda>_. 0)) = Some oarc'
      \<and> oarc_contents oarc' = code
      \<and> frame_of_reference_decode_128 4 (iarchive_new code 0)
        = Some ([10, 5, 900, 12], iarc_skip (length code) (iarchive_new code 0))"
proof -
  have "length [10, 5, 900, 12 :: u64] \<le> 128" "length [10, 5, 900, 12 :: u64] = 4" by simp_all
  from this(1) frame_of_reference_round_trip [of "[10, 5, 900, 12]" "oarchive_new (\<lambda>_. 0)", unfolded this(2)]
  obtain oarc' code where
    "frame_of_reference_encode_128 [10, 5, 900, 12] (oarchive_new (\<lambda>_. 0)) = Some oarc'"
    "oarc_contents oarc' = code"
    "\<forall>iarc r. iarc_rest iarc = code @ r \<longrightarrow>
       frame_of_reference_decode_128 4 iarc = Some ([10, 5, 900, 12], iarc_skip (length code) iarc)"
    by auto
  then show ?thesis by (metis append_Nil2 iarc_rest_new)
qed

end
