(* ===== verification/Serialization.thy ===== *)
theory Serialization
  imports Archive
begin

text \<open>
  The generic serializers of \<open>serialization/basic_types.hpp\<close>, \<open>serialization/vector.hpp\<close> and
  the plain-data case of \<open>oarchive.hpp\<close> / \<open>iarchive.hpp\<close>: integers, byte strings, pairs and
  vectors. The C++ templates dispatch on the element type; here the element's \<open>save\<close> and
  \<open>load\<close> are arguments. The locale \<open>serializable\<close> is the contract between a \<open>save\<close> and its
  \<open>load\<close>: what is written is the type's image and loading the image returns the value and
  consumes exactly the image.
\<close>

section \<open>Plain data\<close>

definition save_pod :: "nat \<Rightarrow> 'a::len word \<Rightarrow> oarchive \<Rightarrow> oarchive" where
  "save_pod n t = direct_assign (le_bytes n t)"

definition load_pod :: "nat \<Rightarrow> iarchive \<Rightarrow> ('a::len word \<times> iarchive) option" where
  "load_pod n a = read_into n a"

abbreviation save_size :: "nat \<Rightarrow> oarchive \<Rightarrow> oarchive" where
  "save_size n \<equiv> save_pod 8 (of_nat n :: u64)"

section \<open>Strings, pairs and vectors\<close>

definition save_string :: "bytes \<Rightarrow> oarchive \<Rightarrow> oarchive" where
  "save_string s a =
     (let len = length s; a = save_size len a in oarc_write s a)"

definition load_string :: "iarchive \<Rightarrow> (bytes \<times> iarchive) option" where
  "load_string a = do {
     (len, a) \<leftarrow> load_pod 8 a;
     iarc_read (unat (len :: u64)) a
   }"

definition save_pair ::
  "('s \<Rightarrow> oarchive \<Rightarrow> oarchive) \<Rightarrow> ('t \<Rightarrow> oarchive \<Rightarrow> oarchive) \<Rightarrow> 's \<times> 't \<Rightarrow> oarchive \<Rightarrow> oarchive"
where
  "save_pair save_s save_t p a = save_t (snd p) (save_s (fst p) a)"

definition load_pair ::
  "(iarchive \<Rightarrow> ('s \<times> iarchive) option) \<Rightarrow> (iarchive \<Rightarrow> ('t \<times> iarchive) option) \<Rightarrow>
   iarchive \<Rightarrow> (('s \<times> 't) \<times> iarchive) option"
where
  "load_pair load_s load_t a = do { (x, a) \<leftarrow> load_s a; (y, a) \<leftarrow> load_t a; Some ((x, y), a) }"

text \<open>A vector whose elements are not plain data: the size, then each element in turn.\<close>

definition save_vector :: "('t \<Rightarrow> oarchive \<Rightarrow> oarchive) \<Rightarrow> 't list \<Rightarrow> oarchive \<Rightarrow> oarchive" where
  "save_vector save vec a = fold save vec (save_size (length vec) a)"

primrec load_elements ::
  "(iarchive \<Rightarrow> ('t \<times> iarchive) option) \<Rightarrow> nat \<Rightarrow> iarchive \<Rightarrow> ('t list \<times> iarchive) option" where
  "load_elements load 0 a = Some ([], a)"
| "load_elements load (Suc n) a =
     do { (x, a) \<leftarrow> load a; (xs, a) \<leftarrow> load_elements load n a; Some (x # xs, a) }"

definition load_vector ::
  "(iarchive \<Rightarrow> ('t \<times> iarchive) option) \<Rightarrow> iarchive \<Rightarrow> ('t list \<times> iarchive) option" where
  "load_vector load a = do {
     (len, a) \<leftarrow> load_pod 8 a;
     load_elements load (unat (len :: u64)) a
   }"

text \<open>A vector of plain data of \<open>n\<close> bytes each: the size, then all of its memory in one write.\<close>

definition save_pod_vector :: "nat \<Rightarrow> 'a::len word list \<Rightarrow> oarchive \<Rightarrow> oarchive" where
  "save_pod_vector n vec a =
     oarc_write (concat (map (le_bytes n) vec)) (save_size (length vec) a)"

primrec words_of_bytes :: "nat \<Rightarrow> nat \<Rightarrow> bytes \<Rightarrow> 'a::len word list" where
  "words_of_bytes n 0 bs = []"
| "words_of_bytes n (Suc k) bs = le_word (take n bs) # words_of_bytes n k (drop n bs)"

definition load_pod_vector :: "nat \<Rightarrow> iarchive \<Rightarrow> ('a::len word list \<times> iarchive) option" where
  "load_pod_vector n a = do {
     (len, a) \<leftarrow> load_pod 8 a;
     (bs, a) \<leftarrow> iarc_read (n * unat (len :: u64)) a;
     Some (words_of_bytes n (unat len) bs, a)
   }"

lemma words_of_bytes_image [codec]:
  "LENGTH('a) = 8 * n \<Longrightarrow>
   words_of_bytes n (length ws) (concat (map (le_bytes n) ws) @ r) = (ws :: 'a::len word list)"
  by (induction ws) simp_all

lemma length_concat_image [simp]: "length (concat (map (le_bytes n) ws)) = n * length ws"
  by (induction ws) simp_all

section \<open>The contract of a serializer\<close>

locale serializable =
  fixes save :: "'t \<Rightarrow> oarchive \<Rightarrow> oarchive"
    and load :: "iarchive \<Rightarrow> ('t \<times> iarchive) option"
    and img :: "'t \<Rightarrow> bytes"
    and valid :: "'t \<Rightarrow> bool"
  assumes save_contents: "oarc_ok a \<Longrightarrow> oarc_contents (save x a) = oarc_contents a @ img x"
    and save_ok: "oarc_ok a \<Longrightarrow> oarc_ok (save x a)"
    and load_img:
      "valid x \<Longrightarrow> iarc_rest b = img x @ r \<Longrightarrow> load b = Some (x, iarc_skip (length (img x)) b)"
begin

text \<open>Saving to any archive and loading the bytes back returns the value.\<close>

lemma save_load:
  assumes "valid x" and "oarc_ok a" and "oarc_contents a = []"
  shows "load (iarchive_new (oarc_contents (save x a) @ r) n)
       = Some (x, iarc_skip (length (img x)) (iarchive_new (oarc_contents (save x a) @ r) n))"
  using assms by (intro load_img [where r = r]) (simp_all add: save_contents)

lemma fold_save:
  assumes "oarc_ok a"
  shows "oarc_ok (fold save xs a) \<and> oarc_contents (fold save xs a) = oarc_contents a @ concat (map img xs)"
  using assms
proof (induction xs arbitrary: a)
  case (Cons x xs)
  from Cons.IH [of "save x a"] Cons.prems show ?case
    by (simp add: save_contents save_ok)
qed simp

lemma load_elements_images:
  assumes "\<forall>x \<in> set xs. valid x" and "iarc_rest b = concat (map img xs) @ r"
  shows "load_elements load (length xs) b = Some (xs, iarc_skip (length (concat (map img xs))) b)"
  using assms
proof (induction xs arbitrary: b)
  case (Cons x xs)
  have "load b = Some (x, iarc_skip (length (img x)) b)"
    using Cons.prems by (intro load_img [where r = "concat (map img xs) @ r"]) simp_all
  moreover from Cons.prems have "iarc_rest (iarc_skip (length (img x)) b) = concat (map img xs) @ r"
    by simp
  ultimately show ?case
    using Cons.IH [of "iarc_skip (length (img x)) b"] Cons.prems by simp
qed simp

end

lemma pod_serializable:
  assumes "LENGTH('a::len) = 8 * n"
  shows "serializable (save_pod n) (load_pod n :: iarchive \<Rightarrow> ('a word \<times> iarchive) option) (le_bytes n) (\<lambda>_. True)"
  using assms
  by unfold_locales (simp_all add: save_pod_def load_pod_def codec)

interpretation u64_pod: serializable "save_pod 8"
  "load_pod 8 :: iarchive \<Rightarrow> (u64 \<times> iarchive) option" "le_bytes 8" "\<lambda>_. True"
  by (rule pod_serializable) simp

interpretation u8_pod: serializable "save_pod 1"
  "load_pod 1 :: iarchive \<Rightarrow> (u8 \<times> iarchive) option" "le_bytes 1" "\<lambda>_. True"
  by (rule pod_serializable) simp

lemma unat_of_size: "n < 2 ^ 64 \<Longrightarrow> unat (of_nat n :: u64) = n"
  by (simp add: unat_of_nat)

lemma load_size:
  "n < 2 ^ 64 \<Longrightarrow> iarc_rest b = le_bytes 8 (of_nat n :: u64) @ r \<Longrightarrow>
   load_pod 8 b = Some (of_nat n :: u64, iarc_skip 8 b)"
  using u64_pod.load_img [of b "of_nat n :: u64" r] by simp

definition string_img :: "bytes \<Rightarrow> bytes" where
  "string_img s = le_bytes 8 (of_nat (length s) :: u64) @ s"

interpretation string_ser: serializable save_string load_string string_img "\<lambda>s. length s < 2 ^ 64"
proof unfold_locales
  fix b :: iarchive and s r :: bytes
  assume len: "length s < 2 ^ 64" and rest: "iarc_rest b = string_img s @ r"
  have "load_pod 8 b = Some (of_nat (length s) :: u64, iarc_skip 8 b)"
    using len rest by (intro load_size [where r = "s @ r"]) (simp_all add: string_img_def)
  moreover have "iarc_read (length s) (iarc_skip 8 b) = Some (s, iarc_skip (length s) (iarc_skip 8 b))"
    using rest by (intro iarc_read_skip [where r = r]) (simp_all add: string_img_def)
  ultimately show "load_string b = Some (s, iarc_skip (length (string_img s)) b)"
    using len by (simp add: load_string_def unat_of_size string_img_def)
qed (simp_all add: save_string_def string_img_def Let_def u64_pod.save_contents u64_pod.save_ok codec)

definition vector_img :: "('t \<Rightarrow> bytes) \<Rightarrow> 't list \<Rightarrow> bytes" where
  "vector_img img xs = le_bytes 8 (of_nat (length xs) :: u64) @ concat (map img xs)"

context serializable
begin

text \<open>A vector of serializable elements is serializable.\<close>

lemma vector_serializable:
  "serializable (save_vector save) (load_vector load) (vector_img img)
     (\<lambda>xs. length xs < 2 ^ 64 \<and> (\<forall>x \<in> set xs. valid x))"
proof unfold_locales
  fix b :: iarchive and xs :: "'t list" and r :: bytes
  assume valid: "length xs < 2 ^ 64 \<and> (\<forall>x \<in> set xs. valid x)"
    and rest: "iarc_rest b = vector_img img xs @ r"
  have "load_pod 8 b = Some (of_nat (length xs) :: u64, iarc_skip 8 b)"
    using valid rest by (intro load_size [where r = "concat (map img xs) @ r"]) (simp_all add: vector_img_def)
  moreover have "load_elements load (length xs) (iarc_skip 8 b)
      = Some (xs, iarc_skip (length (concat (map img xs))) (iarc_skip 8 b))"
    using valid rest by (intro load_elements_images [where r = r]) (simp_all add: vector_img_def)
  ultimately show "load_vector load b = Some (xs, iarc_skip (length (vector_img img xs)) b)"
    using valid by (simp add: load_vector_def unat_of_size vector_img_def)
next
  fix a :: oarchive and xs :: "'t list"
  assume "oarc_ok a"
  with fold_save [of "save_size (length xs) a" xs]
  show "oarc_contents (save_vector save xs a) = oarc_contents a @ vector_img img xs"
    and "oarc_ok (save_vector save xs a)"
    by (simp_all add: save_vector_def vector_img_def u64_pod.save_contents u64_pod.save_ok)
qed

end

interpretation pod_vector_ser: serializable "save_pod_vector 8"
  "load_pod_vector 8 :: iarchive \<Rightarrow> (u64 list \<times> iarchive) option" "vector_img (le_bytes 8)"
  "\<lambda>xs. length xs < 2 ^ 64"
proof unfold_locales
  fix b :: iarchive and xs :: "u64 list" and r :: bytes
  assume len: "length xs < 2 ^ 64" and rest: "iarc_rest b = vector_img (le_bytes 8) xs @ r"
  have "load_pod 8 b = Some (of_nat (length xs) :: u64, iarc_skip 8 b)"
    using len rest by (intro load_size [where r = "concat (map (le_bytes 8) xs) @ r"]) (simp_all add: vector_img_def)
  moreover have "iarc_read (8 * length xs) (iarc_skip 8 b)
      = Some (concat (map (le_bytes 8) xs), iarc_skip (8 * length xs) (iarc_skip 8 b))"
    using rest by (intro iarc_read_skip [where r = r]) (simp_all add: vector_img_def)
  ultimately show "load_pod_vector 8 b = Some (xs, iarc_skip (length (vector_img (le_bytes 8) xs)) b)"
    using len words_of_bytes_image [of 8 xs "[]"]
    by (simp add: load_pod_vector_def unat_of_size vector_img_def)
qed (simp_all add: save_pod_vector_def vector_img_def u64_pod.save_contents u64_pod.save_ok codec)

text \<open>A pair of serializable values is serializable.\<close>

lemma pair_serializable:
  assumes "serializable s l i v" and "serializable s' l' i' v'"
  shows "serializable (save_pair s s') (load_pair l l') (\<lambda>(x, y). i x @ i' y) (\<lambda>(x, y). v x \<and> v' y)"
proof unfold_locales
  fix b :: iarchive and p and r :: bytes
  assume "case p of (x, y) \<Rightarrow> v x \<and> v' y" and rest: "iarc_rest b = (case p of (x, y) \<Rightarrow> i x @ i' y) @ r"
  then obtain x y where p: "p = (x, y)" "v x" "v' y" by (cases p) auto
  have "l b = Some (x, iarc_skip (length (i x)) b)"
    using serializable.load_img [OF assms(1) p(2), of b "i' y @ r"] rest p(1) by simp
  moreover have "l' (iarc_skip (length (i x)) b) = Some (y, iarc_skip (length (i' y)) (iarc_skip (length (i x)) b))"
    using serializable.load_img [OF assms(2) p(3), of "iarc_skip (length (i x)) b" r] rest p(1) by simp
  ultimately show "load_pair l l' b = Some (p, iarc_skip (length (case p of (x, y) \<Rightarrow> i x @ i' y)) b)"
    using p(1) by (simp add: load_pair_def)
next
  fix a :: oarchive and p
  assume "oarc_ok a"
  then show "oarc_contents (save_pair s s' p a) = oarc_contents a @ (case p of (x, y) \<Rightarrow> i x @ i' y)"
    and "oarc_ok (save_pair s s' p a)"
    by (cases p; simp add: save_pair_def serializable.save_contents [OF assms(1)] serializable.save_ok [OF assms(1)]
        serializable.save_contents [OF assms(2)] serializable.save_ok [OF assms(2)])+
qed

lemma u64_pair_serializable:
  "serializable (save_pair (save_pod 8) (save_pod 8)) (load_pair (load_pod 8) (load_pod 8))
     (\<lambda>(x, y). le_bytes 8 (x :: u64) @ le_bytes 8 (y :: u64)) (\<lambda>(x, y). True \<and> True)"
  by (rule pair_serializable) unfold_locales

end
