(* ===== verification/Flex_Base.thy ===== *)
theory Flex_Base
  imports Serialization
begin

text \<open>
  The base types of \<open>flexible_type/flexible_type_base_types.hpp\<close> and \<open>image/image_type.cpp\<close>: the
  type enumeration with its tables of conversions and operators, its names and its common type,
  the 12-byte date-time with its 8-byte legacy form, and the image type. \<open>None\<close> is an exception
  (\<open>log_and_throw\<close> or \<open>throw\<close>) or a read past the end of the archive.
\<close>

section \<open>The type enumeration\<close>

datatype flex_type_enum =
  INTEGER | FLOAT | STRING | VECTOR | LIST | DICT | DATETIME | UNDEFINED | IMAGE

fun type_code :: "flex_type_enum \<Rightarrow> nat" where
  "type_code INTEGER = 0" | "type_code FLOAT = 1" | "type_code STRING = 2" | "type_code VECTOR = 3"
| "type_code LIST = 4" | "type_code DICT = 5" | "type_code DATETIME = 6" | "type_code UNDEFINED = 7"
| "type_code IMAGE = 8"

definition all_types :: "flex_type_enum list" where
  "all_types = [INTEGER, FLOAT, STRING, VECTOR, LIST, DICT, DATETIME, UNDEFINED, IMAGE]"

text \<open>\<open>(flex_type_enum) c\<close>: a value that is no enumerator fails every \<open>switch\<close> on the type.\<close>

definition type_of_code :: "nat \<Rightarrow> flex_type_enum option" where
  "type_of_code c = (if c < length all_types then Some (all_types ! c) else None)"

lemma type_of_code_type_code [simp]: "type_of_code (type_code t) = Some t"
  by (cases t) (simp_all add: type_of_code_def all_types_def)

lemma type_code_less: "type_code t < 9"
  by (cases t) simp_all

lemma type_code_inject [simp]: "type_code s = type_code t \<longleftrightarrow> s = t"
  by (metis option.inject type_of_code_type_code)

definition castable :: "bool list list" where
  "castable = map (map (\<lambda>n. n = (1 :: nat)))
    [[1, 1, 1, 0, 0, 0, 1, 0, 0],
     [1, 1, 1, 0, 0, 0, 1, 0, 0],
     [0, 0, 1, 0, 0, 0, 0, 0, 0],
     [0, 0, 1, 1, 1, 0, 0, 0, 0],
     [0, 0, 1, 0, 1, 0, 0, 0, 0],
     [0, 0, 1, 0, 0, 1, 0, 0, 0],
     [1, 1, 1, 0, 0, 0, 1, 0, 0],
     [0, 0, 1, 0, 0, 0, 0, 1, 0],
     [0, 0, 1, 1, 0, 0, 0, 0, 1]]"

definition flex_type_is_convertible :: "flex_type_enum \<Rightarrow> flex_type_enum \<Rightarrow> bool" where
  "flex_type_is_convertible from to = castable ! type_code from ! type_code to"

definition plus_operator :: "nat list list" where
  "plus_operator =
    [[1, 1, 0, 0, 0, 0, 0, 0, 0],
     [1, 1, 0, 0, 0, 0, 0, 0, 0],
     [0, 0, 1, 0, 0, 0, 0, 0, 0],
     [1, 1, 0, 1, 0, 0, 0, 0, 0],
     [0, 0, 0, 0, 0, 0, 0, 0, 0],
     [0, 0, 0, 0, 0, 0, 0, 0, 0],
     [1, 1, 0, 0, 0, 0, 0, 0, 0],
     [0, 0, 0, 0, 0, 0, 0, 0, 0],
     [0, 0, 0, 0, 0, 0, 0, 0, 0]]"

definition minus_operator :: "nat list list" where
  "minus_operator =
    [[1, 1, 0, 0, 0, 0, 0, 0, 0],
     [1, 1, 0, 0, 0, 0, 0, 0, 0],
     [0, 0, 0, 0, 0, 0, 0, 0, 0],
     [1, 1, 0, 1, 0, 0, 0, 0, 0],
     [0, 0, 0, 0, 0, 0, 0, 0, 0],
     [0, 0, 0, 0, 0, 0, 0, 0, 0],
     [1, 1, 0, 0, 0, 0, 0, 0, 0],
     [0, 0, 0, 0, 0, 0, 0, 0, 0],
     [0, 0, 0, 0, 0, 0, 0, 0, 0]]"

definition other_numeric_operators :: "nat list list" where
  "other_numeric_operators =
    [[1, 1, 0, 0, 0, 0, 0, 0, 0],
     [1, 1, 0, 0, 0, 0, 0, 0, 0],
     [0, 0, 0, 0, 0, 0, 0, 0, 0],
     [1, 1, 0, 1, 0, 0, 0, 0, 0],
     [0, 0, 0, 0, 0, 0, 0, 0, 0],
     [0, 0, 0, 0, 0, 0, 0, 0, 0],
     [0, 0, 0, 0, 0, 0, 0, 0, 0],
     [0, 0, 0, 0, 0, 0, 0, 0, 0],
     [0, 0, 0, 0, 0, 0, 0, 0, 0]]"

text \<open>The rows of this table have eight entries in the source; the ninth is initialised to 0.\<close>

definition comparison_operators :: "nat list list" where
  "comparison_operators = map (\<lambda>row. row @ [0])
    [[1, 1, 0, 0, 0, 0, 1, 0],
     [1, 1, 0, 0, 0, 0, 1, 0],
     [0, 0, 1, 0, 0, 0, 0, 0],
     [0, 0, 0, 0, 0, 0, 0, 0],
     [0, 0, 0, 0, 0, 0, 0, 0],
     [0, 0, 0, 0, 0, 0, 0, 0],
     [1, 1, 0, 0, 0, 0, 1, 0],
     [0, 0, 0, 0, 0, 0, 0, 0],
     [0, 0, 0, 0, 0, 0, 0, 0]]"

definition equality_operators :: "nat list list" where
  "equality_operators =
    [[1, 1, 0, 0, 0, 0, 1, 1, 0],
     [1, 1, 0, 0, 0, 0, 1, 1, 0],
     [0, 0, 1, 0, 0, 0, 0, 1, 0],
     [0, 0, 0, 1, 0, 0, 0, 1, 0],
     [0, 0, 0, 0, 0, 0, 0, 1, 0],
     [0, 0, 0, 0, 0, 0, 0, 1, 0],
     [1, 1, 0, 0, 0, 0, 1, 1, 0],
     [1, 1, 1, 1, 1, 1, 1, 1, 1],
     [0, 0, 0, 0, 0, 0, 0, 1, 0]]"

definition flex_type_has_binary_op :: "flex_type_enum \<Rightarrow> flex_type_enum \<Rightarrow> char \<Rightarrow> bool" where
  "flex_type_has_binary_op left right op =
     (let entry = (\<lambda>table. table ! type_code left ! type_code right \<noteq> 0) in
      if op = CHR ''+'' then entry plus_operator
      else if op = CHR ''-'' then entry minus_operator
      else if op \<in> {CHR ''*'', CHR ''/'', CHR ''%''} then entry other_numeric_operators
      else if op \<in> {CHR ''<'', CHR ''>''} then entry comparison_operators
      else if op = CHR ''='' then entry equality_operators
      else False)"

fun flex_type_enum_to_name :: "flex_type_enum \<Rightarrow> string" where
  "flex_type_enum_to_name INTEGER = ''integer''"
| "flex_type_enum_to_name DATETIME = ''datetime''"
| "flex_type_enum_to_name FLOAT = ''float''"
| "flex_type_enum_to_name STRING = ''string''"
| "flex_type_enum_to_name VECTOR = ''array''"
| "flex_type_enum_to_name LIST = ''list''"
| "flex_type_enum_to_name DICT = ''dictionary''"
| "flex_type_enum_to_name IMAGE = ''image''"
| "flex_type_enum_to_name UNDEFINED = ''NoneType''"

definition flex_type_enum_from_name :: "string \<Rightarrow> flex_type_enum option" where
  "flex_type_enum_from_name name = map_of
     [(''integer'', INTEGER), (''datetime'', DATETIME), (''float'', FLOAT), (''string'', STRING),
      (''array'', VECTOR), (''list'', LIST), (''dictionary'', DICT), (''image'', IMAGE),
      (''undefined'', UNDEFINED)] name"

text \<open>
  The argument is a \<open>std::set\<close>: its elements in increasing order, without duplicates.
\<close>

definition get_common_type :: "flex_type_enum list \<Rightarrow> flex_type_enum option" where
  "get_common_type types =
     (if length types = 0 then Some FLOAT
      else if length types = 1 then Some (hd types)
      else if length types = 2 then
        (if INTEGER \<in> set types \<and> FLOAT \<in> set types then Some FLOAT
         else if LIST \<in> set types \<and> VECTOR \<in> set types then Some LIST
         else Some UNDEFINED)
      else None)"

section \<open>Date and time\<close>

text \<open>
  The members are bit fields: 32 + 24 bits of timestamp, 8 bits of time zone, then 32 bits of
  microseconds. The last two are signed. In memory (little endian, fields from the low bits up)
  they are 4, 3, 1 and 4 bytes.
\<close>

record flex_date_time =
  m_posix_timestamp_low :: u32
  m_posix_timestamp_high :: "24 word"
  m_tz_15min_offset :: u8
  m_microsecond :: u32

definition TIMEZONE_LOW :: int where "TIMEZONE_LOW = - 48"
definition TIMEZONE_HIGH :: int where "TIMEZONE_HIGH = 48"
definition EMPTY_TIMEZONE :: int where "EMPTY_TIMEZONE = 64"
definition TIMEZONE_RESOLUTION_IN_SECONDS :: int where "TIMEZONE_RESOLUTION_IN_SECONDS = 900"
definition LEGACY_TIMEZONE_SHIFT :: int where "LEGACY_TIMEZONE_SHIFT = 25"
definition MICROSECONDS_PER_SECOND :: int where "MICROSECONDS_PER_SECOND = 1000000"

lemmas date_time_constants = TIMEZONE_LOW_def TIMEZONE_HIGH_def EMPTY_TIMEZONE_def
  TIMEZONE_RESOLUTION_IN_SECONDS_def LEGACY_TIMEZONE_SHIFT_def MICROSECONDS_PER_SECOND_def

definition date_time_default :: flex_date_time where
  "date_time_default = \<lparr>m_posix_timestamp_low = 0, m_posix_timestamp_high = 0,
     m_tz_15min_offset = of_int (EMPTY_TIMEZONE + LEGACY_TIMEZONE_SHIFT), m_microsecond = 0\<rparr>"

definition posix_timestamp :: "flex_date_time \<Rightarrow> u64" where
  "posix_timestamp d =
     (let unsigned_ts = push_bit 32 (ucast (m_posix_timestamp_high d)) + ucast (m_posix_timestamp_low d)
      in signed_drop_bit 8 (push_bit 8 unsigned_ts))"

definition time_zone_offset :: "flex_date_time \<Rightarrow> int" where
  "time_zone_offset d =
     (if sint (m_tz_15min_offset d) < 0 then sint (m_tz_15min_offset d) + LEGACY_TIMEZONE_SHIFT
      else sint (m_tz_15min_offset d) - LEGACY_TIMEZONE_SHIFT)"

definition shifted_posix_timestamp :: "flex_date_time \<Rightarrow> u64" where
  "shifted_posix_timestamp d =
     (if time_zone_offset d = EMPTY_TIMEZONE then posix_timestamp d
      else posix_timestamp d + of_int (time_zone_offset d * TIMEZONE_RESOLUTION_IN_SECONDS))"

definition set_posix_timestamp :: "u64 \<Rightarrow> flex_date_time \<Rightarrow> flex_date_time" where
  "set_posix_timestamp ts d =
     d\<lparr>m_posix_timestamp_high := ucast (drop_bit 32 ts), m_posix_timestamp_low := ucast ts\<rparr>"

definition microsecond :: "flex_date_time \<Rightarrow> int" where
  "microsecond d = sint (m_microsecond d)"

definition set_microsecond :: "int \<Rightarrow> flex_date_time \<Rightarrow> flex_date_time option" where
  "set_microsecond us d =
     (if us < 0 \<or> us \<ge> MICROSECONDS_PER_SECOND then None else Some (d\<lparr>m_microsecond := of_int us\<rparr>))"

definition set_time_zone_offset :: "int \<Rightarrow> flex_date_time \<Rightarrow> flex_date_time option" where
  "set_time_zone_offset tz d =
     (if (tz < TIMEZONE_LOW \<or> tz > TIMEZONE_HIGH) \<and> tz \<noteq> EMPTY_TIMEZONE then None
      else if tz < 0 then Some (d\<lparr>m_tz_15min_offset := of_int (tz - LEGACY_TIMEZONE_SHIFT)\<rparr>)
      else Some (d\<lparr>m_tz_15min_offset := of_int (tz + LEGACY_TIMEZONE_SHIFT)\<rparr>))"

text \<open>The constructor; the members are indeterminate (\<open>d\<close>) before the setters run.\<close>

definition date_time_new :: "flex_date_time \<Rightarrow> u64 \<Rightarrow> int \<Rightarrow> int \<Rightarrow> flex_date_time option" where
  "date_time_new d ts tz us =
     do { d \<leftarrow> set_time_zone_offset tz (set_posix_timestamp ts d); set_microsecond us d }"

definition date_time_less :: "flex_date_time \<Rightarrow> flex_date_time \<Rightarrow> bool" where
  "date_time_less a b \<longleftrightarrow> sint (posix_timestamp a) < sint (posix_timestamp b)
     \<or> (posix_timestamp a = posix_timestamp b \<and> microsecond a < microsecond b)"

definition date_time_greater :: "flex_date_time \<Rightarrow> flex_date_time \<Rightarrow> bool" where
  "date_time_greater a b \<longleftrightarrow> sint (posix_timestamp a) > sint (posix_timestamp b)
     \<or> (posix_timestamp a = posix_timestamp b \<and> microsecond a > microsecond b)"

definition date_time_equal :: "flex_date_time \<Rightarrow> flex_date_time \<Rightarrow> bool" where
  "date_time_equal a b \<longleftrightarrow> posix_timestamp a = posix_timestamp b \<and> microsecond a = microsecond b"

definition date_time_identical :: "flex_date_time \<Rightarrow> flex_date_time \<Rightarrow> bool" where
  "date_time_identical a b \<longleftrightarrow> posix_timestamp a = posix_timestamp b
     \<and> time_zone_offset a = time_zone_offset b \<and> microsecond a = microsecond b"

definition date_time_image :: "flex_date_time \<Rightarrow> bytes" where
  "date_time_image d = le_bytes 4 (m_posix_timestamp_low d) @ le_bytes 3 (m_posix_timestamp_high d)
     @ le_bytes 1 (m_tz_15min_offset d) @ le_bytes 4 (m_microsecond d)"

definition date_time_save :: "flex_date_time \<Rightarrow> oarchive \<Rightarrow> oarchive" where
  "date_time_save d oarc = oarc_write (date_time_image d) oarc"

definition date_time_load :: "flex_date_time \<Rightarrow> iarchive \<Rightarrow> (flex_date_time \<times> iarchive) option" where
  "date_time_load d iarc = do {
     (bs, iarc) \<leftarrow> iarc_read 8 iarc;
     let d = d\<lparr>m_posix_timestamp_low := le_word (take 4 bs),
               m_posix_timestamp_high := le_word (take 3 (drop 4 bs)),
               m_tz_15min_offset := le_word (drop 7 bs)\<rparr> in
     if sint (m_tz_15min_offset d) > - LEGACY_TIMEZONE_SHIFT \<and> sint (m_tz_15min_offset d) < LEGACY_TIMEZONE_SHIFT
     then do {
       d \<leftarrow> set_time_zone_offset (sint (m_tz_15min_offset d) * 2) d;
       Some (d\<lparr>m_microsecond := 0\<rparr>, iarc)
     }
     else do {
       (us, iarc) \<leftarrow> iarc_read 4 iarc;
       Some (d\<lparr>m_microsecond := le_word us\<rparr>, iarc)
     }
   }"

section \<open>Images\<close>

text \<open>The data is the array that \<open>m_image_data\<close> owns, \<open>[]\<close> for a null pointer.\<close>

record image_type =
  m_image_data :: bytes
  m_height :: u64
  m_width :: u64
  m_channels :: u64
  m_image_data_size :: u64
  m_version :: u8
  m_format :: u64

definition Format_RAW_ARRAY :: u64 where "Format_RAW_ARRAY = 2"
definition Format_UNDEFINED :: u64 where "Format_UNDEFINED = 3"

definition image_default :: image_type where
  "image_default = \<lparr>m_image_data = [], m_height = 0, m_width = 0, m_channels = 0,
     m_image_data_size = 0, m_version = 0, m_format = Format_UNDEFINED\<rparr>"

definition image_new :: "bytes \<Rightarrow> u64 \<Rightarrow> u64 \<Rightarrow> u64 \<Rightarrow> u64 \<Rightarrow> u32 \<Rightarrow> u32 \<Rightarrow> image_type option" where
  "image_new image_data height width channels image_data_size version format =
     (if unat image_data_size \<le> length image_data then
        Some \<lparr>m_image_data = take (unat image_data_size) image_data, m_height = height, m_width = width,
              m_channels = channels, m_image_data_size = image_data_size,
              m_version = ucast version, m_format = scast format\<rparr>
      else None)"

definition image_is_decoded :: "image_type \<Rightarrow> bool" where
  "image_is_decoded im \<longleftrightarrow> m_format im = Format_RAW_ARRAY"

definition image_save :: "image_type \<Rightarrow> oarchive \<Rightarrow> oarchive" where
  "image_save im oarc =
     (let oarc = save_pod 8 (m_image_data_size im) (save_pod 8 (m_format im) (save_pod 8 (m_channels im)
                 (save_pod 8 (m_width im) (save_pod 8 (m_height im) (save_pod 1 (m_version im) oarc)))))
      in if m_image_data_size im > 0 then oarc_write (m_image_data im) oarc else oarc)"

definition image_load :: "iarchive \<Rightarrow> (image_type \<times> iarchive) option" where
  "image_load iarc = do {
     (version, iarc) \<leftarrow> load_pod 1 iarc;
     (height, iarc) \<leftarrow> load_pod 8 iarc;
     (width, iarc) \<leftarrow> load_pod 8 iarc;
     (channels, iarc) \<leftarrow> load_pod 8 iarc;
     (format, iarc) \<leftarrow> load_pod 8 iarc;
     (data_size, iarc) \<leftarrow> load_pod 8 iarc;
     (data, iarc) \<leftarrow> (if data_size > 0 then iarc_read (unat data_size) iarc else Some ([], iarc));
     Some (\<lparr>m_image_data = data, m_height = height, m_width = width, m_channels = channels,
            m_image_data_size = data_size, m_version = version, m_format = format\<rparr>, iarc)
   }"

section \<open>Date and time\<close>

lemma sint_bits: "bit (sint w) i \<longleftrightarrow> bit w (min i 63)" for w :: u64
  by (simp add: sint_uint bit_signed_take_bit_iff bit_unsigned_iff min_def)

lemma small_sign_bits:
  fixes ts :: u64
  assumes "- (2 ^ 55) \<le> sint ts" and "sint ts < 2 ^ 55" and "55 \<le> i" and "i < 64"
  shows "bit ts i \<longleftrightarrow> bit ts 55"
proof -
  have "signed_take_bit 55 (sint ts) = sint ts" using assms(1,2) by (rule signed_take_bit_int_eq_self)
  moreover have "bit (signed_take_bit 55 (sint ts)) i \<longleftrightarrow> bit (sint ts) 55"
    using assms(3) by (simp add: bit_signed_take_bit_iff min_def)
  ultimately have "bit (sint ts) i \<longleftrightarrow> bit (sint ts) 55" by simp
  then show ?thesis using assms(3,4) by (simp add: sint_bits min_def split: if_splits)
qed

lemma posix_timestamp_bits:
  assumes "i < 64"
  shows "bit (posix_timestamp (set_posix_timestamp ts d)) i \<longleftrightarrow> bit ts (min i 55)"
proof -
  define u :: u64 where "u = push_bit 32 (ucast (ucast (drop_bit 32 ts) :: 24 word)) OR ucast (ucast ts :: u32)"
  have disj: "push_bit 32 (ucast (ucast (drop_bit 32 ts) :: 24 word)) AND ucast (ucast ts :: u32) = (0 :: u64)"
    by (rule bit_word_eqI) (auto simp: bit_simps)
  have u: "posix_timestamp (set_posix_timestamp ts d) = signed_drop_bit 8 (push_bit 8 u)"
    using disjunctive_add_eq_or [OF disj] by (simp add: posix_timestamp_def set_posix_timestamp_def u_def)
  have bit_u: "bit u j \<longleftrightarrow> bit ts j" if "j < 56" for j
    using that by (cases "j < 32") (auto simp: u_def bit_simps)
  show ?thesis
    using assms bit_u [of i] bit_u [of 55] by (cases "i \<le> 55") (auto simp: u bit_simps min_def)
qed

lemma posix_timestamp_set:
  assumes "- (2 ^ 55) \<le> sint ts" and "sint ts < 2 ^ 55"
  shows "posix_timestamp (set_posix_timestamp ts d) = ts"
proof (rule bit_word_eqI)
  fix i assume "i < LENGTH(64)"
  then show "bit (posix_timestamp (set_posix_timestamp ts d)) i \<longleftrightarrow> bit ts i"
    using small_sign_bits [OF assms, of i] by (cases "i \<le> 55") (simp_all add: posix_timestamp_bits min_def)
qed

lemma sint_of_int_u8: "- 128 \<le> x \<Longrightarrow> x < 128 \<Longrightarrow> sint (of_int x :: u8) = x"
  by (simp add: sint_sbintrunc' signed_take_bit_int_eq_self)

lemma sint_of_int_u32: "- (2 ^ 31) \<le> x \<Longrightarrow> x < 2 ^ 31 \<Longrightarrow> sint (of_int x :: u32) = x"
  by (simp add: sint_sbintrunc' signed_take_bit_int_eq_self)

definition time_zone_valid :: "int \<Rightarrow> bool" where
  "time_zone_valid tz \<longleftrightarrow> (TIMEZONE_LOW \<le> tz \<and> tz \<le> TIMEZONE_HIGH) \<or> tz = EMPTY_TIMEZONE"

lemma set_time_zone_offset_cases:
  "set_time_zone_offset tz d = (if time_zone_valid tz
     then Some (d\<lparr>m_tz_15min_offset := of_int (if tz < 0 then tz - 25 else tz + 25)\<rparr>) else None)"
  by (auto simp: set_time_zone_offset_def time_zone_valid_def date_time_constants)

text \<open>The stored offset never falls into the range of the legacy format.\<close>

definition date_time_current :: "flex_date_time \<Rightarrow> bool" where
  "date_time_current d \<longleftrightarrow> \<not> (- 25 < sint (m_tz_15min_offset d) \<and> sint (m_tz_15min_offset d) < 25)"

lemma set_time_zone_offset_ok:
  assumes "set_time_zone_offset tz d = Some d'"
  shows "time_zone_offset d' = tz \<and> date_time_current d' \<and> posix_timestamp d' = posix_timestamp d
      \<and> m_microsecond d' = m_microsecond d"
proof -
  define x where "x = (if tz < 0 then tz - 25 else tz + 25)"
  have d': "d' = d\<lparr>m_tz_15min_offset := of_int x\<rparr>" and v: "time_zone_valid tz"
    using assms by (simp_all add: set_time_zone_offset_cases x_def split: if_splits)
  have "sint (of_int x :: u8) = x"
    using v by (intro sint_of_int_u8) (auto simp: x_def time_zone_valid_def date_time_constants)
  then show ?thesis
    using v by (auto simp: d' x_def time_zone_offset_def date_time_current_def posix_timestamp_def
        time_zone_valid_def date_time_constants simp del: of_int_add of_int_diff)
qed

lemma date_time_new_ok:
  "date_time_new d ts tz us = (if time_zone_valid tz \<and> 0 \<le> us \<and> us < 1000000
     then Some (d\<lparr>m_posix_timestamp_high := ucast (drop_bit 32 ts), m_posix_timestamp_low := ucast ts,
        m_tz_15min_offset := of_int (if tz < 0 then tz - 25 else tz + 25), m_microsecond := of_int us\<rparr>) else None)"
  by (auto simp: date_time_new_def set_time_zone_offset_cases set_microsecond_def set_posix_timestamp_def
      date_time_constants)

lemma date_time_new_fields:
  assumes "date_time_new d0 ts tz us = Some d"
  shows "time_zone_offset d = tz \<and> microsecond d = us \<and> date_time_current d
      \<and> posix_timestamp d = posix_timestamp (set_posix_timestamp ts d0)"
proof -
  obtain d1 where d1: "set_time_zone_offset tz (set_posix_timestamp ts d0) = Some d1" "set_microsecond us d1 = Some d"
    using assms by (auto simp: date_time_new_def split: Option.bind_splits)
  then have d: "d = d1\<lparr>m_microsecond := of_int us\<rparr>" "0 \<le> us" "us < 1000000"
    by (auto simp: set_microsecond_def date_time_constants split: if_splits)
  with set_time_zone_offset_ok [OF d1(1)] show ?thesis
    by (auto simp: microsecond_def sint_of_int_u32 time_zone_offset_def date_time_current_def posix_timestamp_def)
qed

lemma date_time_default_fields:
  "date_time_current date_time_default \<and> time_zone_offset date_time_default = EMPTY_TIMEZONE
   \<and> posix_timestamp date_time_default = 0 \<and> microsecond date_time_default = 0"
  by (simp add: date_time_default_def date_time_current_def time_zone_offset_def posix_timestamp_def
      microsecond_def date_time_constants)

lemma length_date_time_image: "length (date_time_image d) = 12"
  by (simp add: date_time_image_def)

lemma le_word_24: "le_word (le_bytes 3 w) = w" for w :: "24 word"
  by (rule le_word_le_bytes_full) simp

interpretation date_time_ser: serializable date_time_save "date_time_load d0" date_time_image date_time_current for d0
proof unfold_locales
  fix d :: flex_date_time and b :: iarchive and r :: bytes
  assume cur: "date_time_current d" and rest: "iarc_rest b = date_time_image d @ r"
  let ?head = "le_bytes 4 (m_posix_timestamp_low d) @ le_bytes 3 (m_posix_timestamp_high d) @ le_bytes 1 (m_tz_15min_offset d)"
  have h: "iarc_read 8 b = Some (?head, iarc_skip 8 b)"
    using rest by (intro iarc_read_skip [where r = "le_bytes 4 (m_microsecond d) @ r"]) (simp_all add: date_time_image_def)
  have us: "iarc_read 4 (iarc_skip 8 b) = Some (le_bytes 4 (m_microsecond d), iarc_skip 4 (iarc_skip 8 b))"
    using rest by (intro iarc_read_skip [where r = r]) (simp_all add: date_time_image_def)
  have fields: "le_word (le_bytes 4 (m_posix_timestamp_low d)) = m_posix_timestamp_low d"
    "le_word (le_bytes (Suc 0) (m_tz_15min_offset d)) = m_tz_15min_offset d"
    "le_word (le_bytes 4 (m_microsecond d)) = m_microsecond d"
    by (simp_all add: le_word_le_bytes_full)
  show "date_time_load d0 b = Some (d, iarc_skip (length (date_time_image d)) b)"
    using h us cur
    by (simp add: date_time_load_def date_time_current_def length_date_time_image date_time_constants le_word_24 fields
        Let_def del: le_bytes.simps, auto)
qed (simp_all add: date_time_save_def codec)

text \<open>The legacy format: eight bytes, the time zone in units of half an hour.\<close>

lemma date_time_load_legacy:
  fixes low :: u32 and high :: "24 word" and tz :: u8
  assumes "- 24 \<le> sint tz" and "sint tz \<le> 24"
    and rest: "iarc_rest b = le_bytes 4 low @ le_bytes 3 high @ le_bytes 1 tz @ r"
  shows "\<exists>d. date_time_load d0 b = Some (d, iarc_skip 8 b) \<and> time_zone_offset d = 2 * sint tz
      \<and> microsecond d = 0 \<and> m_posix_timestamp_low d = low \<and> m_posix_timestamp_high d = high \<and> date_time_current d"
proof -
  let ?head = "le_bytes 4 low @ le_bytes 3 high @ le_bytes 1 tz"
  have h: "iarc_read 8 b = Some (?head, iarc_skip 8 b)"
    using rest by (intro iarc_read_skip [where r = r]) simp_all
  define d1 where "d1 = d0\<lparr>m_posix_timestamp_low := low, m_posix_timestamp_high := high, m_tz_15min_offset := tz\<rparr>"
  have "time_zone_valid (sint tz * 2)" using assms(1,2) by (simp add: time_zone_valid_def date_time_constants)
  then obtain d2 where d2: "set_time_zone_offset (sint tz * 2) d1 = Some d2"
      "d2 = d1\<lparr>m_tz_15min_offset := of_int (if sint tz * 2 < 0 then sint tz * 2 - 25 else sint tz * 2 + 25)\<rparr>"
    by (simp add: set_time_zone_offset_cases)
  have fields: "le_word (le_bytes 4 low) = low" "le_word (le_bytes (Suc 0) tz) = tz"
    by (simp_all add: le_word_le_bytes_full)
  have "date_time_load d0 b = Some (d2\<lparr>m_microsecond := 0\<rparr>, iarc_skip 8 b)"
    using h d2(1) assms(1,2)
    by (simp add: date_time_load_def le_word_24 fields date_time_constants d1_def Let_def del: le_bytes.simps)
  with set_time_zone_offset_ok [OF d2(1)] d2(2) show ?thesis
    by (auto simp: microsecond_def time_zone_offset_def date_time_current_def d1_def)
qed

lemma date_time_trichotomy:
  "(date_time_less a b \<and> \<not> date_time_equal a b \<and> \<not> date_time_greater a b)
   \<or> (\<not> date_time_less a b \<and> date_time_equal a b \<and> \<not> date_time_greater a b)
   \<or> (\<not> date_time_less a b \<and> \<not> date_time_equal a b \<and> date_time_greater a b)"
proof -
  have "posix_timestamp a = posix_timestamp b \<longleftrightarrow> sint (posix_timestamp a) = sint (posix_timestamp b)"
    by (rule word_eq_iff_signed)
  then show ?thesis by (auto simp: date_time_less_def date_time_equal_def date_time_greater_def)
qed

section \<open>Images\<close>

definition image_ok :: "image_type \<Rightarrow> bool" where
  "image_ok im \<longleftrightarrow> length (m_image_data im) = unat (m_image_data_size im)"

lemma image_ok_new:
  "image_ok image_default"
  "image_new dat h w c n v f = Some im \<Longrightarrow> image_ok im"
  by (auto simp: image_ok_def image_default_def image_new_def split: if_splits)

definition image_img :: "image_type \<Rightarrow> bytes" where
  "image_img im = le_bytes 1 (m_version im) @ le_bytes 8 (m_height im) @ le_bytes 8 (m_width im)
     @ le_bytes 8 (m_channels im) @ le_bytes 8 (m_format im) @ le_bytes 8 (m_image_data_size im) @
     (if m_image_data_size im > 0 then m_image_data im else [])"

interpretation image_ser: serializable image_save image_load image_img image_ok
proof unfold_locales
  fix im :: image_type and b :: iarchive and r :: bytes
  assume ok: "image_ok im" and rest: "iarc_rest b = image_img im @ r"
  let ?at = "\<lambda>n. iarc_skip n b"
  have 0: "load_pod 1 b = Some (m_version im, ?at 1)"
    using u8_pod.load_img [of b "m_version im"] rest by (simp add: image_img_def)
  have 1: "load_pod 8 (?at 1) = Some (m_height im, ?at 9)" "load_pod 8 (?at 9) = Some (m_width im, ?at 17)"
    "load_pod 8 (?at 17) = Some (m_channels im, ?at 25)" "load_pod 8 (?at 25) = Some (m_format im, ?at 33)"
    "load_pod 8 (?at 33) = Some (m_image_data_size im, ?at 41)"
    using rest by (subst u64_pod.load_img; simp add: image_img_def)+
  have 2: "(if m_image_data_size im > 0 then iarc_read (unat (m_image_data_size im)) (?at 41) else Some ([], ?at 41))
      = Some (m_image_data im, ?at (length (image_img im)))"
    using rest ok iarc_read_skip [of "?at 41" "m_image_data im" r "unat (m_image_data_size im)"]
    by (auto simp: image_img_def image_ok_def word_gt_0)
  show "image_load b = Some (im, iarc_skip (length (image_img im)) b)"
    unfolding image_load_def by (simp only: 0 1 2 bind.bind_lunit prod.case) simp
qed (simp_all add: image_save_def image_img_def Let_def u64_pod.save_contents u64_pod.save_ok
      u8_pod.save_contents [unfolded One_nat_def] u8_pod.save_ok [unfolded One_nat_def] codec)

section \<open>Types\<close>

lemma from_name_to_name: "flex_type_enum_from_name (flex_type_enum_to_name t) = (if t = UNDEFINED then None else Some t)"
  by (cases t) (simp_all add: flex_type_enum_from_name_def)

lemmas operator_tables = plus_operator_def minus_operator_def other_numeric_operators_def
  comparison_operators_def equality_operators_def castable_def

lemma convertible_refl: "flex_type_is_convertible t t \<and> flex_type_is_convertible t STRING"
  by (cases t) (simp_all add: flex_type_is_convertible_def operator_tables)

lemma comparison_equality:
  "flex_type_has_binary_op s t CHR ''<'' \<Longrightarrow> flex_type_has_binary_op s t CHR ''=''
     \<and> flex_type_has_binary_op t s CHR ''<''"
  by (cases s; cases t) (simp_all add: flex_type_has_binary_op_def operator_tables)

lemma get_common_type_sound:
  assumes "distinct types" and "types \<noteq> []" and "get_common_type types = Some t" and "length types = 2 \<longrightarrow> t \<noteq> UNDEFINED"
    and "s \<in> set types"
  shows "flex_type_is_convertible s t"
proof -
  consider "length types = 1" | "length types = 2"
    using assms(2,3) by (auto simp: get_common_type_def split: if_splits)
  then show ?thesis
  proof cases
    case 1
    then obtain x where "types = [x]" by (auto simp: length_Suc_conv)
    with assms show ?thesis using convertible_refl by (auto simp: get_common_type_def)
  next
    case 2
    then obtain x y where "types = [x, y]" by (auto simp: length_Suc_conv numeral_2_eq_2)
    with assms 2 show ?thesis
      by (auto simp: get_common_type_def flex_type_is_convertible_def operator_tables split: if_splits)
  qed
qed

section \<open>Properties\<close>

text \<open>
  A date-time is constructed exactly from a time zone in the allowed range (or the empty one)
  and a microsecond below one million; its getters then return the time zone and the microsecond
  it was given, and the timestamp whenever that fits the 56 bits kept of it.
\<close>

theorem date_time_new_getters:
  assumes "- (2 ^ 55) \<le> sint ts" and "sint ts < 2 ^ 55"
  shows "(case date_time_new d0 ts tz us of
      None \<Rightarrow> (tz < - 48 \<or> 48 < tz) \<and> tz \<noteq> 64 \<or> us < 0 \<or> 1000000 \<le> us
    | Some d \<Rightarrow> ((- 48 \<le> tz \<and> tz \<le> 48) \<or> tz = 64) \<and> 0 \<le> us \<and> us < 1000000
        \<and> posix_timestamp d = ts \<and> time_zone_offset d = tz \<and> microsecond d = us)"
proof (cases "date_time_new d0 ts tz us")
  case None
  then show ?thesis by (auto simp: date_time_new_ok time_zone_valid_def date_time_constants split: if_splits)
next
  case (Some d)
  then have "time_zone_valid tz \<and> 0 \<le> us \<and> us < 1000000" by (simp add: date_time_new_ok split: if_splits)
  with Some date_time_new_fields [OF Some] posix_timestamp_set [OF assms, of d0] show ?thesis
    by (simp add: time_zone_valid_def date_time_constants)
qed

theorem date_time_new_getters_witness:
  "\<exists>d. date_time_new date_time_default (- 86400) (- 32) 250000 = Some d \<and> posix_timestamp d = - 86400
     \<and> time_zone_offset d = - 32 \<and> microsecond d = 250000"
proof -
  have "- (2 ^ 55) \<le> sint (- 86400 :: u64)" "sint (- 86400 :: u64) < 2 ^ 55" by simp_all
  from date_time_new_getters [OF this, where ?d0.0 = date_time_default and tz = "- 32" and us = 250000] show ?thesis
    by (auto split: option.splits)
qed

text \<open>
  Compatibility of the date-time format: every date-time that can be constructed survives
  saving and loading, and the eight bytes of the old format (time zone in half hours) are still
  recognised: the zone is doubled, the microsecond is zero and only eight bytes are consumed.
\<close>

theorem date_time_formats:
  assumes "date_time_new d0 ts tz us = Some d" and "oarc_ok oarc" and "oarc_contents oarc = []"
    and "- 24 \<le> sint old_tz" and "sint old_tz \<le> 24"
  shows "date_time_load d1 (iarchive_new (oarc_contents (date_time_save d oarc) @ r) l)
        = Some (d, iarc_skip 12 (iarchive_new (oarc_contents (date_time_save d oarc) @ r) l))
    \<and> (\<exists>d'. date_time_load d1 (iarchive_new (le_bytes 4 low @ le_bytes 3 high @ le_bytes 1 (old_tz :: u8) @ r) l)
          = Some (d', iarc_skip 8 (iarchive_new (le_bytes 4 low @ le_bytes 3 high @ le_bytes 1 old_tz @ r) l))
        \<and> time_zone_offset d' = 2 * sint old_tz \<and> microsecond d' = 0
        \<and> m_posix_timestamp_low d' = low \<and> m_posix_timestamp_high d' = high)"
proof
  have "date_time_current d" using date_time_new_fields [OF assms(1)] by blast
  from date_time_ser.save_load [OF this assms(2,3), of d1 r l]
  show "date_time_load d1 (iarchive_new (oarc_contents (date_time_save d oarc) @ r) l)
        = Some (d, iarc_skip 12 (iarchive_new (oarc_contents (date_time_save d oarc) @ r) l))"
    by (simp add: length_date_time_image)
next
  show "\<exists>d'. date_time_load d1 (iarchive_new (le_bytes 4 low @ le_bytes 3 high @ le_bytes 1 (old_tz :: u8) @ r) l)
          = Some (d', iarc_skip 8 (iarchive_new (le_bytes 4 low @ le_bytes 3 high @ le_bytes 1 old_tz @ r) l))
        \<and> time_zone_offset d' = 2 * sint old_tz \<and> microsecond d' = 0
        \<and> m_posix_timestamp_low d' = low \<and> m_posix_timestamp_high d' = high"
    using date_time_load_legacy [OF assms(4,5) iarc_rest_new] by blast
qed

theorem date_time_formats_witness:
  "\<exists>d. date_time_load date_time_default (iarchive_new (oarc_contents (date_time_save d oarchive_stream)) 0)
       = Some (d, iarc_skip 12 (iarchive_new (oarc_contents (date_time_save d oarchive_stream)) 0))
     \<and> time_zone_offset d = 12"
proof -
  have "date_time_new date_time_default 5 12 7 \<noteq> None"
    by (simp add: date_time_new_ok time_zone_valid_def date_time_constants)
  then obtain d where d: "date_time_new date_time_default 5 12 7 = Some d" by blast
  from date_time_formats [OF d, of oarchive_stream 3 date_time_default "[]" 0] date_time_new_fields [OF d]
  show ?thesis by auto
qed

text \<open>
  C28. The name of a type, looked up again, gives the type, except for the undefined type, whose
  name is not a name the lookup knows: it throws, although the two functions are documented as the
  reverse of each other.
\<close>

theorem type_name_lookup:
  "flex_type_enum_from_name (flex_type_enum_to_name t) = (if t = UNDEFINED then None else Some t)"
  by (rule from_name_to_name)

text \<open>
  The common type of a set of types is one that every type of the set converts to; with three
  types or more none is returned.
\<close>

theorem common_type_convertible:
  assumes "distinct types" and "types \<noteq> []" and "get_common_type types = Some t" and "length types = 2 \<longrightarrow> t \<noteq> UNDEFINED"
  shows "length types \<le> 2 \<and> (\<forall>s \<in> set types. flex_type_is_convertible s t)"
  using get_common_type_sound [OF assms] assms(3) by (auto simp: get_common_type_def split: if_splits)

theorem common_type_convertible_witness:
  "get_common_type [FLOAT, INTEGER] = Some FLOAT \<and> flex_type_is_convertible INTEGER FLOAT"
proof -
  have "get_common_type [FLOAT, INTEGER] = Some FLOAT" by (simp add: get_common_type_def)
  with common_type_convertible [of "[FLOAT, INTEGER]" FLOAT] show ?thesis by simp
qed

end
