(* ===== verification/Double.thy ===== *)
theory Double
  imports Prelude Bitops
begin

text \<open>
  The operations on \<open>double\<close> that the storage layer uses, on the 64-bit patterns of IEEE 754
  binary64: sign, exponent and fraction fields, the comparisons, and the conversions from and to
  \<open>int64_t\<close>. The conversion to an integer truncates; for a value out of range (undefined in C++)
  it returns the value that the conversion instruction of x86-64 returns, \<open>INT64_MIN\<close>. The
  conversion from an integer rounds to nearest, ties to even.
\<close>

type_synonym f64 = u64

definition dbl_exponent :: "f64 \<Rightarrow> nat" where
  "dbl_exponent x = unat (take_bit 11 (drop_bit 52 x))"

definition dbl_fraction :: "f64 \<Rightarrow> int" where
  "dbl_fraction x = uint (take_bit 52 x)"

definition dbl_isnan :: "f64 \<Rightarrow> bool" where
  "dbl_isnan x \<longleftrightarrow> dbl_exponent x = 2047 \<and> dbl_fraction x \<noteq> 0"

text \<open>The patterns without their sign bit are ordered as the magnitudes.\<close>

definition dbl_order :: "f64 \<Rightarrow> int" where
  "dbl_order x = (if bit x 63 then - uint (take_bit 63 x) else uint (take_bit 63 x))"

definition dbl_eq :: "f64 \<Rightarrow> f64 \<Rightarrow> bool" where
  "dbl_eq x y \<longleftrightarrow> \<not> dbl_isnan x \<and> \<not> dbl_isnan y \<and> dbl_order x = dbl_order y"

definition dbl_less :: "f64 \<Rightarrow> f64 \<Rightarrow> bool" where
  "dbl_less x y \<longleftrightarrow> \<not> dbl_isnan x \<and> \<not> dbl_isnan y \<and> dbl_order x < dbl_order y"

definition INT64_MIN :: u64 where "INT64_MIN = 2 ^ 63"

definition double_to_int :: "f64 \<Rightarrow> u64" where
  "double_to_int x =
     (let e = dbl_exponent x;
          sig = (if e = 0 then dbl_fraction x else 2 ^ 52 + dbl_fraction x);
          m = (if 1075 \<le> e then sig * 2 ^ (e - 1075) else sig div 2 ^ (1075 - e));
          v = (if bit x 63 then - m else m)
      in if e = 2047 \<or> v < - (2 ^ 63) \<or> 2 ^ 63 \<le> v then INT64_MIN else of_int v)"

text \<open>The significand with its leading bit, added to the exponent field less one, carries into it.\<close>

definition int_to_double :: "u64 \<Rightarrow> f64" where
  "int_to_double n =
     (let m = \<bar>sint n\<bar> in
      if m = 0 then 0
      else
        let k = bitwise_log2_floor (of_int m :: u64);
            sig = (if k \<le> 52 then m * 2 ^ (52 - k)
                   else let q = m div 2 ^ (k - 52); r = m mod 2 ^ (k - 52); half = 2 ^ (k - 53)
                        in if r > half \<or> (r = half \<and> odd q) then q + 1 else q);
            pattern = (1022 + int k) * 2 ^ 52 + sig
        in of_int pattern OR (if sint n < 0 then 2 ^ 63 else 0))"

section \<open>Equality\<close>

lemma pattern_eqI:
  fixes x y :: f64
  assumes "take_bit 63 x = take_bit 63 y" and "bit x 63 \<longleftrightarrow> bit y 63"
  shows "x = y"
proof (rule bit_word_eqI)
  fix i assume i: "i < LENGTH(64)"
  have "bit (take_bit 63 x) i = bit (take_bit 63 y) i" using assms(1) by simp
  then show "bit x i = bit y i" using i assms(2) by (cases "i = 63") (auto simp: bit_take_bit_iff)
qed

text \<open>Two equal doubles have the same pattern, except for the two zeros.\<close>

lemma dbl_eq_pattern:
  assumes "dbl_eq x y"
  shows "x = y \<or> (take_bit 63 x = 0 \<and> take_bit 63 y = 0)"
proof (cases "bit x 63 \<longleftrightarrow> bit y 63")
  case True
  with assms have "uint (take_bit 63 x) = uint (take_bit 63 y)" by (auto simp: dbl_eq_def dbl_order_def)
  then have "take_bit 63 x = take_bit 63 y" by (metis uint_word_of_int_eq word_of_int_uint)
  with True pattern_eqI show ?thesis by blast
next
  case False
  with assms have "uint (take_bit 63 x) = - uint (take_bit 63 y)" by (auto simp: dbl_eq_def dbl_order_def)
  moreover have "0 \<le> uint (take_bit 63 x)" "0 \<le> uint (take_bit 63 y)" by simp_all
  ultimately have "uint (take_bit 63 x) = 0" "uint (take_bit 63 y) = 0" by linarith+
  then show ?thesis by (simp add: uint_0_iff)
qed

lemma dbl_eq_refl: "dbl_eq x x \<longleftrightarrow> \<not> dbl_isnan x"
  by (simp add: dbl_eq_def)

lemma dbl_less_trichotomy:
  "\<not> dbl_isnan x \<Longrightarrow> \<not> dbl_isnan y \<Longrightarrow> dbl_less x y \<or> dbl_eq x y \<or> dbl_less y x"
  by (auto simp: dbl_less_def dbl_eq_def)

lemma double_zero_to_int: "take_bit 63 x = 0 \<Longrightarrow> double_to_int x = 0"
proof -
  assume "take_bit 63 x = 0"
  then have bits: "\<not> bit x i" if "i < 63" for i
    using that by (metis bit_take_bit_iff bit_0_eq bot_apply bot_bool_def)
  have "take_bit 52 x = 0" "take_bit 11 (drop_bit 52 x) = 0"
    by (rule bit_word_eqI; simp add: bit_simps bits)+
  then show ?thesis by (simp add: double_to_int_def dbl_exponent_def dbl_fraction_def)
qed

lemma int_to_double_0: "int_to_double 0 = 0"
  by (simp add: int_to_double_def)

end
