(* ===== verification/Flexible_Type.thy ===== *)
theory Flexible_Type
  imports Flex_Base Double
begin

text \<open>
  The variant type of \<open>flexible_type/flexible_type.hpp\<close> and \<open>flexible_type.cpp\<close> as a value: its
  content by type, reset, the typed getters, the container operations, and the serializer with its
  two tag formats. Reference counting of the heap-allocated contents is the subject of
  \<open>Flex_Refcount\<close>. \<open>None\<close> is a failed \<open>FLEX_TYPE_ASSERT\<close> (an exception), a failed
  \<open>DFLEX_TYPE_ASSERT\<close> (an exception in debug builds, undefined in others), an out-of-bounds
  access, or a read past the end of the archive.
\<close>

section \<open>Values\<close>

datatype flexible_type =
    Flex_int u64
  | Flex_float f64
  | Flex_string bytes
  | Flex_vec "f64 list"
  | Flex_list "flexible_type list"
  | Flex_dict "(flexible_type \<times> flexible_type) list"
  | Flex_date_time flex_date_time
  | Flex_undefined
  | Flex_image image_type

abbreviation FLEX_UNDEFINED :: flexible_type where
  "FLEX_UNDEFINED \<equiv> Flex_undefined"

fun get_type :: "flexible_type \<Rightarrow> flex_type_enum" where
  "get_type (Flex_int _) = INTEGER"
| "get_type (Flex_float _) = FLOAT"
| "get_type (Flex_string _) = STRING"
| "get_type (Flex_vec _) = VECTOR"
| "get_type (Flex_list _) = LIST"
| "get_type (Flex_dict _) = DICT"
| "get_type (Flex_date_time _) = DATETIME"
| "get_type Flex_undefined = UNDEFINED"
| "get_type (Flex_image _) = IMAGE"

definition flexible_type_new :: flexible_type where
  "flexible_type_new = Flex_int 0"

text \<open>\<open>flex_date_time (0, 0)\<close>: the epoch in the time zone 0.\<close>

definition date_time_epoch :: flex_date_time where
  "date_time_epoch = the (date_time_new date_time_default 0 0 0)"

fun flex_reset :: "flex_type_enum \<Rightarrow> flexible_type" where
  "flex_reset INTEGER = Flex_int 0"
| "flex_reset FLOAT = Flex_float 0"
| "flex_reset STRING = Flex_string []"
| "flex_reset VECTOR = Flex_vec []"
| "flex_reset LIST = Flex_list []"
| "flex_reset DICT = Flex_dict []"
| "flex_reset DATETIME = Flex_date_time date_time_epoch"
| "flex_reset UNDEFINED = Flex_undefined"
| "flex_reset IMAGE = Flex_image image_default"

text \<open>
  \<open>get<flex_int>\<close> and \<open>get<flex_float>\<close> are also allowed on the other one of the two types: they
  read the same eight bytes of the union.
\<close>

fun get_flex_int :: "flexible_type \<Rightarrow> u64 option" where
  "get_flex_int (Flex_int i) = Some i"
| "get_flex_int (Flex_float x) = Some x"
| "get_flex_int _ = None"

fun get_flex_float :: "flexible_type \<Rightarrow> f64 option" where
  "get_flex_float (Flex_int i) = Some i"
| "get_flex_float (Flex_float x) = Some x"
| "get_flex_float _ = None"

text \<open>\<open>mutable_get<flex_int> () = v\<close>: the type stays, the eight bytes are replaced.\<close>

fun put_flex_int :: "u64 \<Rightarrow> flexible_type \<Rightarrow> flexible_type option" where
  "put_flex_int v (Flex_int i) = Some (Flex_int v)"
| "put_flex_int v (Flex_float x) = Some (Flex_float v)"
| "put_flex_int v _ = None"

fun get_flex_string :: "flexible_type \<Rightarrow> bytes option" where
  "get_flex_string (Flex_string s) = Some s"
| "get_flex_string _ = None"

fun get_flex_vec :: "flexible_type \<Rightarrow> f64 list option" where
  "get_flex_vec (Flex_vec v) = Some v"
| "get_flex_vec _ = None"

section \<open>Containers\<close>

fun flex_size :: "flexible_type \<Rightarrow> nat" where
  "flex_size (Flex_vec v) = length v"
| "flex_size (Flex_list l) = length l"
| "flex_size (Flex_dict d) = length d"
| "flex_size _ = 1"

text \<open>\<open>std::vector::resize\<close>: cut off, or fill with default values (\<open>0.0\<close>, the integer 0).\<close>

definition resize_list :: "nat \<Rightarrow> 'a \<Rightarrow> 'a list \<Rightarrow> 'a list" where
  "resize_list n x xs = take n xs @ replicate (n - length xs) x"

fun flex_resize :: "nat \<Rightarrow> flexible_type \<Rightarrow> flexible_type option" where
  "flex_resize n (Flex_vec v) = Some (Flex_vec (resize_list n 0 v))"
| "flex_resize n (Flex_list l) = Some (Flex_list (resize_list n flexible_type_new l))"
| "flex_resize n _ = None"

fun flex_clear :: "flexible_type \<Rightarrow> flexible_type option" where
  "flex_clear (Flex_vec v) = Some (flex_reset VECTOR)"
| "flex_clear (Flex_list l) = Some (flex_reset LIST)"
| "flex_clear (Flex_dict d) = Some (flex_reset DICT)"
| "flex_clear _ = None"

fun flex_push_back :: "f64 \<Rightarrow> flexible_type \<Rightarrow> flexible_type option" where
  "flex_push_back x (Flex_vec v) = Some (Flex_vec (v @ [x]))"
| "flex_push_back x (Flex_list l) = Some (Flex_list (l @ [Flex_float x]))"
| "flex_push_back x _ = None"

fun flex_at :: "nat \<Rightarrow> flexible_type \<Rightarrow> f64 option" where
  "flex_at i (Flex_vec v) = (if i < length v then Some (v ! i) else None)"
| "flex_at i (Flex_float x) = (if i = 0 then Some x else None)"
| "flex_at i _ = None"

fun flex_array_at :: "nat \<Rightarrow> flexible_type \<Rightarrow> flexible_type option" where
  "flex_array_at i (Flex_list l) = (if i < length l then Some (l ! i) else None)"
| "flex_array_at i _ = None"

fun flex_is_zero :: "flexible_type \<Rightarrow> bool option" where
  "flex_is_zero (Flex_int i) = Some (i = 0)"
| "flex_is_zero (Flex_float x) = Some (dbl_eq x 0)"
| "flex_is_zero (Flex_string s) = Some (s = [])"
| "flex_is_zero (Flex_vec v) = Some (v = [])"
| "flex_is_zero (Flex_list l) = Some (l = [])"
| "flex_is_zero (Flex_dict d) = Some (d = [])"
| "flex_is_zero (Flex_image im) = Some (m_format im = Format_UNDEFINED)"
| "flex_is_zero Flex_undefined = Some True"
| "flex_is_zero (Flex_date_time d) = None"

definition flex_is_na :: "flexible_type \<Rightarrow> bool" where
  "flex_is_na f = (case f of Flex_undefined \<Rightarrow> True | Flex_float x \<Rightarrow> dbl_isnan x | _ \<Rightarrow> False)"

section \<open>Serialization\<close>

text \<open>
  \<open>flex_save\<close> writes the tag byte \<open>128 + type\<close>; \<open>flex_serialize\<close> is the visitor \<open>serializer\<close>, which
  writes the content only. The two are mutually recursive through the lists.
\<close>

definition tag_of :: "flexible_type \<Rightarrow> u8" where
  "tag_of f = of_nat (128 + type_code (get_type f))"

fun flex_serialize :: "flexible_type \<Rightarrow> oarchive \<Rightarrow> oarchive" where
  "flex_serialize (Flex_int i) oarc = save_pod 8 i oarc"
| "flex_serialize (Flex_float x) oarc = save_pod 8 x oarc"
| "flex_serialize (Flex_string s) oarc = save_string s oarc"
| "flex_serialize (Flex_vec v) oarc = save_pod_vector 8 v oarc"
| "flex_serialize (Flex_list l) oarc =
     fold (\<lambda>f oarc. flex_serialize f (save_pod 1 (tag_of f) oarc)) l (save_size (length l) oarc)"
| "flex_serialize (Flex_dict d) oarc =
     fold (\<lambda>(k, v) oarc. flex_serialize v (save_pod 1 (tag_of v) (flex_serialize k (save_pod 1 (tag_of k) oarc))))
       d (save_size (length d) oarc)"
| "flex_serialize (Flex_date_time t) oarc = date_time_save t oarc"
| "flex_serialize Flex_undefined oarc = oarc"
| "flex_serialize (Flex_image im) oarc = image_save im oarc"

definition flex_save :: "flexible_type \<Rightarrow> oarchive \<Rightarrow> oarchive" where
  "flex_save f oarc = flex_serialize f (save_pod 1 (tag_of f) oarc)"

text \<open>
  The visitor \<open>deserializer\<close> on a value that has been reset to type \<open>t\<close>, with \<open>load\<close> for the
  elements of lists and dictionaries.
\<close>

definition flex_deserialize ::
  "(iarchive \<Rightarrow> (flexible_type \<times> iarchive) option) \<Rightarrow> flex_type_enum \<Rightarrow> iarchive \<Rightarrow> (flexible_type \<times> iarchive) option"
where
  "flex_deserialize load t iarc = (case t of
      INTEGER \<Rightarrow> map_option (apfst Flex_int) (load_pod 8 iarc)
    | FLOAT \<Rightarrow> map_option (apfst Flex_float) (load_pod 8 iarc)
    | STRING \<Rightarrow> map_option (apfst Flex_string) (load_string iarc)
    | VECTOR \<Rightarrow> map_option (apfst Flex_vec) (load_pod_vector 8 iarc)
    | LIST \<Rightarrow> map_option (apfst Flex_list) (load_vector load iarc)
    | DICT \<Rightarrow> map_option (apfst Flex_dict) (load_vector (load_pair load load) iarc)
    | DATETIME \<Rightarrow> map_option (apfst Flex_date_time) (date_time_load date_time_epoch iarc)
    | UNDEFINED \<Rightarrow> Some (Flex_undefined, iarc)
    | IMAGE \<Rightarrow> map_option (apfst Flex_image) (image_load iarc))"

text \<open>
  \<open>flexible_type::load\<close>, to a nesting depth of at most \<open>n\<close>. Each level takes at least one byte, so
  the number of bytes left in the archive is always enough.
\<close>

fun flex_load_depth :: "nat \<Rightarrow> iarchive \<Rightarrow> (flexible_type \<times> iarchive) option" where
  "flex_load_depth 0 iarc = None"
| "flex_load_depth (Suc n) iarc = do {
     (c, iarc) \<leftarrow> load_pod 1 iarc;
     if (c :: u8) < 128 then do {
       (tag_value, iarc) \<leftarrow> (load_pod 4 iarc :: (u32 \<times> iarchive) option);
       t \<leftarrow> type_of_code (unat c);
       flex_deserialize (flex_load_depth n) t iarc
     } else do {
       t \<leftarrow> type_of_code (unat (c - 128));
       flex_deserialize (flex_load_depth n) t iarc
     }
   }"

definition flex_load :: "iarchive \<Rightarrow> (flexible_type \<times> iarchive) option" where
  "flex_load iarc = flex_load_depth (length (iarc_rest iarc)) iarc"

section \<open>Round trip\<close>

fun flex_body :: "flexible_type \<Rightarrow> bytes" where
  "flex_body (Flex_int i) = le_bytes 8 i"
| "flex_body (Flex_float x) = le_bytes 8 x"
| "flex_body (Flex_string s) = string_img s"
| "flex_body (Flex_vec v) = vector_img (le_bytes 8) v"
| "flex_body (Flex_list l) =
     le_bytes 8 (of_nat (length l) :: u64) @ concat (map (\<lambda>f. tag_of f # flex_body f) l)"
| "flex_body (Flex_dict d) =
     le_bytes 8 (of_nat (length d) :: u64)
       @ concat (map (\<lambda>(k, v). (tag_of k # flex_body k) @ (tag_of v # flex_body v)) d)"
| "flex_body (Flex_date_time t) = date_time_image t"
| "flex_body Flex_undefined = []"
| "flex_body (Flex_image im) = image_img im"

definition flex_img :: "flexible_type \<Rightarrow> bytes" where
  "flex_img f = tag_of f # flex_body f"

fun flex_valid :: "flexible_type \<Rightarrow> bool" where
  "flex_valid (Flex_string s) \<longleftrightarrow> length s < 2 ^ 64"
| "flex_valid (Flex_vec v) \<longleftrightarrow> length v < 2 ^ 64"
| "flex_valid (Flex_list l) \<longleftrightarrow> length l < 2 ^ 64 \<and> (\<forall>f \<in> set l. flex_valid f)"
| "flex_valid (Flex_dict d) \<longleftrightarrow> length d < 2 ^ 64 \<and> (\<forall>(k, v) \<in> set d. flex_valid k \<and> flex_valid v)"
| "flex_valid (Flex_date_time t) \<longleftrightarrow> date_time_current t"
| "flex_valid (Flex_image im) \<longleftrightarrow> image_ok im"
| "flex_valid _ \<longleftrightarrow> True"

lemma fold_saves:
  assumes "\<And>x a. x \<in> set xs \<Longrightarrow> oarc_ok a \<Longrightarrow> oarc_ok (s x a) \<and> oarc_contents (s x a) = oarc_contents a @ i x"
  shows "oarc_ok a \<Longrightarrow> oarc_ok (fold s xs a) \<and> oarc_contents (fold s xs a) = oarc_contents a @ concat (map i xs)"
  using assms
proof (induction xs arbitrary: a)
  case (Cons x xs)
  have "oarc_ok (s x a) \<and> oarc_contents (s x a) = oarc_contents a @ i x" using Cons.prems by simp
  with Cons.IH [of "s x a"] Cons.prems(2) show ?case by simp
qed simp

lemma tag_saved:
  "oarc_ok a \<Longrightarrow> oarc_ok (save_pod (Suc 0) (tag_of f) a) \<and> oarc_contents (save_pod (Suc 0) (tag_of f) a) = oarc_contents a @ [tag_of f]"
  using u8_pod.save_ok [of a "tag_of f"] u8_pod.save_contents [of a "tag_of f"] by simp

lemma flex_serialize_body:
  "oarc_ok a \<Longrightarrow> oarc_ok (flex_serialize f a) \<and> oarc_contents (flex_serialize f a) = oarc_contents a @ flex_body f"
proof (induction f arbitrary: a)
  case (Flex_list l)
  have sized: "oarc_ok (save_size (length l) a)"
    "oarc_contents (save_size (length l) a) = oarc_contents a @ le_bytes 8 (of_nat (length l) :: u64)"
    using Flex_list.prems by (simp_all add: u64_pod.save_ok u64_pod.save_contents)
  show ?case
    using fold_saves [of l "\<lambda>f a. flex_serialize f (save_pod 1 (tag_of f) a)" "\<lambda>f. tag_of f # flex_body f", OF _ sized(1)]
      Flex_list.IH sized(2) by (simp add: tag_saved)
next
  case (Flex_dict d)
  have sized: "oarc_ok (save_size (length d) a)"
    "oarc_contents (save_size (length d) a) = oarc_contents a @ le_bytes 8 (of_nat (length d) :: u64)"
    using Flex_dict.prems by (simp_all add: u64_pod.save_ok u64_pod.save_contents)
  have "oarc_ok ((\<lambda>(k, v) a. flex_serialize v (save_pod 1 (tag_of v) (flex_serialize k (save_pod 1 (tag_of k) a)))) p a)
      \<and> oarc_contents ((\<lambda>(k, v) a. flex_serialize v (save_pod 1 (tag_of v) (flex_serialize k (save_pod 1 (tag_of k) a)))) p a)
        = oarc_contents a @ (\<lambda>(k, v). (tag_of k # flex_body k) @ (tag_of v # flex_body v)) p"
    if "p \<in> set d" "oarc_ok a" for p a
  proof (cases p)
    case (Pair k v)
    then show ?thesis using that Flex_dict.IH [of p k] Flex_dict.IH [of p v] by (simp add: tag_saved)
  qed
  from fold_saves [OF this sized(1)] sized(2) show ?case by simp
next
  case (Flex_date_time t)
  then show ?case by (simp add: date_time_ser.save_ok date_time_ser.save_contents)
next
  case (Flex_image im)
  then show ?case by (simp add: image_ser.save_ok image_ser.save_contents)
qed (simp_all add: u64_pod.save_ok u64_pod.save_contents string_ser.save_ok string_ser.save_contents
      pod_vector_ser.save_ok pod_vector_ser.save_contents)

lemma flex_save_img:
  "oarc_ok a \<Longrightarrow> oarc_ok (flex_save f a) \<and> oarc_contents (flex_save f a) = oarc_contents a @ flex_img f"
  using flex_serialize_body [of "save_pod 1 (tag_of f) a" f] tag_saved [of a f]
  by (simp add: flex_save_def flex_img_def)

lemma tag_type: "\<not> tag_of f < 128" "unat (tag_of f - 128) = type_code (get_type f)"
proof -
  have "\<forall>t \<in> set all_types. \<not> (of_nat (128 + type_code t) :: u8) < 128 \<and> unat ((of_nat (128 + type_code t) :: u8) - 128) = type_code t"
    by (simp add: all_types_def)
  moreover have "get_type f \<in> set all_types" by (cases "get_type f") (simp_all add: all_types_def)
  ultimately show "\<not> tag_of f < 128" "unat (tag_of f - 128) = type_code (get_type f)"
    unfolding tag_of_def by blast+
qed

lemma flex_load_body:
  assumes "iarc_rest b = flex_img f @ r"
    and "flex_deserialize (flex_load_depth n) (get_type f) (iarc_skip 1 b) = Some (f, iarc_skip (length (flex_body f)) (iarc_skip 1 b))"
  shows "flex_load_depth (Suc n) b = Some (f, iarc_skip (length (flex_img f)) b)"
proof -
  have "load_pod 1 b = Some (tag_of f, iarc_skip 1 b)"
    using u8_pod.load_img [of b "tag_of f" "flex_body f @ r"] assms(1) by (simp add: flex_img_def)
  with assms(2) tag_type [of f] show ?thesis by (simp add: flex_img_def)
qed

lemma length_elem_le: "x \<in> set xs \<Longrightarrow> length (g x) \<le> length (concat (map g xs))"
  by (induction xs) auto

text \<open>The elements of a container, whose images are shorter than the container's.\<close>

lemma elements_serializable:
  assumes "\<And>x b r. x \<in> S \<Longrightarrow> length (flex_img x) \<le> m \<Longrightarrow> iarc_rest b = flex_img x @ r \<Longrightarrow>
      flex_load_depth m b = Some (x, iarc_skip (length (flex_img x)) b)"
  shows "serializable flex_save (flex_load_depth m) flex_img (\<lambda>x. x \<in> S \<and> length (flex_img x) \<le> m)"
  by unfold_locales (use assms in \<open>simp_all add: flex_save_img\<close>)

lemma flex_load_depth_img:
  "flex_valid f \<Longrightarrow> length (flex_img f) \<le> n \<Longrightarrow> iarc_rest b = flex_img f @ r \<Longrightarrow>
   flex_load_depth n b = Some (f, iarc_skip (length (flex_img f)) b)"
proof (induction f arbitrary: n b r)
  case (Flex_list l)
  obtain m where m: "n = Suc m" using Flex_list.prems(2) by (cases n) (auto simp: flex_img_def)
  have img: "flex_body (Flex_list l) = vector_img flex_img l"
    by (simp add: vector_img_def flex_img_def [abs_def])
  have "length (flex_img x) \<le> m" if "x \<in> set l" for x
    using length_elem_le [OF that, of flex_img] Flex_list.prems(2) m
    by (simp add: flex_img_def [of "Flex_list l"] img vector_img_def del: flex_body.simps)
  moreover have "serializable flex_save (flex_load_depth m) flex_img (\<lambda>x. x \<in> set l \<and> length (flex_img x) \<le> m)"
    using Flex_list.IH Flex_list.prems(1) by (intro elements_serializable) simp
  from serializable.load_img [OF serializable.vector_serializable [OF this], of l "iarc_skip 1 b" r]
  have "(\<forall>x \<in> set l. length (flex_img x) \<le> m) \<Longrightarrow>
      load_vector (flex_load_depth m) (iarc_skip 1 b) = Some (l, iarc_skip (length (vector_img flex_img l)) (iarc_skip 1 b))"
    using Flex_list.prems by (simp add: flex_img_def [of "Flex_list l"] img del: flex_body.simps)
  ultimately show ?case
    unfolding m by (intro flex_load_body [OF Flex_list.prems(3)]) (simp add: flex_deserialize_def img del: flex_body.simps)
next
  case (Flex_dict d)
  let ?p = "\<lambda>(k, v). flex_img k @ flex_img v" and ?S = "fst ` set d \<union> snd ` set d"
  obtain m where m: "n = Suc m" using Flex_dict.prems(2) by (cases n) (auto simp: flex_img_def)
  have img: "flex_body (Flex_dict d) = vector_img ?p d"
    by (simp add: vector_img_def flex_img_def [abs_def])
  have len: "length (?p x) \<le> m" if "x \<in> set d" for x
    using length_elem_le [OF that, of ?p] Flex_dict.prems(2) m
    by (simp add: flex_img_def [of "Flex_dict d"] img vector_img_def del: flex_body.simps)
  have "flex_load_depth m b = Some (x, iarc_skip (length (flex_img x)) b)"
    if "x \<in> ?S" "length (flex_img x) \<le> m" "iarc_rest b = flex_img x @ r" for x b r
  proof -
    from that(1) obtain k v where kv: "(k, v) \<in> set d" "x = k \<or> x = v" by force
    then have "flex_valid x" using Flex_dict.prems(1) by auto
    with Flex_dict.IH [OF kv(1), of x] kv(2) that show ?thesis by auto
  qed
  then have elem: "serializable flex_save (flex_load_depth m) flex_img (\<lambda>x. x \<in> ?S \<and> length (flex_img x) \<le> m)"
    by (rule elements_serializable)
  from serializable.load_img [OF serializable.vector_serializable [OF pair_serializable [OF elem elem]], of d "iarc_skip 1 b" r]
  have "load_vector (load_pair (flex_load_depth m) (flex_load_depth m)) (iarc_skip 1 b)
      = Some (d, iarc_skip (length (vector_img ?p d)) (iarc_skip 1 b))"
    using Flex_dict.prems len by (force simp: flex_img_def [of "Flex_dict d"] img simp del: flex_body.simps)
  then show ?case
    unfolding m by (intro flex_load_body [OF Flex_dict.prems(3)]) (simp add: flex_deserialize_def img del: flex_body.simps)
next
  case (Flex_int i)
  then obtain m where m: "n = Suc m" by (cases n) (auto simp: flex_img_def)
  show ?case unfolding m using Flex_int.prems u64_pod.load_img [of "iarc_skip 1 b" i r]
    by (intro flex_load_body) (simp_all add: flex_img_def flex_deserialize_def)
next
  case (Flex_float x)
  then obtain m where m: "n = Suc m" by (cases n) (auto simp: flex_img_def)
  show ?case unfolding m using Flex_float.prems u64_pod.load_img [of "iarc_skip 1 b" x r]
    by (intro flex_load_body) (simp_all add: flex_img_def flex_deserialize_def)
next
  case (Flex_string s)
  then obtain m where m: "n = Suc m" by (cases n) (auto simp: flex_img_def)
  show ?case unfolding m using Flex_string.prems string_ser.load_img [of s "iarc_skip 1 b" r]
    by (intro flex_load_body) (simp_all add: flex_img_def flex_deserialize_def)
next
  case (Flex_vec v)
  then obtain m where m: "n = Suc m" by (cases n) (auto simp: flex_img_def)
  show ?case unfolding m using Flex_vec.prems pod_vector_ser.load_img [of v "iarc_skip 1 b" r]
    by (intro flex_load_body) (simp_all add: flex_img_def flex_deserialize_def)
next
  case (Flex_date_time t)
  then obtain m where m: "n = Suc m" by (cases n) (auto simp: flex_img_def)
  show ?case unfolding m using Flex_date_time.prems date_time_ser.load_img [of t "iarc_skip 1 b" r]
    by (intro flex_load_body) (simp_all add: flex_img_def flex_deserialize_def)
next
  case Flex_undefined
  then obtain m where m: "n = Suc m" by (cases n) (auto simp: flex_img_def)
  show ?case unfolding m using Flex_undefined.prems
    by (intro flex_load_body) (simp_all add: flex_img_def flex_deserialize_def)
next
  case (Flex_image im)
  then obtain m where m: "n = Suc m" by (cases n) (auto simp: flex_img_def)
  show ?case unfolding m using Flex_image.prems image_ser.load_img [of im "iarc_skip 1 b" r]
    by (intro flex_load_body) (simp_all add: flex_img_def flex_deserialize_def)
qed

interpretation flex_ser: serializable flex_save flex_load flex_img flex_valid
proof unfold_locales
  fix f b r assume "flex_valid f" "iarc_rest b = flex_img f @ r"
  then show "flex_load b = Some (f, iarc_skip (length (flex_img f)) b)"
    unfolding flex_load_def by (intro flex_load_depth_img [where r = r]) simp_all
qed (simp_all add: flex_save_img)

interpretation flex_vector_ser: serializable "save_vector flex_save" "load_vector flex_load" "vector_img flex_img"
  "\<lambda>fs. length fs < 2 ^ 64 \<and> (\<forall>f \<in> set fs. flex_valid f)"
  by (rule flex_ser.vector_serializable)

text \<open>The content alone, as the block encoder writes it.\<close>

lemma flex_deserialize_body:
  assumes "flex_valid f" and "iarc_rest b = flex_body f @ r"
  shows "flex_deserialize flex_load (get_type f) b = Some (f, iarc_skip (length (flex_body f)) b)"
proof (cases f)
  case (Flex_list l)
  then show ?thesis
    using assms flex_vector_ser.load_img [of l b r]
    by (simp add: flex_deserialize_def vector_img_def flex_img_def [abs_def])
next
  case (Flex_dict d)
  have img: "flex_body f = vector_img (\<lambda>(k, v). flex_img k @ flex_img v) d"
    using Flex_dict by (simp add: vector_img_def flex_img_def [abs_def])
  have "\<forall>x \<in> set d. case x of (k, v) \<Rightarrow> flex_valid k \<and> flex_valid v" "length d < 2 ^ 64"
    using assms(1) Flex_dict by auto
  with serializable.load_img [OF serializable.vector_serializable
      [OF pair_serializable [OF flex_ser.serializable_axioms flex_ser.serializable_axioms]], of d b r] assms(2) img
  show ?thesis by (simp add: Flex_dict flex_deserialize_def del: flex_body.simps)
qed (use assms u64_pod.load_img [of b _ r] string_ser.load_img [of _ b r] pod_vector_ser.load_img [of _ b r]
    date_time_ser.load_img [of _ b r] image_ser.load_img [of _ b r] in \<open>simp_all add: flex_deserialize_def\<close>)

section \<open>Properties\<close>

text \<open>
  C7. A value of any type, nested to any depth, is unchanged by saving and loading; loading stops
  right behind its bytes, so values can be stored one after the other.
\<close>

theorem flexible_type_save_load:
  assumes "flex_valid f" and "oarc_ok oarc" and "oarc_contents oarc = []"
  shows "flex_load (iarchive_new (oarc_contents (flex_save f oarc) @ r) l)
       = Some (f, iarc_skip (length (oarc_contents (flex_save f oarc))) (iarchive_new (oarc_contents (flex_save f oarc) @ r) l))"
  using flex_ser.save_load [OF assms, of r l] flex_ser.save_contents [OF assms(2), of f] assms(3) by simp

theorem flexible_type_save_load_witness:
  "\<exists>n. flex_load (iarchive_new (oarc_contents (flex_save (Flex_list [Flex_dict [(Flex_string [104, 105], Flex_int 3)], Flex_undefined]) oarchive_stream)) 0)
     = Some (Flex_list [Flex_dict [(Flex_string [104, 105], Flex_int 3)], Flex_undefined], n)"
  using flexible_type_save_load [of "Flex_list [Flex_dict [(Flex_string [104, 105], Flex_int 3)], Flex_undefined]" oarchive_stream "[]" 0]
  by simp

lemma depth_serializable:
  "serializable flex_save (flex_load_depth n) flex_img (\<lambda>x. flex_valid x \<and> length (flex_img x) \<le> n)"
  by unfold_locales (simp_all add: flex_save_img flex_load_depth_img)

lemma flex_deserialize_depth:
  assumes "flex_valid f" and "length (flex_body f) \<le> n" and "iarc_rest b = flex_body f @ r"
  shows "flex_deserialize (flex_load_depth n) (get_type f) b = Some (f, iarc_skip (length (flex_body f)) b)"
proof (cases f)
  case (Flex_list l)
  have img: "flex_body f = vector_img flex_img l"
    using Flex_list by (simp add: vector_img_def flex_img_def [abs_def])
  have "length (flex_img x) \<le> n" if "x \<in> set l" for x
    using length_elem_le [OF that, of flex_img] assms(2) by (simp add: img vector_img_def del: flex_body.simps)
  with serializable.load_img [OF serializable.vector_serializable [OF depth_serializable], of l n b r] assms img
  show ?thesis by (simp add: Flex_list flex_deserialize_def del: flex_body.simps)
next
  case (Flex_dict d)
  let ?p = "\<lambda>(k, v). flex_img k @ flex_img v"
  have img: "flex_body f = vector_img ?p d"
    using Flex_dict by (simp add: vector_img_def flex_img_def [abs_def])
  have "length (?p x) \<le> n" if "x \<in> set d" for x
    using length_elem_le [OF that, of ?p] assms(2) by (simp add: img vector_img_def del: flex_body.simps)
  then have "\<forall>x \<in> set d. case x of (k, v) \<Rightarrow> (flex_valid k \<and> length (flex_img k) \<le> n) \<and> (flex_valid v \<and> length (flex_img v) \<le> n)"
      "length d < 2 ^ 64"
    using assms(1) Flex_dict by fastforce+
  with serializable.load_img [OF serializable.vector_serializable
      [OF pair_serializable [OF depth_serializable depth_serializable]], of d n n b r] assms img
  show ?thesis by (simp add: Flex_dict flex_deserialize_def del: flex_body.simps)
qed (use assms u64_pod.load_img [of b _ r] string_ser.load_img [of _ b r] pod_vector_ser.load_img [of _ b r]
    date_time_ser.load_img [of _ b r] image_ser.load_img [of _ b r] in \<open>simp_all add: flex_deserialize_def\<close>)

text \<open>
  The tag format of earlier versions (the type, then four bytes of tag, then the content) is
  still read: it gives the same value, and the four bytes are skipped.
\<close>

theorem flexible_type_load_legacy:
  assumes "flex_valid f" and "length tag = 4"
    and "iarc_rest b = of_nat (type_code (get_type f)) # tag @ flex_body f @ r"
  shows "flex_load b = Some (f, iarc_skip (5 + length (flex_body f)) b)"
proof -
  let ?c = "of_nat (type_code (get_type f)) :: u8"
  have c: "?c < 128" "unat ?c = type_code (get_type f)"
    by (cases "get_type f"; simp)+
  have t: "load_pod 1 b = Some (?c, iarc_skip 1 b)"
    using u8_pod.load_img [of b ?c "tag @ flex_body f @ r"] assms(3) by simp
  have t4: "load_pod 4 (iarc_skip 1 b) = Some (le_word tag :: u32, iarc_skip 5 b)"
    using assms(2,3) by (simp add: load_pod_def read_into_def iarc_read_skip [of _ tag "flex_body f @ r"])
  define n where "n = length (iarc_rest b) - 1"
  have "flex_deserialize (flex_load_depth n) (get_type f) (iarc_skip 5 b)
      = Some (f, iarc_skip (length (flex_body f)) (iarc_skip 5 b))"
    using assms by (intro flex_deserialize_depth [where r = r]) (simp_all add: n_def)
  moreover have "length (iarc_rest b) = Suc n" using assms(3) by (simp add: n_def)
  ultimately show ?thesis using t t4 c by (simp add: flex_load_def)
qed

theorem flexible_type_load_legacy_witness:
  "\<exists>n. flex_load (iarchive_new ([7, 1, 2, 3, 4] @ [9]) 0) = Some (Flex_undefined, n)"
  using flexible_type_load_legacy [of Flex_undefined "[1, 2, 3, 4]" "iarchive_new ([7, 1, 2, 3, 4] @ [9]) 0" "[9]"]
  by simp

end
