(* ===== verification/Dense_Bitset.thy ===== *)
theory Dense_Bitset
  imports Serialization Bitops
begin

text \<open>
  The bit sets of \<open>util/dense_bitset.hpp\<close>: \<open>dense_bitset\<close>, whose length can change, and
  \<open>fixed_dense_bitset\<close>, whose length is a template parameter. The record holds the allocated words
  and the number of bits; \<open>arrlen\<close> is the length of the word list. Positions are \<open>nat\<close>: no bit set
  has \<open>2 ^ 64\<close> bits. An access outside of the allocated words is \<open>None\<close>. The synchronised
  operations are one atomic read-modify-write each, so a schedule of several threads is a sequence
  of the steps defined here. The abstraction \<open>db_bits\<close> is the set of the positions whose bit is on;
  the locale \<open>bitset\<close> is the interface of a set of positions, interpreted by both classes.
\<close>

section \<open>Words and positions\<close>

record dense_bitset =
  db_array :: "u64 list"
  db_len :: nat

abbreviation db_arrlen :: "dense_bitset \<Rightarrow> nat" where
  "db_arrlen db \<equiv> length (db_array db)"

definition words_for :: "nat \<Rightarrow> nat" where
  "words_for n = n div (8 * 8) + (if n mod (8 * 8) > 0 then 1 else 0)"

definition bit_to_pos :: "nat \<Rightarrow> nat \<times> nat" where
  "bit_to_pos b = (b div (8 * 8), b AND (8 * 8 - 1))"

definition next_bit_in_block :: "nat \<Rightarrow> u64 \<Rightarrow> nat" where
  "next_bit_in_block b block =
     (let belowselectedbit = - 1 - ((push_bit b 1 - 1) OR push_bit b 1);
          x = block AND belowselectedbit
      in if x = 0 then 0 else n_trailing_zeros x)"

definition first_bit_in_block :: "u64 \<Rightarrow> nat" where
  "first_bit_in_block block = (if block = 0 then 0 else n_trailing_zeros block)"

text \<open>With a last block that is not allocated (\<open>len > 0\<close> and no words) the write is out of bounds.\<close>

definition fix_trailing_bits :: "dense_bitset \<Rightarrow> dense_bitset option" where
  "fix_trailing_bits db =
     (let lastbits = db_len db mod (8 * 8) in
      if lastbits = 0 then Some db
      else if db_array db = [] then None
      else Some (db\<lparr>db_array := (db_array db)
             [db_arrlen db - 1 := (db_array db ! (db_arrlen db - 1)) AND (push_bit lastbits 1 - 1)]\<rparr>))"

section \<open>The operations of dense_bitset\<close>

definition db_new :: dense_bitset where
  "db_new = \<lparr>db_array = [], db_len = 0\<rparr>"

text \<open>\<open>fresh i\<close> is the indeterminate word that \<open>realloc\<close> leaves at index \<open>i\<close> when it grows the block.\<close>

definition db_resize :: "(nat \<Rightarrow> u64) \<Rightarrow> nat \<Rightarrow> dense_bitset \<Rightarrow> dense_bitset option" where
  "db_resize fresh n db =
     (let prev_arrlen = db_arrlen db;
          arrlen = words_for n;
          array = take arrlen (db_array db) @ map fresh [prev_arrlen..<arrlen]
      in do {
        db \<leftarrow> fix_trailing_bits (db\<lparr>db_len := n, db_array := array\<rparr>);
        Some (if arrlen > prev_arrlen
              then db\<lparr>db_array := take prev_arrlen (db_array db) @ replicate (arrlen - prev_arrlen) 0\<rparr>
              else db)
      })"

definition db_sized :: "(nat \<Rightarrow> u64) \<Rightarrow> nat \<Rightarrow> dense_bitset option" where
  "db_sized fresh n = db_resize fresh n db_new"

text \<open>The copy is of \<open>db.arrlen\<close> words into the block that \<open>resize\<close> allocated for \<open>db.len\<close> bits.\<close>

definition db_assign :: "(nat \<Rightarrow> u64) \<Rightarrow> dense_bitset \<Rightarrow> dense_bitset \<Rightarrow> dense_bitset option" where
  "db_assign fresh db this = do {
     this \<leftarrow> db_resize fresh (db_len db) this;
     if db_arrlen db = db_arrlen this then Some (this\<lparr>db_len := db_len db, db_array := db_array db\<rparr>)
     else None
   }"

definition db_clear :: "dense_bitset \<Rightarrow> dense_bitset" where
  "db_clear db = db\<lparr>db_array := map (\<lambda>_. 0) (db_array db)\<rparr>"

definition db_empty :: "dense_bitset \<Rightarrow> bool" where
  "db_empty db \<longleftrightarrow> list_all (\<lambda>w. w = 0) (db_array db)"

definition db_fill :: "dense_bitset \<Rightarrow> dense_bitset option" where
  "db_fill db = fix_trailing_bits (db\<lparr>db_array := map (\<lambda>_. - 1) (db_array db)\<rparr>)"

text \<open>The word that holds a bit, and the read-modify-write of this word; both fail out of bounds.\<close>

definition word_at :: "nat \<Rightarrow> dense_bitset \<Rightarrow> u64 option" where
  "word_at arrpos db = (if arrpos < db_arrlen db then Some (db_array db ! arrpos) else None)"

definition update_word :: "nat \<Rightarrow> (u64 \<Rightarrow> u64) \<Rightarrow> dense_bitset \<Rightarrow> (u64 \<times> dense_bitset) option" where
  "update_word arrpos f db =
     map_option (\<lambda>w. (w, db\<lparr>db_array := (db_array db)[arrpos := f w]\<rparr>)) (word_at arrpos db)"

definition db_get :: "nat \<Rightarrow> dense_bitset \<Rightarrow> bool option" where
  "db_get b db =
     (let (arrpos, bitpos) = bit_to_pos b in
      map_option (\<lambda>w. w AND push_bit bitpos 1 \<noteq> 0) (word_at arrpos db))"

definition db_set_bit :: "nat \<Rightarrow> dense_bitset \<Rightarrow> (bool \<times> dense_bitset) option" where
  "db_set_bit b db =
     (let (arrpos, bitpos) = bit_to_pos b; mask = push_bit bitpos 1 in
      map_option (\<lambda>(w, db). (w AND mask \<noteq> 0, db)) (update_word arrpos (\<lambda>w. w OR mask) db))"

definition db_xor_bit :: "nat \<Rightarrow> dense_bitset \<Rightarrow> (bool \<times> dense_bitset) option" where
  "db_xor_bit b db =
     (let (arrpos, bitpos) = bit_to_pos b; mask = push_bit bitpos 1 in
      map_option (\<lambda>(w, db). (w AND mask \<noteq> 0, db)) (update_word arrpos (\<lambda>w. w XOR mask) db))"

definition db_containing_word :: "nat \<Rightarrow> dense_bitset \<Rightarrow> u64 option" where
  "db_containing_word b db = (let (arrpos, bitpos) = bit_to_pos b in word_at arrpos db)"

definition db_get_containing_word_and_zero :: "nat \<Rightarrow> dense_bitset \<Rightarrow> (u64 \<times> dense_bitset) option" where
  "db_get_containing_word_and_zero b db =
     (let (arrpos, bitpos) = bit_to_pos b in update_word arrpos (\<lambda>_. 0) db)"

definition db_set_bit_unsync :: "nat \<Rightarrow> dense_bitset \<Rightarrow> (bool \<times> dense_bitset) option" where
  "db_set_bit_unsync b db =
     (let (arrpos, bitpos) = bit_to_pos b; mask = push_bit bitpos 1 in do {
        w \<leftarrow> word_at arrpos db;
        let ret = (w AND mask \<noteq> 0) in
        Some (ret, db\<lparr>db_array := (db_array db)[arrpos := w OR mask]\<rparr>)
      })"

definition db_clear_bit :: "nat \<Rightarrow> dense_bitset \<Rightarrow> (bool \<times> dense_bitset) option" where
  "db_clear_bit b db =
     (let (arrpos, bitpos) = bit_to_pos b; test_mask = push_bit bitpos 1; clear_mask = NOT test_mask in
      map_option (\<lambda>(w, db). (w AND test_mask \<noteq> 0, db)) (update_word arrpos (\<lambda>w. w AND clear_mask) db))"

definition db_clear_bit_unsync :: "nat \<Rightarrow> dense_bitset \<Rightarrow> (bool \<times> dense_bitset) option" where
  "db_clear_bit_unsync b db =
     (let (arrpos, bitpos) = bit_to_pos b; test_mask = push_bit bitpos 1; clear_mask = NOT test_mask in do {
        w \<leftarrow> word_at arrpos db;
        let ret = (w AND test_mask \<noteq> 0) in
        Some (ret, db\<lparr>db_array := (db_array db)[arrpos := w AND clear_mask]\<rparr>)
      })"

definition db_set :: "nat \<Rightarrow> bool \<Rightarrow> dense_bitset \<Rightarrow> (bool \<times> dense_bitset) option" where
  "db_set b value db = (if value then db_set_bit b db else db_clear_bit b db)"

definition db_set_unsync :: "nat \<Rightarrow> bool \<Rightarrow> dense_bitset \<Rightarrow> (bool \<times> dense_bitset) option" where
  "db_set_unsync b value db = (if value then db_set_bit_unsync b db else db_clear_bit_unsync b db)"

definition db_clear_word_unsync :: "nat \<Rightarrow> dense_bitset \<Rightarrow> dense_bitset option" where
  "db_clear_word_unsync b db =
     (let (arrpos, bitpos) = bit_to_pos b in map_option snd (update_word arrpos (\<lambda>_. 0) db))"

text \<open>
  The searches return the result and the value of the reference parameter \<open>b\<close>. \<open>scan_blocks\<close> is
  their loop over the words from index \<open>i\<close> on: the position in the first word that is not zero.
\<close>

fun scan_blocks :: "nat \<Rightarrow> u64 list \<Rightarrow> nat option" where
  "scan_blocks i [] = None"
| "scan_blocks i (w # ws) =
     (if w \<noteq> 0 then Some (i * (8 * 8) + first_bit_in_block w) else scan_blocks (i + 1) ws)"

definition db_first_bit :: "nat \<Rightarrow> dense_bitset \<Rightarrow> bool \<times> nat" where
  "db_first_bit b db =
     (case scan_blocks 0 (db_array db) of Some b \<Rightarrow> (b < db_len db, b) | None \<Rightarrow> (False, b))"

definition db_first_zero_bit :: "nat \<Rightarrow> dense_bitset \<Rightarrow> bool \<times> nat" where
  "db_first_zero_bit b db =
     (case scan_blocks 0 (map (\<lambda>w. NOT w) (db_array db)) of
        Some b \<Rightarrow> (b < db_len db, b) | None \<Rightarrow> (False, b))"

definition db_next_bit :: "nat \<Rightarrow> dense_bitset \<Rightarrow> (bool \<times> nat) option" where
  "db_next_bit b db =
     (let (arrpos, bitpos) = bit_to_pos b in do {
        w \<leftarrow> word_at arrpos db;
        let bitpos = next_bit_in_block bitpos w in
        if bitpos \<noteq> 0 then let b = arrpos * (8 * 8) + bitpos in Some (b < db_len db, b)
        else Some (case scan_blocks (arrpos + 1) (drop (arrpos + 1) (db_array db)) of
                     Some b \<Rightarrow> (b < db_len db, b) | None \<Rightarrow> (False, b))
      })"

definition db_next_zero_bit :: "nat \<Rightarrow> dense_bitset \<Rightarrow> (bool \<times> nat) option" where
  "db_next_zero_bit b db =
     (let (arrpos, bitpos) = bit_to_pos b in do {
        w \<leftarrow> word_at arrpos db;
        let bitpos = next_bit_in_block bitpos (NOT w);
            b' = (if bitpos \<noteq> 0 then arrpos * (8 * 8) + bitpos
                  else case scan_blocks (arrpos + 1) (map (\<lambda>w. NOT w) (drop (arrpos + 1) (db_array db))) of
                         Some b' \<Rightarrow> b' | None \<Rightarrow> db_len db) in
        Some (if b' < db_len db then (True, b') else (False, b))
      })"

text \<open>
  The iterator over the bits that are on: its state is the position, \<open>None\<close> for \<open>(size_t)(-1)\<close>.
  \<open>db_enumerate\<close> is the range-based loop from \<open>begin ()\<close> to \<open>end ()\<close>.
\<close>

definition iter_begin :: "dense_bitset \<Rightarrow> nat option" where
  "iter_begin db = (let (found, pos) = db_first_bit 0 db in if found then Some pos else None)"

definition iter_next :: "nat \<Rightarrow> dense_bitset \<Rightarrow> nat option option" where
  "iter_next pos db =
     map_option (\<lambda>(found, pos). if found then Some pos else None) (db_next_bit pos db)"

partial_function (option) iter_from :: "nat option \<Rightarrow> dense_bitset \<Rightarrow> nat list option" where
  "iter_from pos db =
     (case pos of
        None \<Rightarrow> Some []
      | Some p \<Rightarrow> do { pos' \<leftarrow> iter_next p db; ps \<leftarrow> iter_from pos' db; Some (p # ps) })"

definition db_enumerate :: "dense_bitset \<Rightarrow> nat list option" where
  "db_enumerate db = iter_from (iter_begin db) db"

definition db_size :: "dense_bitset \<Rightarrow> nat" where
  "db_size db = db_len db"

definition db_save :: "dense_bitset \<Rightarrow> oarchive \<Rightarrow> oarchive" where
  "db_save db oarc =
     (let oarc = save_size (db_arrlen db) (save_size (db_len db) oarc) in
      if db_arrlen db > 0 then oarc_write (concat (map (le_bytes 8) (db_array db))) oarc else oarc)"

definition db_load :: "iarchive \<Rightarrow> (dense_bitset \<times> iarchive) option" where
  "db_load iarc = do {
     (len, iarc) \<leftarrow> load_pod 8 iarc;
     (arrlen, iarc) \<leftarrow> load_pod 8 iarc;
     if arrlen > 0 then do {
       (mem, iarc) \<leftarrow> iarc_read (8 * unat (arrlen :: u64)) iarc;
       Some (\<lparr>db_array = words_of_bytes 8 (unat arrlen) mem, db_len = unat (len :: u64)\<rparr>, iarc)
     } else Some (\<lparr>db_array = [], db_len = unat len\<rparr>, iarc)
   }"

definition db_popcount :: "dense_bitset \<Rightarrow> nat" where
  "db_popcount db = fold (\<lambda>w ret. ret + num_bits_on w) (db_array db) 0"

text \<open>
  The word-wise operators. \<open>ASSERT_EQ\<close> on the sizes throws; the loops then run over the words of
  the left operand and read the same words of the right one.
\<close>

definition zip_words ::
  "(u64 \<Rightarrow> u64 \<Rightarrow> u64) \<Rightarrow> dense_bitset \<Rightarrow> dense_bitset \<Rightarrow> u64 list option" where
  "zip_words f this other =
     (if db_len this \<noteq> db_len other \<or> db_arrlen other < db_arrlen this then None
      else Some (map2 f (db_array this) (db_array other)))"

definition db_new_from ::
  "(nat \<Rightarrow> u64) \<Rightarrow> (u64 \<Rightarrow> u64 \<Rightarrow> u64) \<Rightarrow> dense_bitset \<Rightarrow> dense_bitset \<Rightarrow> dense_bitset option" where
  "db_new_from fresh f this other = do {
     ws \<leftarrow> zip_words f this other;
     ret \<leftarrow> db_sized fresh (db_len this);
     if db_arrlen ret = length ws then Some (ret\<lparr>db_array := ws\<rparr>) else None
   }"

definition db_and :: "(nat \<Rightarrow> u64) \<Rightarrow> dense_bitset \<Rightarrow> dense_bitset \<Rightarrow> dense_bitset option" where
  "db_and fresh = db_new_from fresh (AND)"

definition db_or :: "(nat \<Rightarrow> u64) \<Rightarrow> dense_bitset \<Rightarrow> dense_bitset \<Rightarrow> dense_bitset option" where
  "db_or fresh = db_new_from fresh (OR)"

definition db_minus :: "(nat \<Rightarrow> u64) \<Rightarrow> dense_bitset \<Rightarrow> dense_bitset \<Rightarrow> dense_bitset option" where
  "db_minus fresh = db_new_from fresh (\<lambda>w v. w - (w AND v))"

definition db_and_assign :: "dense_bitset \<Rightarrow> dense_bitset \<Rightarrow> dense_bitset option" where
  "db_and_assign this other = map_option (\<lambda>ws. this\<lparr>db_array := ws\<rparr>) (zip_words (AND) this other)"

definition db_or_assign :: "dense_bitset \<Rightarrow> dense_bitset \<Rightarrow> dense_bitset option" where
  "db_or_assign this other = map_option (\<lambda>ws. this\<lparr>db_array := ws\<rparr>) (zip_words (OR) this other)"

definition db_minus_assign :: "dense_bitset \<Rightarrow> dense_bitset \<Rightarrow> dense_bitset option" where
  "db_minus_assign this other =
     map_option (\<lambda>ws. this\<lparr>db_array := ws\<rparr>) (zip_words (\<lambda>w v. w - (w AND v)) this other)"

definition db_invert :: "dense_bitset \<Rightarrow> dense_bitset option" where
  "db_invert db = fix_trailing_bits (db\<lparr>db_array := map (\<lambda>w. NOT w) (db_array db)\<rparr>)"

text \<open>
  The loop of \<open>transfer_approximate_unsafe\<close>, on the two word arrays. It need not end: not
  returning is \<open>None\<close>, as is the access to a word of an empty array.
\<close>

partial_function (option) transfer_loop ::
  "nat \<Rightarrow> nat \<Rightarrow> nat \<Rightarrow> nat \<Rightarrow> u64 list \<Rightarrow> u64 list \<Rightarrow> (nat \<times> nat \<times> u64 list \<times> u64 list) option" where
  "transfer_loop initial_arrpos b transferred arrpos array other =
     (if transferred < b then
        if arrpos < length other \<and> arrpos < length array then
          let w = other ! arrpos;
              (transferred, array, other) =
                (if w > 0
                 then (transferred + num_bits_on w, array[arrpos := array ! arrpos OR w], other[arrpos := 0])
                 else (transferred, array, other));
              arrpos = arrpos + 1
          in if arrpos \<ge> length other then transfer_loop initial_arrpos b transferred 0 array other
             else if arrpos = initial_arrpos then Some (transferred, arrpos, array, other)
             else transfer_loop initial_arrpos b transferred arrpos array other
        else None
      else Some (transferred, arrpos, array, other))"

text \<open>The results: the two bit sets and the new values of \<open>start\<close> and \<open>b\<close>.\<close>

definition db_transfer_approximate_unsafe ::
  "dense_bitset \<Rightarrow> dense_bitset \<Rightarrow> nat \<Rightarrow> nat \<Rightarrow> (dense_bitset \<times> dense_bitset \<times> nat \<times> nat) option" where
  "db_transfer_approximate_unsafe this other start b =
     (if db_len other \<noteq> db_len this \<or> db_arrlen other \<noteq> db_arrlen this then None
      else
        let (arrpos, bitpos) = bit_to_pos start;
            initial_arrpos = arrpos;
            arrpos = (if arrpos \<ge> db_arrlen this then 0 else arrpos)
        in do {
          (transferred, arrpos, array, other_array) \<leftarrow>
             transfer_loop initial_arrpos b 0 arrpos (db_array this) (db_array other);
          Some (this\<lparr>db_array := array\<rparr>, other\<lparr>db_array := other_array\<rparr>, 8 * 8 * arrpos, transferred)
        })"

section \<open>Words as sets of positions\<close>

definition words_bits :: "u64 list \<Rightarrow> nat set" where
  "words_bits ws = {b. b div 64 < length ws \<and> bit (ws ! (b div 64)) (b mod 64)}"

abbreviation db_bits :: "dense_bitset \<Rightarrow> nat set" where
  "db_bits db \<equiv> words_bits (db_array db)"

definition db_ok :: "dense_bitset \<Rightarrow> bool" where
  "db_ok db \<longleftrightarrow> db_arrlen db = words_for (db_len db) \<and> db_bits db \<subseteq> {..<db_len db}"

lemma bit_to_pos_eq [simp]: "bit_to_pos b = (b div 64, b mod 64)"
proof -
  have "b AND 63 = take_bit 6 b" by (simp add: take_bit_eq_mask mask_eq_exp_minus_1)
  then show ?thesis by (simp add: bit_to_pos_def take_bit_eq_mod)
qed

lemma less_position_iff: "b < n \<longleftrightarrow> b div 64 < n div 64 \<or> b div 64 = n div 64 \<and> b mod 64 < n mod 64"
  for b n :: nat
proof -
  have "b = 64 * (b div 64) + b mod 64" "n = 64 * (n div 64) + n mod 64" "b mod 64 < 64" "n mod 64 < 64"
    by simp_all
  then show ?thesis by linarith
qed

lemma less_words_iff: "b < 64 * k \<longleftrightarrow> b div 64 < k" for b k :: nat
  by (metis div_less_iff_less_mult mult.commute zero_less_numeral)

lemma words_for_eq: "words_for n = (n + 63) div 64"
proof -
  have "(n + 63) div 64 = n div 64 + (n mod 64 + 63) div 64"
    by (metis div_mult_self4 div_mult_mod_eq add.assoc mult.commute zero_neq_numeral)
  moreover have "(n mod 64 + 63) div 64 = (if n mod 64 > 0 then 1 else 0)"
    by (auto intro!: div_nat_eqI)
  ultimately show ?thesis by (simp add: words_for_def)
qed

lemma words_for_index: "b < n \<Longrightarrow> b div 64 < words_for n"
  unfolding words_for_eq by linarith

lemma bit_position: "bit w (b mod 64) \<Longrightarrow> b mod 64 < 64" for w :: u64
  by simp

lemma finite_words_bits [simp]: "finite (words_bits ws)"
proof (rule finite_subset)
  show "words_bits ws \<subseteq> {..<64 * length ws}"
    by (auto simp: words_bits_def less_words_iff)
qed simp

lemma words_bits_eqI:
  assumes "length ws = length vs" and "words_bits ws = words_bits vs"
  shows "ws = vs"
proof (rule nth_equalityI [OF assms(1)])
  fix i assume i: "i < length ws"
  show "ws ! i = vs ! i"
  proof (rule bit_word_eqI)
    fix k assume k: "k < LENGTH(64)"
    then have "64 * i + k \<in> words_bits ws \<longleftrightarrow> 64 * i + k \<in> words_bits vs" using assms(2) by simp
    with i k assms(1) show "bit (ws ! i) k = bit (vs ! i) k" by (simp add: words_bits_def)
  qed
qed

lemma words_bits_update:
  assumes "i < length ws"
  shows "words_bits (ws[i := w])
       = {b \<in> words_bits ws. b div 64 \<noteq> i} \<union> {b. b div 64 = i \<and> bit w (b mod 64)}"
  using assms by (auto simp: words_bits_def nth_list_update)

lemma words_bits_map:
  "(\<And>i. bit (f 0) i \<Longrightarrow> False) \<Longrightarrow> words_bits (map f ws)
     = {b. b div 64 < length ws \<and> bit (f (ws ! (b div 64))) (b mod 64)}"
  by (auto simp: words_bits_def)

lemma fix_trailing_bits_ok:
  assumes "db_arrlen db = words_for (db_len db)"
  shows "\<exists>db'. fix_trailing_bits db = Some db' \<and> db_len db' = db_len db
      \<and> db_arrlen db' = db_arrlen db \<and> db_bits db' = db_bits db \<inter> {..<db_len db}"
proof (cases "db_len db mod 64 = 0")
  case True
  then have "b < db_len db" if "b \<in> db_bits db" for b
    using that assms less_position_iff [of b "db_len db"] by (simp add: words_bits_def words_for_def)
  with True show ?thesis by (auto simp: fix_trailing_bits_def)
next
  case False
  let ?n = "db_len db" and ?i = "db_len db div 64"
  have len: "db_arrlen db = Suc ?i" using False assms by (simp add: words_for_def)
  define w where "w = db_array db ! ?i AND (push_bit (?n mod 64) 1 - 1)"
  have bit_w: "bit w k \<longleftrightarrow> bit (db_array db ! ?i) k \<and> k < ?n mod 64" for k
    unfolding w_def bit_mask_def [symmetric] bit_mask_mask by (auto simp: bit_simps)
  have "words_bits ((db_array db)[?i := w]) = db_bits db \<inter> {..<?n}"
  proof (rule set_eqI)
    fix b
    show "b \<in> words_bits ((db_array db)[?i := w]) \<longleftrightarrow> b \<in> db_bits db \<inter> {..<?n}"
      using len less_position_iff [of b ?n] by (cases "b div 64 = ?i") (auto simp: words_bits_def bit_w)
  qed
  moreover have "db_array db \<noteq> []" using len by auto
  ultimately show ?thesis using False len by (simp add: fix_trailing_bits_def Let_def w_def)
qed

lemma words_bits_append_fresh:
  "words_bits (take n ws @ vs) \<inter> {..<64 * min n (length ws)} = words_bits ws \<inter> {..<64 * n}"
  by (auto simp: words_bits_def nth_append less_words_iff)

lemma words_bits_zeros: "words_bits (ws @ replicate k 0) = words_bits ws"
proof (rule set_eqI)
  fix b
  show "b \<in> words_bits (ws @ replicate k 0) \<longleftrightarrow> b \<in> words_bits ws"
    by (cases "b div 64 < length ws + k") (auto simp: words_bits_def nth_append)
qed

lemma words_bits_take: "words_bits (take n ws) = words_bits ws \<inter> {..<64 * n}"
  by (auto simp: words_bits_def less_words_iff)

lemma db_resize_ok:
  assumes "db_ok db"
  shows "\<exists>db'. db_resize fresh n db = Some db' \<and> db_ok db' \<and> db_len db' = n
      \<and> db_bits db' = db_bits db \<inter> {..<n}"
proof -
  let ?p = "db_arrlen db" and ?a = "words_for n"
  define r where "r = db\<lparr>db_len := n, db_array := take ?a (db_array db) @ map fresh [?p..<?a]\<rparr>"
  have r: "db_arrlen r = ?a" "db_len r = n" by (simp_all add: r_def)
  then obtain f where f: "fix_trailing_bits r = Some f" "db_len f = n" "db_arrlen f = ?a"
      "db_bits f = db_bits r \<inter> {..<n}"
    using fix_trailing_bits_ok [of r] by auto
  have n: "n \<le> 64 * ?a" unfolding words_for_eq by linarith
  have bits: "db_bits db \<subseteq> {..<64 * ?p}"
    by (auto simp: words_bits_def less_words_iff)
  have low: "db_bits r \<inter> {..<64 * min ?a ?p} = db_bits db \<inter> {..<64 * ?a}"
    unfolding r_def by (simp add: words_bits_append_fresh)
  show ?thesis
  proof (cases "?a > ?p")
    case True
    let ?g = "f\<lparr>db_array := take ?p (db_array f) @ replicate (?a - ?p) 0\<rparr>"
    have "db_resize fresh n db = Some ?g"
      using f(1) True by (simp add: db_resize_def r_def Let_def)
    moreover have "db_bits ?g = db_bits f \<inter> {..<64 * ?p}"
      by (simp add: words_bits_zeros words_bits_take)
    then have "db_bits ?g = db_bits db \<inter> {..<n}"
      using f(4) low True n bits by auto
    ultimately show ?thesis using f True by (auto simp: db_ok_def)
  next
    case False
    have "db_resize fresh n db = Some f"
      using f(1) False by (simp add: db_resize_def r_def Let_def)
    moreover have "db_bits r \<inter> {..<64 * ?a} = db_bits db \<inter> {..<64 * ?a}" "{..<n} \<subseteq> {..<64 * ?a}"
      using low False n by (simp_all add: min_def split: if_splits)
    then have "db_bits f = db_bits db \<inter> {..<n}"
      using f(4) by (metis Int_absorb1 Int_assoc)
    ultimately show ?thesis using f(2,3) by (intro exI [of _ f]) (simp add: db_ok_def)
  qed
qed

lemma db_new_ok [simp]: "db_ok db_new" "db_bits db_new = {}" "db_len db_new = 0"
  by (simp_all add: db_ok_def db_new_def words_for_def words_bits_def)

lemma db_sized_ok: "\<exists>db. db_sized fresh n = Some db \<and> db_ok db \<and> db_len db = n \<and> db_bits db = {}"
  using db_resize_ok [OF db_new_ok(1), of fresh n] by (simp add: db_sized_def)

lemma db_ok_arrlen: "db_ok db \<Longrightarrow> db_arrlen db = words_for (db_len db)"
  by (simp add: db_ok_def)

lemma db_ext:
  assumes "db_ok db" "db_ok db'" "db_len db = db_len db'" "db_bits db = db_bits db'"
  shows "db = (db' :: dense_bitset)"
  using assms words_bits_eqI [of "db_array db" "db_array db'"] by (simp add: db_ok_def)

lemma db_assign_ok:
  assumes "db_ok db" and "db_ok this"
  shows "db_assign fresh db this = Some db"
proof -
  obtain r where r: "db_resize fresh (db_len db) this = Some r" "db_ok r" "db_len r = db_len db"
    using db_resize_ok [OF assms(2)] by blast
  moreover have "db_arrlen db = db_arrlen r" using r assms(1) by (simp add: db_ok_def)
  moreover have "r\<lparr>db_len := db_len db, db_array := db_array db\<rparr> = db" by simp
  ultimately show ?thesis by (simp add: db_assign_def)
qed

section \<open>Single bits\<close>

lemma and_bit_iff: "w AND push_bit k 1 \<noteq> 0 \<longleftrightarrow> bit w k" for w :: u64
  by (metis bit_on_def bit_on_iff)

lemma word_at_get:
  "b < db_len db \<Longrightarrow> db_ok db \<Longrightarrow> word_at (b div 64) db = Some (db_array db ! (b div 64))"
  using words_for_index [of b "db_len db"] by (simp add: word_at_def db_ok_def)

lemma member_bits: "b < db_len db \<Longrightarrow> db_ok db \<Longrightarrow> b \<in> db_bits db \<longleftrightarrow> bit (db_array db ! (b div 64)) (b mod 64)"
  using words_for_index [of b "db_len db"] by (simp add: words_bits_def db_ok_def)

lemma db_get_ok: "db_ok db \<Longrightarrow> b < db_len db \<Longrightarrow> db_get b db = Some (b \<in> db_bits db)"
  by (simp add: db_get_def word_at_get member_bits and_bit_iff [unfolded push_bit_of_1])

text \<open>A word that differs from the old one in one bit, written back.\<close>

lemma update_bit_ok:
  assumes "db_ok db" and "b < db_len db"
    and "\<And>k. k < 64 \<Longrightarrow> bit w' k \<longleftrightarrow> (if k = b mod 64 then v else bit (db_array db ! (b div 64)) k)"
  defines "db' \<equiv> db\<lparr>db_array := (db_array db)[b div 64 := w']\<rparr>"
  shows "db_ok db' \<and> db_len db' = db_len db \<and> db_bits db' = (if v then insert b (db_bits db) else db_bits db - {b})"
proof -
  have i: "b div 64 < db_arrlen db" using assms(1,2) words_for_index by (simp add: db_ok_def)
  have pos: "c div 64 = b div 64 \<and> c mod 64 = b mod 64 \<longleftrightarrow> c = b" for c
    by (metis div_mult_mod_eq)
  have "db_bits db' = (if v then insert b (db_bits db) else db_bits db - {b})"
  proof (rule set_eqI)
    fix c
    show "c \<in> db_bits db' \<longleftrightarrow> c \<in> (if v then insert b (db_bits db) else db_bits db - {b})"
      using i assms(3) [of "c mod 64"] pos [of c]
      by (cases "c div 64 = b div 64"; cases v) (auto simp: db'_def words_bits_def)
  qed
  then show ?thesis using assms(1,2) by (auto simp: db_ok_def db'_def)
qed

lemma db_set_bit_ok:
  assumes "db_ok db" and "b < db_len db"
  shows "\<exists>db'. db_set_bit b db = Some (b \<in> db_bits db, db') \<and> db_ok db' \<and> db_len db' = db_len db
      \<and> db_bits db' = insert b (db_bits db)"
proof -
  let ?w = "db_array db ! (b div 64)"
  have "bit (?w OR push_bit (b mod 64) 1) k \<longleftrightarrow> (if k = b mod 64 then True else bit ?w k)" if "k < 64" for k
    using that by (auto simp: bit_simps)
  from update_bit_ok [OF assms this] assms show ?thesis
    by (simp add: db_set_bit_def update_word_def word_at_get member_bits and_bit_iff [unfolded push_bit_of_1])
qed

lemma db_clear_bit_ok:
  assumes "db_ok db" and "b < db_len db"
  shows "\<exists>db'. db_clear_bit b db = Some (b \<in> db_bits db, db') \<and> db_ok db' \<and> db_len db' = db_len db
      \<and> db_bits db' = db_bits db - {b}"
proof -
  let ?w = "db_array db ! (b div 64)"
  have "bit (?w AND NOT (push_bit (b mod 64) 1)) k \<longleftrightarrow> (if k = b mod 64 then False else bit ?w k)" if "k < 64" for k
    using that by (auto simp: bit_simps)
  from update_bit_ok [OF assms this] assms show ?thesis
    by (simp add: db_clear_bit_def update_word_def word_at_get member_bits and_bit_iff [unfolded push_bit_of_1])
qed

lemma db_xor_bit_ok:
  assumes "db_ok db" and "b < db_len db"
  shows "\<exists>db'. db_xor_bit b db = Some (b \<in> db_bits db, db') \<and> db_ok db' \<and> db_len db' = db_len db
      \<and> db_bits db' = (if b \<in> db_bits db then db_bits db - {b} else insert b (db_bits db))"
proof -
  let ?w = "db_array db ! (b div 64)"
  have "bit (?w XOR push_bit (b mod 64) 1) k \<longleftrightarrow> (if k = b mod 64 then b \<notin> db_bits db else bit ?w k)" if "k < 64" for k
    using that assms by (auto simp: bit_simps member_bits)
  from update_bit_ok [OF assms this] assms show ?thesis
    by (auto simp add: db_xor_bit_def update_word_def word_at_get member_bits and_bit_iff [unfolded push_bit_of_1])
qed

text \<open>The unsynchronised variants do the same step.\<close>

lemma db_set_bit_unsync_eq: "db_set_bit_unsync b db = db_set_bit b db"
  by (simp add: db_set_bit_unsync_def db_set_bit_def update_word_def Let_def split: Option.bind_split)

lemma db_clear_bit_unsync_eq: "db_clear_bit_unsync b db = db_clear_bit b db"
  by (simp add: db_clear_bit_unsync_def db_clear_bit_def update_word_def Let_def split: Option.bind_split)

lemma db_set_unsync_eq: "db_set_unsync b v db = db_set b v db"
  by (simp add: db_set_unsync_def db_set_def db_set_bit_unsync_eq db_clear_bit_unsync_eq)

lemma db_out_of_bounds:
  "64 * db_arrlen db \<le> b \<Longrightarrow> db_get b db = None \<and> db_set_bit b db = None \<and> db_clear_bit b db = None"
  by (simp add: db_get_def db_set_bit_def db_clear_bit_def update_word_def word_at_def less_words_iff [symmetric] not_less [symmetric])

section \<open>The interface of a bit set\<close>

locale bitset =
  fixes ok :: "'s \<Rightarrow> bool"
    and size_of :: "'s \<Rightarrow> nat"
    and bits :: "'s \<Rightarrow> nat set"
    and get_bit :: "nat \<Rightarrow> 's \<Rightarrow> bool option"
    and set_bit :: "nat \<Rightarrow> 's \<Rightarrow> (bool \<times> 's) option"
    and clear_bit :: "nat \<Rightarrow> 's \<Rightarrow> (bool \<times> 's) option"
  assumes bits_size: "ok s \<Longrightarrow> bits s \<subseteq> {..<size_of s}"
    and get_bit: "ok s \<Longrightarrow> b < size_of s \<Longrightarrow> get_bit b s = Some (b \<in> bits s)"
    and set_bit: "ok s \<Longrightarrow> b < size_of s \<Longrightarrow>
      \<exists>s'. set_bit b s = Some (b \<in> bits s, s') \<and> ok s' \<and> size_of s' = size_of s \<and> bits s' = insert b (bits s)"
    and clear_bit: "ok s \<Longrightarrow> b < size_of s \<Longrightarrow>
      \<exists>s'. clear_bit b s = Some (b \<in> bits s, s') \<and> ok s' \<and> size_of s' = size_of s \<and> bits s' = bits s - {b}"
begin

text \<open>
  A schedule: the atomic steps of all threads in the order they take effect, each one setting
  (\<open>True\<close>) or clearing a bit; the result lists the old values the steps return.
\<close>

fun run :: "(nat \<times> bool) list \<Rightarrow> 's \<Rightarrow> (bool list \<times> 's) option" where
  "run [] s = Some ([], s)"
| "run ((b, v) # steps) s = do {
     (old, s) \<leftarrow> (if v then set_bit b s else clear_bit b s);
     (olds, s) \<leftarrow> run steps s;
     Some (old # olds, s)
   }"

text \<open>The effect on the set of positions.\<close>

definition effect :: "nat \<times> bool \<Rightarrow> nat set \<Rightarrow> nat set" where
  "effect = (\<lambda>(b, v) S. if v then insert b S else S - {b})"

fun old_values :: "(nat \<times> bool) list \<Rightarrow> nat set \<Rightarrow> bool list" where
  "old_values [] S = []"
| "old_values (st # steps) S = (fst st \<in> S) # old_values steps (effect st S)"

lemma run_spec:
  assumes "ok s" and "\<forall>(b, v) \<in> set steps. b < size_of s"
  shows "\<exists>s'. run steps s = Some (old_values steps (bits s), s') \<and> ok s' \<and> size_of s' = size_of s
      \<and> bits s' = fold effect steps (bits s)"
  using assms
proof (induction steps arbitrary: s)
  case (Cons st steps)
  obtain b v where st: "st = (b, v)" by (cases st)
  obtain s1 where s1: "(if v then set_bit b s else clear_bit b s) = Some (b \<in> bits s, s1)" "ok s1"
      "size_of s1 = size_of s" "bits s1 = effect st (bits s)"
    using Cons.prems set_bit [of s b] clear_bit [of s b] st by (cases v) (auto simp: effect_def)
  then have "\<forall>(b, v) \<in> set steps. b < size_of s1" using Cons.prems by simp
  from Cons.IH [OF s1(2) this] s1 st show ?case by auto
qed simp

text \<open>Threads that all set bits: every schedule ends in the same set, and each bit is won once.\<close>

lemma fold_effect_sets: "fold effect (map (\<lambda>b. (b, True)) bs) S = S \<union> set bs"
  by (induction bs arbitrary: S) (auto simp: effect_def)

lemma count_winners:
  "length (filter (\<lambda>(b, old). b = c \<and> \<not> old) (zip bs (old_values (map (\<lambda>b. (b, True)) bs) S)))
     = (if c \<in> set bs \<and> c \<notin> S then 1 else 0)"
proof (induction bs arbitrary: S)
  case (Cons b bs)
  show ?case using Cons.IH [of "insert b S"] by (auto simp: effect_def)
qed simp

lemma set_bits_once:
  assumes "ok s" and "\<forall>b \<in> set bs. b < size_of s"
  shows "\<exists>olds s'. run (map (\<lambda>b. (b, True)) bs) s = Some (olds, s') \<and> bits s' = bits s \<union> set bs
      \<and> (\<forall>c. length (filter (\<lambda>(b, old). b = c \<and> \<not> old) (zip bs olds)) = (if c \<in> set bs \<and> c \<notin> bits s then 1 else 0))"
proof -
  have "\<forall>(b, v) \<in> set (map (\<lambda>b. (b, True)) bs). b < size_of s" using assms(2) by auto
  from run_spec [OF assms(1) this, unfolded fold_effect_sets] show ?thesis
    using count_winners by blast
qed

end

interpretation dense: bitset db_ok db_len db_bits db_get db_set_bit db_clear_bit
  by unfold_locales (simp_all add: db_get_ok db_set_bit_ok db_clear_bit_ok, simp add: db_ok_def)

section \<open>Searches\<close>

lemma first_bit_in_block_Least: "w \<noteq> 0 \<Longrightarrow> first_bit_in_block w = (LEAST i. bit w i)"
  by (simp add: first_bit_in_block_def n_trailing_zeros_Least)

lemma words_bits_Cons:
  "words_bits (w # ws) = {b. b < 64 \<and> bit w b} \<union> (\<lambda>b. b + 64) ` words_bits ws"
proof (rule set_eqI)
  fix b
  show "b \<in> words_bits (w # ws) \<longleftrightarrow> b \<in> {b. b < 64 \<and> bit w b} \<union> (\<lambda>b. b + 64) ` words_bits ws"
  proof (cases "b < 64")
    case True
    then have "b \<notin> (\<lambda>b. b + 64) ` words_bits ws" by auto
    with True show ?thesis by (simp add: words_bits_def)
  next
    case False
    then obtain c where c: "b = c + 64" by (metis add.commute le_iff_add not_less)
    then have "b \<in> (\<lambda>b. b + 64) ` words_bits ws \<longleftrightarrow> c \<in> words_bits ws" by auto
    moreover have "(c + 64) div 64 = Suc (c div 64)" "(c + 64) mod 64 = c mod 64" by simp_all
    ultimately show ?thesis using False c by (simp add: words_bits_def del: div_add_self2)
  qed
qed

lemma scan_blocks_least:
  "scan_blocks i ws = (if words_bits ws = {} then None else Some (64 * i + (LEAST b. b \<in> words_bits ws)))"
proof (induction ws arbitrary: i)
  case Nil
  show ?case by (simp add: words_bits_def)
next
  case (Cons w ws)
  show ?case
  proof (cases "w = 0")
    case True
    then have bits: "words_bits (w # ws) = (\<lambda>b. b + 64) ` words_bits ws"
      by (simp add: words_bits_Cons)
    have "(LEAST b. b \<in> (\<lambda>b. b + 64) ` words_bits ws) = (LEAST b. b \<in> words_bits ws) + 64"
      if "words_bits ws \<noteq> {}"
    proof (rule Least_equality)
      from that obtain b where "b \<in> words_bits ws" by blast
      then show "(LEAST b. b \<in> words_bits ws) + 64 \<in> (\<lambda>b. b + 64) ` words_bits ws"
        by (intro imageI) (rule LeastI)
    qed (auto intro: Least_le)
    with True bits Cons.IH [of "i + 1"] show ?thesis by auto
  next
    case False
    note n = n_trailing_zeros_bits [OF False]
    have "(LEAST b. b \<in> words_bits (w # ws)) = n_trailing_zeros w"
    proof (rule Least_equality)
      show "n_trailing_zeros w \<in> words_bits (w # ws)" using n by (simp add: words_bits_Cons)
      fix b assume "b \<in> words_bits (w # ws)"
      then show "n_trailing_zeros w \<le> b" using n(1) n(3) [of b] by (fastforce simp: words_bits_Cons not_less)
    qed
    moreover have "words_bits (w # ws) \<noteq> {}" using n(1,2) by (auto simp: words_bits_Cons)
    ultimately show ?thesis using False by (simp add: first_bit_in_block_def mult.commute)
  qed
qed

lemma words_bits_drop: "b \<in> words_bits (drop k ws) \<longleftrightarrow> b + 64 * k \<in> words_bits ws"
  by (auto simp: words_bits_def algebra_simps)

lemma scan_blocks_drop:
  assumes "k \<le> length ws"
  shows "scan_blocks k (drop k ws)
       = (if \<exists>b \<in> words_bits ws. 64 * k \<le> b then Some (LEAST b. b \<in> words_bits ws \<and> 64 * k \<le> b) else None)"
proof (cases "words_bits (drop k ws) = {}")
  case True
  have "\<not> (\<exists>b \<in> words_bits ws. 64 * k \<le> b)"
    using True words_bits_drop [of _ k ws] by (metis add.commute empty_iff le_iff_add)
  with True show ?thesis by (simp add: scan_blocks_least)
next
  case False
  let ?m = "LEAST b. b \<in> words_bits (drop k ws)"
  have m: "?m \<in> words_bits (drop k ws)" using False by (metis LeastI all_not_in_conv)
  have "(LEAST b. b \<in> words_bits ws \<and> 64 * k \<le> b) = 64 * k + ?m"
  proof (rule Least_equality)
    show "64 * k + ?m \<in> words_bits ws \<and> 64 * k \<le> 64 * k + ?m"
      using m words_bits_drop [of ?m k ws] by (simp add: add.commute)
    fix b assume b: "b \<in> words_bits ws \<and> 64 * k \<le> b"
    then have "b - 64 * k \<in> words_bits (drop k ws)" by (simp add: words_bits_drop)
    then have "?m \<le> b - 64 * k" by (rule Least_le)
    with b show "64 * k + ?m \<le> b" by linarith
  qed
  moreover have "\<exists>b \<in> words_bits ws. 64 * k \<le> b"
    using m words_bits_drop [of ?m k ws] by (metis le_add2)
  ultimately show ?thesis using False by (simp add: scan_blocks_least)
qed

lemma next_bit_in_block_Least:
  assumes "b < 64"
  shows "next_bit_in_block b w = (if \<exists>i > b. bit w i then LEAST i. bit w i \<and> b < i else 0)"
proof -
  define x where "x = w AND (- 1 - ((push_bit b 1 - 1) OR push_bit b 1))"
  have "(push_bit b 1 - 1) OR push_bit b 1 = (mask (Suc b) :: u64)"
    unfolding bit_mask_def [symmetric] bit_mask_mask
    by (rule bit_word_eqI) (auto simp: bit_simps)
  moreover have "NOT (mask (Suc b)) = - 1 - (mask (Suc b) :: u64)" by (simp add: not_eq_complement)
  ultimately have "x = w AND NOT (mask (Suc b))" by (simp only: x_def)
  then have bit_x: "bit x i \<longleftrightarrow> bit w i \<and> b < i" for i
    by (auto simp: bit_simps less_Suc_eq_le not_le dest: bit_imp_le_length)
  then have "x = 0 \<longleftrightarrow> \<not> (\<exists>i > b. bit w i)" by (auto simp: bits_empty_iff [symmetric])
  moreover have "next_bit_in_block b w = (if x = 0 then 0 else n_trailing_zeros x)"
    by (simp add: next_bit_in_block_def x_def)
  ultimately show ?thesis using n_trailing_zeros_Least [of x] bit_x by auto
qed

text \<open>The result of a search in a set of positions below \<open>n\<close>.\<close>

definition search_result :: "nat set \<Rightarrow> nat option" where
  "search_result S = (if S = {} then None else Some (LEAST b. b \<in> S))"

lemma db_first_bit_ok:
  assumes "db_ok db"
  shows "db_first_bit b db = (case search_result (db_bits db) of Some p \<Rightarrow> (True, p) | None \<Rightarrow> (False, b))"
proof (cases "db_bits db = {}")
  case True
  then show ?thesis by (simp add: db_first_bit_def scan_blocks_least search_result_def)
next
  case False
  then have "(LEAST b. b \<in> db_bits db) \<in> db_bits db" by (metis LeastI all_not_in_conv)
  then have "(LEAST b. b \<in> db_bits db) < db_len db" using assms by (auto simp: db_ok_def)
  with False show ?thesis by (simp add: db_first_bit_def scan_blocks_least search_result_def)
qed

text \<open>The search in the block of \<open>b\<close> and the search in the later blocks, combined.\<close>

lemma next_in_words:
  assumes "b div 64 < length ws"
  defines "k \<equiv> next_bit_in_block (b mod 64) (ws ! (b div 64))"
  shows "(if k \<noteq> 0 then Some (b div 64 * 64 + k)
          else scan_blocks (b div 64 + 1) (drop (b div 64 + 1) ws))
       = search_result {c \<in> words_bits ws. b < c}"
proof -
  let ?i = "b div 64" and ?w = "ws ! (b div 64)"
  have b: "b = 64 * ?i + b mod 64" by simp
  have in_block: "64 * ?i + j \<in> words_bits ws \<longleftrightarrow> bit ?w j" if "j < 64" for j
    using that assms(1) by (simp add: words_bits_def)
  show ?thesis
  proof (cases "\<exists>i > b mod 64. bit ?w i")
    case True
    let ?j = "LEAST i. bit ?w i \<and> b mod 64 < i"
    have j: "bit ?w ?j" "b mod 64 < ?j" "?j < 64"
      using True LeastI_ex [of "\<lambda>i. bit ?w i \<and> b mod 64 < i"] bit_imp_le_length [of ?w ?j] by auto
    have above: "b < 64 * ?i + ?j" using j(2) b by linarith
    have "(LEAST c. c \<in> {c \<in> words_bits ws. b < c}) = 64 * ?i + ?j"
    proof (rule Least_equality)
      show "64 * ?i + ?j \<in> {c \<in> words_bits ws. b < c}" using j in_block above by simp
      fix c assume c: "c \<in> {c \<in> words_bits ws. b < c}"
      show "64 * ?i + ?j \<le> c"
      proof (cases "c < 64 * ?i + 64")
        case True
        then obtain l where l: "c = 64 * ?i + l" "l < 64"
          using c b by (metis (no_types, lifting) le_add_diff_inverse less_imp_le_nat mem_Collect_eq nat_add_left_cancel_less le_add1 order_trans)
        moreover have "b mod 64 < l" using l(1) b c by (metis (no_types, lifting) mem_Collect_eq nat_add_left_cancel_less)
        ultimately have "bit ?w l \<and> b mod 64 < l" using c in_block by auto
        then have "?j \<le> l" by (rule Least_le)
        with l show ?thesis by simp
      next
        case False
        with j(3) show ?thesis by linarith
      qed
    qed
    moreover have "{c \<in> words_bits ws. b < c} \<noteq> {}" using j in_block above by blast
    moreover have "k = ?j" using True by (simp add: k_def next_bit_in_block_Least)
    ultimately show ?thesis using j(2) by (simp add: search_result_def mult.commute)
  next
    case False
    have "{c \<in> words_bits ws. b < c} = {c \<in> words_bits ws. 64 * (?i + 1) \<le> c}"
    proof (rule Collect_cong, rule conj_cong [OF refl])
      fix c assume c: "c \<in> words_bits ws"
      have "\<not> b < c" if "c < 64 * (?i + 1)"
      proof
        assume "b < c"
        then have "c div 64 = ?i" using that b by (intro div_nat_eqI) auto
        with c have "bit ?w (c mod 64)" by (simp add: words_bits_def)
        moreover have "b mod 64 < c mod 64" using \<open>b < c\<close> \<open>c div 64 = ?i\<close> less_position_iff [of b c] by simp
        ultimately show False using False by blast
      qed
      moreover have "b < 64 * (?i + 1)" by (simp only: less_words_iff)
      ultimately show "b < c \<longleftrightarrow> 64 * (?i + 1) \<le> c" by linarith
    qed
    moreover have "k = 0" using False by (auto simp: k_def next_bit_in_block_Least)
    ultimately show ?thesis
      using scan_blocks_drop [of "?i + 1" ws] assms(1) by (auto simp: search_result_def)
  qed
qed

lemma search_result_mem: "search_result S = Some p \<Longrightarrow> p \<in> S"
  by (metis LeastI all_not_in_conv option.discI option.inject search_result_def)

lemma search_result_le: "search_result S = Some p \<Longrightarrow> c \<in> S \<Longrightarrow> p \<le> c"
  by (auto simp: search_result_def intro: Least_le split: if_splits)

lemma db_next_bit_ok:
  assumes "db_ok db" and "b < db_len db"
  shows "db_next_bit b db = Some (case search_result {c \<in> db_bits db. b < c} of Some p \<Rightarrow> (True, p) | None \<Rightarrow> (False, b))"
proof -
  have i: "b div 64 < db_arrlen db" using assms words_for_index by (simp add: db_ok_def)
  have below: "p < db_len db" if "search_result {c \<in> db_bits db. b < c} = Some p" for p
    using search_result_mem [OF that] assms(1) by (auto simp: db_ok_def)
  show ?thesis
  proof (cases "next_bit_in_block (b mod 64) (db_array db ! (b div 64)) = 0")
    case True
    then have "scan_blocks (b div 64 + 1) (drop (b div 64 + 1) (db_array db)) = search_result {c \<in> db_bits db. b < c}"
      using next_in_words [OF i] by simp
    then show ?thesis
      using True i below by (simp add: db_next_bit_def word_at_def split: option.split)
  next
    case False
    then have "search_result {c \<in> db_bits db. b < c}
        = Some (b div 64 * 64 + next_bit_in_block (b mod 64) (db_array db ! (b div 64)))"
      using next_in_words [OF i] by simp
    then show ?thesis
      using False i below by (simp add: db_next_bit_def word_at_def)
  qed
qed

text \<open>The searches for a zero bit look for a one bit in the complement.\<close>

lemma words_bits_NOT: "words_bits (map (\<lambda>w. NOT w) ws) = {..<64 * length ws} - words_bits ws"
  by (auto simp: words_bits_def less_words_iff bit_simps)

lemma db_first_zero_bit_ok:
  assumes "db_ok db"
  shows "let (found, p) = db_first_zero_bit b db; S = {..<db_len db} - db_bits db in
    if S = {} then \<not> found else found \<and> p = (LEAST c. c \<in> S)"
proof -
  let ?Z = "{..<64 * db_arrlen db} - db_bits db" and ?S = "{..<db_len db} - db_bits db"
  have le: "db_len db \<le> 64 * db_arrlen db" using assms unfolding db_ok_def words_for_eq by linarith
  then have sub: "?S = ?Z \<inter> {..<db_len db}" by auto
  have scan: "scan_blocks 0 (map (\<lambda>w. NOT w) (db_array db)) = search_result ?Z"
    by (simp add: scan_blocks_least words_bits_NOT search_result_def)
  show ?thesis
  proof (cases "search_result ?Z")
    case None
    then have "?Z = {}" by (metis option.distinct(1) search_result_def)
    with sub scan None show ?thesis by (simp add: db_first_zero_bit_def)
  next
    case (Some p)
    then have p: "p \<in> ?Z" "\<And>c. c \<in> ?Z \<Longrightarrow> p \<le> c"
      using search_result_mem search_result_le by blast+
    show ?thesis
    proof (cases "p < db_len db")
      case True
      then have "p \<in> ?S" using p(1) by simp
      moreover from this have "(LEAST c. c \<in> ?S) = p" using p(2) sub by (intro Least_equality) auto
      ultimately show ?thesis using True Some scan by (auto simp: db_first_zero_bit_def)
    next
      case False
      then have "?S = {}" using p(2) sub by fastforce
      then show ?thesis using False Some scan by (simp add: db_first_zero_bit_def)
    qed
  qed
qed

lemma db_next_zero_bit_ok:
  assumes "db_ok db" and "b < db_len db"
  shows "db_next_zero_bit b db = Some (case search_result {c. b < c \<and> c < db_len db \<and> c \<notin> db_bits db} of
     Some p \<Rightarrow> (True, p) | None \<Rightarrow> (False, b))"
proof -
  let ?Z = "{c \<in> {..<64 * db_arrlen db} - db_bits db. b < c}"
    and ?S = "{c. b < c \<and> c < db_len db \<and> c \<notin> db_bits db}"
  let ?k = "next_bit_in_block (b mod 64) (NOT (db_array db ! (b div 64)))"
  let ?p = "if ?k \<noteq> 0 then b div 64 * 64 + ?k
    else case scan_blocks (b div 64 + 1) (map (\<lambda>w. NOT w) (drop (b div 64 + 1) (db_array db))) of
           Some b' \<Rightarrow> b' | None \<Rightarrow> db_len db"
  have i: "b div 64 < db_arrlen db" using assms words_for_index by (simp add: db_ok_def)
  have le: "db_len db \<le> 64 * db_arrlen db" using assms unfolding db_ok_def words_for_eq by linarith
  then have S: "?S = ?Z \<inter> {..<db_len db}" by auto
  have nz: "db_next_zero_bit b db = Some (if ?p < db_len db then (True, ?p) else (False, b))"
    using i by (simp add: db_next_zero_bit_def word_at_def Let_def)
  have "(if ?k \<noteq> 0 then Some (b div 64 * 64 + ?k)
      else scan_blocks (b div 64 + 1) (map (\<lambda>w. NOT w) (drop (b div 64 + 1) (db_array db)))) = search_result ?Z"
    using next_in_words [of b "map (\<lambda>w. NOT w) (db_array db)", unfolded nth_map [OF i] words_bits_NOT drop_map length_map] i
    by blast
  then have p: "?p = (case search_result ?Z of Some b' \<Rightarrow> b' | None \<Rightarrow> db_len db)"
    by (metis (lifting) option.case(2))
  show ?thesis
  proof (cases "search_result ?Z")
    case None
    then have "?Z = {}" by (metis option.distinct(1) search_result_def)
    with S have "?S = {}" by (simp only: Int_empty_left)
    then have "search_result ?S = None" unfolding search_result_def by simp
    with None p nz show ?thesis by simp
  next
    case (Some q)
    then have q: "q \<in> ?Z" "\<And>c. c \<in> ?Z \<Longrightarrow> q \<le> c"
      using search_result_mem search_result_le by blast+
    show ?thesis
    proof (cases "q < db_len db")
      case True
      then have "q \<in> ?S" using q(1) by simp
      moreover from this have "(LEAST c. c \<in> ?S) = q" using q(2) S by (intro Least_equality) auto
      ultimately have "search_result ?S = Some q" unfolding search_result_def by auto
      with True Some p nz show ?thesis by simp
    next
      case False
      then have "?S = {}" using q(2) S by fastforce
      then have "search_result ?S = None" unfolding search_result_def by simp
      with False Some p nz show ?thesis by simp
    qed
  qed
qed

section \<open>Iteration\<close>

lemma iter_from_None [simp]: "iter_from None db = Some []"
  by (subst iter_from.simps) simp

lemma iter_begin_ok: "db_ok db \<Longrightarrow> iter_begin db = search_result (db_bits db)"
  by (simp add: iter_begin_def db_first_bit_ok split: option.split)

lemma iter_next_ok: "db_ok db \<Longrightarrow> b < db_len db \<Longrightarrow> iter_next b db = Some (search_result {c \<in> db_bits db. b < c})"
  by (simp add: iter_next_def db_next_bit_ok split: option.split)

lemma sorted_list_of_set_least:
  assumes "finite S" and "S \<noteq> {}"
  shows "sorted_list_of_set S = (LEAST b. b \<in> S) # sorted_list_of_set {c \<in> S. (LEAST b. b \<in> S) < c}" (is "_ = ?m # _")
proof -
  have m: "?m = Min S" using assms by (intro Least_equality) simp_all
  have "S - {Min S} = {c \<in> S. Min S < c}" using assms by (auto simp: order_less_le)
  with m sorted_list_of_set_nonempty [OF assms] show ?thesis by simp
qed

lemma iter_from_ok:
  assumes "db_ok db" and "S = {c \<in> db_bits db. k \<le> c}"
  shows "iter_from (search_result S) db = Some (sorted_list_of_set S)"
  using assms(2)
proof (induction "card S" arbitrary: S k rule: less_induct)
  case less
  have fin: "finite S" using less.prems by simp
  show ?case
  proof (cases "S = {}")
    case True
    then show ?thesis by (simp add: search_result_def)
  next
    case False
    let ?m = "LEAST b. b \<in> S"
    have m: "?m \<in> S" using False by (metis LeastI all_not_in_conv)
    then have mlen: "?m < db_len db" using assms(1) less.prems by (auto simp: db_ok_def)
    have next_S: "{c \<in> db_bits db. ?m < c} = {c \<in> S. ?m < c}" using m less.prems by auto
    have "{c \<in> S. ?m < c} \<subset> S" using m by auto
    then have "card {c \<in> S. ?m < c} < card S" using fin by (rule psubset_card_mono [rotated])
    moreover have "{c \<in> S. ?m < c} = {c \<in> db_bits db. Suc ?m \<le> c}" using next_S by (simp add: Suc_le_eq)
    ultimately have "iter_from (search_result {c \<in> S. ?m < c}) db = Some (sorted_list_of_set {c \<in> S. ?m < c})"
      by (rule less.hyps)
    then show ?thesis
      using False iter_next_ok [OF assms(1) mlen] next_S sorted_list_of_set_least [OF fin False]
      by (subst iter_from.simps) (simp add: search_result_def)
  qed
qed

lemma db_enumerate_ok: "db_ok db \<Longrightarrow> db_enumerate db = Some (sorted_list_of_set (db_bits db))"
  using iter_from_ok [of db "db_bits db" 0] by (simp add: db_enumerate_def iter_begin_ok)

section \<open>Counting\<close>

lemma card_words_bits: "card (words_bits ws) = sum_list (map num_bits_on ws)"
proof (induction ws)
  case Nil
  show ?case by (simp add: words_bits_def)
next
  case (Cons w ws)
  have w: "{b. b < 64 \<and> bit w b} = {b. bit w b}" using bit_imp_le_length [of w] by auto
  have "card (words_bits (w # ws)) = card {b. bit w b} + card ((\<lambda>b. b + 64) ` words_bits ws)"
    unfolding words_bits_Cons w
    by (rule card_Un_disjoint) (use bit_imp_le_length [of w] in fastforce)+
  with Cons.IH show ?case by (simp add: card_image num_bits_on_card)
qed

lemma db_popcount_card: "db_popcount db = card (db_bits db)"
proof -
  have "fold (\<lambda>w ret. ret + num_bits_on w) ws a = a + sum_list (map num_bits_on ws)" for ws :: "u64 list" and a
    by (induction ws arbitrary: a) simp_all
  then show ?thesis by (simp add: db_popcount_def card_words_bits)
qed

lemma db_empty_iff: "db_empty db \<longleftrightarrow> db_bits db = {}"
proof -
  have "list_all (\<lambda>w. w = 0) ws \<longleftrightarrow> words_bits ws = {}" for ws
  proof (induction ws)
    case (Cons w ws)
    have "{b. b < 64 \<and> bit w b} = {b. bit w b}" using bit_imp_le_length [of w] by auto
    moreover have "w = 0 \<longleftrightarrow> {b. bit w b} = {}" by (rule bits_empty_iff [symmetric])
    ultimately show ?case using Cons.IH by (simp only: words_bits_Cons list.pred_inject Un_empty image_is_empty)
  qed (simp add: words_bits_def)
  then show ?thesis by (simp add: db_empty_def)
qed

section \<open>Whole-set operations\<close>

lemma db_clear_ok: "db_ok db \<Longrightarrow> db_ok (db_clear db) \<and> db_len (db_clear db) = db_len db \<and> db_bits (db_clear db) = {}"
  by (auto simp: db_clear_def db_ok_def words_bits_def)

lemma fix_map_ok:
  assumes "db_ok db" and "words_bits (map f (db_array db)) \<inter> {..<db_len db} = S"
  shows "\<exists>db'. fix_trailing_bits (db\<lparr>db_array := map f (db_array db)\<rparr>) = Some db' \<and> db_ok db'
      \<and> db_len db' = db_len db \<and> db_bits db' = S"
proof -
  let ?m = "db\<lparr>db_array := map f (db_array db)\<rparr>"
  have "db_arrlen ?m = words_for (db_len ?m)" using assms(1) by (simp add: db_ok_def)
  from fix_trailing_bits_ok [OF this] assms show ?thesis by (fastforce simp: db_ok_def)
qed

lemma db_len_words: "db_ok db \<Longrightarrow> db_len db \<le> 64 * db_arrlen db"
  unfolding db_ok_def words_for_eq by linarith

lemma db_fill_ok:
  assumes "db_ok db"
  shows "\<exists>db'. db_fill db = Some db' \<and> db_ok db' \<and> db_len db' = db_len db \<and> db_bits db' = {..<db_len db}"
proof -
  have "words_bits (map (\<lambda>_. - 1) (db_array db)) \<inter> {..<db_len db} = {..<db_len db}"
    using db_len_words [OF assms] by (auto simp: words_bits_def less_words_iff [symmetric])
  from fix_map_ok [OF assms this] show ?thesis by (simp add: db_fill_def)
qed

lemma db_invert_ok:
  assumes "db_ok db"
  shows "\<exists>db'. db_invert db = Some db' \<and> db_ok db' \<and> db_len db' = db_len db
      \<and> db_bits db' = {..<db_len db} - db_bits db"
proof -
  have "words_bits (map (\<lambda>w. NOT w) (db_array db)) \<inter> {..<db_len db} = {..<db_len db} - db_bits db"
    using db_len_words [OF assms] by (auto simp: words_bits_NOT)
  from fix_map_ok [OF assms this] show ?thesis by (simp add: db_invert_def)
qed

text \<open>The word-wise operators against a bit-wise combination of two sets.\<close>

lemma minus_and: "w - (w AND v) = w AND NOT v" for w v :: u64
proof -
  have "w = (w AND v) OR (w AND NOT v)" by (rule bit_word_eqI) (auto simp: bit_simps)
  moreover have "(w AND v) AND (w AND NOT v) = 0" by (rule bit_word_eqI) (auto simp: bit_simps)
  ultimately have "w = (w AND v) + (w AND NOT v)" by (metis disjunctive_add_eq_or)
  then show ?thesis by (metis add_diff_cancel_left')
qed

lemma words_bits_map2:
  assumes "length ws = length vs" and "\<And>w v k. k < 64 \<Longrightarrow> bit (f w v) k \<longleftrightarrow> g (bit w k) (bit v k)"
  shows "words_bits (map2 f ws vs)
       = {b. b div 64 < length ws \<and> g (b \<in> words_bits ws) (b \<in> words_bits vs)}"
  using assms by (auto simp: words_bits_def)

lemma zip_words_ok:
  assumes "db_ok this" "db_ok other" "db_len this = db_len other"
    and "\<And>w v k. k < 64 \<Longrightarrow> bit (f w v) k \<longleftrightarrow> g (bit w k) (bit v k)" and "\<not> g False False"
  shows "\<exists>ws. zip_words f this other = Some ws \<and> length ws = db_arrlen this
      \<and> words_bits ws = {b. g (b \<in> db_bits this) (b \<in> db_bits other)}"
proof -
  have len: "db_arrlen this = db_arrlen other" using assms(1-3) by (simp add: db_ok_def)
  have "b div 64 < db_arrlen this" if "g (b \<in> db_bits this) (b \<in> db_bits other)" for b
  proof (rule ccontr)
    assume "\<not> b div 64 < db_arrlen this"
    then have "b \<notin> db_bits this" "b \<notin> db_bits other" using len by (simp_all add: words_bits_def)
    with that assms(5) show False by simp
  qed
  then have "words_bits (map2 f (db_array this) (db_array other)) = {b. g (b \<in> db_bits this) (b \<in> db_bits other)}"
    using words_bits_map2 [of "db_array this" "db_array other" f g, OF len assms(4)] by auto
  with len assms(3) show ?thesis by (simp add: zip_words_def)
qed

lemma zip_assign_ok:
  assumes "db_ok this" "db_ok other" "db_len this = db_len other"
    and "\<And>w v k. k < 64 \<Longrightarrow> bit (f w v) k \<longleftrightarrow> g (bit w k) (bit v k)" and "\<not> g False False"
  shows "\<exists>db'. map_option (\<lambda>ws. this\<lparr>db_array := ws\<rparr>) (zip_words f this other) = Some db' \<and> db_ok db'
      \<and> db_len db' = db_len this \<and> db_bits db' = {b. g (b \<in> db_bits this) (b \<in> db_bits other)}"
proof -
  obtain ws where ws: "zip_words f this other = Some ws" "length ws = db_arrlen this"
      "words_bits ws = {b. g (b \<in> db_bits this) (b \<in> db_bits other)}"
    using zip_words_ok [of this other f g] assms by blast
  have "db_ok (this\<lparr>db_array := ws\<rparr>)"
  proof -
    have "b < db_len this" if "g (b \<in> db_bits this) (b \<in> db_bits other)" for b
    proof -
      have "b \<in> db_bits this \<or> b \<in> db_bits other" using that assms(5) by (metis (full_types))
      then show ?thesis using assms(1-3) by (auto simp: db_ok_def)
    qed
    then show ?thesis using ws assms(1) by (auto simp: db_ok_def)
  qed
  with ws show ?thesis by simp
qed

lemma db_new_from_ok:
  assumes "db_ok this" "db_ok other" "db_len this = db_len other"
    and "\<And>w v k. k < 64 \<Longrightarrow> bit (f w v) k \<longleftrightarrow> g (bit w k) (bit v k)" and "\<not> g False False"
  shows "\<exists>db'. db_new_from fresh f this other = Some db' \<and> db_ok db'
      \<and> db_len db' = db_len this \<and> db_bits db' = {b. g (b \<in> db_bits this) (b \<in> db_bits other)}"
proof -
  obtain ret where ret: "db_sized fresh (db_len this) = Some ret" "db_ok ret" "db_len ret = db_len this"
    using db_sized_ok by blast
  obtain db' where db': "map_option (\<lambda>ws. this\<lparr>db_array := ws\<rparr>) (zip_words f this other) = Some db'" "db_ok db'"
      "db_len db' = db_len this" "db_bits db' = {b. g (b \<in> db_bits this) (b \<in> db_bits other)}"
    using zip_assign_ok [of this other f g] assms by blast
  then obtain ws where ws: "zip_words f this other = Some ws" "db' = this\<lparr>db_array := ws\<rparr>" by auto
  have "length ws = db_arrlen ret" using ws(2) db'(2,3) ret by (simp add: db_ok_def)
  moreover have "ret\<lparr>db_array := ws\<rparr> = db'" using ws(2) ret(3) by simp
  ultimately have "db_new_from fresh f this other = Some db'"
    using ret(1) ws(1) by (simp add: db_new_from_def)
  with db' show ?thesis by simp
qed

text \<open>All six operators, on equal lengths.\<close>

lemmas word_bits = bit_and_iff bit_or_iff bit_not_iff minus_and

lemma db_operators_ok:
  assumes "db_ok this" "db_ok other" "db_len this = db_len other"
  shows "\<exists>r. db_and fresh this other = Some r \<and> db_and_assign this other = Some r \<and> db_ok r
      \<and> db_len r = db_len this \<and> db_bits r = db_bits this \<inter> db_bits other" (is ?and)
    and "\<exists>r. db_or fresh this other = Some r \<and> db_or_assign this other = Some r \<and> db_ok r
      \<and> db_len r = db_len this \<and> db_bits r = db_bits this \<union> db_bits other" (is ?or)
    and "\<exists>r. db_minus fresh this other = Some r \<and> db_minus_assign this other = Some r \<and> db_ok r
      \<and> db_len r = db_len this \<and> db_bits r = db_bits this - db_bits other" (is ?minus)
proof -
  have both: "\<exists>r. db_new_from fresh f this other = Some r
      \<and> map_option (\<lambda>ws. this\<lparr>db_array := ws\<rparr>) (zip_words f this other) = Some r \<and> db_ok r
      \<and> db_len r = db_len this \<and> db_bits r = {b. g (b \<in> db_bits this) (b \<in> db_bits other)}"
    if "\<And>w v k. k < 64 \<Longrightarrow> bit (f w v) k \<longleftrightarrow> g (bit w k) (bit v k)" "\<not> g False False" for f g
    using db_new_from_ok [of this other f g fresh] zip_assign_ok [of this other f g] assms that db_ext
    by (metis (no_types, lifting))
  show ?and using both [of "(AND)" "(\<and>)"]
    by (simp add: db_and_def db_and_assign_def bit_and_iff Collect_conj_eq)
  show ?or using both [of "(OR)" "(\<or>)"]
    by (simp add: db_or_def db_or_assign_def bit_or_iff Collect_disj_eq)
  show ?minus using both [of "\<lambda>w v. w - (w AND v)" "\<lambda>p q. p \<and> \<not> q"]
    by (simp add: db_minus_def db_minus_assign_def minus_and bit_and_iff bit_not_iff set_diff_eq)
qed

lemma db_operators_size:
  assumes "db_len this \<noteq> db_len other"
  shows "db_and fresh this other = None \<and> db_or fresh this other = None \<and> db_minus fresh this other = None
      \<and> db_and_assign this other = None \<and> db_or_assign this other = None \<and> db_minus_assign this other = None"
  using assms
  by (simp add: db_and_def db_or_def db_minus_def db_new_from_def db_and_assign_def db_or_assign_def
      db_minus_assign_def zip_words_def)

section \<open>Serialization\<close>

definition db_img :: "dense_bitset \<Rightarrow> bytes" where
  "db_img db = le_bytes 8 (of_nat (db_len db) :: u64) @ le_bytes 8 (of_nat (db_arrlen db) :: u64)
     @ concat (map (le_bytes 8) (db_array db))"

interpretation db_ser: serializable db_save db_load db_img "\<lambda>db. db_len db < 2 ^ 64 \<and> db_arrlen db < 2 ^ 64"
proof unfold_locales
  fix db :: dense_bitset and b :: iarchive and r :: bytes
  assume small: "db_len db < 2 ^ 64 \<and> db_arrlen db < 2 ^ 64" and rest: "iarc_rest b = db_img db @ r"
  let ?c = "iarc_skip 8 b" and ?d = "iarc_skip 8 (iarc_skip 8 b)"
  have 1: "load_pod 8 b = Some (of_nat (db_len db) :: u64, ?c)"
    using small rest by (intro load_size) (simp_all add: db_img_def)
  have 2: "load_pod 8 ?c = Some (of_nat (db_arrlen db) :: u64, ?d)"
    using small rest by (intro load_size) (simp_all add: db_img_def)
  have 3: "iarc_read (8 * db_arrlen db) ?d
      = Some (concat (map (le_bytes 8) (db_array db)), iarc_skip (8 * db_arrlen db) ?d)"
    using rest by (intro iarc_read_skip [where r = r]) (simp_all add: db_img_def)
  have pos: "(of_nat (db_arrlen db) :: u64) > 0 \<longleftrightarrow> db_array db \<noteq> []"
    using small unat_of_size [of "db_arrlen db"] by (simp add: word_less_nat_alt)
  have eq: "\<lparr>db_array = db_array db, db_len = db_len db\<rparr> = db" by simp
  show "db_load b = Some (db, iarc_skip (length (db_img db)) b)"
  proof (cases "db_array db = []")
    case True
    then show ?thesis using 1 2 pos small eq by (simp add: db_load_def unat_of_size db_img_def)
  next
    case False
    then show ?thesis
      using 1 2 3 pos small eq words_of_bytes_image [of 8 "db_array db" "[]"]
      by (simp add: db_load_def unat_of_size db_img_def)
  qed
qed (auto simp: db_save_def db_img_def Let_def u64_pod.save_contents u64_pod.save_ok codec)

section \<open>Transfer between bit sets\<close>

definition block_bits :: "nat \<Rightarrow> u64 list \<Rightarrow> nat set" where
  "block_bits i ws = {c \<in> words_bits ws. c div 64 = i}"

lemma block_bits_sub: "block_bits i ws \<subseteq> words_bits ws" "finite (block_bits i ws)"
  by (auto simp: block_bits_def)

lemma card_block_bits:
  assumes "i < length ws"
  shows "card (block_bits i ws) = num_bits_on (ws ! i)"
proof -
  have "block_bits i ws = (\<lambda>j. 64 * i + j) ` {j. bit (ws ! i) j}"
  proof (rule set_eqI)
    fix c :: nat
    have "c = 64 * (c div 64) + c mod 64" by simp
    then have "c \<in> (\<lambda>j. 64 * i + j) ` {j. bit (ws ! i) j} \<longleftrightarrow> c div 64 = i \<and> bit (ws ! i) (c mod 64)"
      using bit_imp_le_length [of "ws ! i"] by (auto simp: image_iff)
    then show "c \<in> block_bits i ws \<longleftrightarrow> c \<in> (\<lambda>j. 64 * i + j) ` {j. bit (ws ! i) j}"
      using assms by (auto simp: block_bits_def words_bits_def)
  qed
  then show ?thesis by (simp add: card_image num_bits_on_card)
qed

lemma num_bits_on_le: "num_bits_on w \<le> 64" for w :: u64
  by (simp add: num_bits_on_def) (metis diff_zero length_filter_le length_upt)

text \<open>One pass of the loop body moves one block; a zero word moves nothing.\<close>

lemma move_block:
  assumes "i < length a" and "i < length ws"
  shows "words_bits (a[i := a ! i OR ws ! i]) = words_bits a \<union> block_bits i ws"
    and "words_bits (ws[i := 0]) = words_bits ws - block_bits i ws"
proof -
  have "c \<in> words_bits (a[i := a ! i OR ws ! i]) \<longleftrightarrow> c \<in> words_bits a \<union> block_bits i ws" for c
    using assms by (cases "c div 64 = i") (auto simp: words_bits_def block_bits_def bit_or_iff)
  then show "words_bits (a[i := a ! i OR ws ! i]) = words_bits a \<union> block_bits i ws" by blast
  have "c \<in> words_bits (ws[i := 0]) \<longleftrightarrow> c \<in> words_bits ws - block_bits i ws" for c
    using assms by (cases "c div 64 = i") (auto simp: words_bits_def block_bits_def)
  then show "words_bits (ws[i := 0]) = words_bits ws - block_bits i ws" by blast
qed

lemma transfer_loop_done:
  "b \<le> t \<Longrightarrow> transfer_loop init b t p a ws = Some (t, p, a, ws)"
  by (subst transfer_loop.simps) simp

lemma transfer_loop_step:
  assumes "t < b" and "p < length ws" and "length a = length ws"
  shows "transfer_loop init b t p a ws =
    (let t = t + num_bits_on (ws ! p); a = a[p := a ! p OR ws ! p]; ws = ws[p := 0] in
     if length ws \<le> p + 1 then transfer_loop init b t 0 a ws
     else if p + 1 = init then Some (t, p + 1, a, ws)
     else transfer_loop init b t (p + 1) a ws)"
proof (cases "ws ! p = 0")
  case True
  then have "a[p := a ! p OR ws ! p] = a" "ws[p := 0] = ws" "num_bits_on (ws ! p) = 0"
    using list_update_id [of ws p] by (simp_all add: num_bits_on_def)
  with assms True show ?thesis by (subst transfer_loop.simps) (simp add: Let_def)
next
  case False
  then have "ws ! p > 0" by (simp add: word_gt_0)
  with assms show ?thesis by (subst transfer_loop.simps) (simp add: Let_def)
qed

text \<open>What a finished transfer has done: it moved a set \<open>M\<close>, of at least \<open>b - t\<close> bits or all there were.\<close>

definition transferred_to ::
  "nat \<Rightarrow> nat \<Rightarrow> u64 list \<Rightarrow> u64 list \<Rightarrow> (nat \<times> nat \<times> u64 list \<times> u64 list) option \<Rightarrow> bool" where
  "transferred_to b t a ws r \<longleftrightarrow> (\<exists>t' p' a' ws' M. r = Some (t', p', a', ws') \<and> M \<subseteq> words_bits ws
     \<and> words_bits a' = words_bits a \<union> M \<and> words_bits ws' = words_bits ws - M \<and> t' = t + card M
     \<and> length a' = length a \<and> length ws' = length ws \<and> p' < length ws
     \<and> (b \<le> t' \<or> words_bits ws' = {}) \<and> (t' = t \<or> t' < b + 64))"

lemma transferred_done:
  assumes "b \<le> t \<or> words_bits ws = {}" and "p < length ws"
  shows "transferred_to b t a ws (Some (t, p, a, ws))"
  unfolding transferred_to_def
  by (rule exI [of _ t], rule exI [of _ p], rule exI [of _ a], rule exI [of _ ws], rule exI [of _ "{}"])
    (use assms in simp)

lemma transferred_step:
  assumes "i < length ws" "length a = length ws" "t < b"
    and r: "transferred_to b (t + num_bits_on (ws ! i)) (a[i := a ! i OR ws ! i]) (ws[i := 0]) r"
  shows "transferred_to b t a ws r"
proof -
  obtain t' p' a' ws' M where M: "r = Some (t', p', a', ws')" "M \<subseteq> words_bits (ws[i := 0])"
      "words_bits a' = words_bits (a[i := a ! i OR ws ! i]) \<union> M" "words_bits ws' = words_bits (ws[i := 0]) - M"
      "t' = (t + num_bits_on (ws ! i)) + card M" "length a' = length a" "length ws' = length ws" "p' < length ws"
      "b \<le> t' \<or> words_bits ws' = {}" "t' = t + num_bits_on (ws ! i) \<or> t' < b + 64"
    using r unfolding transferred_to_def length_list_update by blast
  note mv = move_block [of i a ws]
  let ?M = "block_bits i ws \<union> M"
  have disj: "block_bits i ws \<inter> M = {}" using M(2) mv(2) assms(1,2) by auto
  have fin: "finite M" using M(2) finite_subset finite_words_bits by blast
  have "card ?M = num_bits_on (ws ! i) + card M"
    using card_block_bits [OF assms(1)] card_Un_disjoint [OF block_bits_sub(2) fin disj] by simp
  moreover have "?M \<subseteq> words_bits ws" using M(2) mv(2) assms(1,2) block_bits_sub(1) by auto
  moreover have "words_bits a' = words_bits a \<union> ?M" "words_bits ws' = words_bits ws - ?M"
    using M(3,4) mv assms(1,2) by auto
  moreover have "t' = t \<or> t' < b + 64" using M(10) assms(3) num_bits_on_le [of "ws ! i"] by linarith
  moreover have "t' = t + (num_bits_on (ws ! i) + card M)" using M(5) by simp
  ultimately show ?thesis unfolding transferred_to_def using M(1,6-9) by metis
qed

text \<open>
  When the start word is not the first one, the loop ends after one round: \<open>d\<close> words are left
  before it meets the start again, and the words it has passed are empty.
\<close>

lemma transfer_loop_round:
  assumes "0 < init" "init < length ws" "length a = length ws" "p < length ws"
    and "d = (if init \<le> p then length ws - p + init else init - p)"
    and "\<forall>c \<in> words_bits ws. if init \<le> p then \<not> (init \<le> c div 64 \<and> c div 64 < p)
           else \<not> (init \<le> c div 64 \<or> c div 64 < p)"
  shows "transferred_to b t a ws (transfer_loop init b t p a ws)"
  using assms
proof (induction d arbitrary: t p a ws rule: less_induct)
  case (less d)
  show ?case
  proof (cases "t < b")
    case False
    then show ?thesis using less.prems by (simp add: transfer_loop_done transferred_done)
  next
    case True
    let ?t = "t + num_bits_on (ws ! p)" and ?a = "a[p := a ! p OR ws ! p]" and ?ws = "ws[p := 0]"
    have bits: "words_bits ?ws = {c \<in> words_bits ws. c div 64 \<noteq> p}"
      using move_block(2) [of p a ws] less.prems by (auto simp: block_bits_def)
    have step: "transferred_to b t a ws r" if "transferred_to b ?t ?a ?ws r" for r
      using transferred_step [of p ws a t b r] that less.prems True by simp
    note unfold = transfer_loop_step [OF True less.prems(4,3), unfolded Let_def]
    consider (wrap) "length ws \<le> p + 1" | (stop) "p + 1 < length ws" "p + 1 = init"
      | (forward) "p + 1 < length ws" "p + 1 \<noteq> init" by linarith
    then show ?thesis
    proof cases
      case wrap
      then have d: "init < d" "init \<le> p" using less.prems by auto
      have "\<forall>c \<in> words_bits ?ws. if init \<le> 0 then \<not> (init \<le> c div 64 \<and> c div 64 < 0)
           else \<not> (init \<le> c div 64 \<or> c div 64 < 0)"
      proof
        fix c assume c: "c \<in> words_bits ?ws"
        then have "c div 64 < length ws" "c div 64 \<noteq> p" "\<not> (init \<le> c div 64 \<and> c div 64 < p)"
          using less.prems(6) d(2) bits by (auto simp: words_bits_def)
        then show "if init \<le> 0 then \<not> (init \<le> c div 64 \<and> c div 64 < 0) else \<not> (init \<le> c div 64 \<or> c div 64 < 0)"
          using wrap less.prems(1) by auto
      qed
      then have "transferred_to b ?t ?a ?ws (transfer_loop init b ?t 0 ?a ?ws)"
        using less.prems d by (intro less.IH [of init]) auto
      with step wrap show ?thesis unfolding unfold by simp
    next
      case stop
      have "words_bits ?ws = {}"
        using less.prems(6) stop bits by fastforce
      then have "transferred_to b ?t ?a ?ws (Some (?t, p + 1, ?a, ?ws))"
        using stop by (intro transferred_done) auto
      with step stop show ?thesis unfolding unfold by simp
    next
      case forward
      let ?d = "if init \<le> p + 1 then length ws - (p + 1) + init else init - (p + 1)"
      have "\<forall>c \<in> words_bits ?ws. if init \<le> p + 1 then \<not> (init \<le> c div 64 \<and> c div 64 < p + 1)
           else \<not> (init \<le> c div 64 \<or> c div 64 < p + 1)"
      proof
        fix c assume "c \<in> words_bits ?ws"
        then have "c div 64 \<noteq> p" "if init \<le> p then \<not> (init \<le> c div 64 \<and> c div 64 < p)
           else \<not> (init \<le> c div 64 \<or> c div 64 < p)"
          using less.prems(6) bits by auto
        then show "if init \<le> p + 1 then \<not> (init \<le> c div 64 \<and> c div 64 < p + 1)
           else \<not> (init \<le> c div 64 \<or> c div 64 < p + 1)"
          using forward(2) by (auto split: if_splits)
      qed
      moreover have "?d < d" using less.prems(5) forward by (auto split: if_splits)
      ultimately have "transferred_to b ?t ?a ?ws (transfer_loop init b ?t (p + 1) ?a ?ws)"
        using less.prems forward by (intro less.IH [of ?d]) auto
      with step forward show ?thesis unfolding unfold by simp
    qed
  qed
qed

text \<open>
  Otherwise the test for the start never succeeds, and the loop runs until enough bits have been
  moved. \<open>m\<close> is a word that still has bits.
\<close>

lemma transfer_loop_enough:
  assumes "init = 0 \<or> length ws \<le> init" "length a = length ws" "p < length ws" "b \<le> t + card (words_bits ws)"
  shows "transferred_to b t a ws (transfer_loop init b t p a ws)"
proof -
  define D where "D = (\<lambda>m p n :: nat. if p \<le> m then m - p else n - p + m)"
  have "transferred_to b t a ws (transfer_loop init b t p a ws)"
    if "t < b \<longrightarrow> (\<exists>c \<in> words_bits ws. c div 64 = m)" for m
    using that assms
  proof (induction "(card (words_bits ws), D m p (length ws))" arbitrary: m t p a ws
      rule: wf_induct_rule [OF wf_lex_prod [OF wf_less_than wf_less_than]])
    case 1
    note IH = 1(1) and found = 1(2) and init = 1(3) and len = 1(4) and p = 1(5) and enough = 1(6)
    show ?case
    proof (cases "t < b")
      case False
      then show ?thesis using p by (simp add: transfer_loop_done transferred_done)
    next
      case True
      then obtain c where c: "c \<in> words_bits ws" "c div 64 = m" using found by blast
      then have m: "m < length ws" by (auto simp: words_bits_def)
      let ?t = "t + num_bits_on (ws ! p)" and ?a = "a[p := a ! p OR ws ! p]" and ?ws = "ws[p := 0]"
      have bits: "words_bits ?ws = words_bits ws - block_bits p ws"
        using move_block(2) [of p a ws] len p by simp
      have card: "card (words_bits ?ws) = card (words_bits ws) - num_bits_on (ws ! p)"
          "num_bits_on (ws ! p) \<le> card (words_bits ws)"
        using card_block_bits [OF p] block_bits_sub [of p ws] bits card_mono [OF finite_words_bits block_bits_sub(1)]
        by (simp_all add: card_Diff_subset) metis
      define q where "q = (if length ws \<le> p + 1 then 0 else p + 1)"
      have same: "words_bits ?ws = words_bits ws" if "card (words_bits ?ws) = card (words_bits ws)"
        using that bits by (intro card_subset_eq) auto
      obtain m' where m': "?t < b \<longrightarrow> (\<exists>c \<in> words_bits ?ws. c div 64 = m')"
        "card (words_bits ?ws) = card (words_bits ws) \<longrightarrow> m' = m"
      proof (cases "card (words_bits ?ws) = card (words_bits ws)")
        case True
        then show ?thesis using that [of m] same c by metis
      next
        case False
        have "words_bits ?ws \<noteq> {}" if "?t < b" using that card enough by fastforce
        then show ?thesis using that False by blast
      qed
      have "((card (words_bits ?ws), D m' q (length ?ws)), (card (words_bits ws), D m p (length ws)))
          \<in> less_than <*lex*> less_than"
      proof (cases "card (words_bits ?ws) = card (words_bits ws)")
        case True
        then have "p \<noteq> m" using c bits same by (auto simp: block_bits_def)
        then show ?thesis using True m' m p by (auto simp: D_def q_def)
      next
        case False
        then show ?thesis using card by auto
      qed
      then have "transferred_to b ?t ?a ?ws (transfer_loop init b ?t q ?a ?ws)"
        using m'(1) card init len p enough by (intro IH) (auto simp: q_def)
      moreover have "transfer_loop init b t p a ws = transfer_loop init b ?t q ?a ?ws"
        using init p len by (subst transfer_loop_step [OF True]) (auto simp: q_def Let_def)
      ultimately show ?thesis using transferred_step [of p ws a t b] p len True by simp
    qed
  qed
  moreover have "\<exists>c. c \<in> words_bits ws" if "t < b"
    using that assms(4) by (metis add.right_neutral all_not_in_conv card.empty not_le)
  ultimately show ?thesis by blast
qed

lemma card_moved:
  assumes "i < length ws"
  shows "card (words_bits (ws[i := 0])) + num_bits_on (ws ! i) = card (words_bits ws)"
  using card_block_bits [OF assms] move_block(2) [of i ws ws] assms
    card_mono [OF finite_words_bits block_bits_sub(1), of i ws]
  by (simp add: card_Diff_subset [OF block_bits_sub(2,1)])

lemma transfer_loop_bits:
  assumes "transfer_loop init b t p a ws = Some r" and "init = 0 \<or> length ws \<le> init"
  shows "b \<le> t + card (words_bits ws)"
proof -
  have "init = 0 \<or> length ws \<le> init \<longrightarrow> b \<le> t + card (words_bits ws)"
  proof (rule transfer_loop.raw_induct [where P = "\<lambda>init b t p a ws r.
      init = 0 \<or> length ws \<le> init \<longrightarrow> b \<le> t + card (words_bits ws)", OF _ assms(1)], goal_cases)
    case (1 loop init b t p a ws r)
    show ?case
    proof (intro impI)
      assume init: "init = 0 \<or> length ws \<le> init"
      show "b \<le> t + card (words_bits ws)"
      proof (cases "t < b")
        case True
        then have p: "p < length ws" using 1(2) by (auto split: if_splits)
        show ?thesis
        proof (cases "ws ! p > 0")
          case gt: True
          then have "\<exists>q. loop init b (t + num_bits_on (ws ! p)) q (a[p := a ! p OR ws ! p]) (ws[p := 0]) = Some r"
            using 1(2) True init p by (auto simp: Let_def split: if_splits)
          then have "b \<le> t + num_bits_on (ws ! p) + card (words_bits (ws[p := 0]))"
            using 1(1) init by fastforce
          then show ?thesis using card_moved [OF p] by simp
        next
          case False
          then have "\<exists>q. loop init b t q a ws = Some r"
            using 1(2) True init p by (auto simp: Let_def split: if_splits)
          then show ?thesis using 1(1) init by blast
        qed
      qed simp
    qed
  qed
  with assms(2) show ?thesis by blast
qed

lemma db_transfer_ok:
  assumes "db_ok this" "db_ok other" "db_len other = db_len this" "0 < db_len this"
    and "b \<le> card (db_bits other) \<or> (0 < start div 64 \<and> start div 64 < db_arrlen this)"
  shows "\<exists>this' other' start' b' M. db_transfer_approximate_unsafe this other start b = Some (this', other', start', b')
      \<and> db_ok this' \<and> db_ok other' \<and> db_len this' = db_len this \<and> db_len other' = db_len this
      \<and> M \<subseteq> db_bits other \<and> db_bits this' = db_bits this \<union> M \<and> db_bits other' = db_bits other - M
      \<and> b' = card M \<and> (b \<le> b' \<or> db_bits other' = {}) \<and> (b' = 0 \<or> b' < b + 64)"
proof -
  let ?i = "start div 64" and ?n = "db_arrlen this"
  let ?p = "if ?n \<le> ?i then 0 else ?i"
  have len: "db_arrlen other = ?n" using assms(1-3) by (simp add: db_ok_def)
  have n: "0 < ?n" using assms(1,4) words_for_index [of 0 "db_len this"] by (simp add: db_ok_def)
  have "transferred_to b 0 (db_array this) (db_array other) (transfer_loop ?i b 0 ?p (db_array this) (db_array other))"
  proof (cases "0 < ?i \<and> ?i < ?n")
    case True
    then have "?p = ?i" by simp
    then show ?thesis using True len
      by (simp only:) (rule transfer_loop_round [of _ _ _ _ "?n - ?i + ?i"], auto)
  next
    case False
    then show ?thesis using len n assms(5) by (intro transfer_loop_enough) auto
  qed
  then obtain t' p' a' ws' M where M:
    "transfer_loop ?i b 0 ?p (db_array this) (db_array other) = Some (t', p', a', ws')"
    "M \<subseteq> db_bits other" "words_bits a' = db_bits this \<union> M" "words_bits ws' = db_bits other - M"
    "t' = card M" "length a' = ?n" "length ws' = ?n" "b \<le> t' \<or> words_bits ws' = {}" "t' = 0 \<or> t' < b + 64"
    unfolding transferred_to_def using len by auto
  have "db_transfer_approximate_unsafe this other start b
      = Some (this\<lparr>db_array := a'\<rparr>, other\<lparr>db_array := ws'\<rparr>, 64 * p', t')"
    using M(1) len assms(3) by (simp add: db_transfer_approximate_unsafe_def Let_def)
  moreover have "db_ok (this\<lparr>db_array := a'\<rparr>)" "db_ok (other\<lparr>db_array := ws'\<rparr>)"
    using M assms(1-3) len by (auto simp: db_ok_def)
  ultimately show ?thesis using M assms(3)
    by (intro exI [of _ "this\<lparr>db_array := a'\<rparr>"] exI [of _ "other\<lparr>db_array := ws'\<rparr>"] exI [of _ "64 * p'"]
        exI [of _ t'] exI [of _ M]) simp
qed

lemma db_transfer_diverges:
  assumes "start div 64 = 0 \<or> db_arrlen other \<le> start div 64" and "card (db_bits other) < b"
  shows "db_transfer_approximate_unsafe this other start b = None"
proof (rule ccontr)
  assume "db_transfer_approximate_unsafe this other start b \<noteq> None"
  then obtain p r where "transfer_loop (start div 64) b 0 p (db_array this) (db_array other) = Some r"
    by (auto simp: db_transfer_approximate_unsafe_def Let_def split: if_splits Option.bind_splits)
  from transfer_loop_bits [OF this assms(1)] assms(2) show False by simp
qed

section \<open>Properties\<close>

text \<open>
  C19. \<open>resize\<close> keeps exactly the bits below the new size: the bits it adds are off, whatever
  \<open>realloc\<close> leaves in the new words, the bits it cuts off are gone, and the invariant holds again.
\<close>

theorem resize_keeps_bits:
  assumes "db_ok db"
  shows "\<exists>db'. db_resize fresh n db = Some db' \<and> db_ok db' \<and> db_len db' = n
      \<and> db_bits db' = db_bits db \<inter> {..<n}"
  by (rule db_resize_ok [OF assms])

theorem resize_keeps_bits_witness:
  "db_ok db_new \<and> (\<exists>db'. db_resize (\<lambda>_. - 1) 70 db_new = Some db' \<and> db_ok db' \<and> db_bits db' = {})"
  using resize_keeps_bits [of db_new "\<lambda>_. - 1" 70] by auto


lemma sized_db: obtains db where "db_sized (\<lambda>_. 0) n = Some db" "db_ok db" "db_len db = n" "db_bits db = {}"
  using db_sized_ok by blast


text \<open>
  \<open>set_bit\<close> as a lock: when several threads set bits of a shared bit set, in any order, then
  for every bit exactly one of the calls for it returns \<open>false\<close> if the bit was off at the start,
  and none if it was on; the final set does not depend on the order.
\<close>

theorem set_bit_won_once:
  assumes "db_ok db" and "\<forall>b \<in> set bs. b < db_len db"
  shows "\<exists>olds db'. dense.run (map (\<lambda>b. (b, True)) bs) db = Some (olds, db') \<and> db_bits db' = db_bits db \<union> set bs
      \<and> (\<forall>c. length (filter (\<lambda>(b, old). b = c \<and> \<not> old) (zip bs olds)) = (if c \<in> set bs \<and> c \<notin> db_bits db then 1 else 0))"
  by (rule dense.set_bits_once [OF assms])

theorem set_bit_won_once_witness:
  "\<exists>db. db_len db = 9 \<and> (\<exists>olds db'. dense.run [(5, True), (5, True)] db = Some (olds, db') \<and> db_bits db' = {5}
      \<and> length (filter (\<lambda>(b, old). b = (5 :: nat) \<and> \<not> old) (zip [5, 5] olds)) = 1)"
proof -
  obtain db where db: "db_ok db" "db_len db = 9" "db_bits db = {}" by (rule sized_db)
  then have "\<forall>b \<in> set [5, 5]. b < db_len db" by simp
  from set_bit_won_once [OF db(1) this] db show ?thesis by (intro exI [of _ db]) auto
qed

text \<open>
  \<open>next_bit\<close> finds the smallest set position above \<open>b\<close>, in the same word or a later one, and
  reports failure (leaving \<open>b\<close> alone) exactly when there is none; \<open>next_zero_bit\<close> does the same
  for the positions below the size that are off.
\<close>

theorem next_bit_least:
  assumes "db_ok db" and "b < db_len db"
  shows "db_next_bit b db = Some (case search_result {c \<in> db_bits db. b < c} of Some p \<Rightarrow> (True, p) | None \<Rightarrow> (False, b))
    \<and> db_next_zero_bit b db = Some (case search_result {c. b < c \<and> c < db_len db \<and> c \<notin> db_bits db} of
        Some p \<Rightarrow> (True, p) | None \<Rightarrow> (False, b))"
  using db_next_bit_ok [OF assms] db_next_zero_bit_ok [OF assms] by blast

theorem next_bit_least_witness:
  "\<exists>db. db_len db = 70 \<and> db_next_bit 4 db = Some (False, 4) \<and> (\<exists>r. db_next_zero_bit 4 db = Some r)"
proof -
  obtain db where db: "db_ok db" "db_len db = 70" "db_bits db = {}" by (rule sized_db)
  then show ?thesis using next_bit_least [of db 4] by (intro exI [of _ db]) (simp add: search_result_def)
qed

text \<open>
  Iterating from \<open>begin ()\<close> to \<open>end ()\<close> terminates and visits the positions that are on, each
  once, in increasing order.
\<close>

theorem iteration_visits_bits:
  assumes "db_ok db"
  shows "db_enumerate db = Some (sorted_list_of_set (db_bits db))"
  by (rule db_enumerate_ok [OF assms])

theorem iteration_visits_bits_witness:
  "\<exists>db. db_len db = 70 \<and> db_enumerate db = Some [65]"
proof -
  obtain db where db: "db_ok db" "db_len db = 70" "db_bits db = {}" by (rule sized_db)
  then obtain db' where "db_ok db'" "db_len db' = 70" "db_bits db' = {65}"
    using db_set_bit_ok [of db 65] by auto
  then show ?thesis using iteration_visits_bits [of db'] by auto
qed

text \<open>\<open>popcount\<close> is the number of bits that are on, and \<open>empty\<close> holds when there is none.\<close>

theorem popcount_is_card: "db_popcount db = card (db_bits db) \<and> (db_empty db \<longleftrightarrow> db_bits db = {})"
  using db_popcount_card db_empty_iff by blast

text \<open>
  The operators \<open>&\<close>, \<open>|\<close> and \<open>-\<close> and their assignment forms compute intersection, union and
  difference of two bit sets of equal size, keep the invariant, and agree with each other.
\<close>

theorem operators_are_set_operations:
  assumes "db_ok this" "db_ok other" "db_len this = db_len other"
  shows "\<exists>i u d. db_and fresh this other = Some i \<and> db_and_assign this other = Some i
      \<and> db_or fresh this other = Some u \<and> db_or_assign this other = Some u
      \<and> db_minus fresh this other = Some d \<and> db_minus_assign this other = Some d
      \<and> db_ok i \<and> db_ok u \<and> db_ok d
      \<and> db_bits i = db_bits this \<inter> db_bits other \<and> db_bits u = db_bits this \<union> db_bits other
      \<and> db_bits d = db_bits this - db_bits other"
  using db_operators_ok [OF assms, of fresh] by blast

theorem operators_are_set_operations_witness:
  "\<exists>db i. db_len db = 70 \<and> db_and (\<lambda>_. 5) db db = Some i \<and> db_and_assign db db = Some i \<and> db_bits i = {}"
proof -
  obtain db where db: "db_ok db" "db_len db = 70" "db_bits db = {}" by (rule sized_db)
  then show ?thesis using operators_are_set_operations [of db db "\<lambda>_. 5"] by fastforce
qed

text \<open>\<open>fill\<close> sets exactly the positions below the size, and \<open>invert\<close> complements within them.\<close>

theorem fill_and_invert:
  assumes "db_ok db"
  shows "\<exists>f i. db_fill db = Some f \<and> db_ok f \<and> db_bits f = {..<db_len db}
      \<and> db_invert db = Some i \<and> db_ok i \<and> db_bits i = {..<db_len db} - db_bits db"
  using db_fill_ok [OF assms] db_invert_ok [OF assms] by blast

theorem fill_and_invert_witness: "\<exists>f. db_fill db_new = Some f \<and> db_bits f = {}"
  using fill_and_invert [of db_new] by auto

text \<open>A bit set that is saved and loaded again is unchanged, and loading stops behind its bytes.\<close>

theorem bitset_save_load:
  assumes "db_len db < 2 ^ 64" "db_arrlen db < 2 ^ 64" "oarc_ok oarc" "oarc_contents oarc = []"
  shows "\<exists>n. db_load (iarchive_new (oarc_contents (db_save db oarc) @ r) l)
      = Some (db, iarc_skip n (iarchive_new (oarc_contents (db_save db oarc) @ r) l))
      \<and> n = length (oarc_contents (db_save db oarc))"
  using db_ser.save_load [of db oarc r l] db_ser.save_contents [of oarc db] assms by simp

theorem bitset_save_load_witness:
  "\<exists>n. db_load (iarchive_new (oarc_contents (db_save \<lparr>db_array = [9], db_len = 5\<rparr> oarchive_stream) @ [1]) 0)
      = Some (\<lparr>db_array = [9], db_len = 5\<rparr>,
              iarc_skip n (iarchive_new (oarc_contents (db_save \<lparr>db_array = [9], db_len = 5\<rparr> oarchive_stream) @ [1]) 0))"
  using bitset_save_load [of "\<lparr>db_array = [9], db_len = 5\<rparr>" oarchive_stream "[1]" 0] by auto

text \<open>
  \<open>transfer_approximate_unsafe\<close>, when the source holds \<open>b\<close> bits or the start is in a word
  other than the first: it returns, the bits it reports are moved from one set to the other, they
  are at least \<open>b\<close> or all there were, and fewer than \<open>b + 64\<close>.
\<close>

theorem transfer_moves_bits:
  assumes "db_ok this" "db_ok other" "db_len other = db_len this" "0 < db_len this"
    and "b \<le> card (db_bits other) \<or> (0 < start div 64 \<and> start div 64 < db_arrlen this)"
  shows "\<exists>this' other' start' b' M. db_transfer_approximate_unsafe this other start b = Some (this', other', start', b')
      \<and> db_ok this' \<and> db_ok other' \<and> db_len this' = db_len this \<and> db_len other' = db_len this
      \<and> M \<subseteq> db_bits other \<and> db_bits this' = db_bits this \<union> M \<and> db_bits other' = db_bits other - M
      \<and> b' = card M \<and> (b \<le> b' \<or> db_bits other' = {}) \<and> (b' = 0 \<or> b' < b + 64)"
  by (rule db_transfer_ok [OF assms])

theorem transfer_moves_bits_witness:
  "\<exists>db r. db_len db = 130 \<and> db_transfer_approximate_unsafe db db 64 5 = Some r"
proof -
  obtain db where db: "db_ok db" "db_len db = 130" by (rule sized_db)
  moreover from db have "1 < db_arrlen db" by (simp add: db_ok_def words_for_def)
  ultimately show ?thesis using transfer_moves_bits [of db db 5 64] by auto
qed



end
