(* ===== verification/Fixed_Bitset.thy ===== *)
theory Fixed_Bitset
  imports Dense_Bitset
begin

text \<open>
  \<open>fixed_dense_bitset<len>\<close> of \<open>util/dense_bitset.hpp\<close>. Its state is the word array; the template
  parameter \<open>len\<close> is an argument, and \<open>arrlen\<close> is the constant \<open>words_for len\<close>. The bodies of most
  members are those of \<open>dense_bitset\<close>, read with this constant length: \<open>fixed_view\<close>. The binary
  operators \<open>&\<close>, \<open>|\<close> and \<open>-\<close> construct their result by \<open>fixed_dense_bitset ret (size ())\<close>, a
  constructor the class does not have, so they cannot be instantiated and are not modelled.
\<close>

section \<open>Operations\<close>

definition fixed_view :: "nat \<Rightarrow> u64 list \<Rightarrow> dense_bitset" where
  "fixed_view len array = \<lparr>db_array = array, db_len = len\<rparr>"

definition fixed_new :: "nat \<Rightarrow> u64 list" where
  "fixed_new len = replicate (words_for len) 0"

text \<open>\<open>memcpy\<close> of \<open>memlen\<close> bytes over the array; \<open>None\<close> when they do not fit or are not there.\<close>

definition fixed_initialize_from_mem :: "nat \<Rightarrow> bytes \<Rightarrow> nat \<Rightarrow> u64 list \<Rightarrow> u64 list option" where
  "fixed_initialize_from_mem len mem memlen array =
     (if memlen \<le> length mem \<and> memlen \<le> 8 * length array
      then Some (words_of_bytes 8 (length array)
                   (overwrite 0 (take memlen mem) (concat (map (le_bytes 8) array))))
      else None)"

definition fixed_assign :: "nat \<Rightarrow> u64 list \<Rightarrow> u64 list \<Rightarrow> u64 list" where
  "fixed_assign len db array = take (words_for len) db"

definition fixed_clear :: "nat \<Rightarrow> u64 list \<Rightarrow> u64 list" where
  "fixed_clear len array = replicate (words_for len) 0"

definition fixed_fill :: "nat \<Rightarrow> u64 list \<Rightarrow> u64 list option" where
  "fixed_fill len array = map_option db_array (db_fill (fixed_view len array))"

definition fixed_empty :: "nat \<Rightarrow> u64 list \<Rightarrow> bool" where
  "fixed_empty len array \<longleftrightarrow> db_empty (fixed_view len array)"

definition fixed_get :: "nat \<Rightarrow> nat \<Rightarrow> u64 list \<Rightarrow> bool option" where
  "fixed_get len b array = db_get b (fixed_view len array)"

definition fixed_set_bit :: "nat \<Rightarrow> nat \<Rightarrow> u64 list \<Rightarrow> (bool \<times> u64 list) option" where
  "fixed_set_bit len b array = map_option (apsnd db_array) (db_set_bit b (fixed_view len array))"

definition fixed_containing_word :: "nat \<Rightarrow> nat \<Rightarrow> u64 list \<Rightarrow> u64 option" where
  "fixed_containing_word len b array = db_containing_word b (fixed_view len array)"

definition fixed_set_bit_unsync :: "nat \<Rightarrow> nat \<Rightarrow> u64 list \<Rightarrow> (bool \<times> u64 list) option" where
  "fixed_set_bit_unsync len b array = map_option (apsnd db_array) (db_set_bit_unsync b (fixed_view len array))"

definition fixed_clear_bit :: "nat \<Rightarrow> nat \<Rightarrow> u64 list \<Rightarrow> (bool \<times> u64 list) option" where
  "fixed_clear_bit len b array = map_option (apsnd db_array) (db_clear_bit b (fixed_view len array))"

definition fixed_clear_bit_unsync :: "nat \<Rightarrow> nat \<Rightarrow> u64 list \<Rightarrow> (bool \<times> u64 list) option" where
  "fixed_clear_bit_unsync len b array = map_option (apsnd db_array) (db_clear_bit_unsync b (fixed_view len array))"

definition fixed_set :: "nat \<Rightarrow> nat \<Rightarrow> bool \<Rightarrow> u64 list \<Rightarrow> (bool \<times> u64 list) option" where
  "fixed_set len b value array =
     (if value then fixed_set_bit len b array else fixed_clear_bit len b array)"

definition fixed_set_unsync :: "nat \<Rightarrow> nat \<Rightarrow> bool \<Rightarrow> u64 list \<Rightarrow> (bool \<times> u64 list) option" where
  "fixed_set_unsync len b value array =
     (if value then fixed_set_bit_unsync len b array else fixed_clear_bit_unsync len b array)"

definition fixed_first_bit :: "nat \<Rightarrow> nat \<Rightarrow> u64 list \<Rightarrow> bool \<times> nat" where
  "fixed_first_bit len b array = db_first_bit b (fixed_view len array)"

definition fixed_first_zero_bit :: "nat \<Rightarrow> nat \<Rightarrow> u64 list \<Rightarrow> bool \<times> nat" where
  "fixed_first_zero_bit len b array = db_first_zero_bit b (fixed_view len array)"

definition fixed_next_bit :: "nat \<Rightarrow> nat \<Rightarrow> u64 list \<Rightarrow> (bool \<times> nat) option" where
  "fixed_next_bit len b array = db_next_bit b (fixed_view len array)"

definition fixed_enumerate :: "nat \<Rightarrow> u64 list \<Rightarrow> nat list option" where
  "fixed_enumerate len array = db_enumerate (fixed_view len array)"

text \<open>No length is written: the type fixes it.\<close>

definition fixed_save :: "nat \<Rightarrow> u64 list \<Rightarrow> oarchive \<Rightarrow> oarchive" where
  "fixed_save len array oarc = oarc_write (concat (map (le_bytes 8) array)) oarc"

definition fixed_load :: "nat \<Rightarrow> iarchive \<Rightarrow> (u64 list \<times> iarchive) option" where
  "fixed_load len iarc = do {
     (mem, iarc) \<leftarrow> iarc_read (8 * words_for len) iarc;
     Some (words_of_bytes 8 (words_for len) mem, iarc)
   }"

definition fixed_popcount :: "nat \<Rightarrow> u64 list \<Rightarrow> nat" where
  "fixed_popcount len array = fold (\<lambda>w ret. ret + num_bits_on w) array 0"

definition fixed_and_assign :: "nat \<Rightarrow> u64 list \<Rightarrow> u64 list \<Rightarrow> u64 list option" where
  "fixed_and_assign len this other = zip_words (AND) (fixed_view len this) (fixed_view len other)"

definition fixed_or_assign :: "nat \<Rightarrow> u64 list \<Rightarrow> u64 list \<Rightarrow> u64 list option" where
  "fixed_or_assign len this other = zip_words (OR) (fixed_view len this) (fixed_view len other)"

definition fixed_minus_assign :: "nat \<Rightarrow> u64 list \<Rightarrow> u64 list \<Rightarrow> u64 list option" where
  "fixed_minus_assign len this other =
     zip_words (\<lambda>w v. w - (w AND v)) (fixed_view len this) (fixed_view len other)"

definition fixed_equal :: "nat \<Rightarrow> u64 list \<Rightarrow> u64 list \<Rightarrow> bool" where
  "fixed_equal len this other = fold (\<lambda>(w, v) ret. ret \<and> w = v) (zip this other) True"

section \<open>The interface\<close>

definition fixed_ok :: "nat \<Rightarrow> u64 list \<Rightarrow> bool" where
  "fixed_ok len array \<longleftrightarrow> db_ok (fixed_view len array)"

lemma fixed_view_simps [simp]:
  "db_array (fixed_view len array) = array" "db_len (fixed_view len array) = len"
  by (simp_all add: fixed_view_def)

lemma fixed_view_array: "db_len db = len \<Longrightarrow> fixed_view len (db_array db) = db"
  by (simp add: fixed_view_def)

lemma fixed_new_ok [simp]: "fixed_ok len (fixed_new len)" "words_bits (fixed_new len) = {}"
proof -
  show "words_bits (fixed_new len) = {}" using words_bits_zeros [of "[]"] by (simp add: fixed_new_def words_bits_def)
  then show "fixed_ok len (fixed_new len)" by (simp add: fixed_ok_def db_ok_def) (simp add: fixed_new_def)
qed

interpretation fixed: bitset "fixed_ok len" "\<lambda>_. len" words_bits "fixed_get len"
  "fixed_set_bit len" "fixed_clear_bit len" for len
proof unfold_locales
  fix array :: "u64 list" and b
  assume ok: "fixed_ok len array"
  then show "words_bits array \<subseteq> {..<len}" by (simp add: fixed_ok_def db_ok_def)
  assume b: "b < len"
  show "fixed_get len b array = Some (b \<in> words_bits array)"
    using dense.get_bit [of "fixed_view len array" b] ok b by (simp add: fixed_get_def fixed_ok_def)
  show "\<exists>s'. fixed_set_bit len b array = Some (b \<in> words_bits array, s') \<and> fixed_ok len s'
      \<and> len = len \<and> words_bits s' = insert b (words_bits array)"
    using dense.set_bit [of "fixed_view len array" b] ok b
    by (auto simp: fixed_set_bit_def fixed_ok_def fixed_view_array)
  show "\<exists>s'. fixed_clear_bit len b array = Some (b \<in> words_bits array, s') \<and> fixed_ok len s'
      \<and> len = len \<and> words_bits s' = words_bits array - {b}"
    using dense.clear_bit [of "fixed_view len array" b] ok b
    by (auto simp: fixed_clear_bit_def fixed_ok_def fixed_view_array)
qed

lemma fixed_equal_iff:
  assumes "fixed_ok len this" and "fixed_ok len other"
  shows "fixed_equal len this other \<longleftrightarrow> words_bits this = words_bits other"
proof -
  have len: "length this = length other" using assms by (simp add: fixed_ok_def db_ok_def)
  have "fold (\<lambda>(w, v) ret. ret \<and> w = v) (zip ws vs) r \<longleftrightarrow> r \<and> ws = vs" if "length ws = length vs" for ws vs :: "u64 list" and r
    using that by (induction ws vs arbitrary: r rule: list_induct2) auto
  then have "fixed_equal len this other \<longleftrightarrow> this = other" using len by (simp add: fixed_equal_def)
  with words_bits_eqI [OF len] show ?thesis by blast
qed

lemma fixed_enumerate_ok:
  "fixed_ok len array \<Longrightarrow> fixed_enumerate len array = Some (sorted_list_of_set (words_bits array))"
  by (simp add: fixed_enumerate_def fixed_ok_def db_enumerate_ok)

interpretation fixed_ser: serializable "fixed_save len" "fixed_load len"
  "\<lambda>array. concat (map (le_bytes 8) array)" "\<lambda>array. length array = words_for len" for len
proof unfold_locales
  fix array :: "u64 list" and b :: iarchive and r :: bytes
  assume len: "length array = words_for len" and rest: "iarc_rest b = concat (map (le_bytes 8) array) @ r"
  have "iarc_read (8 * length array) b = Some (concat (map (le_bytes 8) array), iarc_skip (8 * length array) b)"
    using rest by (intro iarc_read_skip [where r = r]) simp_all
  then show "fixed_load len b = Some (array, iarc_skip (length (concat (map (le_bytes 8) array))) b)"
    using len words_of_bytes_image [of 8 array "[]"] by (simp add: fixed_load_def)
qed (simp_all add: fixed_save_def codec)

section \<open>Properties\<close>

text \<open>
  \<open>fixed_dense_bitset\<close> meets the same contract: for every interleaving of atomic set and clear
  steps, each step returns the value its bit had at that moment, and the final array holds the
  result of the steps in that order.
\<close>

theorem fixed_steps_linearise:
  assumes "fixed_ok len array" and "\<forall>(b, v) \<in> set steps. b < len"
  shows "\<exists>array'. fixed.run len steps array = Some (fixed.old_values steps (words_bits array), array')
      \<and> fixed_ok len array' \<and> words_bits array' = fold fixed.effect steps (words_bits array)"
  using fixed.run_spec [OF assms] by blast

theorem fixed_steps_linearise_witness:
  "\<exists>array'. fixed.run 70 [(3, True), (65, True)] (fixed_new 70) = Some ([False, False], array') \<and> words_bits array' = {3, 65}"
proof -
  have "\<forall>(b, v) \<in> set [(3, True), (65, True)]. b < (70 :: nat)" by simp
  from fixed_steps_linearise [OF fixed_new_ok(1) this] show ?thesis by (auto simp: fixed.effect_def)
qed

end
