(* ===== verification/Type_Encoding.thy ===== *)
theory Type_Encoding
  imports Flexible_Type Integer_Pack Fixed_Bitset
begin

text \<open>
  The typed block codec of \<open>sframe/sarray_v2_type_encoding.cpp\<close> and \<open>.hpp\<close>, with the block
  metadata of \<open>sframe/sarray_v2_block_types.hpp\<close>: a block of values of one type (with missing
  values) is written as integers, doubles, strings or vectors by the integer codecs; a block of
  mixed types is serialized value by value. The stream decoders call a function for every value;
  here they return the list of the values it is called with. \<open>None\<close> is a failed assertion, a
  failed type check, an access out of bounds, the use of an uninitialised variable, or a read past
  the end of the block.
\<close>

section \<open>Block metadata\<close>

record block_info =
  offset :: u64
  block_length :: u64
  block_size :: u64
  num_elem :: u64
  flags :: u64
  content_type :: u16

definition block_info_new :: block_info where
  "block_info_new = \<lparr>offset = - 1, block_length = 0, block_size = 0, num_elem = 0, flags = 0, content_type = 0\<rparr>"

definition LZ4_COMPRESSION :: u64 where "LZ4_COMPRESSION = 1"
definition IS_FLEXIBLE_TYPE :: u64 where "IS_FLEXIBLE_TYPE = 2"
definition MULTIPLE_TYPE_BLOCK :: u64 where "MULTIPLE_TYPE_BLOCK = 4"
definition BLOCK_ENCODING_EXTENSION :: u64 where "BLOCK_ENCODING_EXTENSION = 8"

definition LEGACY_ENCODING :: u8 where "LEGACY_ENCODING = 0"
definition INTEGER_ENCODING :: u8 where "INTEGER_ENCODING = 1"
definition NEW_ENCODING :: u8 where "NEW_ENCODING = 0"

lemmas block_flags = LZ4_COMPRESSION_def IS_FLEXIBLE_TYPE_def MULTIPLE_TYPE_BLOCK_def BLOCK_ENCODING_EXTENSION_def
lemmas encodings = LEGACY_ENCODING_def INTEGER_ENCODING_def NEW_ENCODING_def

definition MAX_INTEGERS_PER_BLOCK :: nat where "MAX_INTEGERS_PER_BLOCK = 128"

abbreviation undefined_value :: "flexible_type \<Rightarrow> bool" where
  "undefined_value f \<equiv> get_type f = UNDEFINED"

section \<open>Numbers\<close>

text \<open>The inner loop: up to \<open>k\<close> values that are not undefined, and the data after them.\<close>

fun collect_block :: "nat \<Rightarrow> flexible_type list \<Rightarrow> (u64 list \<times> flexible_type list) option" where
  "collect_block 0 data = Some ([], data)"
| "collect_block (Suc k) [] = Some ([], [])"
| "collect_block (Suc k) (f # data) =
     (if undefined_value f then collect_block (Suc k) data
      else do {
        v \<leftarrow> get_flex_int f;
        (vs, data) \<leftarrow> collect_block k data;
        Some (v # vs, data)
      })"

lemma collect_block_length: "collect_block k data = Some (vs, rest) \<Longrightarrow> length rest + length vs \<le> length data"
proof (induction k data arbitrary: vs rest rule: collect_block.induct)
  case (3 k f data)
  then show ?case by (fastforce split: if_splits Option.bind_splits)
qed auto

text \<open>The outer loop; \<open>rot\<close> is what is done to the collected numbers before they are encoded.\<close>

function encode_blocks :: "(u64 \<Rightarrow> u64) \<Rightarrow> flexible_type list \<Rightarrow> oarchive \<Rightarrow> oarchive option" where
  "encode_blocks rot data oarc =
     (if data = [] then Some oarc
      else case collect_block MAX_INTEGERS_PER_BLOCK data of
          None \<Rightarrow> None
        | Some (encode_buf, data') \<Rightarrow>
            if encode_buf = [] then Some oarc
            else do {
              oarc \<leftarrow> frame_of_reference_encode_128 (map rot encode_buf) oarc;
              encode_blocks rot data' oarc
            })"
  by pat_completeness auto
termination
proof (relation "measure (\<lambda>(rot, data, oarc). length data)")
  fix rot :: "u64 \<Rightarrow> u64" and data data' :: "flexible_type list" and oarc x p and buf :: "u64 list" and oarc'
  assume "collect_block MAX_INTEGERS_PER_BLOCK data = Some p" and "(buf, data') = p" and "buf \<noteq> []"
  then show "((rot, data', oarc'), rot, data, oarc) \<in> measure (\<lambda>(rot, data, oarc). length data)"
    using collect_block_length [of MAX_INTEGERS_PER_BLOCK data buf data'] by (cases buf) auto
qed simp

declare encode_blocks.simps [simp del]

definition encode_number :: "flexible_type list \<Rightarrow> oarchive \<Rightarrow> oarchive option" where
  "encode_number data oarc = encode_blocks (\<lambda>v. v) data oarc"

text \<open>
  The decoder overwrites the values that are not undefined. \<open>buf\<close> is the part of the buffer from
  \<open>bufstart\<close> on, \<open>todo\<close> is \<open>num_values_to_read\<close>; \<open>rot\<close> is done to a decoded group. A group of no
  values (more places than values) leaves the buffer uninitialised.
\<close>

fun decode_blocks ::
  "(u64 \<Rightarrow> u64) \<Rightarrow> flexible_type list \<Rightarrow> u64 list \<Rightarrow> nat \<Rightarrow> iarchive \<Rightarrow> (flexible_type list \<times> iarchive) option"
where
  "decode_blocks rot [] buf todo iarc = Some ([], iarc)"
| "decode_blocks rot (f # ret) buf todo iarc =
     (if undefined_value f then do {
        (ret, iarc) \<leftarrow> decode_blocks rot ret buf todo iarc;
        Some (f # ret, iarc)
      }
      else case buf of
          v # buf \<Rightarrow> do {
            f \<leftarrow> put_flex_int v f;
            (ret, iarc) \<leftarrow> decode_blocks rot ret buf (todo - 1) iarc;
            Some (f # ret, iarc)
          }
        | [] \<Rightarrow> do {
            (buf, iarc) \<leftarrow> frame_of_reference_decode_128 (min todo MAX_INTEGERS_PER_BLOCK) iarc;
            (case map rot buf of
               [] \<Rightarrow> None
             | v # buf \<Rightarrow> do {
                 f \<leftarrow> put_flex_int v f;
                 (ret, iarc) \<leftarrow> decode_blocks rot ret buf (todo - 1) iarc;
                 Some (f # ret, iarc)
               })
          })"

text \<open>A count of undefined values above the number of values wraps the subtraction around: \<open>None\<close>.\<close>

definition decode_number :: "iarchive \<Rightarrow> flexible_type list \<Rightarrow> nat \<Rightarrow> (flexible_type list \<times> iarchive) option" where
  "decode_number iarc ret num_undefined =
     (if length ret < num_undefined then None
      else decode_blocks (\<lambda>v. v) ret [] (length ret - num_undefined) iarc)"

section \<open>Doubles\<close>

definition rotate_left :: "u64 \<Rightarrow> u64" where
  "rotate_left v = push_bit 1 v OR drop_bit 63 v"

definition rotate_right :: "u64 \<Rightarrow> u64" where
  "rotate_right v = drop_bit 1 v OR push_bit 63 v"

definition encode_double_legacy :: "flexible_type list \<Rightarrow> oarchive \<Rightarrow> oarchive option" where
  "encode_double_legacy data oarc = encode_blocks rotate_left data oarc"

definition safe_for_integer_code :: "flexible_type list \<Rightarrow> bool" where
  "safe_for_integer_code data \<longleftrightarrow> list_all (\<lambda>f. case f of
       Flex_float val \<Rightarrow>
         (let int_val = double_to_int val; new_float_val = int_to_double int_val in dbl_eq new_float_val val)
     | _ \<Rightarrow> True) data"

definition encode_double :: "flexible_type list \<Rightarrow> oarchive \<Rightarrow> oarchive option" where
  "encode_double data oarc =
     (let reserved = (if safe_for_integer_code data then INTEGER_ENCODING else LEGACY_ENCODING);
          oarc = oarc_write [reserved] oarc
      in if reserved = LEGACY_ENCODING then encode_double_legacy data oarc
         else encode_number (map (\<lambda>f. case f of Flex_float val \<Rightarrow> Flex_int (double_to_int val) | _ \<Rightarrow> f) data) oarc)"

definition decode_double_legacy ::
  "iarchive \<Rightarrow> flexible_type list \<Rightarrow> nat \<Rightarrow> (flexible_type list \<times> iarchive) option" where
  "decode_double_legacy iarc ret num_undefined =
     (if length ret < num_undefined then None
      else decode_blocks rotate_right ret [] (length ret - num_undefined) iarc)"

definition decode_double :: "iarchive \<Rightarrow> flexible_type list \<Rightarrow> nat \<Rightarrow> (flexible_type list \<times> iarchive) option" where
  "decode_double iarc ret num_undefined = do {
     (bs, iarc) \<leftarrow> iarc_read 1 iarc;
     let reserved = hd bs in
     if \<not> sint reserved < 3 then None
     else if reserved = LEGACY_ENCODING then decode_double_legacy iarc ret num_undefined
     else if reserved = INTEGER_ENCODING then do {
       let ret = map (\<lambda>f. if get_type f = FLOAT then flex_reset INTEGER else f) ret;
       (ret, iarc) \<leftarrow> decode_number iarc ret num_undefined;
       Some (map (\<lambda>f. case f of Flex_int i \<Rightarrow> Flex_float (int_to_double i) | _ \<Rightarrow> f) ret, iarc)
     }
     else Some (ret, iarc)
   }"

section \<open>The stream decoders of numbers\<close>

function decode_number_groups :: "nat \<Rightarrow> iarchive \<Rightarrow> (u64 list \<times> iarchive) option" where
  "decode_number_groups num_elements iarc =
     (if num_elements = 0 then Some ([], iarc)
      else do {
        let buflen = min num_elements MAX_INTEGERS_PER_BLOCK;
        (buf, iarc) \<leftarrow> frame_of_reference_decode_128 buflen iarc;
        (vs, iarc) \<leftarrow> decode_number_groups (num_elements - buflen) iarc;
        Some (buf @ vs, iarc)
      })"
  by pat_completeness auto
termination
  by (relation "measure fst") (auto simp: MAX_INTEGERS_PER_BLOCK_def)

declare decode_number_groups.simps [simp del]

definition decode_number_stream :: "nat \<Rightarrow> iarchive \<Rightarrow> (flexible_type list \<times> iarchive) option" where
  "decode_number_stream num_elements iarc = map_option (apfst (map Flex_int)) (decode_number_groups num_elements iarc)"

definition decode_double_stream_legacy :: "nat \<Rightarrow> iarchive \<Rightarrow> (flexible_type list \<times> iarchive) option" where
  "decode_double_stream_legacy num_elements iarc =
     map_option (apfst (map (\<lambda>v. Flex_float (rotate_right v)))) (decode_number_groups num_elements iarc)"

definition decode_double_stream :: "nat \<Rightarrow> iarchive \<Rightarrow> (flexible_type list \<times> iarchive) option" where
  "decode_double_stream num_elements iarc = do {
     (bs, iarc) \<leftarrow> iarc_read 1 iarc;
     let reserved = hd bs in
     if \<not> sint reserved < 3 then None
     else if reserved = LEGACY_ENCODING then decode_double_stream_legacy num_elements iarc
     else if reserved = INTEGER_ENCODING then
       map_option (apfst (map (\<lambda>v. Flex_float (int_to_double v)))) (decode_number_groups num_elements iarc)
     else Some ([], iarc)
   }"

section \<open>Strings\<close>

text \<open>
  The scan that builds the dictionary: \<open>unique\<close> is \<open>unique_values\<close>, \<open>strs\<close> is \<open>str_values\<close>, \<open>idx\<close>
  the indexes written so far. The first result is \<open>use_dictionary_encoding\<close>.
\<close>

fun dictionary_scan ::
  "flexible_type list \<Rightarrow> (bytes \<times> nat) list \<Rightarrow> bytes list \<Rightarrow> u64 list \<Rightarrow> (bool \<times> bytes list \<times> u64 list) option"
where
  "dictionary_scan [] unique strs idx = Some (True, strs, idx)"
| "dictionary_scan (f # data) unique strs idx =
     (if undefined_value f then dictionary_scan data unique strs idx
      else do {
        s \<leftarrow> get_flex_string f;
        (case map_of unique s of
           Some i \<Rightarrow> dictionary_scan data unique strs (idx @ [of_nat i])
         | None \<Rightarrow>
             if length unique \<ge> 64 then Some (False, strs, idx)
             else let newidx = length unique
                  in dictionary_scan data ((s, newidx) # unique) (strs @ [s]) (idx @ [of_nat newidx]))
      })"

definition write_string :: "bytes \<Rightarrow> oarchive \<Rightarrow> oarchive" where
  "write_string str oarc = oarc_write str (variable_encode (of_nat (length str)) oarc)"

fun defined_strings :: "flexible_type list \<Rightarrow> bytes list option" where
  "defined_strings [] = Some []"
| "defined_strings (f # data) =
     (if undefined_value f then defined_strings data
      else do { s \<leftarrow> get_flex_string f; ss \<leftarrow> defined_strings data; Some (s # ss) })"

definition encode_string :: "flexible_type list \<Rightarrow> oarchive \<Rightarrow> oarchive option" where
  "encode_string data oarc = do {
     (use_dictionary_encoding, str_values, idx_values) \<leftarrow> dictionary_scan data [] [] [];
     let oarc = save_pod 1 (if use_dictionary_encoding then 1 else 0 :: u8) oarc in
     if use_dictionary_encoding then
       encode_number (map Flex_int idx_values)
         (fold write_string str_values (variable_encode (of_nat (length str_values)) oarc))
     else do {
       strings \<leftarrow> defined_strings data;
       oarc \<leftarrow> encode_number (map (\<lambda>s. Flex_int (of_nat (length s))) strings) oarc;
       Some (fold oarc_write strings oarc)
     }
   }"

definition read_dictionary_string :: "iarchive \<Rightarrow> (bytes \<times> iarchive) option" where
  "read_dictionary_string iarc =
     do { (str_len, iarc) \<leftarrow> variable_decode iarc; iarc_read (unat str_len) iarc }"

text \<open>One string for each length, read one after the other.\<close>

fun read_strings :: "flexible_type list \<Rightarrow> iarchive \<Rightarrow> (flexible_type list \<times> iarchive) option" where
  "read_strings [] iarc = Some ([], iarc)"
| "read_strings (f # lens) iarc = do {
     str_len \<leftarrow> get_flex_int f;
     (s, iarc) \<leftarrow> iarc_read (unat str_len) iarc;
     (ss, iarc) \<leftarrow> read_strings lens iarc;
     Some (Flex_string s # ss, iarc)
   }"

fun lookup_strings :: "bytes list \<Rightarrow> flexible_type list \<Rightarrow> flexible_type list option" where
  "lookup_strings strs [] = Some []"
| "lookup_strings strs (f # idx) = do {
     i \<leftarrow> get_flex_int f;
     ss \<leftarrow> lookup_strings strs idx;
     (if unat i < length strs then Some (Flex_string (strs ! unat i) # ss) else None)
   }"

definition decode_string_stream :: "nat \<Rightarrow> iarchive \<Rightarrow> (flexible_type list \<times> iarchive) option" where
  "decode_string_stream num_elements iarc = do {
     let idx_values = replicate num_elements (flex_reset INTEGER);
     (use_dictionary_encoding, iarc) \<leftarrow> (load_pod 1 iarc :: (u8 \<times> iarchive) option);
     if use_dictionary_encoding \<noteq> 0 then do {
       (num_values, iarc) \<leftarrow> variable_decode iarc;
       (str_values, iarc) \<leftarrow> load_elements read_dictionary_string (unat num_values) iarc;
       (idx_values, iarc) \<leftarrow> decode_number iarc idx_values 0;
       ss \<leftarrow> lookup_strings str_values idx_values;
       Some (ss, iarc)
     } else do {
       (idx_values, iarc) \<leftarrow> decode_number iarc idx_values 0;
       read_strings idx_values iarc
     }
   }"

text \<open>The callback of \<open>decode_string\<close> and \<open>decode_vector\<close>: fill the places that are not undefined.\<close>

fun fill_values :: "flexible_type list \<Rightarrow> flexible_type list \<Rightarrow> flexible_type list option" where
  "fill_values ret [] = Some ret"
| "fill_values [] (v # vs) = None"
| "fill_values (f # ret) (v # vs) =
     (if undefined_value f then map_option (Cons f) (fill_values ret (v # vs))
      else map_option (Cons v) (fill_values ret vs))"

definition decode_string :: "iarchive \<Rightarrow> flexible_type list \<Rightarrow> nat \<Rightarrow> (flexible_type list \<times> iarchive) option" where
  "decode_string iarc ret num_undefined =
     (if length ret < num_undefined then None
      else do {
        (vs, iarc) \<leftarrow> decode_string_stream (length ret - num_undefined) iarc;
        ret \<leftarrow> fill_values ret vs;
        Some (ret, iarc)
      })"

section \<open>Vectors\<close>

fun defined_vectors :: "flexible_type list \<Rightarrow> f64 list list option" where
  "defined_vectors [] = Some []"
| "defined_vectors (f # data) =
     (if undefined_value f then defined_vectors data
      else do { v \<leftarrow> get_flex_vec f; vs \<leftarrow> defined_vectors data; Some (v # vs) })"

definition encode_vector :: "flexible_type list \<Rightarrow> oarchive \<Rightarrow> oarchive option" where
  "encode_vector data oarc = do {
     let oarc = oarc_write [NEW_ENCODING] oarc;
     vectors \<leftarrow> defined_vectors data;
     oarc \<leftarrow> encode_number (map (\<lambda>v. Flex_int (of_nat (length v))) vectors) oarc;
     encode_double (concat (map (map Flex_float) vectors)) oarc
   }"

text \<open>Cut the decoded values into vectors of the given lengths.\<close>

fun split_values :: "flexible_type list \<Rightarrow> flexible_type list \<Rightarrow> flexible_type list option" where
  "split_values [] values = Some []"
| "split_values (f # lens) values = do {
     n \<leftarrow> get_flex_int f;
     v \<leftarrow> those (map get_flex_float (take (unat n) values));
     vs \<leftarrow> split_values lens (drop (unat n) values);
     (if unat n \<le> length values then Some (Flex_vec v # vs) else None)
   }"

definition decode_vector_stream :: "nat \<Rightarrow> iarchive \<Rightarrow> bool \<Rightarrow> (flexible_type list \<times> iarchive) option" where
  "decode_vector_stream num_elements iarc new_format = do {
     (reserved, iarc) \<leftarrow> (if new_format then iarc_read 1 iarc else Some ([], iarc));
     (lengths, iarc) \<leftarrow> decode_number iarc (replicate num_elements flexible_type_new) 0;
     lens \<leftarrow> those (map get_flex_int lengths);
     let values = replicate (sum_list (map unat lens)) flexible_type_new;
     (values, iarc) \<leftarrow> (if new_format then decode_double iarc values 0 else decode_double_legacy iarc values 0);
     vs \<leftarrow> split_values lengths values;
     Some (vs, iarc)
   }"

definition decode_vector :: "iarchive \<Rightarrow> flexible_type list \<Rightarrow> nat \<Rightarrow> bool \<Rightarrow> (flexible_type list \<times> iarchive) option" where
  "decode_vector iarc ret num_undefined new_format =
     (if length ret < num_undefined then None
      else do {
        (vs, iarc) \<leftarrow> decode_vector_stream (length ret - num_undefined) iarc new_format;
        ret \<leftarrow> fill_values ret vs;
        Some (ret, iarc)
      })"

section \<open>Blocks\<close>

text \<open>The loop that fills \<open>types_appeared\<close>, and the loop that fills the bitmap of undefined values.\<close>

fun record_types :: "flexible_type list \<Rightarrow> u64 list \<Rightarrow> u64 list option" where
  "record_types [] types_appeared = Some types_appeared"
| "record_types (f # data) types_appeared = do {
     (old, types_appeared) \<leftarrow> fixed_set_bit_unsync 16 (type_code (get_type f)) types_appeared;
     record_types data types_appeared
   }"

fun mark_undefined :: "nat \<Rightarrow> flexible_type list \<Rightarrow> dense_bitset \<Rightarrow> dense_bitset option" where
  "mark_undefined i [] d = Some d"
| "mark_undefined i (f # data) d =
     (if undefined_value f then do { (old, d) \<leftarrow> db_set_bit_unsync i d; mark_undefined (Suc i) data d }
      else mark_undefined (Suc i) data d)"

text \<open>
  The bitmap is constructed with the given size and cleared, so it does not depend on the memory
  \<open>realloc\<close> returns.
\<close>

definition new_bitmap :: "nat \<Rightarrow> dense_bitset option" where
  "new_bitmap n = map_option db_clear (db_sized (\<lambda>_. 0) n)"

definition encode_content ::
  "u64 list \<Rightarrow> flexible_type list \<Rightarrow> block_info \<Rightarrow> oarchive \<Rightarrow> (block_info \<times> oarchive) option"
where
  "encode_content types_appeared data block oarc = do {
     has_int \<leftarrow> fixed_get 16 (type_code INTEGER) types_appeared;
     has_float \<leftarrow> fixed_get 16 (type_code FLOAT) types_appeared;
     has_string \<leftarrow> fixed_get 16 (type_code STRING) types_appeared;
     has_vector \<leftarrow> fixed_get 16 (type_code VECTOR) types_appeared;
     if has_int then map_option (Pair block) (encode_number data oarc)
     else if has_float then
       map_option (Pair (block\<lparr>flags := flags block OR BLOCK_ENCODING_EXTENSION\<rparr>)) (encode_double data oarc)
     else if has_string then map_option (Pair block) (encode_string data oarc)
     else if has_vector then
       map_option (Pair (block\<lparr>flags := flags block OR BLOCK_ENCODING_EXTENSION\<rparr>)) (encode_vector data oarc)
     else Some (block, fold (\<lambda>f oarc. if undefined_value f then oarc else flex_serialize f oarc) data oarc)
   }"

definition close_block :: "block_info \<times> oarchive \<Rightarrow> block_info \<times> oarchive" where
  "close_block = (\<lambda>(block, oarc). (block\<lparr>block_size := of_nat (o_off oarc)\<rparr>, oarc))"

definition typed_encode :: "flexible_type list \<Rightarrow> block_info \<Rightarrow> oarchive \<Rightarrow> (block_info \<times> oarchive) option" where
  "typed_encode data block oarc = do {
     let block = block\<lparr>flags := flags block OR IS_FLEXIBLE_TYPE, num_elem := of_nat (length data)\<rparr>;
     types_appeared \<leftarrow> record_types data (fixed_clear 16 (fixed_new 16));
     let num_types = (of_nat (fixed_popcount 16 types_appeared) :: u8);
     let oarc = save_pod 1 num_types oarc;
     has_undefined \<leftarrow> fixed_get 16 (type_code UNDEFINED) types_appeared;
     map_option close_block
       (if num_types = 0 then Some (block, oarc)
        else if num_types = 1 then
          (let oarc = save_pod 1 (of_nat (type_code (get_type (data ! 0))) :: u8) oarc in
           if undefined_value (data ! 0) then Some (block, oarc)
           else encode_content types_appeared data block oarc)
        else if num_types = 2 \<and> has_undefined then do {
          ts \<leftarrow> fixed_enumerate 16 types_appeared;
          let oarc = (case find (\<lambda>t. t \<noteq> type_code UNDEFINED) ts of
                        Some t \<Rightarrow> save_pod 1 (of_nat t :: u8) oarc | None \<Rightarrow> oarc);
          d \<leftarrow> new_bitmap (length data);
          d \<leftarrow> mark_undefined 0 data d;
          let oarc = oarc_write (concat (map (le_bytes 8) (db_array d))) oarc;
          encode_content types_appeared data block oarc
        }
        else Some (block\<lparr>flags := flags block OR MULTIPLE_TYPE_BLOCK\<rparr>, save_vector flex_save data oarc))
   }"

definition has_flag :: "u64 \<Rightarrow> block_info \<Rightarrow> bool" where
  "has_flag flag info \<longleftrightarrow> flags info AND flag \<noteq> 0"

text \<open>The bitmap read from the block; the entries it flags are undefined.\<close>

definition read_bitmap :: "nat \<Rightarrow> iarchive \<Rightarrow> (dense_bitset \<times> iarchive) option" where
  "read_bitmap n iarc = do {
     d \<leftarrow> new_bitmap n;
     (bs, iarc) \<leftarrow> iarc_read (8 * db_arrlen d) iarc;
     Some (d\<lparr>db_array := words_of_bytes 8 (db_arrlen d) bs\<rparr>, iarc)
   }"

fun undefine :: "nat list \<Rightarrow> flexible_type list \<Rightarrow> flexible_type list option" where
  "undefine [] ret = Some ret"
| "undefine (t # ts) ret = (if t < length ret then undefine ts (ret[t := Flex_undefined]) else None)"

fun deserialize_values :: "flexible_type list \<Rightarrow> iarchive \<Rightarrow> (flexible_type list \<times> iarchive) option" where
  "deserialize_values [] iarc = Some ([], iarc)"
| "deserialize_values (f # ret) iarc = do {
     (f, iarc) \<leftarrow> (if undefined_value f then Some (f, iarc) else flex_deserialize flex_load (get_type f) iarc);
     (ret, iarc) \<leftarrow> deserialize_values ret iarc;
     Some (f # ret, iarc)
   }"

definition decode_content ::
  "block_info \<Rightarrow> flex_type_enum \<Rightarrow> iarchive \<Rightarrow> flexible_type list \<Rightarrow> nat \<Rightarrow> (flexible_type list \<times> iarchive) option"
where
  "decode_content info column_type iarc ret num_undefined =
     (if column_type = INTEGER then decode_number iarc ret num_undefined
      else if column_type = FLOAT then
        (if has_flag BLOCK_ENCODING_EXTENSION info then decode_double iarc ret num_undefined
         else decode_double_legacy iarc ret num_undefined)
      else if column_type = STRING then decode_string iarc ret num_undefined
      else if column_type = VECTOR then
        decode_vector iarc ret num_undefined (has_flag BLOCK_ENCODING_EXTENSION info)
      else deserialize_values ret iarc)"

text \<open>
  The result is the return value and \<open>ret\<close>. More than two types in a block that is not a
  multiple-type block leave \<open>column_type\<close> uninitialised.
\<close>

definition typed_decode ::
  "block_info \<Rightarrow> bytes \<Rightarrow> nat \<Rightarrow> flexible_type list \<Rightarrow> (bool \<times> flexible_type list) option"
where
  "typed_decode info start len ret =
     (if \<not> has_flag IS_FLEXIBLE_TYPE info then Some (False, ret)
      else do {
        let iarc = iarchive_new start len;
        let dsize = unat (num_elem info);
        let ret = resize_list dsize flexible_type_new ret;
        (num_types, iarc) \<leftarrow> (load_pod 1 iarc :: (u8 \<times> iarchive) option);
        if has_flag MULTIPLE_TYPE_BLOCK info then do {
          (ret, iarc) \<leftarrow> load_vector flex_load iarc;
          Some (length ret = dsize, ret)
        }
        else if num_types = 0 then Some (True, ret)
        else if num_types = 1 then do {
          (c, iarc) \<leftarrow> (load_pod 1 iarc :: (u8 \<times> iarchive) option);
          column_type \<leftarrow> type_of_code (unat c);
          let ret = map (\<lambda>_. flex_reset column_type) ret;
          if column_type = UNDEFINED then Some (True, ret)
          else do {
            (ret, iarc) \<leftarrow> decode_content info column_type iarc ret 0;
            Some (length ret = dsize, ret)
          }
        }
        else if num_types = 2 then do {
          (c, iarc) \<leftarrow> (load_pod 1 iarc :: (u8 \<times> iarchive) option);
          column_type \<leftarrow> type_of_code (unat c);
          let ret = map (\<lambda>_. flex_reset column_type) ret;
          (d, iarc) \<leftarrow> read_bitmap dsize iarc;
          ts \<leftarrow> db_enumerate d;
          ret \<leftarrow> undefine ts ret;
          (ret, iarc) \<leftarrow> decode_content info column_type iarc ret (db_popcount d);
          Some (length ret = dsize, ret)
        }
        else None
      })"

section \<open>Blocks as streams\<close>

text \<open>
  \<open>stream_callback\<close> keeps \<open>last_id\<close>: it first reports the undefined values at \<open>last_id\<close> and after,
  then the decoded value. \<open>skip_undefined\<close> is its loop, \<open>feed\<close> its calls for the decoded values.
\<close>

function skip_undefined :: "nat \<Rightarrow> dense_bitset \<Rightarrow> nat \<Rightarrow> nat option" where
  "skip_undefined dsize bitmap last_id =
     (if last_id < dsize
      then do {
        u \<leftarrow> db_get last_id bitmap;
        if u then skip_undefined dsize bitmap (Suc last_id) else Some last_id
      }
      else Some last_id)"
  by pat_completeness auto
termination
  by (relation "measure (\<lambda>(dsize, bitmap, last_id). dsize - last_id)") auto

declare skip_undefined.simps [simp del]

definition emit_undefined :: "nat \<Rightarrow> nat \<Rightarrow> dense_bitset \<Rightarrow> nat \<Rightarrow> (flexible_type list \<times> nat) option" where
  "emit_undefined dsize num_undefined bitmap last_id =
     (if num_undefined \<noteq> 0
      then map_option (\<lambda>next_id. (replicate (next_id - last_id) FLEX_UNDEFINED, next_id)) (skip_undefined dsize bitmap last_id)
      else Some ([], last_id))"

fun feed :: "nat \<Rightarrow> nat \<Rightarrow> dense_bitset \<Rightarrow> flexible_type list \<Rightarrow> nat \<Rightarrow> (flexible_type list \<times> nat) option" where
  "feed dsize num_undefined bitmap [] last_id = Some ([], last_id)"
| "feed dsize num_undefined bitmap (val # vals) last_id = do {
     (us, last_id) \<leftarrow> emit_undefined dsize num_undefined bitmap last_id;
     (out, last_id) \<leftarrow> feed dsize num_undefined bitmap vals (Suc last_id);
     Some (us @ val # out, last_id)
   }"

fun stream_others ::
  "flex_type_enum \<Rightarrow> nat \<Rightarrow> dense_bitset \<Rightarrow> nat list \<Rightarrow> iarchive \<Rightarrow> (flexible_type list \<times> iarchive) option"
where
  "stream_others column_type num_undefined bitmap [] iarc = Some ([], iarc)"
| "stream_others column_type num_undefined bitmap (i # is) iarc = do {
     u \<leftarrow> (if num_undefined \<noteq> 0 then db_get i bitmap else Some False);
     (val, iarc) \<leftarrow> (if u then Some (FLEX_UNDEFINED, iarc) else flex_deserialize flex_load column_type iarc);
     (out, iarc) \<leftarrow> stream_others column_type num_undefined bitmap is iarc;
     Some (val # out, iarc)
   }"

text \<open>The values the type's stream decoder reports, for the types that have one.\<close>

definition content_stream :: "block_info \<Rightarrow> flex_type_enum \<Rightarrow> nat \<Rightarrow> iarchive \<Rightarrow> (flexible_type list \<times> iarchive) option" where
  "content_stream info column_type n iarc =
     (if column_type = INTEGER then decode_number_stream n iarc
      else if column_type = FLOAT then
        (if has_flag BLOCK_ENCODING_EXTENSION info then decode_double_stream n iarc
         else decode_double_stream_legacy n iarc)
      else if column_type = STRING then decode_string_stream n iarc
      else decode_vector_stream n iarc (has_flag BLOCK_ENCODING_EXTENSION info))"

definition stream_content ::
  "block_info \<Rightarrow> flex_type_enum \<Rightarrow> nat \<Rightarrow> nat \<Rightarrow> dense_bitset \<Rightarrow> iarchive \<Rightarrow> flexible_type list option"
where
  "stream_content info column_type dsize num_undefined bitmap iarc = do {
     (out, last_id) \<leftarrow>
       (if column_type \<in> {INTEGER, FLOAT, STRING, VECTOR} then
          (if dsize < num_undefined then None
           else do {
             (vals, iarc) \<leftarrow> content_stream info column_type (dsize - num_undefined) iarc;
             feed dsize num_undefined bitmap vals 0
           })
        else do {
          (out, iarc) \<leftarrow> stream_others column_type num_undefined bitmap [0..<dsize] iarc;
          Some (out, 0)
        });
     (us, last_id) \<leftarrow> emit_undefined dsize num_undefined bitmap last_id;
     Some (out @ us)
   }"

definition typed_decode_stream_callback :: "block_info \<Rightarrow> bytes \<Rightarrow> nat \<Rightarrow> (bool \<times> flexible_type list) option" where
  "typed_decode_stream_callback info start len =
     (if \<not> has_flag IS_FLEXIBLE_TYPE info then Some (False, [])
      else do {
        let iarc = iarchive_new start len;
        let dsize = unat (num_elem info);
        (num_types, iarc) \<leftarrow> (load_pod 1 iarc :: (u8 \<times> iarchive) option);
        if has_flag MULTIPLE_TYPE_BLOCK info then do {
          (values, iarc) \<leftarrow> load_vector flex_load iarc;
          Some (True, values)
        }
        else if num_types = 0 then Some (True, [])
        else if num_types = 1 then do {
          (c, iarc) \<leftarrow> (load_pod 1 iarc :: (u8 \<times> iarchive) option);
          column_type \<leftarrow> type_of_code (unat c);
          if column_type = UNDEFINED then Some (True, replicate dsize FLEX_UNDEFINED)
          else map_option (Pair True) (stream_content info column_type dsize 0 db_new iarc)
        }
        else if num_types = 2 then do {
          (c, iarc) \<leftarrow> (load_pod 1 iarc :: (u8 \<times> iarchive) option);
          column_type \<leftarrow> type_of_code (unat c);
          (undefined_bitmap, iarc) \<leftarrow> read_bitmap dsize iarc;
          map_option (Pair True)
            (stream_content info column_type dsize (db_popcount undefined_bitmap) undefined_bitmap iarc)
        }
        else None
      })"

end
