(* ===== verification/Column_Codec.thy ===== *)
theory Column_Codec
  imports Type_Encoding
begin

text \<open>
  Correctness of the column encoders of \<open>Type_Encoding\<close>: groups of integers, doubles (rotated or
  converted to integers), strings (with and without a dictionary), vectors, and the types that are
  serialized value by value. For each, the bytes written are described and both decoders, the one
  into a prepared result vector and the one into a stream, are shown to return what was stored
  (\<open>column_decodes\<close>).
\<close>

section \<open>Groups of numbers\<close>

function number_code :: "u64 list \<Rightarrow> bytes" where
  "number_code xs = (if xs = [] then [] else frame_code (take 128 xs) @ number_code (drop 128 xs))"
  by pat_completeness auto
termination
  by (relation "measure length") auto

declare number_code.simps [simp del]

lemma number_code_Nil [simp]: "number_code [] = []"
  by (simp add: number_code.simps)

lemma number_code_group: "xs \<noteq> [] \<Longrightarrow> number_code xs = frame_code (take 128 xs) @ number_code (drop 128 xs)"
  by (subst number_code.simps) simp

definition ints :: "flexible_type list \<Rightarrow> u64 list" where
  "ints data = List.map_filter get_flex_int data"

definition numeric :: "flexible_type list \<Rightarrow> bool" where
  "numeric data \<longleftrightarrow> list_all (\<lambda>f. get_type f \<in> {INTEGER, FLOAT, UNDEFINED}) data"

lemma ints_simps [simp]:
  "ints [] = []" "ints (Flex_int i # data) = i # ints data" "ints (Flex_float x # data) = x # ints data"
  "ints (Flex_undefined # data) = ints data"
  by (simp_all add: ints_def map_filter_simps)

lemma numeric_simps [simp]:
  "numeric []" "numeric (f # data) \<longleftrightarrow> get_type f \<in> {INTEGER, FLOAT, UNDEFINED} \<and> numeric data"
  by (simp_all add: numeric_def)

lemma numeric_cases:
  assumes "get_type f \<in> {INTEGER, FLOAT, UNDEFINED}"
  obtains i where "f = Flex_int i" | x where "f = Flex_float x" | "f = Flex_undefined"
  using assms by (cases f) auto

lemma undefined_value_iff [simp]: "get_type f = UNDEFINED \<longleftrightarrow> f = Flex_undefined"
  by (cases f) auto

lemma collect_block_ints:
  "numeric data \<Longrightarrow> \<exists>rest. collect_block k data = Some (take k (ints data), rest) \<and> ints rest = drop k (ints data) \<and> numeric rest"
proof (induction k data rule: collect_block.induct)
  case (3 k f data)
  then have "get_type f \<in> {INTEGER, FLOAT, UNDEFINED}" "numeric data" by simp_all
  from this(1) show ?case
    by (rule numeric_cases) (use 3 \<open>numeric data\<close> in auto)
qed auto

lemma ints_Nil_collect: "ints data = [] \<Longrightarrow> numeric data \<Longrightarrow> encode_blocks rot data oarc = Some oarc"
  using collect_block_ints [of data MAX_INTEGERS_PER_BLOCK] by (subst encode_blocks.simps) auto

lemma encode_blocks_code:
  "numeric data \<Longrightarrow> oarc_ok oarc \<Longrightarrow>
   \<exists>oarc'. encode_blocks rot data oarc = Some oarc' \<and> oarc_ok oarc'
     \<and> oarc_contents oarc' = oarc_contents oarc @ number_code (map rot (ints data))"
proof (induction "length (ints data)" arbitrary: data oarc rule: less_induct)
  case less
  show ?case
  proof (cases "ints data = []")
    case True
    with less.prems ints_Nil_collect show ?thesis by simp
  next
    case False
    then have "data \<noteq> []" by auto
    obtain rest where rest: "collect_block MAX_INTEGERS_PER_BLOCK data = Some (take 128 (ints data), rest)"
      "ints rest = drop 128 (ints data)" "numeric rest"
      using collect_block_ints [OF less.prems(1)] by (auto simp: MAX_INTEGERS_PER_BLOCK_def)
    obtain oarc1 where oarc1: "frame_of_reference_encode_128 (map rot (take 128 (ints data))) oarc = Some oarc1" "oarc_ok oarc1"
      "oarc_contents oarc1 = oarc_contents oarc @ frame_code (map rot (take 128 (ints data)))"
      using frame_of_reference_encode_code [of "map rot (take 128 (ints data))" oarc] less.prems(2) by auto
    have "length (ints rest) < length (ints data)" using False rest(2) by simp
    from less.hyps [OF this rest(3) oarc1(2)] obtain oarc' where
      "encode_blocks rot rest oarc1 = Some oarc'" "oarc_ok oarc'"
      "oarc_contents oarc' = oarc_contents oarc1 @ number_code (map rot (ints rest))" by blast
    with rest(1,2) oarc1 False \<open>data \<noteq> []\<close> show ?thesis
      by (subst encode_blocks.simps) (simp add: number_code_group [of "map rot (ints data)"] take_map drop_map)
  qed
qed

lemma decode_number_groups_code:
  "iarc_rest iarc = number_code xs @ r \<Longrightarrow>
   decode_number_groups (length xs) iarc = Some (xs, iarc_skip (length (number_code xs)) iarc)"
proof (induction "length xs" arbitrary: xs iarc rule: less_induct)
  case less
  show ?case
  proof (cases "xs = []")
    case True
    then show ?thesis by (simp add: decode_number_groups.simps)
  next
    case False
    let ?g = "take 128 xs" and ?b = "iarc_skip (length (frame_code (take 128 xs))) iarc"
    have rest: "iarc_rest iarc = frame_code ?g @ number_code (drop 128 xs) @ r"
      using less.prems False by (simp add: number_code_group)
    have g: "frame_of_reference_decode_128 (min (length xs) MAX_INTEGERS_PER_BLOCK) iarc = Some (?g, ?b)"
      using frame_of_reference_decode_code [OF _ rest] by (simp add: MAX_INTEGERS_PER_BLOCK_def)
    have "decode_number_groups (length (drop 128 xs)) ?b
        = Some (drop 128 xs, iarc_skip (length (number_code (drop 128 xs))) ?b)"
      using rest False by (intro less.hyps) simp_all
    moreover have "length xs - min (length xs) MAX_INTEGERS_PER_BLOCK = length (drop 128 xs)"
      by (simp add: MAX_INTEGERS_PER_BLOCK_def)
    ultimately show ?thesis using g False
      by (subst decode_number_groups.simps) (simp add: number_code_group)
  qed
qed

text \<open>The values written over the places that are not undefined.\<close>

fun refill :: "flexible_type list \<Rightarrow> u64 list \<Rightarrow> flexible_type list" where
  "refill [] vs = []"
| "refill (Flex_int i # ret) (v # vs) = Flex_int v # refill ret vs"
| "refill (Flex_float x # ret) (v # vs) = Flex_float v # refill ret vs"
| "refill (f # ret) vs = f # refill ret vs"

lemma decode_blocks_code:
  "numeric ret \<Longrightarrow> length (ints ret) = length buf + length xs \<Longrightarrow> todo = length buf + length xs \<Longrightarrow>
   iarc_rest iarc = number_code xs @ r \<Longrightarrow>
   decode_blocks rot ret buf todo iarc = Some (refill ret (buf @ map rot xs), iarc_skip (length (number_code xs)) iarc)"
proof (induction ret arbitrary: buf xs todo iarc)
  case (Cons f ret)
  from Cons.prems(1) have f: "get_type f \<in> {INTEGER, FLOAT, UNDEFINED}" and "numeric ret" by simp_all
  note IH = Cons.IH [OF this(2)]
  show ?case
  proof (cases "f = Flex_undefined")
    case True
    then show ?thesis using IH [of buf xs todo iarc] Cons.prems by simp
  next
    case defined: False
    obtain g where put: "\<And>v. put_flex_int v f = Some (g v)"
      and re: "\<And>v vs. refill (f # ret) (v # vs) = g v # refill ret vs"
      using f defined by (cases f) (auto intro: that)
    have n: "length (ints (f # ret)) = Suc (length (ints ret))" using f defined by (cases f) simp_all
    show ?thesis
    proof (cases buf)
      case (Cons v buf')
      then show ?thesis using IH [of buf' xs "todo - 1" iarc] Cons.prems n put re defined
        by simp
    next
      case Nil
      then obtain x xs' where xs: "xs = x # xs'" using Cons.prems(2) n by (cases xs) auto
      let ?g = "take 128 xs" and ?b = "iarc_skip (length (frame_code (take 128 xs))) iarc"
      have rest: "iarc_rest iarc = frame_code ?g @ number_code (drop 128 xs) @ r"
        using Cons.prems(4) xs by (simp add: number_code_group)
      have g: "frame_of_reference_decode_128 (min todo MAX_INTEGERS_PER_BLOCK) iarc = Some (?g, ?b)"
        using frame_of_reference_decode_code [OF _ rest] Nil Cons.prems(3) by (simp add: MAX_INTEGERS_PER_BLOCK_def)
      have gs: "?g = x # take 127 xs'" "drop 128 xs = drop 127 xs'" using xs by simp_all
      have "decode_blocks rot ret (map rot (take 127 xs')) (todo - 1) ?b
          = Some (refill ret (map rot (take 127 xs') @ map rot (drop 127 xs')), iarc_skip (length (number_code (drop 127 xs'))) ?b)"
        using rest Cons.prems(2,3) n Nil xs gs by (intro IH) simp_all
      then show ?thesis using g gs Nil xs put re defined
        by (simp add: number_code_group flip: map_append)
    qed
  qed
qed simp

section \<open>Columns\<close>

text \<open>
  A column holds values of one type and undefined values; its slots are what the decoder starts
  from, and \<open>present\<close> are its values that are not undefined.
\<close>

definition column :: "flex_type_enum \<Rightarrow> flexible_type list \<Rightarrow> bool" where
  "column t data \<longleftrightarrow> list_all (\<lambda>f. f = Flex_undefined \<or> get_type f = t) data"

definition present :: "flexible_type list \<Rightarrow> flexible_type list" where
  "present data = filter (\<lambda>f. f \<noteq> Flex_undefined) data"

definition slots :: "flex_type_enum \<Rightarrow> flexible_type list \<Rightarrow> flexible_type list" where
  "slots t data = map (\<lambda>f. if f = Flex_undefined then Flex_undefined else flex_reset t) data"

definition missing :: "flexible_type list \<Rightarrow> nat" where
  "missing data = length data - length (present data)"

lemma column_simps [simp]:
  "column t []" "column t (f # data) \<longleftrightarrow> (f = Flex_undefined \<or> get_type f = t) \<and> column t data"
  by (simp_all add: column_def)

lemma present_simps [simp]:
  "present [] = []" "present (f # data) = (if f = Flex_undefined then present data else f # present data)"
  by (simp_all add: present_def)

lemma slots_simps [simp]:
  "slots t [] = []"
  "slots t (f # data) = (if f = Flex_undefined then Flex_undefined else flex_reset t) # slots t data"
  by (simp_all add: slots_def)

lemma length_slots [simp]: "length (slots t data) = length data"
  by (simp add: slots_def)

lemma length_present [simp]: "length (present data) \<le> length data"
  by (simp add: present_def)

lemma length_minus_missing [simp]: "length data - missing data = length (present data)"
  by (simp add: missing_def)

lemma missing_le [simp]: "\<not> length data < missing data"
  by (simp add: missing_def)

lemma get_type_reset [simp]: "get_type (flex_reset t) = t"
  by (cases t) simp_all

lemma flex_reset_undefined [simp]: "flex_reset t = Flex_undefined \<longleftrightarrow> t = UNDEFINED"
  by (cases t) simp_all

lemma column_numeric: "column t data \<Longrightarrow> t \<in> {INTEGER, FLOAT} \<Longrightarrow> numeric data"
  by (induction data) auto

lemma length_ints: "column t data \<Longrightarrow> t \<in> {INTEGER, FLOAT} \<Longrightarrow> length (ints data) = length (present data)"
proof (induction data)
  case (Cons f data)
  then show ?case by (cases f) auto
qed simp

lemma slots_numeric:
  assumes "t \<in> {INTEGER, FLOAT}"
  shows "numeric (slots t data)" "length (ints (slots t data)) = length (present data)"
  by (induction data) (use assms in auto)

lemma refill_ints: "column INTEGER data \<Longrightarrow> refill (slots INTEGER data) (ints data) = data"
proof (induction data)
  case (Cons f data)
  then show ?case by (cases f) auto
qed simp

lemma refill_floats:
  "column FLOAT data \<Longrightarrow> refill (slots FLOAT data) (map g (ints data))
     = map (\<lambda>f. case f of Flex_float x \<Rightarrow> Flex_float (g x) | _ \<Rightarrow> f) data"
proof (induction data)
  case (Cons f data)
  then show ?case by (cases f) auto
qed simp

lemma refill_plain: "refill (replicate (length vs) (Flex_int i)) vs = map Flex_int vs"
  by (induction vs) simp_all

lemma numeric_plain: "numeric (replicate n (Flex_int i))" "length (ints (replicate n (Flex_int i))) = n"
  by (induction n) simp_all

lemma encode_number_code:
  "numeric data \<Longrightarrow> oarc_ok oarc \<Longrightarrow>
   \<exists>oarc'. encode_number data oarc = Some oarc' \<and> oarc_ok oarc'
     \<and> oarc_contents oarc' = oarc_contents oarc @ number_code (ints data)"
  using encode_blocks_code [of data oarc "\<lambda>v. v"] by (simp add: encode_number_def)

lemma decode_number_code:
  assumes "numeric ret" and "length (ints ret) = length xs" and "n \<le> length ret" and "length ret - n = length xs"
    and "iarc_rest iarc = number_code xs @ r"
  shows "decode_number iarc ret n = Some (refill ret xs, iarc_skip (length (number_code xs)) iarc)"
  using decode_blocks_code [OF assms(1) _ _ assms(5), of "[]" "length xs" "\<lambda>v. v"] assms(2,3,4)
  by (simp add: decode_number_def)

lemma decode_number_plain:
  assumes "iarc_rest iarc = number_code xs @ r"
  shows "decode_number iarc (replicate (length xs) (Flex_int i)) 0
       = Some (map Flex_int xs, iarc_skip (length (number_code xs)) iarc)"
  using decode_number_code [OF numeric_plain(1) _ _ _ assms, of "length xs" i 0] by (simp add: numeric_plain refill_plain)

lemma decode_number_column:
  assumes "column INTEGER data" and "iarc_rest iarc = number_code (ints data) @ r"
  shows "decode_number iarc (slots INTEGER data) (missing data) = Some (data, iarc_skip (length (number_code (ints data))) iarc)"
  using decode_number_code [OF slots_numeric(1) _ _ _ assms(2), of INTEGER data "missing data"] assms(1)
  by (simp add: slots_numeric refill_ints length_ints missing_def)

section \<open>Doubles\<close>

lemma bit_rotate:
  assumes "i < 64"
  shows "bit (rotate_left v) i = bit v ((i + 63) mod 64)" "bit (rotate_right v) i = bit v ((i + 1) mod 64)"
proof -
  have "i = 63 \<or> i + 1 < 64" using assms by linarith
  then show "bit (rotate_right v) i = bit v ((i + 1) mod 64)"
    using assms bit_imp_le_length [of v 64] by (auto simp: rotate_right_def bit_simps)
  have "i = 0 \<or> (\<exists>j. i = Suc j \<and> j < 63)" using assms by (cases i) auto
  then show "bit (rotate_left v) i = bit v ((i + 63) mod 64)"
    using assms bit_imp_le_length [of v "63 + i"]
    unfolding rotate_left_def bit_or_iff bit_push_bit_iff bit_drop_bit_eq o_def by auto
qed

lemma rotate_right_left [simp]: "rotate_right (rotate_left v) = v"
proof (rule bit_word_eqI)
  fix i assume "i < LENGTH(64)"
  then have i: "i < 64" by simp
  have "((i + 1) mod 64 + 63) mod 64 = (i + 64) mod 64" by (simp add: mod_simps add.commute)
  then show "bit (rotate_right (rotate_left v)) i = bit v i"
    using i by (simp add: bit_rotate)
qed

definition integral :: "f64 list \<Rightarrow> bool" where
  "integral vs \<longleftrightarrow> (\<forall>v \<in> set vs. dbl_eq (int_to_double (double_to_int v)) v)"

definition store_double :: "bool \<Rightarrow> f64 \<Rightarrow> f64" where
  "store_double b v = (if b then int_to_double (double_to_int v) else v)"

definition double_code :: "f64 list \<Rightarrow> bytes" where
  "double_code vs = (if integral vs then INTEGER_ENCODING # number_code (map double_to_int vs)
     else LEGACY_ENCODING # number_code (map rotate_left vs))"

lemma safe_for_integer_code_iff: "column FLOAT data \<Longrightarrow> safe_for_integer_code data = integral (ints data)"
proof (induction data)
  case (Cons f data)
  then show ?case by (cases f) (auto simp: safe_for_integer_code_def integral_def)
qed (simp add: safe_for_integer_code_def integral_def)

lemma ints_converted:
  assumes "column FLOAT data"
  defines "d \<equiv> map (\<lambda>f. case f of Flex_float val \<Rightarrow> Flex_int (double_to_int val) | _ \<Rightarrow> f) data"
  shows "numeric d" "ints d = map double_to_int (ints data)"
proof -
  have "numeric d \<and> ints d = map double_to_int (ints data)"
    unfolding d_def using assms(1)
  proof (induction data)
    case (Cons f data)
    then show ?case by (cases f) auto
  qed simp
  then show "numeric d" "ints d = map double_to_int (ints data)" by simp_all
qed

lemma encode_double_code:
  assumes "column FLOAT data" and "oarc_ok oarc"
  shows "\<exists>oarc'. encode_double data oarc = Some oarc' \<and> oarc_ok oarc'
     \<and> oarc_contents oarc' = oarc_contents oarc @ double_code (ints data)"
proof (cases "integral (ints data)")
  case True
  let ?oarc = "oarc_write [INTEGER_ENCODING] oarc"
  have "oarc_ok ?oarc" "oarc_contents ?oarc = oarc_contents oarc @ [INTEGER_ENCODING]"
    using assms(2) by (simp_all add: codec)
  with encode_number_code [OF ints_converted(1) [OF assms(1)] this(1)] True ints_converted(2) [OF assms(1)]
  show ?thesis
    by (auto simp: encode_double_def safe_for_integer_code_iff [OF assms(1)] double_code_def encodings)
next
  case False
  let ?oarc = "oarc_write [LEGACY_ENCODING] oarc"
  have "oarc_ok ?oarc" "oarc_contents ?oarc = oarc_contents oarc @ [LEGACY_ENCODING]"
    using assms(2) by (simp_all add: codec)
  with encode_blocks_code [OF column_numeric [OF assms(1)] this(1), of rotate_left] False
  show ?thesis
    by (auto simp: encode_double_def safe_for_integer_code_iff [OF assms(1)] double_code_def encode_double_legacy_def)
qed

lemma read_encoding: "iarc_rest iarc = c # r \<Longrightarrow> iarc_read 1 iarc = Some ([c], iarc_skip 1 iarc)"
  by (rule iarc_read_skip [where r = r]) simp_all

lemma encoding_values: "sint LEGACY_ENCODING < 3" "sint INTEGER_ENCODING < 3" "INTEGER_ENCODING \<noteq> LEGACY_ENCODING"
  by (simp_all add: encodings)

lemma decode_double_integral:
  fixes ret :: "flexible_type list"
  assumes "iarc_rest iarc = double_code vs @ r" and "integral vs"
  defines "ret' \<equiv> map (\<lambda>f. if get_type f = FLOAT then flex_reset INTEGER else f) ret"
  assumes "numeric ret'" and "length (ints ret') = length vs" and "n \<le> length ret" and "length ret - n = length vs"
  shows "decode_double iarc ret n =
    Some (map (\<lambda>f. case f of Flex_int i \<Rightarrow> Flex_float (int_to_double i) | _ \<Rightarrow> f) (refill ret' (map double_to_int vs)),
      iarc_skip (length (double_code vs)) iarc)"
proof -
  have rest: "iarc_rest iarc = INTEGER_ENCODING # number_code (map double_to_int vs) @ r"
    using assms(1,2) by (simp add: double_code_def)
  have "decode_number (iarc_skip 1 iarc) ret' n
      = Some (refill ret' (map double_to_int vs), iarc_skip (length (number_code (map double_to_int vs))) (iarc_skip 1 iarc))"
    using assms(3-) rest by (intro decode_number_code) simp_all
  then show ?thesis
    using read_encoding [OF rest] assms(2) encoding_values
    by (simp add: decode_double_def double_code_def ret'_def)
qed

lemma decode_double_legacy_code:
  assumes "iarc_rest iarc = number_code (map rotate_left vs) @ r"
    and "numeric ret" and "length (ints ret) = length vs" and "n \<le> length ret" and "length ret - n = length vs"
  shows "decode_double_legacy iarc ret n =
    Some (refill ret vs, iarc_skip (length (number_code (map rotate_left vs))) iarc)"
proof -
  have "decode_blocks rotate_right ret [] (length vs) iarc
      = Some (refill ret ([] @ map rotate_right (map rotate_left vs)), iarc_skip (length (number_code (map rotate_left vs))) iarc)"
    using assms(3) by (intro decode_blocks_code [OF assms(2) _ _ assms(1)]) simp_all
  moreover have "map rotate_right (map rotate_left vs) = vs" by (induction vs) simp_all
  ultimately show ?thesis using assms(4,5) by (simp add: decode_double_legacy_def del: map_map)
qed

lemma decode_double_rotated:
  assumes "iarc_rest iarc = double_code vs @ r" and "\<not> integral vs"
    and "numeric ret" and "length (ints ret) = length vs" and "n \<le> length ret" and "length ret - n = length vs"
  shows "decode_double iarc ret n = Some (refill ret vs, iarc_skip (length (double_code vs)) iarc)"
proof -
  have rest: "iarc_rest iarc = LEGACY_ENCODING # number_code (map rotate_left vs) @ r"
    using assms(1,2) by (simp add: double_code_def)
  have "decode_double_legacy (iarc_skip 1 iarc) ret n
      = Some (refill ret vs, iarc_skip (length (number_code (map rotate_left vs))) (iarc_skip 1 iarc))"
    using assms(3-) rest by (intro decode_double_legacy_code) simp_all
  then show ?thesis
    using read_encoding [OF rest] assms(2) encoding_values by (simp add: decode_double_def double_code_def)
qed

lemma decode_double_column:
  assumes "column FLOAT data" and rest: "iarc_rest iarc = double_code (ints data) @ r"
  shows "decode_double iarc (slots FLOAT data) (missing data) =
    Some (map (\<lambda>f. case f of Flex_float x \<Rightarrow> Flex_float (store_double (integral (ints data)) x) | _ \<Rightarrow> f) data,
      iarc_skip (length (double_code (ints data))) iarc)"
proof (cases "integral (ints data)")
  case True
  have reset: "map (\<lambda>f. if get_type f = FLOAT then flex_reset INTEGER else f) (slots FLOAT data) = slots INTEGER data"
    by (induction data) simp_all
  have "map (\<lambda>f. case f of Flex_int i \<Rightarrow> Flex_float (int_to_double i) | _ \<Rightarrow> f)
      (refill (slots INTEGER data) (map double_to_int (ints data)))
    = map (\<lambda>f. case f of Flex_float x \<Rightarrow> Flex_float (store_double True x) | _ \<Rightarrow> f) data"
    using assms(1)
  proof (induction data)
    case (Cons f data)
    then show ?case by (cases f) (auto simp: store_double_def)
  qed simp
  moreover have e: "integral (ints data) = True" using True by simp
  ultimately show ?thesis
    using decode_double_integral [OF rest True, of "slots FLOAT data" "missing data"] assms(1) reset unfolding e
    by (simp add: slots_numeric length_ints missing_def)
next
  case False
  then have e: "integral (ints data) = False" by simp
  show ?thesis
    using decode_double_rotated [OF rest False, of "slots FLOAT data" "missing data"] assms(1)
      refill_floats [OF assms(1), of "store_double False"] unfolding e
    by (simp add: slots_numeric length_ints missing_def map_idI [of _ "store_double False"] store_double_def)
qed

lemma decode_double_plain:
  assumes rest: "iarc_rest iarc = double_code vs @ r"
  shows "\<exists>values. decode_double iarc (replicate (length vs) (Flex_int 0)) 0 = Some (values, iarc_skip (length (double_code vs)) iarc)
    \<and> map get_flex_float values = map Some (map (store_double (integral vs)) vs)"
proof (cases "integral vs")
  case True
  from decode_double_integral [OF rest True, of "replicate (length vs) (Flex_int 0)" 0] True show ?thesis
    using refill_plain [of "map double_to_int vs" 0] by (simp add: numeric_plain store_double_def)
next
  case False
  from decode_double_rotated [OF rest False, of "replicate (length vs) (Flex_int 0)" 0] False show ?thesis
    by (simp add: numeric_plain refill_plain store_double_def)
qed

lemma decode_double_stream_code:
  assumes rest: "iarc_rest iarc = double_code vs @ r"
  shows "decode_double_stream (length vs) iarc
    = Some (map (\<lambda>x. Flex_float (store_double (integral vs) x)) vs, iarc_skip (length (double_code vs)) iarc)"
proof (cases "integral vs")
  case True
  then have c: "iarc_rest iarc = INTEGER_ENCODING # number_code (map double_to_int vs) @ r"
    using rest by (simp add: double_code_def)
  have "decode_number_groups (length (map double_to_int vs)) (iarc_skip 1 iarc)
      = Some (map double_to_int vs, iarc_skip (length (number_code (map double_to_int vs))) (iarc_skip 1 iarc))"
    using c by (intro decode_number_groups_code) simp
  then show ?thesis using read_encoding [OF c] True encoding_values
    by (simp add: decode_double_stream_def double_code_def store_double_def o_def)
next
  case False
  then have c: "iarc_rest iarc = LEGACY_ENCODING # number_code (map rotate_left vs) @ r"
    using rest by (simp add: double_code_def)
  have "decode_number_groups (length (map rotate_left vs)) (iarc_skip 1 iarc)
      = Some (map rotate_left vs, iarc_skip (length (number_code (map rotate_left vs))) (iarc_skip 1 iarc))"
    using c by (intro decode_number_groups_code) simp
  then show ?thesis using read_encoding [OF c] False encoding_values
    by (simp add: decode_double_stream_def decode_double_stream_legacy_def double_code_def store_double_def o_def)
qed

section \<open>Strings\<close>

definition strings :: "flexible_type list \<Rightarrow> bytes list" where
  "strings data = List.map_filter get_flex_string data"

lemma strings_simps [simp]:
  "strings [] = []" "strings (Flex_string s # data) = s # strings data" "strings (Flex_undefined # data) = strings data"
  by (simp_all add: strings_def map_filter_simps)

lemma defined_strings_column: "column STRING data \<Longrightarrow> defined_strings data = Some (strings data)"
proof (induction data)
  case (Cons f data)
  then show ?case by (cases f) auto
qed simp

lemma present_strings: "column STRING data \<Longrightarrow> present data = map Flex_string (strings data)"
proof (induction data)
  case (Cons f data)
  then show ?case by (cases f) auto
qed simp

text \<open>The indexes into the dictionary \<open>ds\<close> name the strings \<open>ss\<close>.\<close>

definition indexes :: "bytes list \<Rightarrow> u64 list \<Rightarrow> bytes list \<Rightarrow> bool" where
  "indexes ds is ss \<longleftrightarrow> list_all2 (\<lambda>i s. unat i < length ds \<and> ds ! unat i = s) is ss"

lemma indexes_simps [simp]:
  "indexes ds [] []" "indexes ds (i # is) (s # ss) \<longleftrightarrow> unat i < length ds \<and> ds ! unat i = s \<and> indexes ds is ss"
  by (auto simp: indexes_def)

lemma unat_index: "i \<le> 64 \<Longrightarrow> unat (of_nat i :: u64) = i"
  by (simp add: unat_of_nat)

lemma dictionary_scan_ok:
  "column STRING data \<Longrightarrow> \<forall>s i. map_of unique s = Some i \<longrightarrow> i < length ds \<and> ds ! i = s \<Longrightarrow>
   length unique = length ds \<Longrightarrow> length ds \<le> 64 \<Longrightarrow>
   \<exists>b ds' is. dictionary_scan data unique ds idx = Some (b, ds @ ds', idx @ is) \<and> length (ds @ ds') \<le> 64
     \<and> set ds' \<subseteq> set (strings data) \<and> (b \<longrightarrow> indexes (ds @ ds') is (strings data))"
proof (induction data arbitrary: unique ds idx)
  case (Cons f data)
  show ?case
  proof (cases "f = Flex_undefined")
    case True
    with Cons.IH [OF _ Cons.prems(2-4), of idx] Cons.prems(1) show ?thesis by simp
  next
    case False
    then obtain s where f: "f = Flex_string s" and data: "column STRING data" using Cons.prems(1) by (cases f) auto
    show ?thesis
    proof (cases "map_of unique s")
      case (Some i)
      then have i: "i < length ds" "ds ! i = s" using Cons.prems(2) by auto
      obtain b ds' "is" where IH: "dictionary_scan data unique ds (idx @ [of_nat i]) = Some (b, ds @ ds', (idx @ [of_nat i]) @ is)"
        "length (ds @ ds') \<le> 64" "set ds' \<subseteq> set (strings data)" "b \<longrightarrow> indexes (ds @ ds') is (strings data)"
        using Cons.IH [OF data Cons.prems(2-4), of "idx @ [of_nat i]"] by blast
      have "unat (of_nat i :: u64) = i" using i(1) Cons.prems(4) by (intro unat_index) simp
      with i IH f Some show ?thesis
        by (intro exI [of _ b] exI [of _ ds'] exI [of _ "of_nat i # is"]) (auto simp: nth_append)
    next
      case None
      show ?thesis
      proof (cases "length unique \<ge> 64")
        case True
        then show ?thesis using None f Cons.prems(3,4)
          by (intro exI [of _ False] exI [of _ "[]"]) simp
      next
        case False
        let ?i = "length ds" and ?idx = "idx @ [of_nat (length ds)]"
        have inv: "\<forall>t j. map_of ((s, ?i) # unique) t = Some j \<longrightarrow> j < length (ds @ [s]) \<and> (ds @ [s]) ! j = t"
          using Cons.prems(2) by (auto simp: nth_append less_SucI)
        have "length ((s, ?i) # unique) = length (ds @ [s])" "length (ds @ [s]) \<le> 64"
          using Cons.prems(3) False by simp_all
        from Cons.IH [OF data inv this, of ?idx] obtain b ds' "is" where
          IH: "dictionary_scan data ((s, ?i) # unique) (ds @ [s]) ?idx = Some (b, (ds @ [s]) @ ds', ?idx @ is)"
          "length ((ds @ [s]) @ ds') \<le> 64" "set ds' \<subseteq> set (strings data)" "b \<longrightarrow> indexes ((ds @ [s]) @ ds') is (strings data)"
          by blast
        have "unat (of_nat ?i :: u64) = ?i" using Cons.prems(4) by (rule unat_index)
        with IH f None False Cons.prems(3) show ?thesis
          by (intro exI [of _ b] exI [of _ "s # ds'"] exI [of _ "of_nat ?i # is"]) (auto simp: nth_append)
      qed
    qed
  qed
qed auto

interpretation dictionary_string: serializable write_string read_dictionary_string
  "\<lambda>s. variable_code (of_nat (length s)) @ s" "\<lambda>s. length s < 2 ^ 64"
proof unfold_locales
  fix s r :: bytes and b :: iarchive
  assume len: "length s < 2 ^ 64" and rest: "iarc_rest b = (variable_code (of_nat (length s)) @ s) @ r"
  have "variable_decode b = Some (of_nat (length s), iarc_skip (length (variable_code (of_nat (length s)))) b)"
    using rest by (intro variable_decode_code [where r = "s @ r"]) simp
  moreover have "iarc_read (length s) (iarc_skip (length (variable_code (of_nat (length s)))) b)
      = Some (s, iarc_skip (length s) (iarc_skip (length (variable_code (of_nat (length s)))) b))"
    using rest by (intro iarc_read_skip [where r = r]) simp_all
  ultimately show "read_dictionary_string b = Some (s, iarc_skip (length (variable_code (of_nat (length s)) @ s)) b)"
    using len by (simp add: read_dictionary_string_def unat_of_size)
qed (simp_all add: write_string_def variable_encode_code codec)

lemma lookup_strings_indexes: "indexes ds is ss \<Longrightarrow> lookup_strings ds (map Flex_int is) = Some (map Flex_string ss)"
  unfolding indexes_def by (induction rule: list_all2_induct) simp_all

lemma read_strings_concat:
  "\<forall>s \<in> set ss. length s < 2 ^ 64 \<Longrightarrow> iarc_rest iarc = concat ss @ r \<Longrightarrow>
   read_strings (map (\<lambda>s. Flex_int (of_nat (length s))) ss) iarc = Some (map Flex_string ss, iarc_skip (length (concat ss)) iarc)"
proof (induction ss arbitrary: iarc)
  case (Cons s ss)
  have "iarc_read (length s) iarc = Some (s, iarc_skip (length s) iarc)"
    using Cons.prems(2) by (intro iarc_read_skip [where r = "concat ss @ r"]) simp_all
  with Cons.IH [of "iarc_skip (length s) iarc"] Cons.prems show ?case by (simp add: unat_of_size)
qed simp

lemma flex_ints: "numeric (map Flex_int xs)" "ints (map Flex_int xs) = xs"
  by (induction xs) simp_all

lemma indexes_length: "indexes ds is ss \<Longrightarrow> length is = length ss"
  by (simp add: indexes_def list_all2_lengthD)

lemma load_flag: "iarc_rest iarc = c # r \<Longrightarrow> load_pod 1 iarc = Some (c :: u8, iarc_skip 1 iarc)"
  using u8_pod.load_img [of iarc c r] by simp

lemma save_flag:
  "oarc_ok oarc \<Longrightarrow> oarc_ok (save_pod 1 (c :: u8) oarc) \<and> oarc_contents (save_pod 1 c oarc) = oarc_contents oarc @ [c]"
  using u8_pod.save_ok [of oarc c] u8_pod.save_contents [of oarc c] by simp

lemma dictionary_code:
  assumes "oarc_ok oarc" and "length ds \<le> 64" and "\<forall>s \<in> set ds. length s < 2 ^ 64" and "indexes ds is ss"
  shows "\<exists>oarc' code. encode_number (map Flex_int is) (fold write_string ds (variable_encode (of_nat (length ds)) (save_pod 1 (1 :: u8) oarc)))
        = Some oarc' \<and> oarc_ok oarc' \<and> oarc_contents oarc' = oarc_contents oarc @ code
      \<and> (\<forall>iarc r. iarc_rest iarc = code @ r \<longrightarrow>
           decode_string_stream (length ss) iarc = Some (map Flex_string ss, iarc_skip (length code) iarc))"
proof -
  let ?n = "of_nat (length ds) :: u64"
  let ?img = "\<lambda>s. variable_code (of_nat (length s)) @ s"
  define dict where "dict = concat (map ?img ds)"
  define oarc1 where "oarc1 = variable_encode ?n (save_pod 1 (1 :: u8) oarc)"
  have 1: "oarc_ok oarc1" "oarc_contents oarc1 = oarc_contents oarc @ [1] @ variable_code ?n"
    using save_flag [OF assms(1), of 1] variable_encode_code by (auto simp: oarc1_def)
  have 2: "oarc_ok (fold write_string ds oarc1)" "oarc_contents (fold write_string ds oarc1) = oarc_contents oarc1 @ dict"
    using dictionary_string.fold_save [OF 1(1), of ds] by (simp_all add: dict_def)
  obtain oarc' where oarc': "encode_number (map Flex_int is) (fold write_string ds oarc1) = Some oarc'" "oarc_ok oarc'"
    "oarc_contents oarc' = oarc_contents oarc @ [1] @ variable_code ?n @ dict @ number_code is"
    using encode_number_code [OF flex_ints(1) 2(1), of "is"] 1 2 flex_ints(2) [of "is"] by auto
  have "decode_string_stream (length ss) iarc
      = Some (map Flex_string ss, iarc_skip (length ([1] @ variable_code ?n @ dict @ number_code is)) iarc)"
    if rest: "iarc_rest iarc = ([1] @ variable_code ?n @ dict @ number_code is) @ r" for iarc r
  proof -
    let ?b1 = "iarc_skip 1 iarc" let ?b2 = "iarc_skip (length (variable_code ?n)) ?b1" let ?b3 = "iarc_skip (length dict) ?b2"
    have flag: "load_pod 1 iarc = Some (1 :: u8, ?b1)" using rest by (intro load_flag) simp
    have n: "variable_decode ?b1 = Some (?n, ?b2)"
      using rest by (intro variable_decode_code [where r = "dict @ number_code is @ r"]) simp
    have d: "load_elements read_dictionary_string (length ds) ?b2 = Some (ds, ?b3)"
      using dictionary_string.load_elements_images [OF assms(3), of ?b2 "number_code is @ r"] rest
      by (simp add: dict_def)
    have i: "decode_number ?b3 (replicate (length is) (Flex_int 0)) 0 = Some (map Flex_int is, iarc_skip (length (number_code is)) ?b3)"
      using rest by (intro decode_number_plain [where r = r]) simp
    show ?thesis
      using flag n d i indexes_length [OF assms(4)] lookup_strings_indexes [OF assms(4)] unat_index [OF assms(2)]
      by (simp add: decode_string_stream_def add.assoc)
  qed
  with oarc' show ?thesis unfolding oarc1_def by blast
qed

lemma direct_code:
  assumes "oarc_ok oarc" and "\<forall>s \<in> set ss. length s < 2 ^ 64"
  shows "\<exists>oarc' code. encode_number (map (\<lambda>s. Flex_int (of_nat (length s))) ss) (save_pod 1 (0 :: u8) oarc) = Some oarc'
      \<and> oarc_ok (fold oarc_write ss oarc') \<and> oarc_contents (fold oarc_write ss oarc') = oarc_contents oarc @ code
      \<and> (\<forall>iarc r. iarc_rest iarc = code @ r \<longrightarrow>
           decode_string_stream (length ss) iarc = Some (map Flex_string ss, iarc_skip (length code) iarc))"
proof -
  let ?lens = "map (\<lambda>s. of_nat (length s) :: u64) ss"
  let ?code = "[0] @ number_code ?lens @ concat ss"
  have lens: "map (\<lambda>s. Flex_int (of_nat (length s))) ss = map Flex_int ?lens" by simp
  obtain oarc' where oarc': "encode_number (map Flex_int ?lens) (save_pod 1 (0 :: u8) oarc) = Some oarc'" "oarc_ok oarc'"
    "oarc_contents oarc' = oarc_contents oarc @ [0] @ number_code ?lens"
    using encode_number_code [OF flex_ints(1), of "save_pod 1 (0 :: u8) oarc" ?lens] save_flag [OF assms(1), of 0] flex_ints(2) [of ?lens]
    by auto
  have "decode_string_stream (length ss) iarc = Some (map Flex_string ss, iarc_skip (length ?code) iarc)"
    if rest: "iarc_rest iarc = ?code @ r" for iarc r
  proof -
    let ?b1 = "iarc_skip 1 iarc" let ?b2 = "iarc_skip (length (number_code ?lens)) ?b1"
    have flag: "load_pod 1 iarc = Some (0 :: u8, ?b1)" using rest by (intro load_flag) simp
    have i: "decode_number ?b1 (replicate (length ?lens) (Flex_int 0)) 0 = Some (map Flex_int ?lens, ?b2)"
      using rest by (intro decode_number_plain [where r = "concat ss @ r"]) simp
    have "read_strings (map Flex_int ?lens) ?b2 = Some (map Flex_string ss, iarc_skip (length (concat ss)) ?b2)"
      using read_strings_concat [OF assms(2), of ?b2 r] rest by (simp add: o_def)
    with flag i show ?thesis by (simp add: decode_string_stream_def)
  qed
  with oarc' osink.ok_fold [OF oarc'(2)] osink.contents_fold [OF oarc'(2)] show ?thesis
    unfolding lens by (intro exI [of _ oarc'] exI [of _ ?code]) simp
qed

lemma encode_string_code:
  assumes "column STRING data" and "\<forall>f \<in> set data. flex_valid f" and "oarc_ok oarc"
  shows "\<exists>oarc' code. encode_string data oarc = Some oarc' \<and> oarc_ok oarc' \<and> oarc_contents oarc' = oarc_contents oarc @ code
      \<and> (\<forall>iarc r. iarc_rest iarc = code @ r \<longrightarrow>
           decode_string_stream (length (present data)) iarc = Some (present data, iarc_skip (length code) iarc))"
proof -
  have valid: "\<forall>s \<in> set (strings data). length s < 2 ^ 64"
    using assms(1,2)
  proof (induction data)
    case (Cons f data)
    then show ?case by (cases f) auto
  qed simp
  obtain b ds "is" where scan: "dictionary_scan data [] [] [] = Some (b, ds, is)" "length ds \<le> 64"
    "set ds \<subseteq> set (strings data)" "b \<longrightarrow> indexes ds is (strings data)"
    using dictionary_scan_ok [OF assms(1), of "[]" "[]" "[]"] by auto
  note p = present_strings [OF assms(1)] and e = encode_string_def
  show ?thesis
  proof (cases b)
    case True
    with scan valid dictionary_code [OF assms(3) scan(2), of "is" "strings data"] p show ?thesis by (auto simp: e)
  next
    case False
    with scan(1) direct_code [OF assms(3) valid] defined_strings_column [OF assms(1)] p show ?thesis by (auto simp: e)
  qed
qed

section \<open>Vectors\<close>

definition vectors :: "flexible_type list \<Rightarrow> f64 list list" where
  "vectors data = List.map_filter get_flex_vec data"

lemma vectors_simps [simp]:
  "vectors [] = []" "vectors (Flex_vec v # data) = v # vectors data" "vectors (Flex_undefined # data) = vectors data"
  by (simp_all add: vectors_def map_filter_simps)

lemma defined_vectors_column: "column VECTOR data \<Longrightarrow> defined_vectors data = Some (vectors data)"
proof (induction data)
  case (Cons f data)
  then show ?case by (cases f) auto
qed simp

lemma present_vectors: "column VECTOR data \<Longrightarrow> present data = map Flex_vec (vectors data)"
proof (induction data)
  case (Cons f data)
  then show ?case by (cases f) auto
qed simp

lemma flex_floats: "column FLOAT (map Flex_float xs)" "ints (map Flex_float xs) = xs"
  by (induction xs) simp_all

lemma those_Some [simp]: "those (map Some xs) = Some xs"
  by (induction xs) simp_all

lemma split_values_concat:
  "map get_flex_float values = map Some (map g (concat vs)) \<Longrightarrow> \<forall>v \<in> set vs. length v < 2 ^ 64 \<Longrightarrow>
   split_values (map (\<lambda>v. Flex_int (of_nat (length v))) vs) values = Some (map (\<lambda>v. Flex_vec (map g v)) vs)"
proof (induction vs arbitrary: "values")
  case (Cons v vs)
  have len: "length values = length v + length (concat vs)"
    using arg_cong [OF Cons.prems(1), of length] by simp
  have head: "map get_flex_float (take (length v) values) = map Some (map g v)"
    using arg_cong [OF Cons.prems(1), of "take (length v)"] by (simp add: take_map)
  have "map get_flex_float (drop (length v) values) = map Some (map g (concat vs))"
    using arg_cong [OF Cons.prems(1), of "drop (length v)"] by (simp add: drop_map)
  from Cons.IH [OF this] Cons.prems(2) len head show ?case
    by (simp add: unat_of_size del: map_map)
qed simp

lemma encode_vector_code:
  assumes "column VECTOR data" and "\<forall>f \<in> set data. flex_valid f" and "oarc_ok oarc"
  shows "\<exists>oarc' code. encode_vector data oarc = Some oarc' \<and> oarc_ok oarc' \<and> oarc_contents oarc' = oarc_contents oarc @ code
      \<and> (\<forall>iarc r. iarc_rest iarc = code @ r \<longrightarrow>
           decode_vector_stream (length (present data)) iarc True
           = Some (map (\<lambda>v. Flex_vec (map (store_double (integral (concat (vectors data)))) v)) (vectors data),
               iarc_skip (length code) iarc))"
proof -
  let ?vs = "vectors data"
  let ?lens = "map (\<lambda>v. of_nat (length v) :: u64) ?vs"
  let ?code = "[NEW_ENCODING] @ number_code ?lens @ double_code (concat ?vs)"
  have valid: "\<forall>v \<in> set ?vs. length v < 2 ^ 64"
    using assms(1,2)
  proof (induction data)
    case (Cons f data)
    then show ?case by (cases f) auto
  qed simp
  define oarc1 where "oarc1 = oarc_write [NEW_ENCODING] oarc"
  have 1: "oarc_ok oarc1" "oarc_contents oarc1 = oarc_contents oarc @ [NEW_ENCODING]"
    using assms(3) by (simp_all add: oarc1_def codec)
  obtain oarc2 where 2: "encode_number (map Flex_int ?lens) oarc1 = Some oarc2" "oarc_ok oarc2"
    "oarc_contents oarc2 = oarc_contents oarc1 @ number_code ?lens"
    using encode_number_code [OF flex_ints(1) 1(1), of ?lens] flex_ints(2) [of ?lens] by auto
  obtain oarc3 where 3: "encode_double (map Flex_float (concat ?vs)) oarc2 = Some oarc3" "oarc_ok oarc3"
    "oarc_contents oarc3 = oarc_contents oarc2 @ double_code (concat ?vs)"
    using encode_double_code [OF flex_floats(1) 2(2), of "concat ?vs"] flex_floats(2) [of "concat ?vs"] by auto
  have lens: "map (\<lambda>v. Flex_int (of_nat (length v))) ?vs = map Flex_int ?lens" by simp
  have enc: "encode_vector data oarc = Some oarc3"
    using 2(1) 3(1) defined_vectors_column [OF assms(1)] by (simp add: encode_vector_def oarc1_def o_def map_concat)
  have "decode_vector_stream (length (present data)) iarc True
      = Some (map (\<lambda>v. Flex_vec (map (store_double (integral (concat ?vs))) v)) ?vs, iarc_skip (length ?code) iarc)"
    if rest: "iarc_rest iarc = ?code @ r" for iarc r
  proof -
    let ?b1 = "iarc_skip 1 iarc" let ?b2 = "iarc_skip (length (number_code ?lens)) ?b1"
    have flag: "iarc_read 1 iarc = Some ([NEW_ENCODING], ?b1)" using rest by (intro read_encoding) simp
    have i: "decode_number ?b1 (replicate (length ?lens) (Flex_int 0)) 0 = Some (map Flex_int ?lens, ?b2)"
      using rest by (intro decode_number_plain [where r = "double_code (concat ?vs) @ r"]) simp
    obtain "values" where d: "decode_double ?b2 (replicate (length (concat ?vs)) (Flex_int 0)) 0
          = Some (values, iarc_skip (length (double_code (concat ?vs))) ?b2)"
        "map get_flex_float values = map Some (map (store_double (integral (concat ?vs))) (concat ?vs))"
      using decode_double_plain [of ?b2 "concat ?vs" r] rest by auto
    have "those (map get_flex_int (map Flex_int ?lens)) = Some ?lens"
      using those_Some [of ?lens] by (simp add: o_def)
    moreover have "sum_list (map unat ?lens) = length (concat ?vs)"
      using valid by (induction ?vs) (simp_all add: length_concat unat_of_size o_def cong: map_cong)
    ultimately show ?thesis
      using flag i d(1) split_values_concat [OF d(2) valid, unfolded lens] present_vectors [OF assms(1)]
      by (simp add: decode_vector_stream_def flexible_type_new_def o_def del: map_map)
  qed
  with enc 1 2 3 show ?thesis by (intro exI [of _ oarc3] exI [of _ ?code]) simp
qed

section \<open>The content of a column\<close>

text \<open>
  What is read back. A block whose doubles are all integral is stored as integers, and a value of
  negative zero comes back as zero; everything else is unchanged.
\<close>

fun doubles_in :: "flexible_type \<Rightarrow> f64 list" where
  "doubles_in (Flex_float x) = [x]"
| "doubles_in (Flex_vec v) = v"
| "doubles_in _ = []"

definition block_integral :: "flexible_type list \<Rightarrow> bool" where
  "block_integral data = integral (concat (map doubles_in data))"

fun store_value :: "bool \<Rightarrow> flexible_type \<Rightarrow> flexible_type" where
  "store_value b (Flex_float x) = Flex_float (store_double b x)"
| "store_value b (Flex_vec v) = Flex_vec (map (store_double b) v)"
| "store_value b f = f"

definition stored :: "flexible_type list \<Rightarrow> flexible_type list" where
  "stored data = map (store_value (block_integral data)) data"

lemma store_value_undefined [simp]: "store_value b f = Flex_undefined \<longleftrightarrow> f = Flex_undefined"
  by (cases f) simp_all

lemma length_stored [simp]: "length (stored data) = length data"
  by (simp add: stored_def)

lemma stored_nth_undefined: "i < length data \<Longrightarrow> stored data ! i = Flex_undefined \<longleftrightarrow> data ! i = Flex_undefined"
  by (simp add: stored_def)

lemma slots_map: "(\<And>f. g f = Flex_undefined \<longleftrightarrow> f = Flex_undefined) \<Longrightarrow> slots t (map g data) = slots t data"
  by (simp add: slots_def)

lemma present_map: "(\<And>f. g f = Flex_undefined \<longleftrightarrow> f = Flex_undefined) \<Longrightarrow> present (map g data) = map g (present data)"
  by (induction data) simp_all

lemma slots_stored [simp]: "slots t (stored data) = slots t data"
  by (simp add: stored_def slots_map)

lemma present_stored: "present (stored data) = map (store_value (block_integral data)) (present data)"
  by (simp add: stored_def present_map)

lemma column_float: "column FLOAT data \<Longrightarrow> concat (map doubles_in data) = ints data"
proof (induction data)
  case (Cons f data)
  then show ?case by (cases f) auto
qed simp

lemma column_vector: "column VECTOR data \<Longrightarrow> concat (map doubles_in data) = concat (vectors data)"
proof (induction data)
  case (Cons f data)
  then show ?case by (cases f) auto
qed simp

lemma store_value_plain: "get_type f \<notin> {FLOAT, VECTOR} \<Longrightarrow> store_value b f = f"
  by (cases f) simp_all

lemma stored_plain: "column t data \<Longrightarrow> t \<notin> {FLOAT, VECTOR} \<Longrightarrow> stored data = data"
  by (auto simp: stored_def column_def list_all_iff intro!: map_idI store_value_plain)

lemma stored_float:
  "column FLOAT data \<Longrightarrow>
   map (\<lambda>f. case f of Flex_float x \<Rightarrow> Flex_float (store_double (integral (ints data)) x) | _ \<Rightarrow> f) data = stored data"
  by (auto simp: stored_def block_integral_def column_float column_def list_all_iff split: flexible_type.split)

lemma present_stored_float:
  assumes "column FLOAT data"
  shows "present (stored data) = map (\<lambda>x. Flex_float (store_double (integral (ints data)) x)) (ints data)"
proof -
  have "map (store_value b) (present data) = map (\<lambda>x. Flex_float (store_double b x)) (ints data)" for b
    using assms
  proof (induction data)
    case (Cons f data)
    then show ?case by (cases f) auto
  qed simp
  then show ?thesis by (simp add: present_stored block_integral_def column_float [OF assms])
qed

lemma present_stored_vector:
  "column VECTOR data \<Longrightarrow>
   present (stored data) = map (\<lambda>v. Flex_vec (map (store_double (integral (concat (vectors data)))) v)) (vectors data)"
  by (simp add: present_stored present_vectors block_integral_def column_vector)

lemma fill_values_present: "t \<noteq> UNDEFINED \<Longrightarrow> fill_values (slots t data) (present data) = Some data"
proof (induction data)
  case (Cons f data)
  have "fill_values (Flex_undefined # ret) vs = map_option (Cons Flex_undefined) (fill_values ret vs)" for ret vs
    by (cases vs) simp_all
  then show ?case using Cons by auto
qed simp

lemma fill_values_stored: "t \<noteq> UNDEFINED \<Longrightarrow> fill_values (slots t data) (present (stored data)) = Some (stored data)"
  using fill_values_present [of t "stored data"] by simp

text \<open>
  The contract of a column's encoder: both decoders return what is stored and stop behind it.
\<close>

definition column_decodes :: "block_info \<Rightarrow> flex_type_enum \<Rightarrow> flexible_type list \<Rightarrow> bytes \<Rightarrow> bool" where
  "column_decodes info t data code \<longleftrightarrow> (\<forall>iarc r. iarc_rest iarc = code @ r \<longrightarrow>
     decode_content info t iarc (slots t data) (missing data) = Some (stored data, iarc_skip (length code) iarc)
     \<and> (t \<in> {INTEGER, FLOAT, STRING, VECTOR} \<longrightarrow>
          content_stream info t (length (present data)) iarc = Some (present (stored data), iarc_skip (length code) iarc)))"

lemma integer_column:
  assumes "column INTEGER data" and "oarc_ok oarc"
  shows "\<exists>oarc' code. encode_number data oarc = Some oarc' \<and> oarc_ok oarc' \<and> oarc_contents oarc' = oarc_contents oarc @ code
     \<and> column_decodes info INTEGER data code"
proof -
  have p: "present data = map Flex_int (ints data)"
    using assms(1)
  proof (induction data)
    case (Cons f data)
    then show ?case by (cases f) auto
  qed simp
  have "column_decodes info INTEGER data (number_code (ints data))"
    using assms(1) decode_number_column decode_number_groups_code [of _ "ints data"] p
    by (auto simp: column_decodes_def decode_content_def content_stream_def decode_number_stream_def stored_plain)
  with encode_number_code [OF column_numeric [OF assms(1)] assms(2)] show ?thesis by auto
qed

lemma float_column:
  assumes "column FLOAT data" and "oarc_ok oarc" and "has_flag BLOCK_ENCODING_EXTENSION info"
  shows "\<exists>oarc' code. encode_double data oarc = Some oarc' \<and> oarc_ok oarc' \<and> oarc_contents oarc' = oarc_contents oarc @ code
     \<and> column_decodes info FLOAT data code"
proof -
  have "column_decodes info FLOAT data (double_code (ints data))"
    using assms(1,3) decode_double_column [OF assms(1)] decode_double_stream_code [of _ "ints data"]
    by (auto simp: column_decodes_def decode_content_def content_stream_def stored_float present_stored_float length_ints)
  with encode_double_code [OF assms(1,2)] show ?thesis by auto
qed

lemma string_column:
  assumes "column STRING data" and "oarc_ok oarc" and "\<forall>f \<in> set data. flex_valid f"
  shows "\<exists>oarc' code. encode_string data oarc = Some oarc' \<and> oarc_ok oarc' \<and> oarc_contents oarc' = oarc_contents oarc @ code
     \<and> column_decodes info STRING data code"
proof -
  obtain oarc' code where e: "encode_string data oarc = Some oarc'" "oarc_ok oarc'" "oarc_contents oarc' = oarc_contents oarc @ code"
      and d: "\<And>iarc r. iarc_rest iarc = code @ r \<Longrightarrow>
        decode_string_stream (length (present data)) iarc = Some (present data, iarc_skip (length code) iarc)"
    using encode_string_code [OF assms(1,3,2)] by blast
  have "column_decodes info STRING data code"
    using d fill_values_present [of STRING data] stored_plain [OF assms(1)]
    by (auto simp: column_decodes_def decode_content_def content_stream_def decode_string_def)
  with e show ?thesis by blast
qed

lemma vector_column:
  assumes "column VECTOR data" and "oarc_ok oarc" and "\<forall>f \<in> set data. flex_valid f" and "has_flag BLOCK_ENCODING_EXTENSION info"
  shows "\<exists>oarc' code. encode_vector data oarc = Some oarc' \<and> oarc_ok oarc' \<and> oarc_contents oarc' = oarc_contents oarc @ code
     \<and> column_decodes info VECTOR data code"
proof -
  obtain oarc' code where e: "encode_vector data oarc = Some oarc'" "oarc_ok oarc'" "oarc_contents oarc' = oarc_contents oarc @ code"
      and d: "\<And>iarc r. iarc_rest iarc = code @ r \<Longrightarrow>
        decode_vector_stream (length (present data)) iarc True = Some (present (stored data), iarc_skip (length code) iarc)"
    using encode_vector_code [OF assms(1,3,2)] present_stored_vector [OF assms(1)] by metis
  have "column_decodes info VECTOR data code"
    using d fill_values_stored [of VECTOR data] assms(4)
    by (auto simp: column_decodes_def decode_content_def content_stream_def decode_vector_def)
  with e show ?thesis by blast
qed

text \<open>The other types: the content of each value in turn.\<close>

definition other_code :: "flexible_type list \<Rightarrow> bytes" where
  "other_code data = concat (map flex_body (present data))"

lemma serialize_column:
  fixes data :: "flexible_type list"
  assumes "oarc_ok oarc"
  defines "oarc' \<equiv> fold (\<lambda>f oarc. if undefined_value f then oarc else flex_serialize f oarc) data oarc"
  shows "oarc_ok oarc'" and "oarc_contents oarc' = oarc_contents oarc @ other_code data"
proof -
  have "oarc_ok oarc' \<and> oarc_contents oarc' = oarc_contents oarc @ other_code data"
    unfolding oarc'_def using assms(1)
  proof (induction data arbitrary: oarc)
    case (Cons f data)
    then show ?case using flex_serialize_body [of oarc f] by (cases "f = Flex_undefined") (simp_all add: other_code_def)
  qed (simp add: other_code_def)
  then show "oarc_ok oarc'" "oarc_contents oarc' = oarc_contents oarc @ other_code data" by simp_all
qed

lemma deserialize_column:
  assumes "column t data" and "t \<noteq> UNDEFINED" and "\<forall>f \<in> set data. flex_valid f" and "iarc_rest iarc = other_code data @ r"
  shows "deserialize_values (slots t data) iarc = Some (data, iarc_skip (length (other_code data)) iarc)"
  using assms
proof (induction data arbitrary: iarc)
  case (Cons f data)
  show ?case
  proof (cases "f = Flex_undefined")
    case True
    with Cons show ?thesis by (simp add: other_code_def)
  next
    case False
    with Cons.prems have f: "get_type f = t" "flex_valid f" "iarc_rest iarc = flex_body f @ other_code data @ r"
      by (simp_all add: other_code_def)
    from flex_deserialize_body [OF f(2,3)] f(1)
    have "flex_deserialize flex_load t iarc = Some (f, iarc_skip (length (flex_body f)) iarc)" by simp
    moreover have "deserialize_values (slots t data) (iarc_skip (length (flex_body f)) iarc)
        = Some (data, iarc_skip (length (other_code data)) (iarc_skip (length (flex_body f)) iarc))"
      using Cons.prems f(3) by (intro Cons.IH) simp_all
    ultimately show ?thesis using False Cons.prems(2) by (simp add: other_code_def)
  qed
qed (simp add: other_code_def)

lemma other_column:
  assumes "column t data" and "t \<notin> {INTEGER, FLOAT, STRING, VECTOR, UNDEFINED}" and "\<forall>f \<in> set data. flex_valid f"
  shows "column_decodes info t data (other_code data)"
  using assms deserialize_column [OF assms(1) _ assms(3)] stored_plain [OF assms(1)]
  by (auto simp: column_decodes_def decode_content_def)

end
