(* ===== verification/Block_Codec.thy ===== *)
theory Block_Codec
  imports Column_Codec
begin

text \<open>
  Correctness of \<open>typed_encode\<close>, \<open>typed_decode\<close> and \<open>typed_decode_stream_callback\<close>: the types that
  appear in a block, the bitmap of undefined values, the header of each kind of block, and the
  round trip of whole blocks through both decoders.
\<close>

section \<open>The types of a block\<close>

lemma type_code_bit: "type_code t < 16"
  using type_code_less [of t] by simp

lemma type_of_code_byte [simp]: "type_of_code (unat (of_nat (type_code t) :: u8)) = Some t"
  by (cases t) (simp_all add: type_of_code_def all_types_def)

lemma fixed_set_bit_unsync_eq: "fixed_set_bit_unsync len b ts = fixed_set_bit len b ts"
  by (simp add: fixed_set_bit_unsync_def fixed_set_bit_def db_set_bit_unsync_eq)

lemma record_types_ok:
  "fixed_ok 16 ts \<Longrightarrow> \<exists>ts'. record_types data ts = Some ts' \<and> fixed_ok 16 ts'
     \<and> words_bits ts' = words_bits ts \<union> type_code ` get_type ` set data"
proof (induction data arbitrary: ts)
  case (Cons f data)
  obtain ts1 where ts1: "fixed_set_bit 16 (type_code (get_type f)) ts = Some (type_code (get_type f) \<in> words_bits ts, ts1)"
    "fixed_ok 16 ts1" "words_bits ts1 = insert (type_code (get_type f)) (words_bits ts)"
    using fixed.set_bit [OF Cons.prems type_code_bit] by blast
  with Cons.IH [OF ts1(2)] show ?case by (auto simp: fixed_set_bit_unsync_eq)
qed simp

lemma fixed_popcount_card: "fixed_popcount len ts = card (words_bits ts)"
  using db_popcount_card [of "fixed_view len ts"] by (simp add: fixed_popcount_def db_popcount_def)

definition block_types :: "flexible_type list \<Rightarrow> flex_type_enum set" where
  "block_types data = get_type ` set data"

lemma fixed_clear_new: "fixed_clear 16 (fixed_new 16) = fixed_new 16"
  by (simp add: fixed_clear_def fixed_new_def)

lemma types_appeared:
  obtains ts where "record_types data (fixed_clear 16 (fixed_new 16)) = Some ts" "fixed_ok 16 ts"
    "words_bits ts = type_code ` block_types data" "fixed_popcount 16 ts = card (block_types data)"
    "\<And>t. fixed_get 16 (type_code t) ts = Some (t \<in> block_types data)"
proof -
  obtain ts where ts: "record_types data (fixed_new 16) = Some ts" "fixed_ok 16 ts" "words_bits ts = type_code ` block_types data"
    using record_types_ok [OF fixed_new_ok(1), of data] by (auto simp: block_types_def)
  moreover have "inj_on type_code (block_types data)" by (simp add: inj_on_def type_code_inject)
  then have "fixed_popcount 16 ts = card (block_types data)" by (simp add: fixed_popcount_card ts(3) card_image)
  moreover have "fixed_get 16 (type_code t) ts = Some (t \<in> block_types data)" for t
    using fixed.get_bit [OF ts(2) type_code_bit, of t] by (auto simp: ts(3) type_code_inject)
  ultimately show thesis using that by (simp add: fixed_clear_new)
qed

lemma UNIV_types: "(UNIV :: flex_type_enum set) = set all_types"
proof -
  have "t \<in> set all_types" for t by (cases t) (simp_all add: all_types_def)
  then show ?thesis by blast
qed

lemma finite_types [simp]: "finite (S :: flex_type_enum set)"
proof -
  have "S \<subseteq> set all_types" using UNIV_types by blast
  then show ?thesis by (rule finite_subset) simp
qed

lemma num_types_byte: "(of_nat (card (block_types data)) :: u8) = of_nat k \<longleftrightarrow> card (block_types data) = k" if "k < 256"
proof -
  have "card (block_types data) \<le> card (set all_types)" by (rule card_mono) (simp_all flip: UNIV_types)
  also have "\<dots> \<le> length all_types" by (rule card_length)
  finally have "card (block_types data) < 256" by (simp add: all_types_def)
  with that show ?thesis
    by (simp add: word_of_nat_eq_iff take_bit_eq_mod)
qed

text \<open>The kinds of blocks.\<close>

lemma block_cases:
  obtains (empty) "data = []"
    | (undefined) "block_types data = {UNDEFINED}" "data \<noteq> []"
    | (single) t where "block_types data = {t}" "t \<noteq> UNDEFINED" "column t data" "missing data = 0" "data \<noteq> []"
    | (nullable) t where "block_types data = {t, UNDEFINED}" "t \<noteq> UNDEFINED" "column t data" "missing data \<noteq> 0"
    | (mixed) "card (block_types data) \<ge> 2" "\<not> (card (block_types data) = 2 \<and> UNDEFINED \<in> block_types data)"
proof -
  consider "card (block_types data) = 0" | "card (block_types data) = 1"
    | "card (block_types data) = 2 \<and> UNDEFINED \<in> block_types data"
    | "card (block_types data) \<ge> 2 \<and> \<not> (card (block_types data) = 2 \<and> UNDEFINED \<in> block_types data)" by linarith
  then show thesis
  proof cases
    case 1
    then have "data = []" by (simp add: block_types_def)
    then show thesis by (rule empty)
  next
    case 2
    then obtain t where t: "block_types data = {t}" by (auto simp: card_1_singleton_iff)
    then have "data \<noteq> []" by (auto simp: block_types_def)
    have types: "\<forall>f \<in> set data. get_type f = t" using t by (auto simp: block_types_def)
    show thesis
    proof (cases "t = UNDEFINED")
      case True
      with t \<open>data \<noteq> []\<close> show thesis by (intro undefined) simp_all
    next
      case False
      with types have "present data = data" by (auto simp: present_def intro!: filter_True)
      then have "missing data = 0" by (simp add: missing_def)
      with t False \<open>data \<noteq> []\<close> types show thesis by (intro single [of t]) (auto simp: column_def list_all_iff)
    qed
  next
    case 3
    then obtain t where t: "block_types data = {t, UNDEFINED}" "t \<noteq> UNDEFINED"
      by (auto simp: card_2_iff doubleton_eq_iff)
    then have "column t data" by (auto simp: block_types_def column_def list_all_iff)
    moreover have "Flex_undefined \<in> set data"
      using t(1) by (auto simp: block_types_def) (metis (mono_tags, lifting) imageE insert_subset subset_insertI undefined_value_iff)
    then have "length (present data) < length data" unfolding present_def by (intro length_filter_less) auto
    ultimately show thesis using t by (intro nullable) (simp_all add: missing_def)
  next
    case 4
    then show thesis by (intro mixed) simp_all
  qed
qed

section \<open>The bitmap of undefined values\<close>

definition undefined_positions :: "flexible_type list \<Rightarrow> nat set" where
  "undefined_positions data = {i. i < length data \<and> data ! i = Flex_undefined}"

lemma undefined_positions_Cons:
  "undefined_positions (f # data) = (if f = Flex_undefined then {0} else {}) \<union> Suc ` undefined_positions data"
proof -
  have "i \<in> undefined_positions (f # data) \<longleftrightarrow>
      i \<in> (if f = Flex_undefined then {0} else {}) \<union> Suc ` undefined_positions data" for i
    by (cases i) (auto simp: undefined_positions_def)
  then show ?thesis by blast
qed

lemma finite_positions [simp]: "finite (undefined_positions data)"
  by (simp add: undefined_positions_def)

lemma missing_card: "missing data = card (undefined_positions data)"
proof (induction data)
  case (Cons f data)
  have "card (insert 0 (Suc ` undefined_positions data)) = Suc (card (undefined_positions data))"
    by (simp add: card_image)
  moreover have "card (Suc ` undefined_positions data) = card (undefined_positions data)" by (simp add: card_image)
  ultimately show ?case using Cons length_present [of data]
    by (cases "f = Flex_undefined") (auto simp: undefined_positions_Cons missing_def Suc_diff_le simp del: length_present)
qed (simp add: missing_def undefined_positions_def)

lemma new_bitmap_ok: obtains d where "new_bitmap n = Some d" "db_ok d" "db_len d = n" "db_bits d = {}"
proof -
  obtain d where d: "db_sized (\<lambda>_. 0) n = Some d" "db_ok d" "db_len d = n" "db_bits d = {}"
    using db_sized_ok by blast
  have "map (\<lambda>_. 0) (db_array d) = db_array d"
    by (rule words_bits_eqI) (use d(4) words_bits_map [of "\<lambda>_. 0"] in \<open>auto simp: words_bits_def\<close>)
  then have "db_clear d = d" by (simp add: db_clear_def)
  with d that show thesis by (simp add: new_bitmap_def)
qed

lemma mark_undefined_ok:
  "db_ok d \<Longrightarrow> i + length data \<le> db_len d \<Longrightarrow>
   \<exists>d'. mark_undefined i data d = Some d' \<and> db_ok d' \<and> db_len d' = db_len d
     \<and> db_bits d' = db_bits d \<union> (\<lambda>j. i + j) ` undefined_positions data"
proof (induction data arbitrary: i d)
  case Nil
  then show ?case by (simp add: undefined_positions_def)
next
  case (Cons f data)
  show ?case
  proof (cases "f = Flex_undefined")
    case True
    obtain d1 where d1: "db_set_bit_unsync i d = Some (i \<in> db_bits d, d1)" "db_ok d1" "db_len d1 = db_len d"
      "db_bits d1 = insert i (db_bits d)"
      using dense.set_bit [of d i] Cons.prems by (auto simp: db_set_bit_unsync_eq)
    from Cons.IH [OF d1(2), of "Suc i"] Cons.prems(2) d1 True show ?thesis
      by (auto simp: undefined_positions_Cons image_image)
  next
    case False
    with Cons.IH [OF Cons.prems(1), of "Suc i"] Cons.prems(2) show ?thesis
      by (auto simp: undefined_positions_Cons image_image)
  qed
qed

lemma bitmap_written:
  obtains d0 d where "new_bitmap (length data) = Some d0" "mark_undefined 0 data d0 = Some d" "db_ok d"
    "db_len d = length data" "db_bits d = undefined_positions data"
proof -
  obtain d0 where d0: "new_bitmap (length data) = Some d0" "db_ok d0" "db_len d0 = length data" "db_bits d0 = {}"
    by (rule new_bitmap_ok)
  with mark_undefined_ok [of d0 0 data] that show thesis by auto
qed

lemma read_bitmap_ok:
  assumes "db_ok d" and "iarc_rest iarc = concat (map (le_bytes 8) (db_array d)) @ r"
  shows "read_bitmap (db_len d) iarc = Some (d, iarc_skip (8 * db_arrlen d) iarc)"
proof -
  obtain d0 where d0: "new_bitmap (db_len d) = Some d0" "db_ok d0" "db_len d0 = db_len d" by (rule new_bitmap_ok)
  have len: "db_arrlen d0 = db_arrlen d" using d0 assms(1) by (simp add: db_ok_arrlen)
  have "iarc_read (8 * db_arrlen d) iarc = Some (concat (map (le_bytes 8) (db_array d)), iarc_skip (8 * db_arrlen d) iarc)"
    using assms(2) by (intro iarc_read_skip [where r = r]) simp_all
  with d0 len words_of_bytes_image [of 8 "db_array d" "[]"] show ?thesis
    by (simp add: read_bitmap_def)
qed

lemma undefine_ok:
  "set ts \<subseteq> {..<length ret} \<Longrightarrow>
   undefine ts ret = Some (map (\<lambda>i. if i \<in> set ts then Flex_undefined else ret ! i) [0..<length ret])"
proof (induction ts arbitrary: ret)
  case Nil
  then show ?case by (simp add: map_nth)
next
  case (Cons t ts)
  from Cons.IH [of "ret[t := Flex_undefined]"] Cons.prems show ?case
    by (auto simp: nth_list_update)
qed

lemma undefine_slots:
  "undefine (sorted_list_of_set (undefined_positions data)) (replicate (length data) (flex_reset t)) = Some (slots t data)"
proof -
  have s: "set (sorted_list_of_set (undefined_positions data)) = undefined_positions data" by simp
  then have "set (sorted_list_of_set (undefined_positions data)) \<subseteq> {..<length (replicate (length data) (flex_reset t))}"
    by (auto simp: undefined_positions_def)
  from undefine_ok [OF this] show ?thesis
    unfolding s by (auto simp: undefined_positions_def slots_def intro!: nth_equalityI)
qed

section \<open>Encoded blocks\<close>

lemma has_flag_update [simp]:
  "has_flag flag (block\<lparr>flags := v\<rparr>) \<longleftrightarrow> v AND flag \<noteq> 0"
  "has_flag flag (block\<lparr>num_elem := n\<rparr>) = has_flag flag block"
  "has_flag flag (block\<lparr>block_size := n\<rparr>) = has_flag flag block"
  by (simp_all add: has_flag_def)

lemma or_flag: "(v OR w) AND flag \<noteq> 0 \<longleftrightarrow> v AND flag \<noteq> 0 \<or> w AND flag \<noteq> 0" for v w flag :: u64
  by (auto simp: bit_eq_iff bit_simps)

lemma column_decodes_size [simp]: "column_decodes (block\<lparr>block_size := n\<rparr>) = column_decodes block"
  by (simp add: fun_eq_iff column_decodes_def decode_content_def content_stream_def)

lemma column_code:
  assumes "column t data" and "t \<noteq> UNDEFINED" and "\<forall>f \<in> set data. flex_valid f" and "oarc_ok oarc"
    and get: "\<And>u. fixed_get 16 (type_code u) ts = Some (u \<in> block_types data)" and "t \<in> block_types data"
    and "block_types data \<subseteq> {t, UNDEFINED}" and "has_flag IS_FLEXIBLE_TYPE block" and "\<not> has_flag MULTIPLE_TYPE_BLOCK block"
  obtains block' oarc' code where "encode_content ts data block oarc = Some (block', oarc')" "oarc_ok oarc'"
      "oarc_contents oarc' = oarc_contents oarc @ code" "column_decodes block' t data code"
      "has_flag IS_FLEXIBLE_TYPE block'" "\<not> has_flag MULTIPLE_TYPE_BLOCK block'" "num_elem block' = num_elem block"
proof -
  define ext where "ext = block\<lparr>flags := flags block OR BLOCK_ENCODING_EXTENSION\<rparr>"
  have ext: "has_flag IS_FLEXIBLE_TYPE ext" "\<not> has_flag MULTIPLE_TYPE_BLOCK ext" "has_flag BLOCK_ENCODING_EXTENSION ext"
      "num_elem ext = num_elem block"
    using assms(8,9) by (simp_all add: ext_def has_flag_def or_flag) (simp_all add: block_flags)
  have types: "u \<in> block_types data \<longleftrightarrow> t = u" if "u \<in> {INTEGER, FLOAT, STRING, VECTOR}" for u
    using assms(2,6,7) that by auto
  have content: "encode_content ts data block oarc =
      (if t = INTEGER then map_option (Pair block) (encode_number data oarc)
       else if t = FLOAT then map_option (Pair ext) (encode_double data oarc)
       else if t = STRING then map_option (Pair block) (encode_string data oarc)
       else if t = VECTOR then map_option (Pair ext) (encode_vector data oarc)
       else Some (block, fold (\<lambda>f oarc. if undefined_value f then oarc else flex_serialize f oarc) data oarc))"
    unfolding encode_content_def get ext_def [symmetric] by (simp add: types del: undefined_value_iff)
  consider "t = INTEGER" | "t = FLOAT" | "t = STRING" | "t = VECTOR" | "t \<notin> {INTEGER, FLOAT, STRING, VECTOR, UNDEFINED}"
    using assms(2) by blast
  then show thesis
  proof cases
    case 1
    then show thesis using integer_column [OF _ assms(4), of data block] assms(1,8,9) content that by force
  next
    case 2
    then show thesis using float_column [OF _ assms(4) ext(3), of data] assms(1) ext content that by force
  next
    case 3
    then show thesis using string_column [OF _ assms(4,3), of block] assms(1,8,9) content that by force
  next
    case 4
    then show thesis using vector_column [OF _ assms(4,3) ext(3)] assms(1) ext content that by force
  next
    case 5
    then show thesis
      using that [OF _ serialize_column [OF assms(4)] other_column [OF assms(1) 5 assms(3)] assms(8,9)] content by simp
  qed
qed

text \<open>The code of a column: its header, the bitmap when values are missing, and the content.\<close>

definition column_header :: "flex_type_enum \<Rightarrow> flexible_type list \<Rightarrow> dense_bitset \<Rightarrow> bytes" where
  "column_header t data d =
     (if missing data = 0 then [1, of_nat (type_code t)]
      else [2, of_nat (type_code t)] @ concat (map (le_bytes 8) (db_array d)))"

definition bitmap_of :: "flexible_type list \<Rightarrow> dense_bitset \<Rightarrow> bool" where
  "bitmap_of data d \<longleftrightarrow> db_ok d \<and> db_len d = length data \<and> db_bits d = undefined_positions data"

definition encoded_as :: "flex_type_enum \<Rightarrow> flexible_type list \<Rightarrow> block_info \<Rightarrow> bytes \<Rightarrow> bool" where
  "encoded_as t data block bs \<longleftrightarrow> (\<exists>d code. bitmap_of data d \<and> bs = column_header t data d @ code
     \<and> column_decodes block t data code \<and> has_flag IS_FLEXIBLE_TYPE block \<and> \<not> has_flag MULTIPLE_TYPE_BLOCK block
     \<and> num_elem block = of_nat (length data))"

definition block_start :: "flexible_type list \<Rightarrow> block_info \<Rightarrow> block_info" where
  "block_start data block = block\<lparr>flags := flags block OR IS_FLEXIBLE_TYPE, num_elem := of_nat (length data)\<rparr>"

lemma block_start_flags:
  assumes "\<not> has_flag MULTIPLE_TYPE_BLOCK block"
  shows "has_flag IS_FLEXIBLE_TYPE (block_start data block)" "\<not> has_flag MULTIPLE_TYPE_BLOCK (block_start data block)"
    "num_elem (block_start data block) = of_nat (length data)"
  using assms by (simp_all add: block_start_def has_flag_def or_flag) (simp_all add: block_flags)

lemma column_block:
  assumes "column t data" and "t \<noteq> UNDEFINED" and "\<forall>f \<in> set data. flex_valid f" and "oarc_ok oarc"
    and "\<And>u. fixed_get 16 (type_code u) ts = Some (u \<in> block_types data)" and "t \<in> block_types data"
    and "block_types data \<subseteq> {t, UNDEFINED}" and "\<not> has_flag MULTIPLE_TYPE_BLOCK block"
    and "bitmap_of data d" and "oarc_contents oarc = c @ column_header t data d"
  obtains block' oarc' bs where
    "map_option close_block (encode_content ts data (block_start data block) oarc) = Some (block', oarc')" "oarc_ok oarc'"
    "oarc_contents oarc' = c @ bs" "encoded_as t data block' bs"
proof -
  note b = block_start_flags [OF assms(8), of data]
  obtain block' oarc' code where r: "encode_content ts data (block_start data block) oarc = Some (block', oarc')" "oarc_ok oarc'"
      "oarc_contents oarc' = oarc_contents oarc @ code" "column_decodes block' t data code"
      "has_flag IS_FLEXIBLE_TYPE block'" "\<not> has_flag MULTIPLE_TYPE_BLOCK block'" "num_elem block' = of_nat (length data)"
    by (rule column_code [OF assms(1-7) b(1,2)]) (use b(3) in auto)
  have "encoded_as t data (block'\<lparr>block_size := of_nat (o_off oarc')\<rparr>) (column_header t data d @ code)"
    unfolding encoded_as_def using r(4-7) assms(9) by (intro exI [of _ d] exI [of _ code]) simp
  with that r(1-3) assms(10) show thesis by (simp add: close_block_def)
qed

lemma header_saved:
  fixes k :: u8 and t :: flex_type_enum
  assumes "oarc_ok oarc"
  defines "oarc' \<equiv> save_pod 1 (of_nat (type_code t) :: u8) (save_pod 1 (k :: u8) oarc)"
  shows "oarc_ok oarc'" "oarc_contents oarc' = oarc_contents oarc @ [k, of_nat (type_code t)]"
  using save_flag [OF assms(1), of k] save_flag [of "save_pod 1 k oarc" "of_nat (type_code t)"] by (simp_all add: oarc'_def)

lemma bitmap_exists: obtains d where "bitmap_of data d"
  unfolding bitmap_of_def by (rule bitmap_written [of data]) blast

lemma encode_single:
  assumes t: "block_types data = {t}" and "t \<noteq> UNDEFINED" and "column t data" and "missing data = 0" and "data \<noteq> []"
    and "\<forall>f \<in> set data. flex_valid f" and "oarc_ok oarc" and "\<not> has_flag MULTIPLE_TYPE_BLOCK block"
  obtains block' oarc' bs where "typed_encode data block oarc = Some (block', oarc')" "oarc_ok oarc'"
      "oarc_contents oarc' = oarc_contents oarc @ bs" "encoded_as t data block' bs"
proof -
  obtain ts where ts: "record_types data (fixed_clear 16 (fixed_new 16)) = Some ts"
    "fixed_popcount 16 ts = card (block_types data)" "\<And>t. fixed_get 16 (type_code t) ts = Some (t \<in> block_types data)"
    by (rule types_appeared) blast
  have "data ! 0 \<in> set data" using assms(5) by simp
  then have t0: "get_type (data ! 0) = t" using t by (auto simp: block_types_def)
  obtain d where d: "bitmap_of data d" by (rule bitmap_exists)
  let ?oarc1 = "save_pod 1 (of_nat (type_code t) :: u8) (save_pod 1 (1 :: u8) oarc)"
  have h: "oarc_contents ?oarc1 = oarc_contents oarc @ column_header t data d"
    using header_saved(2) [OF assms(7), of t 1] assms(4) by (simp add: column_header_def)
  have "typed_encode data block oarc = map_option close_block (encode_content ts data (block_start data block) ?oarc1)"
    using ts t0 t assms(2) by (simp add: typed_encode_def block_start_def del: undefined_value_iff type_code.simps)
  with column_block [OF assms(3,2,6) header_saved(1) [OF assms(7)] ts(3) _ _ assms(8) d h] t that show thesis by auto
qed

lemma find_type:
  "t \<noteq> UNDEFINED \<Longrightarrow>
   find (\<lambda>c. c \<noteq> type_code UNDEFINED) (sorted_list_of_set (type_code ` {t, UNDEFINED})) = Some (type_code t)"
  by (cases t) (simp_all add: sorted_list_of_set_insert_remove)

lemma encode_nullable:
  assumes t: "block_types data = {t, UNDEFINED}" and "t \<noteq> UNDEFINED" and "column t data" and "missing data \<noteq> 0"
    and "\<forall>f \<in> set data. flex_valid f" and "oarc_ok oarc" and "\<not> has_flag MULTIPLE_TYPE_BLOCK block"
  obtains block' oarc' bs where "typed_encode data block oarc = Some (block', oarc')" "oarc_ok oarc'"
      "oarc_contents oarc' = oarc_contents oarc @ bs" "encoded_as t data block' bs"
proof -
  obtain ts where ts: "record_types data (fixed_clear 16 (fixed_new 16)) = Some ts" "fixed_ok 16 ts"
    "words_bits ts = type_code ` block_types data"
    "fixed_popcount 16 ts = card (block_types data)" "\<And>t. fixed_get 16 (type_code t) ts = Some (t \<in> block_types data)"
    by (rule types_appeared) blast
  obtain d0 d where d: "new_bitmap (length data) = Some d0" "mark_undefined 0 data d0 = Some d" "bitmap_of data d"
    unfolding bitmap_of_def by (rule bitmap_written [of data]) blast
  have f: "fixed_enumerate 16 ts = Some (sorted_list_of_set (type_code ` {t, UNDEFINED}))"
    using fixed_enumerate_ok [OF ts(2)] ts(3) t by simp
  have n: "card (block_types data) = 2" using t assms(2) by simp
  define oarc1 where "oarc1 = oarc_write (concat (map (le_bytes 8) (db_array d)))
    (save_pod 1 (of_nat (type_code t) :: u8) (save_pod 1 (2 :: u8) oarc))"
  have h: "oarc_ok oarc1" "oarc_contents oarc1 = oarc_contents oarc @ column_header t data d"
    using header_saved [OF assms(6), of t 2] assms(4) by (simp_all add: oarc1_def codec column_header_def)
  have "typed_encode data block oarc = map_option close_block (encode_content ts data (block_start data block) oarc1)"
    using ts(1,4,5) f find_type [OF assms(2)] n t d(1,2)
    by (simp add: typed_encode_def block_start_def oarc1_def del: undefined_value_iff image_insert type_code.simps)
  with column_block [OF assms(3,2,5) h(1) ts(5) _ _ assms(7) d(3) h(2)] t that show thesis by auto
qed

lemma encode_mixed:
  assumes "card (block_types data) \<ge> 2" and "\<not> (card (block_types data) = 2 \<and> UNDEFINED \<in> block_types data)"
    and "\<forall>f \<in> set data. flex_valid f" and "oarc_ok oarc"
  obtains block' oarc' k where "typed_encode data block oarc = Some (block', oarc')" "oarc_ok oarc'"
    "oarc_contents oarc' = oarc_contents oarc @ k # vector_img flex_img data"
    "has_flag IS_FLEXIBLE_TYPE block'" "has_flag MULTIPLE_TYPE_BLOCK block'" "num_elem block' = of_nat (length data)"
proof -
  obtain ts where ts: "record_types data (fixed_clear 16 (fixed_new 16)) = Some ts"
    "fixed_popcount 16 ts = card (block_types data)" "\<And>t. fixed_get 16 (type_code t) ts = Some (t \<in> block_types data)"
    by (rule types_appeared) blast
  let ?k = "of_nat (card (block_types data)) :: u8"
  let ?oarc = "save_vector flex_save data (save_pod 1 ?k oarc)"
  let ?block = "(block_start data block)\<lparr>flags := flags (block_start data block) OR MULTIPLE_TYPE_BLOCK, block_size := of_nat (o_off ?oarc)\<rparr>"
  have k: "?k \<noteq> 0" "?k \<noteq> 1" "\<not> (?k = 2 \<and> UNDEFINED \<in> block_types data)"
    using assms(1,2) num_types_byte [of 0 data] num_types_byte [of 1 data] num_types_byte [of 2 data] by auto
  have "typed_encode data block oarc = Some (?block, ?oarc)"
    using ts k unfolding typed_encode_def by (auto simp add: close_block_def block_start_def Let_def simp del: type_code.simps)
  moreover have "oarc_ok ?oarc" "oarc_contents ?oarc = oarc_contents oarc @ ?k # vector_img flex_img data"
    using save_flag [OF assms(4), of ?k] flex_vector_ser.save_ok flex_vector_ser.save_contents by simp_all
  moreover have "has_flag IS_FLEXIBLE_TYPE ?block" "has_flag MULTIPLE_TYPE_BLOCK ?block"
    by (simp_all add: block_start_def or_flag) (simp_all add: has_flag_def block_flags)
  ultimately show thesis using that by (auto simp: block_start_def)
qed

section \<open>Decoding a column\<close>

lemma missing_0: "missing data = 0 \<longleftrightarrow> Flex_undefined \<notin> set data"
  by (auto simp: missing_card undefined_positions_def in_set_conv_nth)

lemma slots_full: "missing data = 0 \<Longrightarrow> slots t data = replicate (length data) (flex_reset t)"
  by (induction data) (auto simp: missing_0)

lemma length_resize_list [simp]: "length (resize_list n x xs) = n"
  by (simp add: resize_list_def)

lemma reset_all: "map (\<lambda>_. v) (resize_list n x xs) = replicate n v"
  by (simp add: map_replicate_const)

lemma bitmap_of_facts:
  assumes "bitmap_of data d"
  shows "db_ok d" "db_len d = length data" "db_bits d = undefined_positions data"
    "db_enumerate d = Some (sorted_list_of_set (undefined_positions data))" "db_popcount d = missing data"
    "i < length data \<Longrightarrow> db_get i d = Some (data ! i = Flex_undefined)"
  using assms dense.get_bit [of d i]
  by (simp_all add: bitmap_of_def db_enumerate_ok db_popcount_card missing_card) (simp add: undefined_positions_def)

lemma header_loaded:
  assumes "bs = [k, of_nat (type_code t)] @ r"
  shows "load_pod 1 (iarchive_new bs len) = Some (k :: u8, iarc_skip 1 (iarchive_new bs len))"
    "load_pod 1 (iarc_skip 1 (iarchive_new bs len)) = Some (of_nat (type_code t) :: u8, iarc_skip 2 (iarchive_new bs len))"
  using load_flag [of "iarchive_new bs len" k] load_flag [of "iarc_skip 1 (iarchive_new bs len)" "of_nat (type_code t)" r] assms
  by (simp_all add: numeral_2_eq_2)

lemma typed_decode_column:
  assumes "encoded_as t data info bs" and "t \<noteq> UNDEFINED" and "length data < 2 ^ 64"
  shows "typed_decode info (bs @ r) len ret = Some (True, stored data)"
proof -
  obtain d code where e: "bitmap_of data d" "bs = column_header t data d @ code" "column_decodes info t data code"
      "has_flag IS_FLEXIBLE_TYPE info" "\<not> has_flag MULTIPLE_TYPE_BLOCK info" "num_elem info = of_nat (length data)"
    using assms(1) by (auto simp: encoded_as_def)
  have n: "unat (num_elem info) = length data" using e(6) assms(3) by (simp add: unat_of_size)
  let ?b = "iarchive_new (bs @ r) len"
  show ?thesis
  proof (cases "missing data = 0")
    case True
    with e(2) have bs: "bs @ r = [1, of_nat (type_code t)] @ code @ r" by (simp add: column_header_def)
    have "iarc_rest (iarc_skip 2 ?b) = code @ r" using bs by simp
    with e(3) have "decode_content info t (iarc_skip 2 ?b) (slots t data) (missing data)
        = Some (stored data, iarc_skip (length code) (iarc_skip 2 ?b))" unfolding column_decodes_def by blast
    then have "decode_content info t (iarc_skip 2 ?b) (replicate (length data) (flex_reset t)) 0
        = Some (stored data, iarc_skip (length code) (iarc_skip 2 ?b))" by (simp add: slots_full True)
    with header_loaded [OF bs, of len] e(4,5) n assms(2) show ?thesis
      by (simp add: typed_decode_def reset_all)
  next
    case False
    with e(2) have bs: "bs @ r = [2, of_nat (type_code t)] @ concat (map (le_bytes 8) (db_array d)) @ code @ r"
      by (simp add: column_header_def)
    let ?b2 = "iarc_skip (8 * db_arrlen d) (iarc_skip 2 ?b)"
    have "read_bitmap (db_len d) (iarc_skip 2 ?b) = Some (d, ?b2)"
      using bs bitmap_of_facts(1) [OF e(1)] by (intro read_bitmap_ok [where r = "code @ r"]) simp_all
    then have bm: "read_bitmap (length data) (iarc_skip 2 ?b) = Some (d, ?b2)"
      using bitmap_of_facts(2) [OF e(1)] by simp
    have "iarc_rest ?b2 = code @ r" using bs by simp
    with e(3) have "decode_content info t ?b2 (slots t data) (missing data)
        = Some (stored data, iarc_skip (length code) ?b2)" unfolding column_decodes_def by blast
    with header_loaded [OF bs, of len] bm e(4,5) n undefine_slots [of data t] bitmap_of_facts(4,5) [OF e(1)] show ?thesis
      by (simp add: typed_decode_def reset_all)
  qed
qed

section \<open>Decoding a column as a stream\<close>

abbreviation leading_undefined :: "flexible_type list \<Rightarrow> flexible_type list" where
  "leading_undefined data \<equiv> takeWhile (\<lambda>f. f = Flex_undefined) data"

lemma skip_undefined_ok:
  assumes "bitmap_of data d"
  shows "i \<le> length data \<Longrightarrow> skip_undefined (length data) d i = Some (i + length (leading_undefined (drop i data)))"
proof (induction "length data - i" arbitrary: i)
  case 0
  then show ?case by (subst skip_undefined.simps) simp
next
  case (Suc n)
  then have i: "i < length data" by linarith
  then have "drop i data = data ! i # drop (Suc i) data" by (simp add: Cons_nth_drop_Suc)
  with Suc.hyps(1) [of "Suc i"] Suc.hyps(2) i bitmap_of_facts(6) [OF assms i] show ?case
    by (subst skip_undefined.simps) auto
qed

lemma leading_undefined_replicate: "replicate (length (leading_undefined data)) Flex_undefined = leading_undefined data"
  by (rule replicate_eqI [symmetric]) (auto dest: set_takeWhileD)

lemma emit_undefined_ok:
  assumes "bitmap_of data d" and "i \<le> length data" and "k \<noteq> 0"
  shows "emit_undefined (length data) k d i
    = Some (leading_undefined (drop i data), i + length (leading_undefined (drop i data)))"
  using assms by (simp add: emit_undefined_def skip_undefined_ok leading_undefined_replicate)

lemma present_step:
  assumes "present data \<noteq> []"
  defines "k \<equiv> length (leading_undefined data)"
  shows "present data = data ! k # present (drop (Suc k) data)" "k < length data"
    "data = leading_undefined data @ data ! k # drop (Suc k) data"
proof -
  have "present data = data ! k # present (drop (Suc k) data) \<and> k < length data"
    unfolding k_def using assms(1) by (induction data) auto
  then show "present data = data ! k # present (drop (Suc k) data)" and k: "k < length data" by simp_all
  have "data = take k data @ drop k data" by simp
  moreover have "take k data = leading_undefined data" unfolding k_def by (metis append_eq_conv_conj takeWhile_dropWhile_id)
  ultimately show "data = leading_undefined data @ data ! k # drop (Suc k) data"
    using k by (metis Cons_nth_drop_Suc)
qed

lemma feed_ok:
  assumes "bitmap_of data d" and "k \<noteq> 0"
  shows "i \<le> length data \<Longrightarrow> \<exists>out j. feed (length data) k d (present (drop i data)) i = Some (out, j)
     \<and> j \<le> length data \<and> out @ drop j data = drop i data \<and> present (drop j data) = []"
proof (induction "length data - i" arbitrary: i rule: less_induct)
  case less
  show ?case
  proof (cases "present (drop i data) = []")
    case True
    with less.prems show ?thesis by simp
  next
    case False
    define m where "m = length (leading_undefined (drop i data))"
    note s = present_step [OF False, folded m_def]
    have m: "i + m < length data" using s(2) by simp
    then have "length data - Suc (i + m) < length data - i" "Suc (i + m) \<le> length data" by linarith+
    from less.hyps [OF this] obtain out j where
      IH: "feed (length data) k d (present (drop (Suc (i + m)) data)) (Suc (i + m)) = Some (out, j)"
        "j \<le> length data" "out @ drop j data = drop (Suc (i + m)) data" "present (drop j data) = []" by blast
    have e: "emit_undefined (length data) k d i = Some (leading_undefined (drop i data), i + m)"
      using emit_undefined_ok [OF assms(1) less.prems assms(2)] by (simp add: m_def)
    have s': "present (drop i data) = drop i data ! m # present (drop (Suc (i + m)) data)"
        "drop i data = leading_undefined (drop i data) @ drop i data ! m # drop (Suc (i + m)) data"
      using s(1,3) by (simp_all add: add.commute)
    then have "feed (length data) k d (present (drop i data)) i
        = Some (leading_undefined (drop i data) @ (drop i data ! m) # out, j)"
      using e IH(1) by simp
    with IH(2-4) s'(2) show ?thesis by (metis append.assoc append_Cons)
  qed
qed

lemma feed_0: "feed n 0 d vals i = Some (vals, i + length vals)"
  by (induction vals arbitrary: i) (simp_all add: emit_undefined_def)

lemma leading_undefined_all: "present data = [] \<Longrightarrow> leading_undefined data = data"
  by (induction data) (auto split: if_splits)

lemma stream_merge:
  assumes "bitmap_of data d" and "k = missing data"
  shows "do { (out, i) \<leftarrow> feed (length data) k d (present data) 0; (us, i) \<leftarrow> emit_undefined (length data) k d i; Some (out @ us) }
    = Some data"
proof (cases "k = 0")
  case True
  then have "present data = data" using assms(2) by (auto simp: missing_0 present_def intro!: filter_True)
  with True show ?thesis by (simp add: feed_0 emit_undefined_def)
next
  case False
  obtain out j where f: "feed (length data) k d (present data) 0 = Some (out, j)" "j \<le> length data"
      "out @ drop j data = data" "present (drop j data) = []"
    using feed_ok [OF assms(1) False, of 0] by auto
  then show ?thesis using emit_undefined_ok [OF assms(1) f(2) False] leading_undefined_all [OF f(4)] by simp
qed

lemma stream_others_values:
  assumes "t \<noteq> UNDEFINED" and "bitmap_of data d" and "k = missing data"
  shows "i \<le> length data \<Longrightarrow> stream_others t k d [i..<length data] iarc = deserialize_values (drop i (slots t data)) iarc"
proof (induction "length data - i" arbitrary: i iarc)
  case (Suc n)
  then have i: "i < length data" by linarith
  have d: "drop i (slots t data) = (if data ! i = Flex_undefined then Flex_undefined else flex_reset t) # drop (Suc i) (slots t data)"
    using i by (simp add: Cons_nth_drop_Suc [symmetric]) (simp add: slots_def)
  have u: "(if k \<noteq> 0 then db_get i d else Some False) = Some (data ! i = Flex_undefined)"
    using bitmap_of_facts(6) [OF assms(2) i] assms(3) missing_0 [of data] nth_mem [OF i] by auto
  have IH: "stream_others t k d [Suc i..<length data] b = deserialize_values (drop (Suc i) (slots t data)) b" for b
    using Suc.hyps(1) [of "Suc i" b] Suc.hyps(2) i by linarith
  show ?case using i u assms(1) unfolding d upt_conv_Cons [OF i]
    by (cases "data ! i = Flex_undefined") (simp_all add: IH)
qed simp

lemma undefined_positions_stored [simp]: "undefined_positions (stored data) = undefined_positions data"
  by (auto simp: undefined_positions_def stored_def)

lemma bitmap_of_stored [simp]: "bitmap_of (stored data) d = bitmap_of data d"
  by (simp add: bitmap_of_def)

lemma missing_stored [simp]: "missing (stored data) = missing data"
  by (simp add: missing_def present_stored)

lemma leading_undefined_stored: "leading_undefined (stored data) = leading_undefined data"
proof -
  have "leading_undefined (map (store_value b) data) = leading_undefined data" for b
    by (induction data) auto
  then show ?thesis by (simp add: stored_def)
qed

text \<open>
  The streamed values of a column. For the types without a stream decoder, the leading undefined
  values are reported a second time at the end.
\<close>

definition repeated :: "flex_type_enum \<Rightarrow> flexible_type list \<Rightarrow> flexible_type list" where
  "repeated t data = (if t \<in> {INTEGER, FLOAT, STRING, VECTOR} then [] else leading_undefined data)"

lemma stream_content_ok:
  assumes "bitmap_of data d" and "t \<noteq> UNDEFINED" and "column_decodes info t data code" and "iarc_rest iarc = code @ r"
  shows "stream_content info t (length data) (missing data) d iarc = Some (stored data @ repeated t data)"
proof (cases "t \<in> {INTEGER, FLOAT, STRING, VECTOR}")
  case True
  then have "content_stream info t (length (present data)) iarc = Some (present (stored data), iarc_skip (length code) iarc)"
    using assms(3,4) unfolding column_decodes_def by blast
  moreover have "length data - missing data = length (present data)" by simp
  ultimately show ?thesis
    using stream_merge [of "stored data" d "missing data"] True assms(1)
    by (simp add: stream_content_def repeated_def del: length_minus_missing split: Option.bind_splits)
next
  case False
  then have "deserialize_values (slots t data) iarc = Some (stored data, iarc_skip (length code) iarc)"
    using assms(3,4) unfolding column_decodes_def decode_content_def by auto
  then have s: "stream_others t (missing data) d [0..<length data] iarc = Some (stored data, iarc_skip (length code) iarc)"
    using stream_others_values [OF assms(2,1) refl, of 0 iarc] by simp
  have "emit_undefined (length data) (missing data) d 0 = Some (leading_undefined data, length (leading_undefined data))"
    if "missing data \<noteq> 0"
    using emit_undefined_ok [OF assms(1) _ that, of 0] by simp
  moreover have "leading_undefined data = []" if "missing data = 0"
    using that unfolding missing_0 by (cases data) auto
  moreover have "emit_undefined (length data) 0 d 0 = Some ([], 0)" by (simp add: emit_undefined_def)
  ultimately show ?thesis using s False
    by (cases "missing data = 0") (simp_all add: stream_content_def repeated_def)
qed

lemma stream_content_0: "stream_content info t n 0 x iarc = stream_content info t n 0 y iarc"
proof -
  have "stream_others t 0 x is b = stream_others t 0 y is b" for "is" b
    by (induction "is" arbitrary: b) simp_all
  then have s: "stream_others t 0 x = stream_others t 0 y" by (simp add: fun_eq_iff)
  show ?thesis by (simp add: stream_content_def feed_0 emit_undefined_def s)
qed

lemma typed_stream_column:
  assumes "encoded_as t data info bs" and "t \<noteq> UNDEFINED" and "length data < 2 ^ 64"
  shows "typed_decode_stream_callback info (bs @ r) len = Some (True, stored data @ repeated t data)"
proof -
  obtain d code where e: "bitmap_of data d" "bs = column_header t data d @ code" "column_decodes info t data code"
      "has_flag IS_FLEXIBLE_TYPE info" "\<not> has_flag MULTIPLE_TYPE_BLOCK info" "num_elem info = of_nat (length data)"
    using assms(1) by (auto simp: encoded_as_def)
  have n: "unat (num_elem info) = length data" using e(6) assms(3) by (simp add: unat_of_size)
  let ?b = "iarchive_new (bs @ r) len"
  show ?thesis
  proof (cases "missing data = 0")
    case True
    with e(2) have bs: "bs @ r = [1, of_nat (type_code t)] @ code @ r" by (simp add: column_header_def)
    have "stream_content info t (length data) (missing data) d (iarc_skip 2 ?b) = Some (stored data @ repeated t data)"
      using bs by (intro stream_content_ok [OF e(1) assms(2) e(3), where r = r]) simp
    with stream_content_0 [of info t "length data" d "iarc_skip 2 ?b" db_new] show ?thesis using header_loaded [OF bs, of len] True e(4,5) n assms(2)
      by (simp add: typed_decode_stream_callback_def)
  next
    case False
    with e(2) have bs: "bs @ r = [2, of_nat (type_code t)] @ concat (map (le_bytes 8) (db_array d)) @ code @ r"
      by (simp add: column_header_def)
    let ?b2 = "iarc_skip (8 * db_arrlen d) (iarc_skip 2 ?b)"
    have "read_bitmap (db_len d) (iarc_skip 2 ?b) = Some (d, ?b2)"
      using bs bitmap_of_facts(1) [OF e(1)] by (intro read_bitmap_ok [where r = "code @ r"]) simp_all
    then have bm: "read_bitmap (length data) (iarc_skip 2 ?b) = Some (d, ?b2)"
      using bitmap_of_facts(2) [OF e(1)] by simp
    have "stream_content info t (length data) (missing data) d ?b2 = Some (stored data @ repeated t data)"
      using bs by (intro stream_content_ok [OF e(1) assms(2) e(3), where r = r]) simp
    with header_loaded [OF bs, of len] bm e(4,5) n bitmap_of_facts(5) [OF e(1)] show ?thesis
      by (simp add: typed_decode_stream_callback_def)
  qed
qed

section \<open>Whole blocks\<close>

text \<open>Equal, up to the sign of a zero in a float or a vector.\<close>

definition dbl_same :: "f64 \<Rightarrow> f64 \<Rightarrow> bool" where
  "dbl_same x y \<longleftrightarrow> x = y \<or> (take_bit 63 x = 0 \<and> take_bit 63 y = 0)"

fun flex_same :: "flexible_type \<Rightarrow> flexible_type \<Rightarrow> bool" where
  "flex_same (Flex_float x) (Flex_float y) \<longleftrightarrow> dbl_same x y"
| "flex_same (Flex_vec v) (Flex_vec w) \<longleftrightarrow> list_all2 dbl_same v w"
| "flex_same f g \<longleftrightarrow> f = g"

lemma flex_same_refl [simp]: "flex_same f f"
  by (cases f) (simp_all add: dbl_same_def list_all2_refl)

lemma store_double_same: "integral vs \<Longrightarrow> v \<in> set vs \<Longrightarrow> dbl_same v (store_double True v)"
  using dbl_eq_pattern [of "int_to_double (double_to_int v)" v] by (auto simp: integral_def store_double_def dbl_same_def)

lemma stored_same: "list_all2 flex_same data (stored data)"
proof -
  have same: "dbl_same v (store_double (block_integral data) v)" if "f \<in> set data" "v \<in> set (doubles_in f)" for f v
  proof (cases "block_integral data")
    case True
    then have "dbl_same v (store_double True v)"
      using store_double_same [of "concat (map doubles_in data)" v] that by (auto simp: block_integral_def)
    with True show ?thesis by simp
  qed (simp add: store_double_def dbl_same_def)
  have "flex_same f (store_value (block_integral data) f)" if "f \<in> set data" for f
    using same [OF that] by (cases f) (auto simp: list_all2_conv_all_nth)
  then show ?thesis unfolding stored_def by (simp add: list_all2_conv_all_nth)
qed

definition mixed_block :: "flexible_type list \<Rightarrow> bool" where
  "mixed_block data \<longleftrightarrow> card (block_types data) \<ge> 2 \<and> \<not> (card (block_types data) = 2 \<and> UNDEFINED \<in> block_types data)"

definition block_value :: "flexible_type list \<Rightarrow> flexible_type list" where
  "block_value data = (if mixed_block data then data else stored data)"

definition block_repeats :: "flexible_type list \<Rightarrow> flexible_type list" where
  "block_repeats data =
     (if \<exists>t \<in> {LIST, DICT, DATETIME, IMAGE}. block_types data = {t, UNDEFINED} then leading_undefined data else [])"

lemma all_undefined: "data = [] \<or> block_types data = {UNDEFINED} \<Longrightarrow> f \<in> set data \<Longrightarrow> f = Flex_undefined"
  unfolding block_types_def by (metis empty_iff imageI list.set(1) singletonD undefined_value_iff)

lemma encode_trivial:
  assumes "data = [] \<or> block_types data = {UNDEFINED}" and "oarc_ok oarc" and "\<not> has_flag MULTIPLE_TYPE_BLOCK block"
  obtains block' oarc' where "typed_encode data block oarc = Some (block', oarc')" "oarc_ok oarc'"
    "oarc_contents oarc' = oarc_contents oarc @ (if data = [] then [0] else [1, of_nat (type_code UNDEFINED)])"
    "has_flag IS_FLEXIBLE_TYPE block'" "\<not> has_flag MULTIPLE_TYPE_BLOCK block'" "num_elem block' = of_nat (length data)"
proof -
  obtain ts where ts: "record_types data (fixed_clear 16 (fixed_new 16)) = Some ts"
    "fixed_popcount 16 ts = card (block_types data)" "\<And>t. fixed_get 16 (type_code t) ts = Some (t \<in> block_types data)"
    by (rule types_appeared) blast
  note b = block_start_flags [OF assms(3), of data]
  define oarc1 where "oarc1 = (if data = [] then save_pod 1 (0 :: u8) oarc
    else save_pod 1 (of_nat (type_code UNDEFINED) :: u8) (save_pod 1 (1 :: u8) oarc))"
  have o: "oarc_ok oarc1" "oarc_contents oarc1 = oarc_contents oarc @ (if data = [] then [0] else [1, of_nat (type_code UNDEFINED)])"
    using save_flag [OF assms(2), of 0] header_saved [OF assms(2), of UNDEFINED 1] by (simp_all add: oarc1_def)
  have "data \<noteq> [] \<Longrightarrow> get_type (data ! 0) = UNDEFINED"
    using all_undefined [OF assms(1) nth_mem] by simp
  then have "typed_encode data block oarc = Some (close_block (block_start data block, oarc1))"
    using ts assms(1) by (auto simp: typed_encode_def block_start_def oarc1_def block_types_def simp del: type_code.simps)
  with that o b show thesis by (simp add: close_block_def)
qed

lemma decode_trivial:
  assumes "data = [] \<or> block_types data = {UNDEFINED}" and "length data < 2 ^ 64"
    and "bs = (if data = [] then [0] else [1, of_nat (type_code UNDEFINED)])"
    and "has_flag IS_FLEXIBLE_TYPE info" "\<not> has_flag MULTIPLE_TYPE_BLOCK info" "num_elem info = of_nat (length data)"
  shows "typed_decode info (bs @ r) len ret = Some (True, data)"
    and "typed_decode_stream_callback info (bs @ r) len = Some (True, data)"
proof -
  have n: "unat (num_elem info) = length data" using assms(2,6) by (simp add: unat_of_size)
  have undef: "replicate (length data) Flex_undefined = data"
    using all_undefined [OF assms(1)] by (intro replicate_eqI [symmetric]) auto
  have "typed_decode info (bs @ r) len ret = Some (True, data) \<and> typed_decode_stream_callback info (bs @ r) len = Some (True, data)"
  proof (cases "data = []")
    case True
    have "load_pod 1 (iarchive_new (0 # r) len) = Some (0 :: u8, iarc_skip 1 (iarchive_new (0 # r) len))" by (rule load_flag) simp
    with True n assms(3-5) show ?thesis
      by (simp add: typed_decode_def typed_decode_stream_callback_def resize_list_def)
  next
    case False
    with assms(3) have bs: "bs @ r = [1, of_nat (type_code UNDEFINED)] @ r" by simp
    show ?thesis
      using header_loaded [OF bs, of len] n undef assms(4,5) unfolding typed_decode_def typed_decode_stream_callback_def
      by (simp add: reset_all del: type_code.simps)
  qed
  then show "typed_decode info (bs @ r) len ret = Some (True, data)"
    "typed_decode_stream_callback info (bs @ r) len = Some (True, data)" by simp_all
qed

lemma decode_mixed:
  assumes "\<forall>f \<in> set data. flex_valid f" and "length data < 2 ^ 64" and "has_flag IS_FLEXIBLE_TYPE info"
    and "has_flag MULTIPLE_TYPE_BLOCK info" and "num_elem info = of_nat (length data)"
  shows "typed_decode info ((k # vector_img flex_img data) @ r) len ret = Some (True, data)"
    and "typed_decode_stream_callback info ((k # vector_img flex_img data) @ r) len = Some (True, data)"
proof -
  let ?b = "iarchive_new ((k # vector_img flex_img data) @ r) len"
  have "load_pod 1 ?b = Some (k, iarc_skip 1 ?b)" by (rule load_flag) simp
  moreover have "load_vector flex_load (iarc_skip 1 ?b) = Some (data, iarc_skip (length (vector_img flex_img data)) (iarc_skip 1 ?b))"
    using assms(1,2) by (intro flex_vector_ser.load_img [where r = r]) simp_all
  moreover have "unat (num_elem info) = length data" using assms(2,5) by (simp add: unat_of_size)
  ultimately show "typed_decode info ((k # vector_img flex_img data) @ r) len ret = Some (True, data)"
    and "typed_decode_stream_callback info ((k # vector_img flex_img data) @ r) len = Some (True, data)"
    using assms(3,4) by (simp_all add: typed_decode_def typed_decode_stream_callback_def)
qed

lemma typed_block:
  assumes "\<forall>f \<in> set data. flex_valid f" and "length data < 2 ^ 64" and "oarc_ok oarc" and "\<not> has_flag MULTIPLE_TYPE_BLOCK block"
  obtains block' oarc' bs where "typed_encode data block oarc = Some (block', oarc')" "oarc_ok oarc'"
    "oarc_contents oarc' = oarc_contents oarc @ bs"
    "\<And>r len ret. typed_decode block' (bs @ r) len ret = Some (True, block_value data)"
    "\<And>r len. typed_decode_stream_callback block' (bs @ r) len = Some (True, block_value data @ block_repeats data)"
proof -
  note found = that
  have trivial: thesis if t: "data = [] \<or> block_types data = {UNDEFINED}"
  proof -
    have "stored data = data"
      using all_undefined [OF t] by (intro stored_plain [of UNDEFINED]) (auto simp: column_def list_all_iff)
    moreover have "\<not> mixed_block data" "block_repeats data = []"
      using t by (auto simp: mixed_block_def block_repeats_def block_types_def)
    ultimately have v: "block_value data = data" "block_repeats data = []" by (simp_all add: block_value_def)
    obtain block' oarc' where e: "typed_encode data block oarc = Some (block', oarc')" "oarc_ok oarc'"
      "oarc_contents oarc' = oarc_contents oarc @ (if data = [] then [0] else [1, of_nat (type_code UNDEFINED)])"
      "has_flag IS_FLEXIBLE_TYPE block'" "\<not> has_flag MULTIPLE_TYPE_BLOCK block'" "num_elem block' = of_nat (length data)"
      by (rule encode_trivial [OF t assms(3,4)])
    from found [OF e(1-3)] decode_trivial [OF t assms(2) refl e(4-6)] show thesis by (simp add: v)
  qed
  have col: thesis if e: "typed_encode data block oarc = Some (block', oarc')" "oarc_ok oarc'"
      "oarc_contents oarc' = oarc_contents oarc @ bs" "encoded_as t data block' bs"
    and t: "t \<noteq> UNDEFINED" "block_types data = {t} \<and> missing data = 0 \<or> block_types data = {t, UNDEFINED}" for t block' oarc' bs
  proof -
    have "card (block_types data) = 1 \<or> card (block_types data) = 2 \<and> UNDEFINED \<in> block_types data"
      using t(2) by (rule disjE) (simp_all add: t(1))
    then have "\<not> mixed_block data" unfolding mixed_block_def by linarith
    moreover have "block_repeats data = repeated t data"
    proof (cases "missing data = 0")
      case True
      then have "leading_undefined data = []" unfolding missing_0 by (cases data) auto
      then show ?thesis by (simp add: block_repeats_def repeated_def)
    next
      case False
      with t(2) have "block_types data = {t, UNDEFINED}" by blast
      then have "(\<exists>u \<in> {LIST, DICT, DATETIME, IMAGE}. block_types data = {u, UNDEFINED}) \<longleftrightarrow> t \<in> {LIST, DICT, DATETIME, IMAGE}"
        using t(1) by (auto simp: doubleton_eq_iff)
      moreover have "t \<in> {INTEGER, FLOAT, STRING, VECTOR} \<longleftrightarrow> t \<notin> {LIST, DICT, DATETIME, IMAGE}"
        using t(1) by (cases t) simp_all
      ultimately show ?thesis unfolding block_repeats_def repeated_def by presburger
    qed
    ultimately show thesis
      using typed_decode_column [OF e(4) t(1) assms(2)] typed_stream_column [OF e(4) t(1) assms(2)] found [OF e(1-3)]
      by (simp add: block_value_def)
  qed
  show thesis
  proof (cases data rule: block_cases)
    case empty
    then show thesis by (intro trivial) simp
  next
    case undefined
    then show thesis by (intro trivial) simp
  next
    case (single t)
    show thesis by (rule encode_single [OF single assms(1,3,4)]) (erule (3) col; use single in simp)
  next
    case (nullable t)
    show thesis by (rule encode_nullable [OF nullable assms(1,3,4)]) (erule (3) col; use nullable in simp)
  next
    case mixed
    obtain block' oarc' k where m: "typed_encode data block oarc = Some (block', oarc')" "oarc_ok oarc'"
      "oarc_contents oarc' = oarc_contents oarc @ k # vector_img flex_img data"
      "has_flag IS_FLEXIBLE_TYPE block'" "has_flag MULTIPLE_TYPE_BLOCK block'" "num_elem block' = of_nat (length data)"
      by (rule encode_mixed [OF mixed assms(1,3)])
    have "card {t, UNDEFINED} \<le> 2" for t by (simp add: card_insert_if)
    then have "block_repeats data = []" using mixed by (auto simp: block_repeats_def)
    with m that decode_mixed [OF assms(1,2) m(4-6)] mixed show thesis by (simp add: block_value_def mixed_block_def)
  qed
qed

section \<open>Properties\<close>







end
