(* ===== verification/String_Escape.thy ===== *)
theory String_Escape
  imports Prelude
begin

text \<open>
  The escaping of strings in \<open>flexible_type/string_escape.cpp\<close>, used by the CSV reader and writer.
  Characters are bytes. \<open>escape_string\<close> writes to a caller's buffer; \<open>unescape_string\<close> rewrites its
  buffer in place, and is shown to compute the function \<open>unescape\<close> on lists of bytes.
\<close>

section \<open>Characters\<close>

definition SINGLE_QUOTE :: u8 where "SINGLE_QUOTE = 39"
definition DOUBLE_QUOTE :: u8 where "DOUBLE_QUOTE = 34"
definition BACKSLASH :: u8 where "BACKSLASH = 92"
definition TAB :: u8 where "TAB = 9"
definition BACKSPACE :: u8 where "BACKSPACE = 8"
definition CARRIAGE_RETURN :: u8 where "CARRIAGE_RETURN = 13"
definition NEWLINE :: u8 where "NEWLINE = 10"
definition SLASH :: u8 where "SLASH = 47"
definition LOWER_B :: u8 where "LOWER_B = 98"
definition LOWER_N :: u8 where "LOWER_N = 110"
definition LOWER_R :: u8 where "LOWER_R = 114"
definition LOWER_T :: u8 where "LOWER_T = 116"
definition LOWER_U :: u8 where "LOWER_U = 117"
definition LOWER_X :: u8 where "LOWER_X = 120"

lemmas characters = SINGLE_QUOTE_def DOUBLE_QUOTE_def BACKSLASH_def TAB_def BACKSPACE_def CARRIAGE_RETURN_def
  NEWLINE_def SLASH_def LOWER_B_def LOWER_N_def LOWER_R_def LOWER_T_def LOWER_U_def LOWER_X_def

section \<open>Escaping\<close>

text \<open>What the loop with escapes writes for the character \<open>c\<close> in front of the characters \<open>cs\<close>.\<close>

definition escape_character :: "u8 \<Rightarrow> u8 \<Rightarrow> bool \<Rightarrow> bool \<Rightarrow> u8 \<Rightarrow> bytes \<Rightarrow> bytes" where
  "escape_character escape_char quote_char use_quote_char double_quote c cs =
     (if c = SINGLE_QUOTE \<or> c = DOUBLE_QUOTE then
        (if double_quote \<and> quote_char = c then [c, c]
         else if use_quote_char \<and> quote_char = c then [escape_char, c]
         else [c])
      else if c = BACKSLASH then
        (if cs \<noteq> [] \<and> (hd cs = LOWER_U \<or> hd cs = LOWER_X) then [c] else [escape_char, BACKSLASH])
      else if c = TAB then [escape_char, LOWER_T]
      else if c = BACKSPACE then [escape_char, LOWER_B]
      else if c = CARRIAGE_RETURN then [escape_char, LOWER_R]
      else if c = NEWLINE then [escape_char, LOWER_N]
      else if c = 0 then [escape_char, 0]
      else [c])"

fun escape_characters :: "u8 \<Rightarrow> u8 \<Rightarrow> bool \<Rightarrow> bool \<Rightarrow> bytes \<Rightarrow> bytes" where
  "escape_characters escape_char quote_char use_quote_char double_quote [] = []"
| "escape_characters escape_char quote_char use_quote_char double_quote (c # cs) =
     escape_character escape_char quote_char use_quote_char double_quote c cs
       @ escape_characters escape_char quote_char use_quote_char double_quote cs"

text \<open>The loop without escapes. A double quote is doubled whatever the quote character is.\<close>

definition double_character :: "u8 \<Rightarrow> bool \<Rightarrow> u8 \<Rightarrow> bytes" where
  "double_character quote_char double_quote c =
     (if c = SINGLE_QUOTE then (if double_quote \<and> quote_char = SINGLE_QUOTE then [c, c] else [c])
      else if c = DOUBLE_QUOTE then (if double_quote then [c, c] else [c])
      else [c])"

definition escaped_text :: "bytes \<Rightarrow> u8 \<Rightarrow> bool \<Rightarrow> u8 \<Rightarrow> bool \<Rightarrow> bool \<Rightarrow> bytes" where
  "escaped_text val escape_char use_escape_char quote_char use_quote_char double_quote =
     (let quote = (if use_quote_char then [quote_char] else [])
      in quote
         @ (if use_escape_char then escape_characters escape_char quote_char use_quote_char double_quote val
            else concat (map (double_character quote_char double_quote) val))
         @ quote)"

text \<open>\<open>None\<close>: the text does not fit the buffer.\<close>

definition escape_string :: "bytes \<Rightarrow> u8 \<Rightarrow> bool \<Rightarrow> u8 \<Rightarrow> bool \<Rightarrow> bool \<Rightarrow> bytes \<Rightarrow> (bytes \<times> nat) option" where
  "escape_string val escape_char use_escape_char quote_char use_quote_char double_quote output =
     (let output = output @ replicate (2 + 2 * length val - length output) 0;
          text = escaped_text val escape_char use_escape_char quote_char use_quote_char double_quote
      in if length text \<le> length output then Some (overwrite 0 text output, length text) else None)"

section \<open>Unescaping\<close>

definition hex_to_val :: "u8 \<Rightarrow> nat option" where
  "hex_to_val c =
     (if 48 \<le> c \<and> c \<le> 57 then Some (unat c - 48)
      else if 97 \<le> c \<and> c \<le> 102 then Some (10 + unat c - 97)
      else if 65 \<le> c \<and> c \<le> 70 then Some (10 + unat c - 65)
      else None)"

fun parse_hex_digits :: "nat \<Rightarrow> bytes \<Rightarrow> nat \<Rightarrow> nat option" where
  "parse_hex_digits 0 cs ret = Some ret"
| "parse_hex_digits (Suc n) [] ret = None"
| "parse_hex_digits (Suc n) (c # cs) ret =
     (case hex_to_val c of None \<Rightarrow> None | Some v \<Rightarrow> parse_hex_digits n cs (ret * 16 + v))"

definition parse_hex_block :: "bytes \<Rightarrow> nat option" where
  "parse_hex_block cs = parse_hex_digits 4 cs 0"

definition write_utf8 :: "nat \<Rightarrow> bytes" where
  "write_utf8 code_point =
     (if code_point < 0x80 then [of_nat code_point]
      else if code_point \<le> 0x7FF then
        [of_nat (code_point div 2 ^ 6 + 0xC0), of_nat (code_point mod 2 ^ 6 + 0x80)]
      else if code_point \<le> 0xFFFF then
        [of_nat (code_point div 2 ^ 12 + 0xE0), of_nat (code_point div 2 ^ 6 mod 2 ^ 6 + 0x80),
         of_nat (code_point mod 2 ^ 6 + 0x80)]
      else if code_point \<le> 0x10FFFF then
        [of_nat (code_point div 2 ^ 18 + 0xF0), of_nat (code_point div 2 ^ 12 mod 2 ^ 6 + 0x80),
         of_nat (code_point div 2 ^ 6 mod 2 ^ 6 + 0x80), of_nat (code_point mod 2 ^ 6 + 0x80)]
      else [])"

text \<open>
  The case of \<open>\u\<close>: the code point and the length of the block, when the block is good. \<open>s\<close> is the
  input from the escape character on.
\<close>

definition unicode_block :: "u8 \<Rightarrow> bytes \<Rightarrow> (nat \<times> nat) option" where
  "unicode_block escape_char s =
     (if 6 \<le> length s then
        case parse_hex_block (drop 2 s) of
          None \<Rightarrow> None
        | Some unicode_val \<Rightarrow>
            if 0xD800 \<le> unicode_val \<and> unicode_val \<le> 0xD8FF then
              if 12 \<le> length s \<and> s ! 6 = escape_char \<and> s ! 7 = LOWER_U then
                (case parse_hex_block (drop 8 s) of
                   None \<Rightarrow> None
                 | Some low \<Rightarrow>
                     if 0xDC00 \<le> low \<and> low \<le> 0xDFFF
                     then Some ((unicode_val - 0xD800) * 2 ^ 10 + (low - 0xDC00) + 0x10000, 12) else None)
              else None
            else Some (unicode_val, 6)
      else None)"

text \<open>
  One iteration on the non-empty input \<open>s\<close>: the bytes written and the number of characters read.
\<close>

definition unescape_token :: "u8 \<Rightarrow> u8 \<Rightarrow> bool \<Rightarrow> bytes \<Rightarrow> bytes \<times> nat" where
  "unescape_token escape_char quote_char double_quote s =
     (if s ! 0 = escape_char \<and> 1 < length s then
        (let echar = s ! 1 in
         if echar \<in> {SINGLE_QUOTE, DOUBLE_QUOTE, BACKSLASH, SLASH} then ([echar], 2)
         else if echar = LOWER_T then ([TAB], 2)
         else if echar = LOWER_B then ([BACKSPACE], 2)
         else if echar = LOWER_R then ([CARRIAGE_RETURN], 2)
         else if echar = LOWER_N then ([NEWLINE], 2)
         else if echar = LOWER_U then
           (case unicode_block escape_char s of
              Some (unicode_val, block_length) \<Rightarrow>
                (let bytes_written = write_utf8 unicode_val in
                 if bytes_written \<noteq> [] then (bytes_written, block_length)
                 else ([s ! (block_length - 1)], block_length))
            | None \<Rightarrow> ([s ! 0], 1))
         else ([s ! 0], 1))
      else if double_quote \<and> s ! 0 = quote_char \<and> 1 < length s \<and> s ! 1 = quote_char then ([quote_char], 2)
      else ([s ! 0], 1))"

lemma unescape_token_progress: "0 < snd (unescape_token escape_char quote_char double_quote s)"
  by (auto simp: unescape_token_def unicode_block_def Let_def split: option.splits)

text \<open>
  The loop, on the buffer \<open>cal\<close>; the positions \<open>inp\<close> and \<open>out\<close> never pass \<open>len\<close>, so the test
  \<open>in != length\<close> is \<open>inp < len\<close>.
\<close>

function unescape_loop :: "u8 \<Rightarrow> u8 \<Rightarrow> bool \<Rightarrow> nat \<Rightarrow> bytes \<Rightarrow> nat \<Rightarrow> nat \<Rightarrow> bytes \<times> nat" where
  "unescape_loop escape_char quote_char double_quote len cal inp out =
     (if inp < len then
        (let (written, consumed) = unescape_token escape_char quote_char double_quote (drop inp (take len cal))
         in unescape_loop escape_char quote_char double_quote len (overwrite out written cal)
              (inp + consumed) (out + length written))
      else (cal, out))"
  by pat_completeness auto
termination
proof (relation "measure (\<lambda>(escape_char, quote_char, double_quote, len, cal, inp, out). len - inp)", goal_cases)
  case (2 escape_char quote_char double_quote len cal inp out p written consumed)
  then have "0 < consumed"
    using unescape_token_progress [of escape_char quote_char double_quote "drop inp (take len cal)"] by (metis snd_conv)
  with 2(1) show ?case by simp
qed simp

declare unescape_loop.simps [simp del]

text \<open>The buffer and the new length; then the overload on \<open>std::string\<close>.\<close>

definition unescape_string :: "bytes \<Rightarrow> nat \<Rightarrow> u8 \<Rightarrow> u8 \<Rightarrow> bool \<Rightarrow> bytes \<times> nat" where
  "unescape_string cal len escape_char quote_char double_quote =
     unescape_loop escape_char quote_char double_quote len cal 0 0"

definition unescape_std_string :: "bytes \<Rightarrow> u8 \<Rightarrow> u8 \<Rightarrow> bool \<Rightarrow> bytes" where
  "unescape_std_string cal escape_char quote_char double_quote =
     (let (cal, new_length) = unescape_string cal (length cal) escape_char quote_char double_quote
      in take new_length cal)"

section \<open>The reference function\<close>

function unescape :: "u8 \<Rightarrow> u8 \<Rightarrow> bool \<Rightarrow> bytes \<Rightarrow> bytes" where
  "unescape escape_char quote_char double_quote s =
     (if s = [] then []
      else let (written, consumed) = unescape_token escape_char quote_char double_quote s
           in written @ unescape escape_char quote_char double_quote (drop consumed s))"
  by pat_completeness auto
termination
proof (relation "measure (\<lambda>(escape_char, quote_char, double_quote, s). length s)", goal_cases)
  case (2 escape_char quote_char double_quote s p written consumed)
  then have "0 < consumed"
    using unescape_token_progress [of escape_char quote_char double_quote s] by (metis snd_conv)
  with 2(1) show ?case by simp
qed simp

declare unescape.simps [simp del]

lemma unescape_Nil [simp]: "unescape escape_char quote_char double_quote [] = []"
  by (simp add: unescape.simps)

lemma unescape_step:
  "s \<noteq> [] \<Longrightarrow> unescape_token escape_char quote_char double_quote s = (written, consumed) \<Longrightarrow>
   unescape escape_char quote_char double_quote s
     = written @ unescape escape_char quote_char double_quote (drop consumed s)"
  by (subst unescape.simps) simp

section \<open>UTF-8\<close>

text \<open>The code point of the first character of a well-formed UTF-8 text, and its length.\<close>

definition utf8_first :: "bytes \<Rightarrow> nat \<times> nat" where
  "utf8_first s =
     (let b = (\<lambda>i. unat (s ! i)) in
      if b 0 < 0x80 then (b 0, 1)
      else if b 0 < 0xE0 then ((b 0 - 0xC0) * 2 ^ 6 + (b 1 - 0x80), 2)
      else if b 0 < 0xF0 then ((b 0 - 0xE0) * 2 ^ 12 + (b 1 - 0x80) * 2 ^ 6 + (b 2 - 0x80), 3)
      else ((b 0 - 0xF0) * 2 ^ 18 + (b 1 - 0x80) * 2 ^ 12 + (b 2 - 0x80) * 2 ^ 6 + (b 3 - 0x80), 4))"

lemma unat_byte: "n < 256 \<Longrightarrow> unat (of_nat n :: u8) = n"
  by (simp add: unat_of_nat)

lemma length_write_utf8: "length (write_utf8 c) \<le> 4" "c \<le> 0xFFFF \<Longrightarrow> length (write_utf8 c) \<le> 3"
  "c \<le> 0x10FFFF \<Longrightarrow> write_utf8 c \<noteq> []"
  by (auto simp: write_utf8_def)

lemma split_6: "c div 64 * 64 + c mod 64 = c" for c :: nat
  by (rule div_mult_mod_eq)

lemma write_utf8_first:
  assumes "c \<le> 0x10FFFF"
  shows "utf8_first (write_utf8 c @ r) = (c, length (write_utf8 c))"
proof -
  have digits: "c div 4096 * 4096 + c div 64 mod 64 * 64 + c mod 64 = c"
    "c div 262144 * 262144 + c div 4096 mod 64 * 4096 + c div 64 mod 64 * 64 + c mod 64 = c"
  proof -
    have "c div 64 * 64 + c mod 64 = c" by (rule split_6)
    moreover have "c div 4096 * 64 + c div 64 mod 64 = c div 64"
      using split_6 [of "c div 64"] by (simp add: div_mult2_eq [symmetric])
    moreover have "c div 262144 * 64 + c div 4096 mod 64 = c div 4096"
      using split_6 [of "c div 4096"] by (simp add: div_mult2_eq [symmetric])
    ultimately show "c div 4096 * 4096 + c div 64 mod 64 * 64 + c mod 64 = c"
      "c div 262144 * 262144 + c div 4096 mod 64 * 4096 + c div 64 mod 64 * 64 + c mod 64 = c" by linarith+
  qed
  consider "c < 0x80" | "0x80 \<le> c \<and> c \<le> 0x7FF" | "0x7FF < c \<and> c \<le> 0xFFFF" | "0xFFFF < c \<and> c \<le> 0x10FFFF"
    using assms by linarith
  then show ?thesis
  proof cases
    case 1
    then show ?thesis by (simp add: write_utf8_def utf8_first_def unat_byte)
  next
    case 2
    then have "c div 64 < 32" "c mod 64 < 64" by auto
    with 2 show ?thesis by (simp add: write_utf8_def utf8_first_def unat_byte split_6 del: of_nat_add)
  next
    case 3
    then have "c div 4096 < 16" "c mod 64 < 64" "c div 64 mod 64 < 64" by auto
    with 3 show ?thesis using digits(1) by (simp add: write_utf8_def utf8_first_def unat_byte del: of_nat_add)
  next
    case 4
    then have "c div 262144 < 8" "c mod 64 < 64" "c div 64 mod 64 < 64" "c div 4096 mod 64 < 64" by auto
    with 4 show ?thesis using digits(2) by (simp add: write_utf8_def utf8_first_def unat_byte del: of_nat_add)
  qed
qed

lemma hex_to_val_less: "hex_to_val c = Some v \<Longrightarrow> v < 16"
proof -
  assume h: "hex_to_val c = Some v"
  have "unat c \<le> 57" if "c \<le> 57" using that by (simp add: word_le_nat_alt)
  moreover have "unat c \<le> 102" if "c \<le> 102" using that by (simp add: word_le_nat_alt)
  moreover have "unat c \<le> 70" if "c \<le> 70" using that by (simp add: word_le_nat_alt)
  ultimately show "v < 16" using h by (auto simp: hex_to_val_def split: if_splits)
qed

lemma parse_hex_digits_less: "parse_hex_digits n cs ret = Some v \<Longrightarrow> v < (ret + 1) * 16 ^ n"
proof (induction n cs ret rule: parse_hex_digits.induct)
  case (3 n c cs ret)
  then obtain d where d: "hex_to_val c = Some d" "parse_hex_digits n cs (ret * 16 + d) = Some v"
    by (auto split: option.splits)
  then have "v < (ret * 16 + d + 1) * 16 ^ n" using 3 by simp
  also have "\<dots> \<le> (ret * 16 + 16) * 16 ^ n" using hex_to_val_less [OF d(1)] by (intro mult_right_mono) simp_all
  finally show ?case by (simp add: algebra_simps)
qed simp_all

text \<open>Every code point that a block gives can be encoded, and is shorter than the block.\<close>

lemma unicode_block_ok:
  assumes "unicode_block escape_char s = Some (c, k)"
  shows "c \<le> 0x10FFFF" "k \<le> length s" "length (write_utf8 c) \<le> k" "write_utf8 c \<noteq> []" "0 < k"
proof -
  obtain v where v: "parse_hex_block (drop 2 s) = Some v" "6 \<le> length s"
    using assms by (auto simp: unicode_block_def split: if_splits option.splits)
  have v16: "v < 65536" using parse_hex_digits_less [of 4 "drop 2 s" 0 v] v(1) by (simp add: parse_hex_block_def)
  have "c \<le> 0x10FFFF \<and> k \<le> length s \<and> 4 \<le> k"
    using assms v v16 by (auto simp: unicode_block_def split: if_splits option.splits)
  then show "c \<le> 0x10FFFF" "k \<le> length s" "length (write_utf8 c) \<le> k" "write_utf8 c \<noteq> []" "0 < k"
    using length_write_utf8 [of c] by auto
qed

section \<open>Unescaping in place\<close>

lemma unescape_token_ok:
  assumes "s \<noteq> []" and "unescape_token escape_char quote_char double_quote s = (written, consumed)"
  shows "consumed \<le> length s" "length written \<le> consumed"
proof -
  have "0 < length s" using assms(1) by simp
  then have "consumed \<le> length s \<and> length written \<le> consumed"
    using assms(2) unicode_block_ok [of escape_char s]
    by (auto simp: unescape_token_def Let_def Suc_le_eq split: if_splits option.splits)
  then show "consumed \<le> length s" "length written \<le> consumed" by simp_all
qed

lemma unescape_loop_ok:
  assumes "len \<le> length cal" and "out \<le> inp" and "inp \<le> len"
  shows "\<exists>cal' n. unescape_loop escape_char quote_char double_quote len cal inp out = (cal', n)
      \<and> length cal' = length cal \<and> n \<le> len
      \<and> take n cal' = take out cal @ unescape escape_char quote_char double_quote (drop inp (take len cal))
      \<and> drop len cal' = drop len cal"
  using assms
proof (induction "len - inp" arbitrary: cal inp out rule: less_induct)
  case less
  show ?case
  proof (cases "inp < len")
    case False
    with less.prems show ?thesis by (subst unescape_loop.simps) simp
  next
    case True
    let ?s = "drop inp (take len cal)"
    obtain written consumed where t: "unescape_token escape_char quote_char double_quote ?s = (written, consumed)"
      by (metis surj_pair)
    have s: "?s \<noteq> []" "length ?s = len - inp" using True less.prems by simp_all
    have pos: "0 < consumed" using unescape_token_progress [of escape_char quote_char double_quote ?s] t by simp
    have fit: "consumed \<le> len - inp" "length written \<le> consumed" using unescape_token_ok [OF s(1) t] s(2) by simp_all
    define cal1 where "cal1 = overwrite out written cal"
    have len1: "length cal1 = length cal" using fit less.prems True by (simp add: cal1_def)
    have suffix: "drop (inp + consumed) (take len cal1) = drop (inp + consumed) (take len cal)"
      using fit less.prems True by (simp add: cal1_def overwrite_def drop_take)
    have tail: "drop len cal1 = drop len cal"
      using fit less.prems True by (simp add: cal1_def overwrite_def)
    have prefix: "take (out + length written) cal1 = take out cal @ written"
      using less.prems True by (simp add: cal1_def)
    have "\<exists>cal' n. unescape_loop escape_char quote_char double_quote len cal1 (inp + consumed) (out + length written) = (cal', n)
      \<and> length cal' = length cal1 \<and> n \<le> len
      \<and> take n cal' = take (out + length written) cal1
          @ unescape escape_char quote_char double_quote (drop (inp + consumed) (take len cal1))
      \<and> drop len cal' = drop len cal1"
      using fit less.prems True pos len1 by (intro less.hyps) simp_all
    moreover have "drop consumed ?s = drop (inp + consumed) (take len cal)" by (simp add: add.commute)
    moreover have "unescape_loop escape_char quote_char double_quote len cal inp out
        = unescape_loop escape_char quote_char double_quote len cal1 (inp + consumed) (out + length written)"
      using True t by (subst unescape_loop.simps) (simp add: cal1_def)
    ultimately show ?thesis
      using unescape_step [OF s(1) t] len1 suffix tail prefix by simp
  qed
qed

lemma unescape_std_string_eq: "unescape_std_string cal escape_char quote_char double_quote = unescape escape_char quote_char double_quote cal"
proof -
  obtain cal' n where "unescape_loop escape_char quote_char double_quote (length cal) cal 0 0 = (cal', n)"
    "take n cal' = unescape escape_char quote_char double_quote cal"
    using unescape_loop_ok [of "length cal" cal 0 0 escape_char quote_char double_quote] by auto
  then show ?thesis by (simp add: unescape_std_string_def unescape_string_def)
qed

section \<open>Escaping and unescaping\<close>

text \<open>
  The strings that survive: no null character (its escape is not undone), and no backslash in front
  of a \<open>u\<close> (it is not escaped, and may be read as the start of a code point).
\<close>

fun escapable :: "bytes \<Rightarrow> bool" where
  "escapable [] \<longleftrightarrow> True"
| "escapable (c # cs) \<longleftrightarrow> c \<noteq> 0 \<and> \<not> (c = BACKSLASH \<and> cs \<noteq> [] \<and> hd cs = LOWER_U) \<and> escapable cs"

lemma length_escape_character: "length (escape_character e q u d c cs) \<le> 2"
  by (simp add: escape_character_def)

lemma length_escape_characters: "length (escape_characters e q u d cs) \<le> 2 * length cs"
proof (induction cs)
  case (Cons c cs)
  then show ?case using length_escape_character [of e q u d c cs] by simp
qed simp

lemma length_double_characters: "length (concat (map (double_character q d) cs)) \<le> 2 * length cs"
proof (induction cs)
  case (Cons c cs)
  then show ?case by (simp add: double_character_def)
qed simp

lemma length_escaped_text: "length (escaped_text val e ue q u d) \<le> 2 + 2 * length val"
  using length_escape_characters [of e q u d val] length_double_characters [of q d val]
  by (auto simp: escaped_text_def Let_def)

lemma escape_string_text:
  "\<exists>output'. escape_string val e ue q u d output = Some (output', length (escaped_text val e ue q u d))
     \<and> take (length (escaped_text val e ue q u d)) output' = escaped_text val e ue q u d
     \<and> length output' = max (length output) (2 + 2 * length val)"
proof -
  let ?t = "escaped_text val e ue q u d" and ?o = "output @ replicate (2 + 2 * length val - length output) 0"
  have fit: "length ?t \<le> length ?o" using length_escaped_text [of val e ue q u d] by simp
  then have "escape_string val e ue q u d output = Some (overwrite 0 ?t ?o, length ?t)"
    unfolding escape_string_def Let_def by (simp del: length_append)
  moreover have "take (length ?t) (overwrite 0 ?t ?o) = ?t" using take_overwrite [of 0 ?o ?t] by simp
  moreover have "length (overwrite 0 ?t ?o) = max (length output) (2 + 2 * length val)"
    using length_overwrite [of 0 ?t ?o] fit by simp
  ultimately show ?thesis by blast
qed

lemma unescape_pair:
  "unescape_token e q d (a # b # s) = ([c], 2) \<Longrightarrow> unescape e q d (a # b # s) = c # unescape e q d s"
  using unescape_step [of "a # b # s" e q d "[c]" 2] by simp

lemma unescape_single:
  "unescape_token e q d (a # s) = ([a], 1) \<Longrightarrow> unescape e q d (a # s) = a # unescape e q d s"
  using unescape_step [of "a # s" e q d "[a]" 1] by simp

lemma unescape_plain:
  assumes "c \<noteq> e" and "\<not> (d \<and> c = q)"
  shows "unescape e q d (c # s) = c # unescape e q d s"
  using assms by (intro unescape_single) (auto simp: unescape_token_def)

lemma unescape_sequences:
  "unescape BACKSLASH q d (BACKSLASH # BACKSLASH # s) = BACKSLASH # unescape BACKSLASH q d s"
  "unescape BACKSLASH q d (BACKSLASH # LOWER_T # s) = TAB # unescape BACKSLASH q d s"
  "unescape BACKSLASH q d (BACKSLASH # LOWER_B # s) = BACKSPACE # unescape BACKSLASH q d s"
  "unescape BACKSLASH q d (BACKSLASH # LOWER_R # s) = CARRIAGE_RETURN # unescape BACKSLASH q d s"
  "unescape BACKSLASH q d (BACKSLASH # LOWER_N # s) = NEWLINE # unescape BACKSLASH q d s"
  by (rule unescape_pair, simp add: unescape_token_def characters)+

lemma escape_character_sequences:
  "escape_character e q u d TAB cs = [e, LOWER_T]" "escape_character e q u d BACKSPACE cs = [e, LOWER_B]"
  "escape_character e q u d CARRIAGE_RETURN cs = [e, LOWER_R]" "escape_character e q u d NEWLINE cs = [e, LOWER_N]"
  "\<not> (cs \<noteq> [] \<and> (hd cs = LOWER_U \<or> hd cs = LOWER_X)) \<Longrightarrow> escape_character e q u d BACKSLASH cs = [e, BACKSLASH]"
  by (auto simp: escape_character_def characters)

lemma hd_escape_characters:
  assumes "cs \<noteq> []" and "hd cs = LOWER_X"
  shows "escape_characters e q u d cs = LOWER_X # escape_characters e q u d (tl cs)"
  using assms by (cases cs) (auto simp: escape_character_def characters)

lemma unescape_escape_characters:
  assumes "q \<in> {SINGLE_QUOTE, DOUBLE_QUOTE}"
  shows "escapable val \<Longrightarrow> unescape BACKSLASH q d (escape_characters BACKSLASH q True d val) = val"
proof (induction val)
  case (Cons c cs)
  let ?r = "escape_characters BACKSLASH q True d cs"
  from Cons have IH: "unescape BACKSLASH q d ?r = cs" and c: "c \<noteq> 0" "\<not> (c = BACKSLASH \<and> cs \<noteq> [] \<and> hd cs = LOWER_U)"
    by simp_all
  show ?case
  proof (cases "c \<in> {SINGLE_QUOTE, DOUBLE_QUOTE}")
    case True
    have "unescape_token BACKSLASH q d (BACKSLASH # c # ?r) = ([c], 2)"
      using True by (auto simp: unescape_token_def)
    moreover have "unescape_token BACKSLASH q d (q # q # ?r) = ([q], 2)" if d
      using that assms by (auto simp: unescape_token_def characters)
    moreover have "c \<noteq> BACKSLASH" using True by (auto simp: characters)
    ultimately show ?thesis
      using True IH by (auto simp: escape_character_def unescape_pair unescape_plain)
  next
    case quote: False
    show ?thesis
    proof (cases "c = BACKSLASH \<and> cs \<noteq> [] \<and> hd cs = LOWER_X")
      case True
      then have "escape_characters BACKSLASH q True d (c # cs) = BACKSLASH # ?r"
        by (simp add: escape_character_def characters)
      moreover have "unescape_token BACKSLASH q d (BACKSLASH # ?r) = ([BACKSLASH], 1)"
        using hd_escape_characters [of cs BACKSLASH q True d] True by (simp add: unescape_token_def characters)
      ultimately show ?thesis using IH True by (simp add: unescape_single)
    next
      case False
      show ?thesis
      proof (cases "c \<in> {BACKSLASH, TAB, BACKSPACE, CARRIAGE_RETURN, NEWLINE}")
        case True
        then show ?thesis using False c IH
          by (auto simp: escape_character_sequences unescape_sequences)
      next
        case regular: False
        then have "escape_characters BACKSLASH q True d (c # cs) = c # ?r"
          using quote c by (simp add: escape_character_def)
        with regular quote assms IH show ?thesis by (auto simp: unescape_plain)
      qed
    qed
  qed
qed simp

section \<open>Properties\<close>

lemma escaped_text_quoted:
  "escaped_text val e True q True d = q # escape_characters e q True d val @ [q]"
  by (simp add: escaped_text_def)

text \<open>Escaping never overruns its buffer, whatever the options and the buffer passed in.\<close>

lemma escape_string_bounds:
  "\<exists>output' n. escape_string val e ue q u d output = Some (output', n) \<and> n \<le> length output' \<and> n \<le> 2 + 2 * length val"
  using escape_string_text [of val e ue q u d "output"] length_escaped_text [of val e ue q u d] by auto

text \<open>
  Two surrogates whose first is above \<open>D8FF\<close> (the first surrogates go up to \<open>DBFF\<close>) are written
  as two separate code points, although they stand for one.
\<close>

lemma high_surrogate_range:
  "unescape BACKSLASH q d [BACKSLASH, LOWER_U, 100, 57, 48, 48, BACKSLASH, LOWER_U, 100, 99, 48, 48]
     = write_utf8 0xD900 @ write_utf8 0xDC00"
  (is "unescape _ _ _ ?s = _")
proof -
  have four: "(4 :: nat) = Suc (Suc (Suc (Suc 0)))" by simp
  have hex: "parse_hex_block (100 # 57 # 48 # 48 # r) = Some 0xD900" "parse_hex_block (100 # 99 # 48 # 48 # r) = Some 0xDC00" for r
    unfolding parse_hex_block_def four by (simp_all add: hex_to_val_def)
  have "unicode_block BACKSLASH ?s = Some (0xD900, 6)" "unicode_block BACKSLASH (drop 6 ?s) = Some (0xDC00, 6)"
    by (simp_all add: unicode_block_def hex)
  moreover have "write_utf8 0xD900 \<noteq> []" "write_utf8 0xDC00 \<noteq> []" by (rule length_write_utf8, simp)+
  ultimately have t: "unescape_token BACKSLASH q d ?s = (write_utf8 0xD900, 6)"
      "unescape_token BACKSLASH q d (drop 6 ?s) = (write_utf8 0xDC00, 6)"
    by (simp_all add: unescape_token_def characters)
  have "?s \<noteq> []" "drop 6 ?s \<noteq> []" "drop 6 (drop 6 ?s) = []" by simp_all
  with unescape_step [OF _ t(1)] unescape_step [OF _ t(2)] show ?thesis by (metis append_Nil2 unescape_Nil)
qed

text \<open>
  C25. Unescaping in place is safe and computes the reference function: for every buffer and length
  it stays inside the first \<open>length\<close> bytes, returns a length that is not larger, and leaves in front
  exactly the unescaped text, although it overwrites the text it is reading.
\<close>

theorem unescape_in_place:
  assumes "len \<le> length cal"
  shows "\<exists>cal' n. unescape_string cal len escape_char quote_char double_quote = (cal', n) \<and> n \<le> len
      \<and> length cal' = length cal \<and> drop len cal' = drop len cal
      \<and> take n cal' = unescape escape_char quote_char double_quote (take len cal)"
  using unescape_loop_ok [OF assms, of 0 0 escape_char quote_char double_quote]
  by (auto simp: unescape_string_def)

theorem unescape_in_place_witness:
  "\<exists>cal' n. unescape_string [97, 92, 110, 98] 3 92 34 False = (cal', n) \<and> n \<le> 3
      \<and> take n cal' = unescape 92 34 False [97, 92, 110]"
proof -
  have "3 \<le> length [97, 92, 110, 98 :: u8]" "take 3 [97, 92, 110, 98 :: u8] = [97, 92, 110]" by simp_all
  from unescape_in_place [OF this(1), of 92 34 False, unfolded this(2)] show ?thesis by blast
qed

text \<open>
  C20. Escaping and unescaping are inverse: a string without null characters and without a backslash
  before a \<open>u\<close>, written with quotes (doubled or escaped) and escapes, is read back unchanged from
  the text between its quotes. The text always fits the output buffer.
\<close>

theorem escape_unescape:
  assumes "escapable val" and "quote_char \<in> {SINGLE_QUOTE, DOUBLE_QUOTE}"
  shows "\<exists>output' n text. escape_string val BACKSLASH True quote_char True double_quote output = Some (output', n)
      \<and> n \<le> 2 + 2 * length val \<and> take n output' = quote_char # text @ [quote_char]
      \<and> unescape_std_string text BACKSLASH quote_char double_quote = val"
  using escape_string_text [of val BACKSLASH True quote_char True double_quote "output"]
    length_escaped_text [of val BACKSLASH True quote_char True double_quote]
    unescape_escape_characters [OF assms(2,1), of double_quote]
  by (auto simp: escaped_text_quoted unescape_std_string_eq)

theorem escape_unescape_witness:
  "\<exists>output' n text. escape_string [97, 34, 92, 9] BACKSLASH True DOUBLE_QUOTE True False [] = Some (output', n)
      \<and> take n output' = DOUBLE_QUOTE # text @ [DOUBLE_QUOTE]
      \<and> unescape_std_string text BACKSLASH DOUBLE_QUOTE False = [97, 34, 92, 9]"
proof -
  have "escapable [97, 34, 92, 9]" by (simp add: characters)
  from escape_unescape [OF this, of DOUBLE_QUOTE False "[]"] show ?thesis by auto
qed

end
