(* ===== verification/Csv_Tokenizer.thy ===== *)
theory Csv_Tokenizer
  imports String_Escape Flexible_Type
begin

text \<open>
  The line tokenizer of the CSV reader, \<open>sframe/csv_line_tokenizer.hpp\<close> and \<open>csv_line_tokenizer.cpp\<close>:
  the state machine \<open>tokenize_line_impl\<close> with its three callbacks, the overloads of \<open>tokenize_line\<close>
  that instantiate it, and \<open>parse_as\<close>, which turns a field into a value. The parser of single values
  (\<open>flexible_type_parser\<close>, a grammar of Boost Spirit) is a parameter: a record of functions from the
  characters they are given to the value, the success flag and the number of characters consumed.
  A range \<open>[buf, bufend)\<close> of the line is the list of its characters. A field handed to a callback is a
  position in a memory block with a length, since \<open>parse_as\<close> can read and write past the field.
\<close>

section \<open>The tokenizer\<close>

definition OPEN_BRACKET :: u8 where "OPEN_BRACKET = 91"
definition OPEN_BRACE :: u8 where "OPEN_BRACE = 123"

lemmas csv_characters = characters OPEN_BRACKET_def OPEN_BRACE_def

text \<open>\<open>std::isspace\<close> in the C locale.\<close>

definition isspace :: "u8 \<Rightarrow> bool" where
  "isspace c \<longleftrightarrow> c = 32 \<or> 9 \<le> c \<and> c \<le> 13"

definition is_space_but_not_tab :: "u8 \<Rightarrow> bool" where
  "is_space_but_not_tab c \<longleftrightarrow> c \<noteq> TAB \<and> isspace c"

type_synonym parse_fn = "bytes \<Rightarrow> flexible_type \<times> bool \<times> nat"

record flexible_type_parser =
  int_parse :: parse_fn
  double_parse :: parse_fn
  vector_parse :: parse_fn
  dict_parse :: parse_fn
  recursive_parse :: parse_fn
  general_flexible_type_parse :: parse_fn
  non_string_flexible_type_parse :: parse_fn

text \<open>\<open>field_buffer\<close> holds the characters of the string and its terminating null character.\<close>

record csv_line_tokenizer =
  preserve_quoting :: bool
  escape_char :: u8
  skip_initial_space :: bool
  delimiter :: bytes
  line_terminator :: bytes
  comment_char :: u8
  has_comment_char :: bool
  double_quote :: bool
  quote_char :: u8
  na_values :: "bytes list"
  field_buffer :: bytes
  delimiter_is_new_line :: bool
  delimiter_is_space_but_not_tab :: bool
  delimiter_first_character :: u8
  delimiter_is_singlechar :: bool
  delimiter_is_not_empty :: bool
  empty_string_in_na_values :: bool
  is_regular_line_terminator :: bool

definition csv_line_tokenizer_new :: csv_line_tokenizer where
  "csv_line_tokenizer_new =
     \<lparr> preserve_quoting = False, escape_char = BACKSLASH, skip_initial_space = True, delimiter = [44],
       line_terminator = [NEWLINE], comment_char = 35, has_comment_char = True, double_quote = False,
       quote_char = DOUBLE_QUOTE, na_values = [], field_buffer = replicate 1025 0,
       delimiter_is_new_line = False, delimiter_is_space_but_not_tab = False,
       delimiter_first_character = 0, delimiter_is_singlechar = False, delimiter_is_not_empty = True,
       empty_string_in_na_values = False, is_regular_line_terminator = True \<rparr>"

definition csv_init :: "csv_line_tokenizer \<Rightarrow> csv_line_tokenizer" where
  "csv_init t =
     (let regular = (line_terminator t = [NEWLINE]) in
      t\<lparr> is_regular_line_terminator := regular,
         delimiter_is_new_line :=
           (if regular then delimiter t \<in> {[NEWLINE], [CARRIAGE_RETURN], [CARRIAGE_RETURN, NEWLINE]}
            else delimiter t = line_terminator t),
         delimiter_is_not_empty := (delimiter t \<noteq> []),
         delimiter_is_space_but_not_tab := (delimiter t \<noteq> [] \<and> list_all is_space_but_not_tab (delimiter t)),
         delimiter_first_character := (case delimiter t of [] \<Rightarrow> 0 | c # _ \<Rightarrow> c),
         delimiter_is_singlechar := (length (delimiter t) = 1),
         empty_string_in_na_values := list_ex (\<lambda>na_val. length na_val = 0) (na_values t) \<rparr>)"

section \<open>The state machine\<close>

definition test_is_delimiter :: "bytes \<Rightarrow> bytes \<Rightarrow> bool" where
  "test_is_delimiter cs del \<longleftrightarrow> length del \<le> length cs \<and> take (length del) cs = del"

definition delimiter_test :: "csv_line_tokenizer \<Rightarrow> bytes \<Rightarrow> bool" where
  "delimiter_test t cs \<longleftrightarrow>
     delimiter_is_not_empty t \<and> hd cs = delimiter_first_character t
     \<and> (delimiter_is_singlechar t \<or> test_is_delimiter cs (delimiter t))"

datatype tokenizer_state = START_FIELD | IN_FIELD | IN_QUOTED_FIELD

text \<open>
  The callbacks, on the state \<open>'o\<close> they share: \<open>add_token\<close> gets a memory block and the length of the
  field at its start and returns its success and the block it leaves behind; \<open>lookahead\<close> gets the
  rest of the line and returns its success and the number of characters it consumed.
\<close>

record 'o callbacks =
  add_token :: "bytes \<Rightarrow> nat \<Rightarrow> 'o \<Rightarrow> bool \<times> bytes \<times> 'o"
  lookahead :: "bytes \<Rightarrow> 'o \<Rightarrow> bool \<times> nat \<times> 'o"
  canceltoken :: "'o \<Rightarrow> 'o"

record 'o machine =
  buf :: bytes
  state :: tokenizer_state
  fbuf :: bytes
  fbuf_len :: nat
  escape_sequence :: bool
  start_field_with_delimiter_encountered :: bool
  good :: bool
  keep_parsing :: bool
  sink :: 'o

definition begin_field :: "'o machine \<Rightarrow> 'o machine" where
  "begin_field s = s\<lparr>fbuf_len := 0\<rparr>"

text \<open>The size of the buffer doubles when it is full; its terminating null character stays last.\<close>

definition push_char :: "csv_line_tokenizer \<Rightarrow> u8 \<Rightarrow> 'o machine \<Rightarrow> 'o machine" where
  "push_char t c s =
     (let size = length (fbuf s) - 1;
          fb = (if fbuf_len s \<ge> size then fbuf s @ replicate size 0 else fbuf s)
      in s\<lparr>fbuf := fb[fbuf_len s := c], fbuf_len := fbuf_len s + 1, escape_sequence := (c = escape_char t)\<rparr>)"

text \<open>\<open>END_FIELD\<close>; \<open>rest\<close> is what follows it up to the end of the \<open>switch\<close>, which a failure skips.\<close>

definition end_field :: "'o callbacks \<Rightarrow> ('o machine \<Rightarrow> 'o machine) \<Rightarrow> 'o machine \<Rightarrow> 'o machine" where
  "end_field cb rest s =
     (let (success, fb, snk) = add_token cb (fbuf s) (fbuf_len s) (sink s);
          s = s\<lparr>fbuf := fb, sink := snk\<rparr>
      in if success then rest (s\<lparr>fbuf_len := 0\<rparr>) else s\<lparr>good := False, keep_parsing := False\<rparr>)"

definition end_line :: "'o machine \<Rightarrow> 'o machine" where
  "end_line s = s\<lparr>keep_parsing := False\<rparr>"

text \<open>The end of the loop body, which a \<open>continue\<close> skips.\<close>

definition end_iteration :: "bool \<Rightarrow> 'o machine \<Rightarrow> 'o machine" where
  "end_iteration reset_escape_sequence s = (if reset_escape_sequence then s\<lparr>escape_sequence := False\<rparr> else s)"

definition regular_character :: "csv_line_tokenizer \<Rightarrow> u8 \<Rightarrow> 'o machine \<Rightarrow> 'o machine" where
  "regular_character t c s =
     (push_char t c (s\<lparr>start_field_with_delimiter_encountered := False\<rparr>))\<lparr>state := IN_FIELD\<rparr>"

text \<open>A bracket at the start of a field; \<open>buf s\<close> is behind the bracket.\<close>

definition bracket :: "csv_line_tokenizer \<Rightarrow> 'o callbacks \<Rightarrow> bool \<Rightarrow> u8 \<Rightarrow> 'o machine \<Rightarrow> 'o machine" where
  "bracket t cb reset_escape_sequence c s =
     (let at = c # buf s;
          (success, consumed, snk) = lookahead cb at (sink s);
          rest = dropWhile isspace (drop consumed at);
          s' = s\<lparr>buf := rest, start_field_with_delimiter_encountered := False, sink := snk\<rparr>
      in if success then
           if rest = [] then s'
           else if delimiter_test t rest then
             s'\<lparr>start_field_with_delimiter_encountered := True, buf := drop (length (delimiter t)) rest\<rparr>
           else if delimiter_is_space_but_not_tab t then s'
           else end_iteration reset_escape_sequence (regular_character t c (s\<lparr>sink := canceltoken cb snk\<rparr>))
         else end_iteration reset_escape_sequence (regular_character t c (s\<lparr>sink := snk\<rparr>)))"

definition start_field ::
  "csv_line_tokenizer \<Rightarrow> 'o callbacks \<Rightarrow> bool \<Rightarrow> bool \<Rightarrow> u8 \<Rightarrow> 'o machine \<Rightarrow> 'o machine" where
  "start_field t cb is_delimiter reset_escape_sequence c s =
     (if c = quote_char t then
        end_iteration reset_escape_sequence
          ((push_char t c (begin_field (s\<lparr>start_field_with_delimiter_encountered := False\<rparr>)))
             \<lparr>state := (if preserve_quoting t then IN_FIELD else IN_QUOTED_FIELD)\<rparr>)
      else if is_space_but_not_tab c \<and> skip_initial_space t then end_iteration reset_escape_sequence s
      else if is_delimiter then
        end_iteration reset_escape_sequence
          (end_field cb id (begin_field (s\<lparr>start_field_with_delimiter_encountered := True\<rparr>)))
      else if has_comment_char t \<and> c = comment_char t then
        end_iteration reset_escape_sequence (end_line (s\<lparr>start_field_with_delimiter_encountered := False\<rparr>))
      else if c = OPEN_BRACKET \<or> c = OPEN_BRACE then bracket t cb reset_escape_sequence c s
      else end_iteration reset_escape_sequence (regular_character t c s))"

definition in_field :: "csv_line_tokenizer \<Rightarrow> 'o callbacks \<Rightarrow> bool \<Rightarrow> u8 \<Rightarrow> 'o machine \<Rightarrow> 'o machine" where
  "in_field t cb is_delimiter c s =
     (if is_delimiter then
        end_field cb (\<lambda>s. s\<lparr>start_field_with_delimiter_encountered := True, state := START_FIELD\<rparr>) s
      else if has_comment_char t \<and> c = comment_char t then
        end_field cb (\<lambda>s. end_line (s\<lparr>state := START_FIELD\<rparr>)) s
      else push_char t c s)"

definition in_quoted_field :: "csv_line_tokenizer \<Rightarrow> u8 \<Rightarrow> 'o machine \<Rightarrow> 'o machine" where
  "in_quoted_field t c s =
     (if c = quote_char t \<and> \<not> escape_sequence s then
        if double_quote t \<and> 1 < length (buf s) \<and> hd (buf s) = quote_char t
        then (let s = push_char t c (push_char t c s) in s\<lparr>buf := tl (buf s)\<rparr>)
        else (push_char t c s)\<lparr>state := IN_FIELD\<rparr>
      else push_char t c s)"

text \<open>One iteration of the loop, on a non-empty rest of the line.\<close>

definition tokenize_step :: "csv_line_tokenizer \<Rightarrow> 'o callbacks \<Rightarrow> 'o machine \<Rightarrow> 'o machine" where
  "tokenize_step t cb s =
     (let is_delimiter = delimiter_test t (buf s);
          reset_escape_sequence = escape_sequence s;
          at = (if is_delimiter then drop (length (delimiter t) - 1) (buf s) else buf s);
          c = hd at;
          s = s\<lparr>buf := tl at\<rparr>
      in case state s of
           START_FIELD \<Rightarrow> start_field t cb is_delimiter reset_escape_sequence c s
         | IN_FIELD \<Rightarrow> end_iteration reset_escape_sequence (in_field t cb is_delimiter c s)
         | IN_QUOTED_FIELD \<Rightarrow> end_iteration reset_escape_sequence (in_quoted_field t c s))"

text \<open>The loop; \<open>None\<close>: it does not return.\<close>

partial_function (option) tokenize_loop ::
  "csv_line_tokenizer \<Rightarrow> 'o callbacks \<Rightarrow> 'o machine \<Rightarrow> 'o machine option" where
  "tokenize_loop t cb s =
     (if keep_parsing s \<and> buf s \<noteq> [] then tokenize_loop t cb (tokenize_step t cb s) else Some s)"

declare tokenize_loop.simps [code]

definition machine_start :: "csv_line_tokenizer \<Rightarrow> bytes \<Rightarrow> 'o \<Rightarrow> 'o machine" where
  "machine_start t str snk =
     \<lparr> buf = str, state = START_FIELD, fbuf = field_buffer t, fbuf_len = 0, escape_sequence = False,
       start_field_with_delimiter_encountered = False, good = True, keep_parsing = True, sink = snk \<rparr>"

text \<open>What follows the loop: the field at the end of the line.\<close>

definition tokenize_cleanup :: "'o callbacks \<Rightarrow> 'o machine \<Rightarrow> bool \<times> bytes \<times> 'o" where
  "tokenize_cleanup cb s =
     (if \<not> good s then (False, fbuf s, sink s)
      else if state s \<noteq> START_FIELD then add_token cb (fbuf s) (fbuf_len s) (sink s)
      else if start_field_with_delimiter_encountered s then
        (let (success, _, snk) = add_token cb [] 0 (sink s) in (success, fbuf s, snk))
      else (True, fbuf s, sink s))"

text \<open>
  The result is the success, the tokenizer (its field buffer is kept for the next line) and the state
  of the callbacks. The character behind the line is taken to be null.
\<close>

definition tokenize_line_impl ::
  "csv_line_tokenizer \<Rightarrow> 'o callbacks \<Rightarrow> bytes \<Rightarrow> 'o \<Rightarrow> (bool \<times> csv_line_tokenizer \<times> 'o) option" where
  "tokenize_line_impl t cb str snk =
     (if delimiter_is_new_line t then
        (let (_, _, snk) = add_token cb (str @ [0]) (length str) snk in Some (True, t, snk))
      else
        (case tokenize_loop t cb (machine_start t str snk) of
           None \<Rightarrow> None
         | Some s \<Rightarrow>
             (let (success, fb, snk) = tokenize_cleanup cb s
              in Some (success, t\<lparr>field_buffer := fb\<rparr>, snk))))"

section \<open>Parsing a field\<close>

text \<open>\<open>len\<close> characters of a memory block from the position \<open>pos\<close> on.\<close>

definition field_at :: "bytes \<Rightarrow> nat \<Rightarrow> nat \<Rightarrow> bytes" where
  "field_at mem pos len = take len (drop pos mem)"

text \<open>\<open>while (len > 0 && std::isspace (buf[len - 1])) len--\<close>.\<close>

fun rtrim_len :: "bytes \<Rightarrow> nat \<Rightarrow> nat \<Rightarrow> nat" where
  "rtrim_len mem pos 0 = 0"
| "rtrim_len mem pos (Suc n) = (if isspace (mem ! (pos + n)) then rtrim_len mem pos n else Suc n)"

text \<open>\<open>while (std::isspace (*buf) && len > 0) { ++buf; --len; }\<close>: the new position and length.\<close>

fun ltrim_pos :: "bytes \<Rightarrow> nat \<Rightarrow> nat \<Rightarrow> nat \<times> nat" where
  "ltrim_pos mem pos 0 = (pos, 0)"
| "ltrim_pos mem pos (Suc n) = (if isspace (mem ! pos) then ltrim_pos mem (Suc pos) n else (pos, Suc n))"

text \<open>\<open>strncmp (a, b, n) == 0\<close>, on strings that are terminated by a null character when shorter.\<close>

fun strncmp_equal :: "bytes \<Rightarrow> bytes \<Rightarrow> nat \<Rightarrow> bool" where
  "strncmp_equal a b 0 = True"
| "strncmp_equal a b (Suc n) =
     (case (a, b) of
        (x # a, y # b) \<Rightarrow> x = y \<and> (x = 0 \<or> strncmp_equal a b n)
      | (x # _, []) \<Rightarrow> x = 0
      | ([], y # _) \<Rightarrow> y = 0
      | ([], []) \<Rightarrow> True)"

definition is_na_value :: "csv_line_tokenizer \<Rightarrow> bytes \<Rightarrow> bool" where
  "is_na_value t s = list_ex (\<lambda>na_value. length na_value = length s \<and> strncmp_equal s na_value (length s)) (na_values t)"

text \<open>The case of \<open>STRING\<close>: the value and the new length of the field.\<close>

definition parse_string :: "csv_line_tokenizer \<Rightarrow> bytes \<Rightarrow> nat \<Rightarrow> nat \<Rightarrow> flexible_type \<times> nat" where
  "parse_string t mem pos len =
     (let len = rtrim_len mem pos len
      in if 2 \<le> len \<and> mem ! pos = quote_char t \<and> mem ! (pos + len - 1) = quote_char t
         then (Flex_string (unescape_std_string (field_at mem (pos + 1) (len - 2))
                  (escape_char t) (quote_char t) (double_quote t)), len)
         else (Flex_string (field_at mem pos len), len))"

text \<open>The case of \<open>UNDEFINED\<close>: the value, the success and the new position.\<close>

definition parse_undefined ::
  "flexible_type_parser \<Rightarrow> bool \<Rightarrow> bytes \<Rightarrow> nat \<Rightarrow> nat \<Rightarrow> flexible_type \<times> bool \<times> nat" where
  "parse_undefined p recursive mem pos len =
     (let (out, parse_success, consumed) = general_flexible_type_parse p (field_at mem pos len);
          out = (case out of
                   Flex_string s \<Rightarrow>
                     if recursive \<and> parse_success then
                       (let clen = rtrim_len s 0 (length s);
                            (out2, parse_success2, c) = non_string_flexible_type_parse p (take clen s)
                        in if parse_success2 \<and> c = clen then out2 else out)
                     else out
                 | _ \<Rightarrow> out)
      in (out, parse_success, if get_type out = STRING then pos else pos + consumed))"

text \<open>
  The \<open>switch\<close> on the type of \<open>out\<close>: the value, the success, the new position and length; \<open>None\<close>
  for the types that are not parsed.
\<close>

definition parse_switch ::
  "flexible_type_parser \<Rightarrow> csv_line_tokenizer \<Rightarrow> bool \<Rightarrow> bytes \<Rightarrow> nat \<Rightarrow> nat \<Rightarrow> flex_type_enum
   \<Rightarrow> (flexible_type \<times> bool \<times> nat \<times> nat) option" where
  "parse_switch p t recursive mem pos len out_type =
     (let advance = (\<lambda>(out, parse_success, consumed). Some (out, parse_success, pos + consumed, len))
      in case out_type of
           INTEGER \<Rightarrow> advance (int_parse p (field_at mem pos len))
         | FLOAT \<Rightarrow> advance (double_parse p (field_at mem pos len))
         | VECTOR \<Rightarrow> advance (vector_parse p (field_at mem pos len))
         | STRING \<Rightarrow> (let (out, len) = parse_string t mem pos len in Some (out, True, pos, len))
         | DICT \<Rightarrow> advance (dict_parse p (field_at mem pos len))
         | LIST \<Rightarrow> advance (recursive_parse p (field_at mem pos len))
         | UNDEFINED \<Rightarrow>
             (let (out, parse_success, pos) = parse_undefined p recursive mem pos len
              in Some (out, parse_success, pos, len))
         | _ \<Rightarrow> None)"

text \<open>The two tests for missing values that follow: the value and the success.\<close>

definition parse_na ::
  "csv_line_tokenizer \<Rightarrow> bytes \<Rightarrow> nat \<Rightarrow> nat \<Rightarrow> flexible_type \<Rightarrow> bool \<Rightarrow> flexible_type \<times> bool" where
  "parse_na t mem pos len out parse_success =
     (let (out, parse_success) =
        (if parse_success = (get_type out = STRING)
            \<and> is_na_value t (field_at mem pos (rtrim_len mem pos len))
         then (FLEX_UNDEFINED, True) else (out, parse_success))
      in case out of
           Flex_string s \<Rightarrow> if parse_success \<and> is_na_value t s then (FLEX_UNDEFINED, True) else (out, parse_success)
         | _ \<Rightarrow> (out, parse_success))"

text \<open>
  \<open>parse_as\<close> without the branch that unquotes the field and calls itself: the success, the value and
  the new position.
\<close>

definition parse_value ::
  "flexible_type_parser \<Rightarrow> csv_line_tokenizer \<Rightarrow> bool \<Rightarrow> bytes \<Rightarrow> nat \<Rightarrow> nat \<Rightarrow> flexible_type
   \<Rightarrow> bool \<times> flexible_type \<times> nat" where
  "parse_value p t recursive mem pos len out =
     (case parse_switch p t recursive mem pos len (get_type out) of
        None \<Rightarrow> (False, out, pos)
      | Some (out, parse_success, pos, len) \<Rightarrow>
          (if na_values t \<noteq> [] then
             (let (out, parse_success) = parse_na t mem pos len out parse_success in (parse_success, out, pos))
           else (parse_success, out, pos)))"

text \<open>
  \<open>parse_as\<close>: the success, the value, the memory block and the new position. On an empty field the
  characters tested for quotes are the one at \<open>pos\<close>, behind the field, and the one in front of it.
\<close>

definition parse_as ::
  "flexible_type_parser \<Rightarrow> csv_line_tokenizer \<Rightarrow> bool \<Rightarrow> bytes \<Rightarrow> nat \<Rightarrow> nat \<Rightarrow> flexible_type
   \<Rightarrow> bool \<times> flexible_type \<times> bytes \<times> nat" where
  "parse_as p t recursive mem pos len out =
     (if recursive \<and> get_type out \<noteq> STRING \<and> get_type out \<noteq> UNDEFINED
         \<and> mem ! pos = quote_char t \<and> mem ! (pos + len - 1) = quote_char t
      then
        (let end_of_buf = pos + len;
             len = (if 1 < len then len - 2 else len);
             (cal, new_length) =
               unescape_string (drop (pos + 1) mem) len (escape_char t) (quote_char t) (double_quote t);
             mem = take (pos + 1) mem @ cal;
             (ret, out, _) = parse_value p t False mem (pos + 1) new_length out
         in (ret, out, mem, end_of_buf))
      else
        (let (ret, out, pos) = parse_value p t recursive mem pos len out in (ret, out, mem, pos)))"

section \<open>The overloads of tokenize_line\<close>

text \<open>
  With a callback \<open>fn\<close> on the state \<open>'o\<close>. The result of \<open>fn\<close> in the lookahead is ignored.
\<close>

definition function_callbacks ::
  "flexible_type_parser \<Rightarrow> (bytes \<Rightarrow> 'o \<Rightarrow> bool \<times> 'o) \<Rightarrow> 'o callbacks" where
  "function_callbacks p fn =
     \<lparr> add_token = (\<lambda>mem len snk. let (success, snk) = fn (take len mem) snk in (success, mem, snk)),
       lookahead = (\<lambda>cs snk.
         (let (_, _, consumed) = general_flexible_type_parse p cs
          in if consumed \<noteq> 0 then (True, consumed, snd (fn (take consumed cs) snk)) else (False, 0, snk))),
       canceltoken = id \<rparr>"

definition tokenize_line_function ::
  "flexible_type_parser \<Rightarrow> csv_line_tokenizer \<Rightarrow> (bytes \<Rightarrow> 'o \<Rightarrow> bool \<times> 'o) \<Rightarrow> bytes \<Rightarrow> 'o
   \<Rightarrow> (bool \<times> csv_line_tokenizer \<times> 'o) option" where
  "tokenize_line_function p t fn str snk = tokenize_line_impl t (function_callbacks p fn) str snk"

text \<open>
  Into a vector of strings. The flag \<open>is_quoted\<close> of the code is never set, so that the call of
  \<open>unescape_string\<close> behind it is not reached. (The quote character is not a white space character:
  the length would wrap around below zero.)
\<close>

definition string_field :: "csv_line_tokenizer \<Rightarrow> bytes \<Rightarrow> nat \<Rightarrow> bytes" where
  "string_field t mem len =
     (let len = rtrim_len mem 0 len;
          (pos, len) = (if mem ! 0 = quote_char t then (1, len - 1) else (0, len));
          len = (if 0 < len \<and> mem ! (pos + len - 1) = quote_char t then len - 1 else len)
      in field_at mem pos len)"

definition string_callbacks :: "flexible_type_parser \<Rightarrow> csv_line_tokenizer \<Rightarrow> bytes list callbacks" where
  "string_callbacks p t =
     \<lparr> add_token = (\<lambda>mem len output.
         if len = 0 then (True, mem, output @ [[]]) else (True, mem, output @ [string_field t mem len])),
       lookahead = (\<lambda>cs output.
         (let (_, _, consumed) = general_flexible_type_parse p cs
          in if consumed \<noteq> 0 then (True, consumed, output @ [take consumed cs]) else (False, 0, output))),
       canceltoken = butlast \<rparr>"

definition tokenize_line_strings ::
  "flexible_type_parser \<Rightarrow> csv_line_tokenizer \<Rightarrow> bytes \<Rightarrow> (bool \<times> csv_line_tokenizer \<times> bytes list) option" where
  "tokenize_line_strings p t str = tokenize_line_impl t (string_callbacks p t) str []"

text \<open>
  Into a vector of typed values: the callbacks share the column counter \<open>ctr\<close> and the output. An entry
  \<open>-1\<close> of \<open>output_order\<close> drops the column; the other entries are positions in the output.
\<close>

definition NO_OUTPUT :: u64 where "NO_OUTPUT = - 1"

definition num_outputs :: "u64 list option \<Rightarrow> flexible_type list \<Rightarrow> nat" where
  "num_outputs output_order output = (case output_order of None \<Rightarrow> length output | Some ord \<Rightarrow> length ord)"

text \<open>\<open>None\<close>: no output is required.\<close>

definition output_index :: "u64 list option \<Rightarrow> nat \<Rightarrow> nat option" where
  "output_index output_order ctr =
     (case output_order of
        None \<Rightarrow> if ctr = unat NO_OUTPUT then None else Some ctr
      | Some ord \<Rightarrow> if ord ! ctr = NO_OUTPUT then None else Some (unat (ord ! ctr)))"

definition typed_add_token ::
  "flexible_type_parser \<Rightarrow> csv_line_tokenizer \<Rightarrow> bool \<Rightarrow> u64 list option \<Rightarrow> nat
   \<Rightarrow> bytes \<Rightarrow> nat \<Rightarrow> nat \<times> flexible_type list \<Rightarrow> bool \<times> bytes \<times> nat \<times> flexible_type list" where
  "typed_add_token p t permit_undefined output_order n mem len = (\<lambda>(ctr, output).
     if n \<le> ctr then
       (delimiter_is_space_but_not_tab t \<and> list_all isspace (take len mem), mem, ctr, output)
     else
       (case output_index output_order ctr of
          None \<Rightarrow> (True, mem, ctr + 1, output)
        | Some output_idx \<Rightarrow>
            (let outtype = get_type (output ! output_idx) in
             if len = 0 then
               (True, mem, ctr + 1,
                output[output_idx :=
                  (if permit_undefined \<and> outtype \<noteq> STRING then flex_reset UNDEFINED
                   else if permit_undefined \<and> outtype = STRING \<and> empty_string_in_na_values t then flex_reset UNDEFINED
                   else flex_reset outtype)])
             else
               (let (pos, len) = ltrim_pos mem 0 len;
                    (success, out, mem, _) = parse_as p t True mem pos len (output ! output_idx)
                in (success, mem, if success then ctr + 1 else ctr, output[output_idx := out])))))"

definition typed_lookahead ::
  "flexible_type_parser \<Rightarrow> csv_line_tokenizer \<Rightarrow> u64 list option \<Rightarrow> nat
   \<Rightarrow> bytes \<Rightarrow> nat \<times> flexible_type list \<Rightarrow> bool \<times> nat \<times> nat \<times> flexible_type list" where
  "typed_lookahead p t output_order n cs = (\<lambda>(ctr, output).
     if n \<le> ctr then (False, 0, ctr, output)
     else
       (let (_, _, consumed) = general_flexible_type_parse p cs in
        case output_index output_order ctr of
          None \<Rightarrow>
            if consumed \<noteq> 0 then (True, consumed, ctr + 1, output) else (False, 0, ctr, output)
        | Some output_idx \<Rightarrow>
            if get_type (output ! output_idx) = STRING then
              if consumed \<noteq> 0
              then (True, consumed, ctr + 1, output[output_idx := Flex_string (take consumed cs)])
              else (False, 0, ctr, output)
            else
              (let (success, out, _, pos) = parse_as p t False (cs @ [0]) 0 (length cs) (output ! output_idx)
               in (success, pos, if success then ctr + 1 else ctr, output[output_idx := out]))))"

definition typed_callbacks ::
  "flexible_type_parser \<Rightarrow> csv_line_tokenizer \<Rightarrow> bool \<Rightarrow> u64 list option \<Rightarrow> nat \<Rightarrow> (nat \<times> flexible_type list) callbacks" where
  "typed_callbacks p t permit_undefined output_order n =
     \<lparr> add_token = typed_add_token p t permit_undefined output_order n,
       lookahead = typed_lookahead p t output_order n,
       canceltoken = (\<lambda>(ctr, output). (ctr - 1, output)) \<rparr>"

text \<open>The number of output entries filled, the tokenizer and the output.\<close>

definition tokenize_line_typed ::
  "flexible_type_parser \<Rightarrow> csv_line_tokenizer \<Rightarrow> bytes \<Rightarrow> flexible_type list \<Rightarrow> bool \<Rightarrow> u64 list option
   \<Rightarrow> (nat \<times> csv_line_tokenizer \<times> flexible_type list) option" where
  "tokenize_line_typed p t str output permit_undefined output_order =
     (case tokenize_line_impl t
             (typed_callbacks p t permit_undefined output_order (num_outputs output_order output)) str (0, output) of
        None \<Rightarrow> None
      | Some (success, t, ctr, output) \<Rightarrow> Some (if success then ctr else 0, t, output))"

end
