(* ===== verification/Csv_Lines.thy ===== *)
theory Csv_Lines
  imports Csv_Tokenizer
begin

text \<open>
  What the tokenizer of \<open>Csv_Tokenizer\<close> does on a line. The locale \<open>line_callbacks\<close> states what the
  loop needs of its callbacks to return, \<open>token_sink\<close> what it needs to hand every field over; both are
  interpreted on the callbacks of the three overloads. The properties: every overload returns, the
  field buffer is never written out of its bounds, lines of plain fields are split at the delimiter,
  and two places where the code does not do what it means to.
\<close>

section \<open>The loop returns\<close>

text \<open>
  What the loop needs of its callbacks: a successful lookahead consumes a character of the line or
  lowers a rank.
\<close>

locale line_callbacks =
  fixes cb :: "'o callbacks"
    and rank :: "'o \<Rightarrow> nat"
  assumes lookahead_progress:
    "lookahead cb (c # cs) snk = (True, consumed, snk') \<Longrightarrow> 0 < consumed \<or> rank snk' < rank snk"
begin

definition smaller :: "('o machine \<times> 'o machine) set" where
  "smaller = inv_image (less_than <*lex*> less_than) (\<lambda>s. (length (buf s), rank (sink s)))"

lemma smaller_iff:
  "(s', s) \<in> smaller \<longleftrightarrow>
     length (buf s') < length (buf s) \<or> length (buf s') = length (buf s) \<and> rank (sink s') < rank (sink s)"
  by (simp add: smaller_def)

lemma wf_smaller: "wf smaller"
  by (auto simp: smaller_def)

end

lemma buf_updates [simp]:
  "buf (push_char t c s) = buf s" "buf (begin_field s) = buf s" "buf (end_line s) = buf s"
  "buf (end_iteration r s) = buf s" "buf (regular_character t c s) = buf s"
  by (simp_all add: push_char_def begin_field_def end_line_def end_iteration_def regular_character_def Let_def)

lemma buf_end_field: "(\<And>s. buf (rest s) = buf s) \<Longrightarrow> buf (end_field cb rest s) = buf s"
  by (simp add: end_field_def Let_def split: prod.splits)

lemma buf_in_field: "buf (in_field t cb d c s) = buf s"
  by (simp add: in_field_def buf_end_field)

lemma buf_in_quoted_field: "length (buf (in_quoted_field t c s)) \<le> length (buf s)"
  by (simp add: in_quoted_field_def Let_def)

text \<open>The rest of the line behind the character that the iteration reads.\<close>

definition behind :: "csv_line_tokenizer \<Rightarrow> bytes \<Rightarrow> bytes" where
  "behind t cs = tl (if delimiter_test t cs then drop (length (delimiter t) - 1) cs else cs)"

lemma length_behind: "cs \<noteq> [] \<Longrightarrow> length (behind t cs) < length cs"
  by (cases cs) (auto simp: behind_def)

context line_callbacks
begin

lemma bracket_smaller:
  "length (buf s) < length (buf s0) \<Longrightarrow> rank (sink s) = rank (sink s0) \<Longrightarrow> (bracket t cb r c s, s0) \<in> smaller"
proof -
  assume less: "length (buf s) < length (buf s0)" and rank: "rank (sink s) = rank (sink s0)"
  obtain success consumed snk where look: "lookahead cb (c # buf s) (sink s) = (success, consumed, snk)"
    by (cases "lookahead cb (c # buf s) (sink s)")
  have len: "length (dropWhile isspace (drop consumed (c # buf s))) \<le> length (c # buf s) - consumed"
    using length_dropWhile_le [of isspace "drop consumed (c # buf s)"] by simp
  show ?thesis
  proof (cases success)
    case True
    then have "0 < consumed \<or> rank snk < rank (sink s)"
      using look lookahead_progress by auto
    with less rank len look True show ?thesis
      by (auto simp: bracket_def smaller_iff Let_def)
  next
    case False
    with less look show ?thesis by (simp add: bracket_def smaller_iff Let_def)
  qed
qed

lemma start_field_smaller:
  "length (buf s) < length (buf s0) \<Longrightarrow> rank (sink s) = rank (sink s0) \<Longrightarrow> (start_field t cb d r c s, s0) \<in> smaller"
  unfolding start_field_def by (simp add: bracket_smaller) (simp add: smaller_iff buf_end_field)

lemma tokenize_step_smaller: "buf s \<noteq> [] \<Longrightarrow> (tokenize_step t cb s, s) \<in> smaller"
proof -
  assume nonempty: "buf s \<noteq> []"
  let ?at = "if delimiter_test t (buf s) then drop (length (delimiter t) - 1) (buf s) else buf s"
  have less: "length (buf (s\<lparr>buf := tl ?at\<rparr>)) < length (buf s)"
    using length_behind [OF nonempty, of t] by (simp add: behind_def)
  show ?thesis
  proof (cases "state s")
    case START_FIELD
    with less start_field_smaller [of "s\<lparr>buf := tl ?at\<rparr>" s] show ?thesis
      by (simp add: tokenize_step_def Let_def)
  next
    case IN_FIELD
    with less show ?thesis by (simp add: tokenize_step_def Let_def smaller_iff buf_in_field)
  next
    case IN_QUOTED_FIELD
    with less buf_in_quoted_field [of t "hd ?at" "s\<lparr>buf := tl ?at\<rparr>"] show ?thesis
      by (simp add: tokenize_step_def Let_def smaller_iff)
  qed
qed

lemma tokenize_loop_returns: "\<exists>s'. tokenize_loop t cb s = Some s'"
  using wf_smaller
proof (induction s rule: wf_induct_rule)
  case (less s)
  then show ?case
    using tokenize_step_smaller [of s t] by (subst tokenize_loop.simps) auto
qed

lemma tokenize_line_impl_returns: "\<exists>r. tokenize_line_impl t cb str snk = Some r"
  using tokenize_loop_returns [of t "machine_start t str snk"]
  by (auto simp: tokenize_line_impl_def Let_def split: prod.splits)

end

interpretation function_lines: line_callbacks "function_callbacks p fn" "\<lambda>_. 0" for p fn
  by unfold_locales (auto simp: function_callbacks_def split: if_splits prod.splits)

interpretation string_lines: line_callbacks "string_callbacks p t" "\<lambda>_. 0" for p t
  by unfold_locales (auto simp: string_callbacks_def split: if_splits prod.splits)

interpretation typed_lines: line_callbacks "typed_callbacks p t permit_undefined output_order n" "\<lambda>(ctr, _). n - ctr"
  for p t permit_undefined output_order n
  by unfold_locales
    (auto simp: typed_callbacks_def typed_lookahead_def Let_def split: if_splits option.splits prod.splits)

lemma loop_step: "keep_parsing s \<Longrightarrow> buf s \<noteq> [] \<Longrightarrow> tokenize_loop t cb s = tokenize_loop t cb (tokenize_step t cb s)"
  by (subst tokenize_loop.simps) simp

lemma loop_end: "\<not> keep_parsing s \<or> buf s = [] \<Longrightarrow> tokenize_loop t cb s = Some s"
  by (subst tokenize_loop.simps) auto

section \<open>The field buffer\<close>

text \<open>The characters of the field read so far, and the buffer that has room for one more.\<close>

definition content :: "'o machine \<Rightarrow> bytes" where
  "content s = take (fbuf_len s) (fbuf s)"

definition buffer_ok :: "'o machine \<Rightarrow> bool" where
  "buffer_ok s \<longleftrightarrow> fbuf_len s < length (fbuf s) \<and> 2 \<le> length (fbuf s)"

lemma push_char_buffer:
  assumes "buffer_ok s"
  shows "buffer_ok (push_char t c s)" "content (push_char t c s) = content s @ [c]"
  using assms by (auto simp: buffer_ok_def content_def push_char_def Let_def take_Suc_conv_app_nth nth_append)

lemma push_char_frame [simp]:
  "state (push_char t c s) = state s" "good (push_char t c s) = good s"
  "keep_parsing (push_char t c s) = keep_parsing s" "sink (push_char t c s) = sink s"
  "escape_sequence (push_char t c s) = (c = escape_char t)"
  "start_field_with_delimiter_encountered (push_char t c s) = start_field_with_delimiter_encountered s"
  by (simp_all add: push_char_def Let_def)

lemma buffer_updates [simp]:
  "content (s\<lparr>buf := b\<rparr>) = content s" "buffer_ok (s\<lparr>buf := b\<rparr>) = buffer_ok s"
  "content (s\<lparr>state := st\<rparr>) = content s" "buffer_ok (s\<lparr>state := st\<rparr>) = buffer_ok s"
  "content (s\<lparr>escape_sequence := e\<rparr>) = content s" "buffer_ok (s\<lparr>escape_sequence := e\<rparr>) = buffer_ok s"
  "content (s\<lparr>sink := snk\<rparr>) = content s" "buffer_ok (s\<lparr>sink := snk\<rparr>) = buffer_ok s"
  "content (s\<lparr>start_field_with_delimiter_encountered := d\<rparr>) = content s"
  "buffer_ok (s\<lparr>start_field_with_delimiter_encountered := d\<rparr>) = buffer_ok s"
  "content (begin_field s) = []" "buffer_ok s \<Longrightarrow> buffer_ok (begin_field s)"
  by (auto simp: content_def buffer_ok_def begin_field_def)

text \<open>
  The machine is in the state \<open>st\<close> in front of the characters \<open>cs\<close>, with the characters \<open>field\<close> in its
  buffer and the state \<open>snk\<close> of the callbacks.
\<close>

definition at :: "'o machine \<Rightarrow> tokenizer_state \<Rightarrow> bytes \<Rightarrow> bytes \<Rightarrow> 'o \<Rightarrow> bool" where
  "at s st cs field snk \<longleftrightarrow>
     buffer_ok s \<and> keep_parsing s \<and> good s \<and> state s = st \<and> buf s = cs \<and> content s = field \<and> sink s = snk"

text \<open>A tokenizer whose delimiter is the one character \<open>d\<close>.\<close>

definition delimited :: "csv_line_tokenizer \<Rightarrow> u8 \<Rightarrow> bool" where
  "delimited t d \<longleftrightarrow>
     delimiter t = [d] \<and> delimiter_is_not_empty t \<and> delimiter_first_character t = d
     \<and> delimiter_is_singlechar t \<and> \<not> delimiter_is_new_line t \<and> 2 \<le> length (field_buffer t)
     \<and> \<not> (is_space_but_not_tab d \<and> skip_initial_space t) \<and> d \<noteq> quote_char t"

lemma delimited_init:
  assumes "delimiter t = [d]" and "line_terminator t = [NEWLINE]" and "d \<noteq> NEWLINE" and "d \<noteq> CARRIAGE_RETURN"
    and "2 \<le> length (field_buffer t)" and "\<not> (is_space_but_not_tab d \<and> skip_initial_space t)"
    and "d \<noteq> quote_char t"
  shows "delimited (csv_init t) d"
  using assms by (simp add: delimited_def csv_init_def Let_def)

lemma delimiter_test_single [simp]: "delimited t d \<Longrightarrow> delimiter_test t (c # cs) = (c = d)"
  by (auto simp: delimited_def delimiter_test_def)

lemma step_single:
  assumes "delimited t d" and "buf s = c # cs"
  shows "tokenize_step t cb s =
    (case state s of
       START_FIELD \<Rightarrow> start_field t cb (c = d) (escape_sequence s) c (s\<lparr>buf := cs\<rparr>)
     | IN_FIELD \<Rightarrow> end_iteration (escape_sequence s) (in_field t cb (c = d) c (s\<lparr>buf := cs\<rparr>))
     | IN_QUOTED_FIELD \<Rightarrow> end_iteration (escape_sequence s) (in_quoted_field t c (s\<lparr>buf := cs\<rparr>)))"
proof -
  have "length (delimiter t) = 1" using assms by (simp add: delimited_def)
  with assms show ?thesis by (cases "state s") (simp_all add: tokenize_step_def Let_def)
qed

lemma end_iteration_frame [simp]:
  "content (end_iteration r s) = content s" "buffer_ok (end_iteration r s) = buffer_ok s"
  "state (end_iteration r s) = state s" "good (end_iteration r s) = good s"
  "keep_parsing (end_iteration r s) = keep_parsing s" "sink (end_iteration r s) = sink s"
  "start_field_with_delimiter_encountered (end_iteration r s) = start_field_with_delimiter_encountered s"
  "fbuf (end_iteration r s) = fbuf s" "fbuf_len (end_iteration r s) = fbuf_len s"
  by (simp_all add: end_iteration_def)

lemma at_end_iteration [simp]: "at (end_iteration r s) = at s"
  by (auto simp: at_def fun_eq_iff)

lemma at_step:
  assumes "at s st (c # cs) field snk"
  shows "tokenize_loop t cb s = tokenize_loop t cb (tokenize_step t cb s)"
  using assms by (auto simp: at_def intro: loop_step)

section \<open>Inside a field\<close>

lemma in_field_step:
  assumes "at s IN_FIELD (c # cs) field snk" and "delimited t d"
    and "c \<noteq> d" and "\<not> (has_comment_char t \<and> c = comment_char t)"
  shows "at (tokenize_step t cb s) IN_FIELD cs (field @ [c]) snk"
  using assms by (auto simp: at_def step_single in_field_def push_char_buffer)

definition plain :: "csv_line_tokenizer \<Rightarrow> u8 \<Rightarrow> u8 \<Rightarrow> bool" where
  "plain t d c \<longleftrightarrow> c \<noteq> d \<and> \<not> (has_comment_char t \<and> c = comment_char t)"

lemma in_field_run:
  assumes "at s IN_FIELD (cs @ rest) field snk" and "delimited t d" and "list_all (plain t d) cs"
  shows "\<exists>s'. tokenize_loop t cb s = tokenize_loop t cb s' \<and> at s' IN_FIELD rest (field @ cs) snk"
  using assms
proof (induction cs arbitrary: s field)
  case (Cons c cs)
  then have "at (tokenize_step t cb s) IN_FIELD (cs @ rest) (field @ [c]) snk"
    by (auto simp: plain_def intro: in_field_step)
  from Cons.IH [OF this] Cons.prems show ?case
    using at_step by fastforce
qed auto

text \<open>
  The inside of a quoted field: the quote characters in it are escaped or doubled, and it does not
  end in an escape character that escapes the closing quote.
\<close>

fun quoted_body :: "csv_line_tokenizer \<Rightarrow> bool \<Rightarrow> bytes \<Rightarrow> bool" where
  "quoted_body t esc [] = (\<not> esc)"
| "quoted_body t esc (c # cs) =
     (if c = quote_char t \<and> \<not> esc
      then double_quote t \<and> cs \<noteq> [] \<and> hd cs = quote_char t \<and> quoted_body t False (tl cs)
      else quoted_body t (\<not> esc \<and> c = escape_char t) cs)"

definition closes :: "csv_line_tokenizer \<Rightarrow> bytes \<Rightarrow> bool" where
  "closes t rest \<longleftrightarrow> (case rest of [] \<Rightarrow> True | c # _ \<Rightarrow> c \<noteq> quote_char t)"

lemma quoted_run:
  assumes "at s IN_QUOTED_FIELD (body @ quote_char t # rest) field snk" and "delimited t d"
    and "quoted_body t (escape_sequence s) body" and "closes t rest" and "escape_char t \<noteq> quote_char t"
  shows "\<exists>s'. tokenize_loop t cb s = tokenize_loop t cb s' \<and> at s' IN_FIELD rest (field @ body @ [quote_char t]) snk"
  using assms
proof (induction "length body" arbitrary: s body field rule: less_induct)
  case less
  show ?case
  proof (cases body)
    case Nil
    with less.prems have "at (tokenize_step t cb s) IN_FIELD rest (field @ [quote_char t]) snk"
      by (auto simp: at_def step_single in_quoted_field_def push_char_buffer closes_def split: list.splits)
    with Nil less.prems(1) show ?thesis
      using at_step by fastforce
  next
    case (Cons c cs)
    let ?s = "tokenize_step t cb s"
    have loop: "tokenize_loop t cb s = tokenize_loop t cb ?s"
      using less.prems(1) Cons at_step by fastforce
    show ?thesis
    proof (cases "c = quote_char t \<and> \<not> escape_sequence s")
      case True
      with less.prems Cons obtain cs' where cs: "cs = quote_char t # cs'" "double_quote t" "quoted_body t False cs'"
        by (cases cs) auto
      with less.prems(1,2,5) Cons True have "at ?s IN_QUOTED_FIELD (cs' @ quote_char t # rest) (field @ [c, c]) snk"
        and "escape_sequence ?s = False"
        by (auto simp: at_def step_single in_quoted_field_def push_char_buffer Let_def end_iteration_def)
      with less.hyps [of cs' ?s "field @ [c, c]"] less.prems(2,4,5) Cons cs True show ?thesis
        by (auto simp: loop)
    next
      case False
      with less.prems(1,2) Cons have "at ?s IN_QUOTED_FIELD (cs @ quote_char t # rest) (field @ [c]) snk"
        by (auto simp: at_def step_single in_quoted_field_def push_char_buffer)
      moreover have "escape_sequence ?s = (\<not> escape_sequence s \<and> c = escape_char t)"
        using less.prems(1,2) Cons False
        by (auto simp: at_def step_single in_quoted_field_def end_iteration_def)
      ultimately show ?thesis
        using less.hyps [of cs ?s "field @ [c]"] less.prems(2-5) Cons False by (auto simp: loop)
    qed
  qed
qed

section \<open>Fields and lines\<close>

text \<open>
  The texts of fields that the tokenizer takes whole, with the token it hands to the callback: a
  quoted field; or an unquoted one, which loses its initial spaces.
\<close>

definition starts_field :: "csv_line_tokenizer \<Rightarrow> u8 \<Rightarrow> bool" where
  "starts_field t c \<longleftrightarrow>
     c \<noteq> quote_char t \<and> \<not> (is_space_but_not_tab c \<and> skip_initial_space t) \<and> c \<noteq> OPEN_BRACKET \<and> c \<noteq> OPEN_BRACE"

definition initial_space :: "csv_line_tokenizer \<Rightarrow> u8 \<Rightarrow> bool" where
  "initial_space t c \<longleftrightarrow> is_space_but_not_tab c \<and> skip_initial_space t \<and> c \<noteq> quote_char t"

inductive reads :: "csv_line_tokenizer \<Rightarrow> u8 \<Rightarrow> bytes \<Rightarrow> bytes \<Rightarrow> bool" for t d where
  quoted: "reads t d (quote_char t # body @ [quote_char t]) (quote_char t # body @ [quote_char t])"
    if "quoted_body t False body" and "\<not> preserve_quoting t" and "escape_char t \<noteq> quote_char t"
| empty: "reads t d spaces []"
    if "list_all (initial_space t) spaces"
| unquoted: "reads t d (spaces @ c # cs) (c # cs)"
    if "list_all (initial_space t) spaces" and "starts_field t c" and "list_all (plain t d) (c # cs)"

fun join_fields :: "u8 \<Rightarrow> bytes list \<Rightarrow> bytes" where
  "join_fields d [] = []"
| "join_fields d [f] = f"
| "join_fields d (f # fs) = f @ d # join_fields d fs"

lemma initial_spaces_run:
  assumes "at s START_FIELD (spaces @ rest) [] snk" and "delimited t d" and "list_all (initial_space t) spaces"
  shows "\<exists>s'. tokenize_loop t cb s = tokenize_loop t cb s' \<and> at s' START_FIELD rest [] snk
    \<and> start_field_with_delimiter_encountered s' = start_field_with_delimiter_encountered s"
  using assms
proof (induction spaces arbitrary: s)
  case (Cons c spaces)
  then have "at (tokenize_step t cb s) START_FIELD (spaces @ rest) [] snk"
    and "start_field_with_delimiter_encountered (tokenize_step t cb s) = start_field_with_delimiter_encountered s"
    by (auto simp: at_def step_single start_field_def initial_space_def)
  with Cons.IH [of "tokenize_step t cb s"] Cons.prems show ?case
    using at_step by fastforce
qed auto

lemma begin_field_frame:
  "state (begin_field s) = state s" "good (begin_field s) = good s" "keep_parsing (begin_field s) = keep_parsing s"
  "sink (begin_field s) = sink s"
  by (simp_all add: begin_field_def)

lemma start_quoted:
  assumes "at s START_FIELD (quote_char t # cs) [] snk" and "delimited t d" and "\<not> preserve_quoting t"
    and "escape_char t \<noteq> quote_char t"
  shows "at (tokenize_step t cb s) IN_QUOTED_FIELD cs [quote_char t] snk \<and> \<not> escape_sequence (tokenize_step t cb s)"
  using assms by (auto simp: at_def step_single start_field_def push_char_buffer begin_field_frame end_iteration_def)

lemma start_unquoted:
  assumes "at s START_FIELD (c # cs) [] snk" and "delimited t d" and "starts_field t c" and "plain t d c"
  shows "at (tokenize_step t cb s) IN_FIELD cs [c] snk"
  using assms
  by (auto simp: at_def step_single start_field_def starts_field_def plain_def regular_character_def push_char_buffer)

text \<open>A field that is not empty is read up to the delimiter or the end of the line.\<close>

lemma field_run:
  assumes "reads t d text tok" and "tok \<noteq> []" and "delimited t d"
    and "at s START_FIELD (text @ rest) [] snk" and "closes t rest"
  shows "\<exists>s'. tokenize_loop t cb s = tokenize_loop t cb s' \<and> at s' IN_FIELD rest tok snk"
  using assms
proof (cases rule: reads.cases)
  case (quoted body)
  with assms(3,4) start_quoted [of s t "body @ quote_char t # rest" snk d cb]
  have "at (tokenize_step t cb s) IN_QUOTED_FIELD (body @ quote_char t # rest) [quote_char t] snk"
    and "\<not> escape_sequence (tokenize_step t cb s)"
    by auto
  with quoted_run [of "tokenize_step t cb s" body t rest "[quote_char t]" snk d cb] quoted assms(3-5)
  show ?thesis using at_step by fastforce
next
  case empty
  with assms(2) show ?thesis by simp
next
  case (unquoted spaces c cs)
  with assms(3,4) initial_spaces_run [of s spaces "c # cs @ rest" snk t d cb]
  obtain s1 where s1: "tokenize_loop t cb s = tokenize_loop t cb s1" "at s1 START_FIELD (c # cs @ rest) [] snk"
    by auto
  with unquoted assms(3) have "at (tokenize_step t cb s1) IN_FIELD (cs @ rest) [c] snk"
    by (auto intro: start_unquoted)
  with in_field_run [of "tokenize_step t cb s1" cs rest "[c]" snk t d cb] unquoted assms(3) s1
  show ?thesis using at_step [OF s1(2)] by auto
qed

text \<open>
  What a client of the tokenizer promises: in the states where \<open>accept\<close> holds of a token, \<open>add_token\<close>
  succeeds, depends on nothing but the token, and keeps the size of the buffer.
\<close>

locale token_sink = line_callbacks cb rank for cb :: "'o callbacks" and rank +
  fixes accept :: "bytes \<Rightarrow> 'o \<Rightarrow> bool"
    and deliver :: "bytes \<Rightarrow> 'o \<Rightarrow> 'o"
  assumes add_token_deliver:
    "accept (take len mem) snk \<Longrightarrow> len < length mem \<or> len = 0 \<Longrightarrow>
     \<exists>mem'. add_token cb mem len snk = (True, mem', deliver (take len mem) snk) \<and> length mem' = length mem"
begin

primrec accepts :: "bytes list \<Rightarrow> 'o \<Rightarrow> bool" where
  "accepts [] snk = True"
| "accepts (tok # toks) snk = (accept tok snk \<and> accepts toks (deliver tok snk))"

lemma end_field_run:
  assumes "at s IN_FIELD (d # rest) tok snk" and "delimited t d" and "accept tok snk"
  shows "\<exists>s'. tokenize_loop t cb s = tokenize_loop t cb s' \<and> at s' START_FIELD rest [] (deliver tok snk)
    \<and> start_field_with_delimiter_encountered s'"
proof -
  from assms(1) have "accept (take (fbuf_len s) (fbuf s)) (sink s)" and "fbuf_len s < length (fbuf s)"
    using assms(3) by (auto simp: at_def content_def buffer_ok_def)
  then obtain mem' where "add_token cb (fbuf s) (fbuf_len s) (sink s) = (True, mem', deliver tok snk)"
    and "length mem' = length (fbuf s)"
    using add_token_deliver assms(1) by (fastforce simp: at_def content_def)
  with assms(1,2) have "at (tokenize_step t cb s) START_FIELD rest [] (deliver tok snk)
      \<and> start_field_with_delimiter_encountered (tokenize_step t cb s)"
    by (auto simp: at_def step_single in_field_def end_field_def content_def buffer_ok_def)
  with at_step [OF assms(1)] show ?thesis by auto
qed

lemma empty_field_run:
  assumes "at s START_FIELD (d # rest) [] snk" and "delimited t d" and "accept [] snk"
  shows "\<exists>s'. tokenize_loop t cb s = tokenize_loop t cb s' \<and> at s' START_FIELD rest [] (deliver [] snk)
    \<and> start_field_with_delimiter_encountered s'"
proof -
  obtain mem' where "add_token cb (fbuf s) 0 (sink s) = (True, mem', deliver [] snk)" "length mem' = length (fbuf s)"
    using add_token_deliver [of 0 "fbuf s" snk] assms(1,3) by (auto simp: at_def)
  moreover have "\<not> (is_space_but_not_tab d \<and> skip_initial_space t)" "d \<noteq> quote_char t"
    using assms(2) by (auto simp: delimited_def)
  ultimately have "at (tokenize_step t cb s) START_FIELD rest [] (deliver [] snk)
      \<and> start_field_with_delimiter_encountered (tokenize_step t cb s)"
    using assms(1,2)
    by (auto simp: at_def step_single start_field_def begin_field_def end_field_def content_def buffer_ok_def)
  with at_step [OF assms(1)] show ?thesis by auto
qed

lemma field_and_delimiter_run:
  assumes "reads t d text tok" and "delimited t d" and "at s START_FIELD (text @ d # rest) [] snk" and "accept tok snk"
  shows "\<exists>s'. tokenize_loop t cb s = tokenize_loop t cb s' \<and> at s' START_FIELD rest [] (deliver tok snk)
    \<and> start_field_with_delimiter_encountered s'"
proof (cases "tok = []")
  case True
  with assms(1) have "list_all (initial_space t) text"
    by (cases rule: reads.cases) auto
  with initial_spaces_run [OF assms(3,2), of cb] empty_field_run True assms(2,4) show ?thesis
    by metis
next
  case False
  have "closes t (d # rest)" using assms(2) by (auto simp: closes_def delimited_def)
  with field_run [OF assms(1) False assms(2,3)] end_field_run assms(2,4) show ?thesis
    by metis
qed

text \<open>The last field; an empty one counts only behind a delimiter.\<close>

lemma last_field_run:
  assumes "reads t d text tok" and "delimited t d" and "at s START_FIELD text [] snk" and "accept tok snk"
    and "tok \<noteq> [] \<or> start_field_with_delimiter_encountered s"
  shows "\<exists>s' fb. tokenize_loop t cb s = Some s' \<and> tokenize_cleanup cb s' = (True, fb, deliver tok snk)"
proof (cases "tok = []")
  case True
  with assms(1) have "list_all (initial_space t) text"
    by (cases rule: reads.cases) auto
  with initial_spaces_run [of s "text" "[]" snk t d cb] assms(2,3)
  obtain s' where s': "tokenize_loop t cb s = tokenize_loop t cb s'" "at s' START_FIELD [] [] snk"
    "start_field_with_delimiter_encountered s' = start_field_with_delimiter_encountered s"
    by auto
  obtain mem' where "add_token cb [] 0 snk = (True, mem', deliver [] snk)"
    using add_token_deliver [of 0 "[]" snk] assms(4) True by auto
  with s' show ?thesis
    using True assms(5) loop_end [of s' t cb] by (auto simp: at_def tokenize_cleanup_def)
next
  case False
  have "closes t []" by (simp add: closes_def)
  with field_run [OF assms(1) False assms(2), of s "[]" snk cb] assms(3)
  obtain s' where s': "tokenize_loop t cb s = tokenize_loop t cb s'" "at s' IN_FIELD [] tok snk"
    by auto
  then have "accept (take (fbuf_len s') (fbuf s')) (sink s')" "fbuf_len s' < length (fbuf s')"
    using assms(4) by (auto simp: at_def content_def buffer_ok_def)
  then obtain mem' where "add_token cb (fbuf s') (fbuf_len s') (sink s') = (True, mem', deliver tok snk)"
    using add_token_deliver s'(2) by (fastforce simp: at_def content_def)
  with s' loop_end [of s' t cb] show ?thesis
    by (auto simp: at_def tokenize_cleanup_def)
qed

lemma fields_run:
  assumes "list_all2 (reads t d) texts toks" and "texts \<noteq> []" and "delimited t d"
    and "at s START_FIELD (join_fields d texts) [] snk" and "accepts toks snk"
    and "toks \<noteq> [[]] \<or> start_field_with_delimiter_encountered s"
  shows "\<exists>s' fb. tokenize_loop t cb s = Some s' \<and> tokenize_cleanup cb s' = (True, fb, fold deliver toks snk)"
  using assms
proof (induction d texts arbitrary: s snk toks rule: join_fields.induct)
  case (2 d f)
  then show ?case
    using last_field_run [of t d f "hd toks" s snk] by (cases toks) auto
next
  case (3 d f f' fs)
  then obtain tok toks' where toks: "toks = tok # toks'" "reads t d f tok" "list_all2 (reads t d) (f' # fs) toks'"
    by (auto simp: list_all2_Cons1)
  with 3 obtain s' where "tokenize_loop t cb s = tokenize_loop t cb s'"
    "at s' START_FIELD (join_fields d (f' # fs)) [] (deliver tok snk)" "start_field_with_delimiter_encountered s'"
    using field_and_delimiter_run [of t d f tok s "join_fields d (f' # fs)" snk] by auto
  with 3 toks show ?case by auto
qed simp

lemma line_run:
  assumes "list_all2 (reads t d) texts toks" and "texts \<noteq> []" and "delimited t d" and "accepts toks snk" and "toks \<noteq> [[]]"
  shows "\<exists>fb. tokenize_line_impl t cb (join_fields d texts) snk = Some (True, t\<lparr>field_buffer := fb\<rparr>, fold deliver toks snk)"
proof -
  have "at (machine_start t (join_fields d texts) snk) START_FIELD (join_fields d texts) [] snk"
    using assms(3) by (auto simp: at_def machine_start_def buffer_ok_def content_def delimited_def)
  with fields_run assms show ?thesis
    by (fastforce simp: tokenize_line_impl_def delimited_def)
qed

end

section \<open>Trimming\<close>

definition rtrim :: "bytes \<Rightarrow> bytes" where
  "rtrim cs = rev (dropWhile isspace (rev cs))"

lemma field_at_take: "pos + len \<le> n \<Longrightarrow> field_at (take n mem) pos len = field_at mem pos len"
  by (simp add: field_at_def drop_take take_take min_def)

lemma rtrim_len_le: "rtrim_len mem pos len \<le> len"
  by (induction len) auto

lemma rtrim_len_take: "pos + len \<le> n \<Longrightarrow> rtrim_len (take n mem) pos len = rtrim_len mem pos len"
  by (induction len) auto

lemma ltrim_pos_take: "pos + len \<le> n \<Longrightarrow> ltrim_pos (take n mem) pos len = ltrim_pos mem pos len"
  by (induction mem pos len rule: ltrim_pos.induct) auto

lemma ltrim_pos_sum: "ltrim_pos mem pos len = (pos', len') \<Longrightarrow> pos' + len' = pos + len"
  by (induction mem pos len rule: ltrim_pos.induct) (auto split: if_splits)

lemma rtrim_len_field: "pos + len \<le> length mem \<Longrightarrow> field_at mem pos (rtrim_len mem pos len) = rtrim (field_at mem pos len)"
proof (induction len)
  case (Suc len)
  then have "field_at mem pos (Suc len) = field_at mem pos len @ [mem ! (pos + len)]"
    by (simp add: field_at_def take_Suc_conv_app_nth)
  with Suc show ?case by (simp add: rtrim_def)
qed (simp add: field_at_def rtrim_def)

lemma parse_string_take:
  assumes "pos + len \<le> n"
  shows "parse_string t (take n mem) pos len = parse_string t mem pos len"
proof -
  let ?len = "rtrim_len mem pos len"
  have "?len \<le> len" by (rule rtrim_len_le)
  with assms show ?thesis
    by (auto simp: parse_string_def Let_def rtrim_len_take field_at_take nth_append)
qed

section \<open>The callbacks of the overloads\<close>

text \<open>The string that \<open>tokenize_line_strings\<close> stores for a token.\<close>

definition string_text :: "csv_line_tokenizer \<Rightarrow> bytes \<Rightarrow> bytes" where
  "string_text t tok = (if tok = [] then [] else string_field t tok (length tok))"

lemma string_field_take:
  assumes "0 < len" and "len \<le> length mem"
  shows "string_field t (take len mem) len = string_field t mem len"
proof -
  let ?len = "rtrim_len mem 0 len"
  have "?len \<le> len" by (rule rtrim_len_le)
  with assms show ?thesis
    by (auto simp: string_field_def Let_def rtrim_len_take field_at_take)
qed

interpretation string_sink: token_sink "string_callbacks p t" "\<lambda>_. 0" "\<lambda>_ _. True"
  "\<lambda>tok output. output @ [string_text t tok]" for p t
  by unfold_locales (auto simp: string_callbacks_def string_text_def string_field_take)

text \<open>The string that \<open>tokenize_line_typed\<close> stores for a token of a string column.\<close>

definition string_value :: "csv_line_tokenizer \<Rightarrow> bytes \<Rightarrow> flexible_type" where
  "string_value t tok =
     (if tok = [] then Flex_string []
      else (let (pos, len) = ltrim_pos tok 0 (length tok) in fst (parse_string t tok pos len)))"

text \<open>A tokenizer without strings for missing values.\<close>

definition without_na :: "csv_line_tokenizer \<Rightarrow> bool" where
  "without_na t \<longleftrightarrow> na_values t = [] \<and> \<not> empty_string_in_na_values t"

definition string_column :: "csv_line_tokenizer \<Rightarrow> nat \<Rightarrow> bytes \<Rightarrow> nat \<times> flexible_type list \<Rightarrow> bool" where
  "string_column t n tok = (\<lambda>(ctr, output). without_na t \<and> ctr < n \<and> n < 2 ^ 64 \<and> get_type (output ! ctr) = STRING)"

definition store_string :: "csv_line_tokenizer \<Rightarrow> bytes \<Rightarrow> nat \<times> flexible_type list \<Rightarrow> nat \<times> flexible_type list" where
  "store_string t tok = (\<lambda>(ctr, output). (ctr + 1, output[ctr := string_value t tok]))"

lemma output_index_None: "ctr < 2 ^ 64 - 1 \<Longrightarrow> output_index None ctr = Some ctr"
  by (simp add: output_index_def NO_OUTPUT_def unsigned_minus_1_eq_mask mask_eq_exp_minus_1)

lemma typed_add_token_string:
  assumes "string_column t n (take len mem) (ctr, output)" and "len < length mem \<or> len = 0"
  shows "typed_add_token p t permit_undefined None n mem len (ctr, output)
    = (True, mem, store_string t (take len mem) (ctr, output))"
proof -
  have idx: "output_index None ctr = Some ctr" and "\<not> n \<le> ctr"
    using assms(1) by (auto simp: string_column_def intro: output_index_None)
  show ?thesis
  proof (cases "len = 0")
    case True
    with assms idx show ?thesis
      by (auto simp: typed_add_token_def store_string_def string_value_def string_column_def without_na_def)
  next
    case False
    obtain pos len' where trim: "ltrim_pos mem 0 len = (pos, len')" by fastforce
    with ltrim_pos_sum have "pos + len' \<le> len" by fastforce
    with False assms idx trim parse_string_take [of pos len' len t mem] ltrim_pos_take [of 0 len len mem]
    show ?thesis
      by (cases "parse_string t mem pos len'")
        (auto simp: typed_add_token_def store_string_def string_value_def string_column_def without_na_def
          parse_as_def parse_value_def parse_switch_def Let_def)
  qed
qed

interpretation typed_strings: token_sink "typed_callbacks p t permit_undefined None n" "\<lambda>(ctr, _). n - ctr"
  "string_column t n" "store_string t" for p t permit_undefined n
  by unfold_locales (auto simp: typed_callbacks_def typed_add_token_string)

section \<open>The bounds of the field buffer\<close>

text \<open>The states of the machine at the head of the loop.\<close>

inductive reachable :: "csv_line_tokenizer \<Rightarrow> 'o callbacks \<Rightarrow> bytes \<Rightarrow> 'o \<Rightarrow> 'o machine \<Rightarrow> bool" for t cb str snk where
  start: "reachable t cb str snk (machine_start t str snk)"
| step: "reachable t cb str snk s \<Longrightarrow> keep_parsing s \<Longrightarrow> buf s \<noteq> [] \<Longrightarrow> reachable t cb str snk (tokenize_step t cb s)"

text \<open>
  The field has room in the buffer with a null character behind it, the field and the rest of the line
  are together not longer than the line, and the buffer is not larger than it was at first or twice
  the line.
\<close>

definition bounded :: "nat \<Rightarrow> nat \<Rightarrow> 'o machine \<Rightarrow> bool" where
  "bounded sz line s \<longleftrightarrow>
     buffer_ok s \<and> fbuf_len s + length (buf s) \<le> line \<and> length (fbuf s) - 1 \<le> max sz (2 * line)"

lemma bounded_updates [simp]:
  "bounded sz line (s\<lparr>state := st\<rparr>) = bounded sz line s"
  "bounded sz line (s\<lparr>escape_sequence := e\<rparr>) = bounded sz line s"
  "bounded sz line (s\<lparr>sink := snk\<rparr>) = bounded sz line s"
  "bounded sz line (s\<lparr>start_field_with_delimiter_encountered := d\<rparr>) = bounded sz line s"
  "bounded sz line (s\<lparr>good := g\<rparr>) = bounded sz line s"
  "bounded sz line (s\<lparr>keep_parsing := k\<rparr>) = bounded sz line s"
  "bounded sz line (end_iteration r s) = bounded sz line s"
  "bounded sz line (end_line s) = bounded sz line s"
  "bounded sz line s \<Longrightarrow> bounded sz line (begin_field s)"
  by (auto simp: bounded_def buffer_ok_def begin_field_def end_line_def)

lemma bounded_buf: "bounded sz line s \<Longrightarrow> length cs \<le> length (buf s) \<Longrightarrow> bounded sz line (s\<lparr>buf := cs\<rparr>)"
  by (simp add: bounded_def)

lemma bounded_push_char:
  assumes "bounded sz line s" and "fbuf_len s + length (buf s) < line"
  shows "bounded sz line (push_char t c s)"
  using assms push_char_buffer(1) [of s t c] by (auto simp: bounded_def push_char_def Let_def buffer_ok_def)

lemma push_char_buf: "(push_char t c s)\<lparr>buf := cs\<rparr> = push_char t c (s\<lparr>buf := cs\<rparr>)"
  by (simp add: push_char_def Let_def)

lemma bounded_in_quoted_field:
  assumes "bounded sz line s" and "fbuf_len s + length (buf s) < line"
  shows "bounded sz line (in_quoted_field t c s)"
proof -
  have "bounded sz line (push_char t c (push_char t c (s\<lparr>buf := tl (buf s)\<rparr>)))" if "1 < length (buf s)"
    using assms that by (intro bounded_push_char bounded_buf) (auto simp: push_char_def Let_def)
  with assms show ?thesis
    by (auto simp: in_quoted_field_def Let_def push_char_buf bounded_push_char)
qed

lemma bounded_regular_character:
  assumes "bounded sz line s" and "fbuf_len s + length (buf s) < line"
  shows "bounded sz line (regular_character t c s)"
  using assms by (simp add: regular_character_def bounded_push_char)

locale line_buffer = line_callbacks cb rank for cb :: "'o callbacks" and rank +
  assumes add_token_size: "len < length mem \<Longrightarrow> length (fst (snd (add_token cb mem len snk))) = length mem"
begin

lemma bounded_end_field:
  assumes "bounded sz line s" and "\<And>s. bounded sz line s \<Longrightarrow> bounded sz line (rest s)"
  shows "bounded sz line (end_field cb rest s)"
proof -
  obtain success fb snk where add: "add_token cb (fbuf s) (fbuf_len s) (sink s) = (success, fb, snk)"
    by (metis surj_pair)
  with assms(1) add_token_size [of "fbuf_len s" "fbuf s" "sink s"] have "length fb = length (fbuf s)"
    by (auto simp: bounded_def buffer_ok_def)
  with assms(1) have "bounded sz line (s\<lparr>fbuf := fb, sink := snk\<rparr>)"
    and "bounded sz line (s\<lparr>fbuf := fb, sink := snk, fbuf_len := 0\<rparr>)"
    by (auto simp: bounded_def buffer_ok_def)
  with add assms(2) show ?thesis by (auto simp: end_field_def Let_def)
qed

lemma bounded_bracket:
  assumes "bounded sz line s" and "fbuf_len s + length (buf s) < line"
  shows "bounded sz line (bracket t cb r c s)"
proof -
  obtain success consumed snk where look: "lookahead cb (c # buf s) (sink s) = (success, consumed, snk)"
    by (metis surj_pair)
  have "length (dropWhile isspace (drop consumed (c # buf s))) \<le> length (buf s) + 1"
    using length_dropWhile_le [of isspace "drop consumed (c # buf s)"] by simp
  then have "bounded sz line (s\<lparr>buf := dropWhile isspace (drop consumed (c # buf s))\<rparr>)"
    and "bounded sz line (s\<lparr>sink := snk, start_field_with_delimiter_encountered := True,
      buf := drop (length (delimiter t)) (dropWhile isspace (drop consumed (c # buf s)))\<rparr>)"
    using assms by (auto simp: bounded_def buffer_ok_def)
  with look assms show ?thesis
    by (simp add: bracket_def Let_def bounded_regular_character)
qed

lemma bounded_step:
  assumes "bounded sz line s" and "buf s \<noteq> []"
  shows "bounded sz line (tokenize_step t cb s)"
proof -
  let ?s = "s\<lparr>buf := behind t (buf s)\<rparr>"
  have s: "bounded sz line ?s" "fbuf_len ?s + length (buf ?s) < line"
    using assms length_behind [of "buf s" t] by (auto simp: bounded_def)
  have fresh: "bounded sz line (begin_field (?s\<lparr>start_field_with_delimiter_encountered := d\<rparr>))" for d
    using s by simp
  have "bounded sz line (start_field t cb d r c ?s)" for d r c
    using s fresh bounded_push_char [OF fresh, of False t c]
    by (auto simp: start_field_def bounded_bracket bounded_regular_character bounded_end_field begin_field_def)
  moreover have "bounded sz line (in_field t cb d c ?s)" for d c
    using s by (auto simp: in_field_def intro: bounded_end_field bounded_push_char)
  moreover have "bounded sz line (in_quoted_field t c ?s)" for c
    using s by (rule bounded_in_quoted_field)
  ultimately show ?thesis
    by (cases "state s") (simp_all add: tokenize_step_def Let_def behind_def)
qed

lemma reachable_bounded:
  assumes "reachable t cb str snk s" and "2 \<le> length (field_buffer t)"
  shows "bounded (length (field_buffer t) - 1) (length str) s"
  using assms
proof (induction rule: reachable.induct)
  case start
  then show ?case by (auto simp: bounded_def machine_start_def buffer_ok_def)
next
  case (step s)
  then show ?case by (simp add: bounded_step)
qed

end

lemma unescape_string_size:
  "unescape_string cal len e q d = (cal', n) \<Longrightarrow> len \<le> length cal \<Longrightarrow> length cal' = length cal"
  using unescape_loop_ok [of len cal 0 0 e q d] by (auto simp: unescape_string_def)

lemma parse_as_size:
  "parse_as p t r mem pos len out = (success, out', mem', pos') \<Longrightarrow> pos + len < length mem \<Longrightarrow> length mem' = length mem"
  by (auto simp: parse_as_def Let_def split: prod.splits if_splits dest!: unescape_string_size)

lemma typed_add_token_size:
  assumes "len < length mem"
  shows "length (fst (snd (typed_add_token p t u ord n mem len snk))) = length mem"
proof -
  obtain pos len' where trim: "ltrim_pos mem 0 len = (pos, len')" by fastforce
  with ltrim_pos_sum have "pos + len' = len" by fastforce
  with assms trim show ?thesis
    by (auto simp: typed_add_token_def Let_def split: prod.splits option.splits dest!: parse_as_size)
qed

interpretation typed_buffer: line_buffer "typed_callbacks p t permit_undefined output_order n" "\<lambda>(ctr, _). n - ctr"
  for p t permit_undefined output_order n
  by unfold_locales (simp add: typed_callbacks_def typed_add_token_size)

interpretation string_buffer: line_buffer "string_callbacks p t" "\<lambda>_. 0" for p t
  by unfold_locales (simp add: string_callbacks_def)

interpretation function_buffer: line_buffer "function_callbacks p fn" "\<lambda>_. 0" for p fn
  by unfold_locales (simp add: function_callbacks_def Let_def split: prod.splits)

section \<open>Lines without quotes\<close>

text \<open>A field without quote characters, delimiters and comments that does not start with a bracket.\<close>

definition plain_field :: "csv_line_tokenizer \<Rightarrow> u8 \<Rightarrow> bytes \<Rightarrow> bool" where
  "plain_field t d f \<longleftrightarrow>
     list_all (\<lambda>c. plain t d c \<and> c \<noteq> quote_char t) f
     \<and> (case dropWhile (initial_space t) f of [] \<Rightarrow> True | c # _ \<Rightarrow> c \<noteq> OPEN_BRACKET \<and> c \<noteq> OPEN_BRACE)"

definition stripped :: "csv_line_tokenizer \<Rightarrow> bytes \<Rightarrow> bytes" where
  "stripped t f = dropWhile (initial_space t) f"

lemma reads_plain_field:
  assumes "plain_field t d f"
  shows "reads t d f (stripped t f)"
proof (cases "stripped t f")
  case Nil
  then have "list_all (initial_space t) f" by (auto simp: stripped_def dropWhile_eq_Nil_conv list_all_iff)
  with Nil show ?thesis by (auto intro: reads.empty)
next
  case (Cons c cs)
  let ?spaces = "takeWhile (initial_space t) f"
  have f: "f = ?spaces @ c # cs" using Cons takeWhile_dropWhile_id [of "initial_space t" f] by (simp add: stripped_def)
  have "\<not> initial_space t c" using Cons hd_dropWhile [of "initial_space t" f] by (auto simp: stripped_def)
  moreover have "list_all (\<lambda>c. plain t d c \<and> c \<noteq> quote_char t) (c # cs)"
    using assms by (subst (asm) plain_field_def, subst (asm) f) (auto simp: list_all_iff)
  ultimately have "starts_field t c" "list_all (plain t d) (c # cs)"
    using assms Cons by (auto simp: starts_field_def initial_space_def plain_field_def stripped_def list_all_iff)
  moreover have "list_all (initial_space t) ?spaces" by (auto simp: list_all_iff dest: set_takeWhileD)
  ultimately show ?thesis
    using reads.unquoted [of t ?spaces c d cs] f Cons by simp
qed

lemma string_text_plain:
  assumes "quote_char t \<notin> set tok"
  shows "string_text t tok = rtrim tok"
proof (cases "tok = []")
  case False
  let ?n = "rtrim_len tok 0 (length tok)"
  have n: "?n \<le> length tok" by (rule rtrim_len_le)
  have "tok ! 0 \<noteq> quote_char t" using False assms nth_mem [of 0 tok] by force
  moreover have "tok ! (?n - 1) \<noteq> quote_char t" if "0 < ?n"
  proof -
    have "?n - 1 < length tok" using n that by linarith
    then show ?thesis using assms nth_mem by metis
  qed
  ultimately show ?thesis
    using False rtrim_len_field [of 0 "length tok" tok]
    by (auto simp: string_text_def string_field_def Let_def field_at_def)
qed (simp add: string_text_def rtrim_def)

lemma fold_append: "fold (\<lambda>x xs. xs @ [f x]) ys zs = zs @ map f ys"
  by (induction ys arbitrary: zs) simp_all

lemma string_accepts: "string_sink.accepts t toks snk"
  by (induction toks arbitrary: snk) simp_all

section \<open>Properties\<close>

text \<open>A parser of decimal numbers, for concrete runs.\<close>

definition decimal_parse :: parse_fn where
  "decimal_parse cs =
     (let ds = takeWhile (\<lambda>c. 48 \<le> c \<and> c \<le> 57) cs
      in (Flex_int (fold (\<lambda>c n. 10 * n + (ucast c - 48)) ds 0), ds \<noteq> [], length ds))"

definition decimal_parser :: flexible_type_parser where
  "decimal_parser =
     \<lparr> int_parse = decimal_parse, double_parse = decimal_parse, vector_parse = decimal_parse, dict_parse = decimal_parse,
       recursive_parse = decimal_parse, general_flexible_type_parse = decimal_parse,
       non_string_flexible_type_parse = decimal_parse \<rparr>"

abbreviation comma_tokenizer :: csv_line_tokenizer where
  "comma_tokenizer \<equiv> csv_init csv_line_tokenizer_new"

lemma comma_tokenizer_delimited: "delimited comma_tokenizer 44"
  by (rule delimited_init) (simp_all add: csv_line_tokenizer_new_def csv_characters is_space_but_not_tab_def isspace_def)


text \<open>
  C24. The field buffer is never overrun: in every state that the typed tokenizer reaches on a line,
  the field fits the buffer with a null character behind it, it is not longer than the part of the
  line already read, and the buffer has not grown beyond twice the line.
\<close>

theorem field_buffer_bounds:
  assumes "reachable t (typed_callbacks p t permit_undefined output_order n) str snk s"
    and "2 \<le> length (field_buffer t)"
  shows "fbuf_len s < length (fbuf s) \<and> fbuf_len s + length (buf s) \<le> length str
    \<and> length (fbuf s) - 1 \<le> max (length (field_buffer t) - 1) (2 * length str)"
  using typed_buffer.reachable_bounded [OF assms] by (simp add: bounded_def buffer_ok_def)

theorem field_buffer_bounds_witness:
  "let s = machine_start comma_tokenizer [49] (0 :: nat, [Flex_int 0])
   in fbuf_len s < length (fbuf s) \<and> fbuf_len s + length (buf s) \<le> length [49 :: u8]"
proof -
  let ?s = "machine_start comma_tokenizer [49] (0 :: nat, [Flex_int 0])"
  have "reachable comma_tokenizer (typed_callbacks decimal_parser comma_tokenizer False None 1) [49] (0 :: nat, [Flex_int 0]) ?s"
    by (rule reachable.start)
  moreover have "2 \<le> length (field_buffer comma_tokenizer)"
    by (simp add: csv_init_def csv_line_tokenizer_new_def Let_def)
  ultimately show ?thesis
    using field_buffer_bounds [of comma_tokenizer decimal_parser False None 1 "[49]" "(0, [Flex_int 0])" ?s]
    unfolding Let_def by blast
qed

text \<open>
  A line of unquoted fields is split at the delimiters: tokenizing it into strings gives one
  string for each field, the field without its initial spaces and its trailing white space. (A line
  with a single field that is empty or all spaces gives no string.)
\<close>

theorem plain_line_splits:
  assumes "delimited t d" and "list_all (plain_field t d) row" and "row \<noteq> []"
    and "map (stripped t) row \<noteq> [[]]"
  shows "\<exists>t'. tokenize_line_strings p t (join_fields d row)
    = Some (True, t', map (\<lambda>f. rtrim (stripped t f)) row)"
proof -
  have "list_all2 (reads t d) row (map (stripped t) row)"
    using assms(2) by (auto simp: list_all2_map2 list_all_iff list.rel_refl_strong reads_plain_field
        intro: list_all2_all_nthI)
  with string_sink.line_run [of t d row "map (stripped t) row" t "[]" p] assms string_accepts
  obtain t' where "tokenize_line_strings p t (join_fields d row)
      = Some (True, t', map (\<lambda>f. string_text t (stripped t f)) row)"
    by (auto simp: tokenize_line_strings_def fold_append o_def)
  moreover have "string_text t (stripped t f) = rtrim (stripped t f)" if "f \<in> set row" for f
    using assms(2) that by (intro string_text_plain)
      (auto simp: list_all_iff plain_field_def stripped_def dest!: set_dropWhileD)
  ultimately show ?thesis by (metis (no_types, lifting) map_cong)
qed

theorem plain_line_splits_witness:
  "\<exists>t'. tokenize_line_strings decimal_parser comma_tokenizer [97, 98, 44, 32, 99, 32, 44]
    = Some (True, t', [[97, 98], [99], []])"
proof -
  have row: "list_all (plain_field comma_tokenizer 44) [[97, 98], [32, 99, 32], []]"
    and strip: "map (stripped comma_tokenizer) [[97, 98], [32, 99, 32], []] = [[97, 98], [99, 32], []]"
    by (simp_all add: plain_field_def plain_def stripped_def initial_space_def is_space_but_not_tab_def isspace_def
        csv_init_def csv_line_tokenizer_new_def Let_def csv_characters)
  from plain_line_splits [OF comma_tokenizer_delimited row, of decimal_parser] strip show ?thesis
    by (simp add: rtrim_def isspace_def)
qed

text \<open>
  Inside a quoted field the code still looks for the delimiter, and skips it but for its last
  character: of a delimiter of several characters in a quoted field only the last character is kept.
\<close>

theorem quoted_delimiter_truncated:
  assumes "csv_init t = t" and "delimiter t = d # ds" and "last (d # ds) \<noteq> quote_char t"
    and "state s = IN_QUOTED_FIELD" and "buf s = delimiter t @ rest" and "buffer_ok s"
  shows "content (tokenize_step t cb s) = content s @ [last (d # ds)] \<and> buf (tokenize_step t cb s) = rest"
proof -
  have "delimiter_is_not_empty t" "delimiter_first_character t = d"
    using arg_cong [OF assms(1), of delimiter_is_not_empty] arg_cong [OF assms(1), of delimiter_first_character] assms(2)
    by (simp_all add: csv_init_def Let_def)
  then have test: "delimiter_test t (buf s)"
    using assms(2,5) by (simp add: delimiter_test_def test_is_delimiter_def)
  have "drop (length (delimiter t) - 1) (buf s) = last (d # ds) # rest"
    using assms(2,5) by (cases "d # ds" rule: rev_cases) auto
  with test assms(3,4,6) show ?thesis
    by (simp add: tokenize_step_def Let_def in_quoted_field_def push_char_buffer)
qed

theorem quoted_delimiter_truncated_witness:
  "let t = csv_init (csv_line_tokenizer_new\<lparr>delimiter := [124, 58]\<rparr>);
       s = (machine_start t [124, 58, 97] [])\<lparr>state := IN_QUOTED_FIELD\<rparr>
   in content (tokenize_step t (string_callbacks decimal_parser t) s) = [58]"
proof -
  let ?t = "csv_init (csv_line_tokenizer_new\<lparr>delimiter := [124, 58]\<rparr>)"
  let ?s = "(machine_start ?t [124, 58, 97] [])\<lparr>state := IN_QUOTED_FIELD\<rparr>"
  have "csv_init ?t = ?t" "delimiter ?t = 124 # [58]" "quote_char ?t = 34" "2 \<le> length (field_buffer ?t)" "field_buffer ?t \<noteq> []"
    by (simp_all add: csv_init_def csv_line_tokenizer_new_def Let_def characters)
  moreover from this have "buffer_ok ?s" "content ?s = []" "buf ?s = delimiter ?t @ [97]" "state ?s = IN_QUOTED_FIELD"
    by (simp_all add: machine_start_def buffer_ok_def content_def)
  ultimately have "content (tokenize_step ?t (string_callbacks decimal_parser ?t) ?s) = [] @ [last (124 # [58])]"
    using quoted_delimiter_truncated [of ?t 124 "[58]" ?s "[97]" "string_callbacks decimal_parser ?t"] by force
  then show ?thesis unfolding Let_def by simp
qed

text \<open>
  C29. A field that is a single quote character, in a column that is not of strings, makes the code
  read behind the field: it parses the one character that follows the quote in the buffer, which is
  left from an earlier field.
\<close>

theorem lone_quote_reads_past_field:
  assumes "mem ! pos = quote_char t" and "pos + 1 < length mem"
    and "get_type out \<noteq> STRING" and "get_type out \<noteq> UNDEFINED"
  shows "parse_as p t True mem pos 1 out =
    (let (ret, out', _) = parse_value p t False mem (pos + 1) 1 out in (ret, out', mem, pos + 1))"
proof -
  let ?cal = "drop (pos + 1) mem"
  obtain c cs where cal: "?cal = c # cs" using assms(2) by (cases ?cal) auto
  have "unescape_string ?cal 1 (escape_char t) (quote_char t) (double_quote t) = (?cal, 1)"
    unfolding unescape_string_def cal
    by (subst unescape_loop.simps)
      (simp add: unescape_token_def overwrite_def, subst unescape_loop.simps, simp)
  moreover have "take (pos + 1) mem @ ?cal = mem" by (rule append_take_drop_id)
  ultimately show ?thesis
    using assms by (simp add: parse_as_def Let_def split: prod.splits)
qed

theorem lone_quote_reads_past_field_witness:
  "parse_as decimal_parser comma_tokenizer True [34, 50, 0] 0 1 (Flex_int 0) = (True, Flex_int 2, [34, 50, 0], 1)"
proof -
  have "quote_char comma_tokenizer = 34" by (simp add: csv_init_def csv_line_tokenizer_new_def Let_def characters)
  moreover have "parse_value decimal_parser comma_tokenizer False [34, 50, 0] 1 1 (Flex_int 0) = (True, Flex_int 2, 2)"
    by (simp add: parse_value_def parse_switch_def decimal_parser_def decimal_parse_def field_at_def
        csv_init_def csv_line_tokenizer_new_def Let_def)
  ultimately show ?thesis
    using lone_quote_reads_past_field [of "[34, 50, 0]" 0 comma_tokenizer "Flex_int 0" decimal_parser] by simp
qed

end
