(* ===== verification/Csv_Writer.thy ===== *)
theory Csv_Writer
  imports Csv_Lines
begin

text \<open>
  The CSV writer, \<open>sframe/csv_writer.hpp\<close> and \<open>csv_writer.cpp\<close>, and its round trip with the tokenizer.
  The stream written to is the list of characters written so far. The conversion of a value to
  \<open>std::string\<close>, which formats numbers and dates with the standard library, is the parameter
  \<open>to_str\<close>. The scratch buffers of the class are members that every use fills first; the model holds
  them to pass them to \<open>escape_string\<close>.
\<close>

section \<open>The writer\<close>

datatype csv_quote_level = QUOTE_MINIMAL | QUOTE_ALL | QUOTE_NONNUMERIC | QUOTE_NONE

record csv_writer =
  w_delimiter :: bytes
  w_escape_char :: u8
  w_use_escape_char :: bool
  w_double_quote :: bool
  w_quote_char :: u8
  w_line_terminator :: bytes
  w_header :: bool
  w_quote_level :: csv_quote_level
  w_na_value :: bytes
  string_escape_buffer :: bytes
  complex_type_escape_buffer :: bytes

definition csv_writer_new :: csv_writer where
  "csv_writer_new =
     \<lparr> w_delimiter = [44], w_escape_char = BACKSLASH, w_use_escape_char = True, w_double_quote = True,
       w_quote_char = DOUBLE_QUOTE, w_line_terminator = [NEWLINE], w_header = True,
       w_quote_level = QUOTE_NONNUMERIC, w_na_value = [], string_escape_buffer = [],
       complex_type_escape_buffer = [] \<rparr>"

text \<open>The loop of \<open>write_verbatim\<close> and \<open>write\<close> that puts a delimiter between the elements.\<close>

fun write_verbatim_row :: "csv_writer \<Rightarrow> bytes list \<Rightarrow> bytes \<Rightarrow> bytes" where
  "write_verbatim_row w [] out = out"
| "write_verbatim_row w (x # xs) out =
     write_verbatim_row w xs (out @ x @ (if xs \<noteq> [] then w_delimiter w else []))"

definition write_verbatim :: "csv_writer \<Rightarrow> bytes list \<Rightarrow> bytes \<Rightarrow> bytes" where
  "write_verbatim w row out = write_verbatim_row w row out @ w_line_terminator w"

text \<open>
  A call of \<open>escape_string\<close> with a member as the output buffer: the text written to the stream, and the
  buffer. \<open>escape_string\<close> does not fail; see \<open>escape_string_text\<close>.
\<close>

definition escape_into ::
  "csv_writer \<Rightarrow> bytes \<Rightarrow> bool \<Rightarrow> bool \<Rightarrow> bool \<Rightarrow> bytes \<Rightarrow> bytes \<times> bytes" where
  "escape_into w val use_escape use_quote dbl buffer =
     (case escape_string val (w_escape_char w) use_escape (w_quote_char w) use_quote dbl buffer of
        None \<Rightarrow> ([], buffer)
      | Some (buffer, buffer_len) \<Rightarrow> (take buffer_len buffer, buffer))"

text \<open>The recursive print: strings are quoted without doubling.\<close>

function csv_print_internal :: "(flexible_type \<Rightarrow> bytes) \<Rightarrow> csv_writer \<Rightarrow> flexible_type \<Rightarrow> bytes \<Rightarrow> csv_writer \<times> bytes"
  and csv_print_list :: "(flexible_type \<Rightarrow> bytes) \<Rightarrow> csv_writer \<Rightarrow> flexible_type list \<Rightarrow> bytes \<Rightarrow> csv_writer \<times> bytes"
  and csv_print_dict ::
    "(flexible_type \<Rightarrow> bytes) \<Rightarrow> csv_writer \<Rightarrow> (flexible_type \<times> flexible_type) list \<Rightarrow> bytes \<Rightarrow> csv_writer \<times> bytes"
where
  "csv_print_internal to_str w (Flex_string s) out =
     (let (text, buffer) = escape_into w s (w_use_escape_char w) True False (string_escape_buffer w)
      in (w\<lparr>string_escape_buffer := buffer\<rparr>, out @ text))"
| "csv_print_internal to_str w (Flex_list l) out =
     (let (w, out) = csv_print_list to_str w l (out @ [91]) in (w, out @ [93]))"
| "csv_print_internal to_str w (Flex_dict d) out =
     (let (w, out) = csv_print_dict to_str w d (out @ [123]) in (w, out @ [125]))"
| "csv_print_internal to_str w Flex_undefined out = (w, out)"
| "csv_print_internal to_str w (Flex_int i) out = (w, out @ to_str (Flex_int i))"
| "csv_print_internal to_str w (Flex_float x) out = (w, out @ to_str (Flex_float x))"
| "csv_print_internal to_str w (Flex_vec v) out = (w, out @ to_str (Flex_vec v))"
| "csv_print_internal to_str w (Flex_date_time t) out = (w, out @ to_str (Flex_date_time t))"
| "csv_print_internal to_str w (Flex_image i) out = (w, out @ to_str (Flex_image i))"
| "csv_print_list to_str w [] out = (w, out)"
| "csv_print_list to_str w (x # xs) out =
     (let (w, out) = csv_print_internal to_str w x out
      in csv_print_list to_str w xs (out @ (if xs \<noteq> [] then [44] else [])))"
| "csv_print_dict to_str w [] out = (w, out)"
| "csv_print_dict to_str w ((k, v) # xs) out =
     (let (w, out) = csv_print_internal to_str w k out;
          (w, out) = csv_print_internal to_str w v (out @ [58])
      in csv_print_dict to_str w xs (out @ (if xs \<noteq> [] then [44] else [])))"
  by pat_completeness auto
termination
  by (relation "measure (\<lambda>call. case call of
        Inl (_, _, val, _) \<Rightarrow> 2 * size val
      | Inr (Inl (_, _, l, _)) \<Rightarrow> 2 * size_list size l + 1
      | Inr (Inr (_, _, d, _)) \<Rightarrow> 2 * size_list (size_prod size size) d + 1)") simp_all

text \<open>
  The scan of a string at the lower quote levels: whether it has characters that need escaping, and
  whether it has quote characters.
\<close>

definition special_character :: "csv_writer \<Rightarrow> u8 \<Rightarrow> bool" where
  "special_character w c \<longleftrightarrow>
     c = TAB \<or> c = CARRIAGE_RETURN \<or> c = NEWLINE \<or> c = BACKSPACE \<or> c = w_escape_char w
     \<or> (w_line_terminator w \<noteq> [] \<and> c = hd (w_line_terminator w))
     \<or> (w_delimiter w \<noteq> [] \<and> c = hd (w_delimiter w))"

definition csv_print_string :: "csv_writer \<Rightarrow> bytes \<Rightarrow> bool \<Rightarrow> csv_writer \<times> bytes" where
  "csv_print_string w valstr allow_empty_output =
     (let escape = (\<lambda>use_escape use_quote.
            let (text, buffer) = escape_into w valstr use_escape use_quote (w_double_quote w) (string_escape_buffer w)
            in (w\<lparr>string_escape_buffer := buffer\<rparr>, text))
      in if w_quote_level w = QUOTE_ALL then escape (w_use_escape_char w) True
         else
           (let str_needs_delimiter = list_ex (special_character w) valstr;
                str_has_quote_char = list_ex (\<lambda>c. c = w_quote_char w) valstr
            in if \<not> allow_empty_output \<and> length valstr = 0 then (w, [w_quote_char w, w_quote_char w])
               else if \<not> str_needs_delimiter \<and> \<not> str_has_quote_char then (w, valstr)
               else if \<not> str_needs_delimiter \<and> str_has_quote_char \<and> w_double_quote w then escape False False
               else if w_quote_level w = QUOTE_NONE then escape (w_use_escape_char w) False
               else escape (w_use_escape_char w) True))"

definition quoted :: "csv_writer \<Rightarrow> bytes \<Rightarrow> bytes" where
  "quoted w s = [w_quote_char w] @ s @ [w_quote_char w]"

definition csv_print ::
  "(flexible_type \<Rightarrow> bytes) \<Rightarrow> csv_writer \<Rightarrow> flexible_type \<Rightarrow> bool \<Rightarrow> bytes \<Rightarrow> csv_writer \<times> bytes" where
  "csv_print to_str w val allow_empty_output out =
     (case val of
        Flex_int _ \<Rightarrow> (w, out @ (if w_quote_level w = QUOTE_ALL then quoted w (to_str val) else to_str val))
      | Flex_float _ \<Rightarrow> (w, out @ (if w_quote_level w = QUOTE_ALL then quoted w (to_str val) else to_str val))
      | Flex_string s \<Rightarrow> (let (w, text) = csv_print_string w s allow_empty_output in (w, out @ text))
      | Flex_undefined \<Rightarrow> (w, out @ (if w_quote_level w = QUOTE_ALL then quoted w (w_na_value w) else w_na_value w))
      | _ \<Rightarrow>
          if get_type val \<in> {LIST, DICT} then
            (let (w, complex) = csv_print_internal to_str w val []
             in if w_quote_level w = QUOTE_NONE then (w, out @ complex)
                else
                  (let (text, buffer) =
                     escape_into w complex (w_use_escape_char w) True (w_double_quote w) (complex_type_escape_buffer w)
                   in (w\<lparr>complex_type_escape_buffer := buffer\<rparr>, out @ text)))
          else (w, out @ (if w_quote_level w = QUOTE_NONE then to_str val else quoted w (to_str val))))"

fun csv_write_row ::
  "(flexible_type \<Rightarrow> bytes) \<Rightarrow> csv_writer \<Rightarrow> bool \<Rightarrow> flexible_type list \<Rightarrow> bytes \<Rightarrow> csv_writer \<times> bytes" where
  "csv_write_row to_str w allow_empty_output [] out = (w, out)"
| "csv_write_row to_str w allow_empty_output (x # xs) out =
     (let (w, out) = csv_print to_str w x allow_empty_output out
      in csv_write_row to_str w allow_empty_output xs (out @ (if xs \<noteq> [] then w_delimiter w else [])))"

definition csv_write ::
  "(flexible_type \<Rightarrow> bytes) \<Rightarrow> csv_writer \<Rightarrow> flexible_type list \<Rightarrow> bytes \<Rightarrow> csv_writer \<times> bytes" where
  "csv_write to_str w row out =
     (let (w, out) = csv_write_row to_str w (1 < length row) row out in (w, out @ w_line_terminator w))"

section \<open>Written fields\<close>

lemma escape_into_text:
  "\<exists>buffer'. escape_into w val ue uq dbl buffer = (escaped_text val (w_escape_char w) ue (w_quote_char w) uq dbl, buffer')"
  using escape_string_text [of val "w_escape_char w" ue "w_quote_char w" uq dbl buffer] by (auto simp: escape_into_def)

text \<open>What the writer puts for a string when everything is quoted and escaped.\<close>

definition quoted_string :: "csv_writer \<Rightarrow> bytes \<Rightarrow> bytes" where
  "quoted_string w s =
     quoted w (escape_characters (w_escape_char w) (w_quote_char w) True (w_double_quote w) s)"

definition quotes_all :: "csv_writer \<Rightarrow> bool" where
  "quotes_all w \<longleftrightarrow> w_quote_level w = QUOTE_ALL \<and> w_use_escape_char w"

lemma csv_print_quoted:
  assumes "quotes_all w"
  shows "\<exists>buffer. csv_print to_str w (Flex_string s) ae out = (w\<lparr>string_escape_buffer := buffer\<rparr>, out @ quoted_string w s)"
  using escape_into_text [of w s True True "w_double_quote w" "string_escape_buffer w"] assms
  by (auto simp: csv_print_def csv_print_string_def Let_def quotes_all_def quoted_string_def quoted_def escaped_text_def)

lemma quoted_string_update [simp]: "quoted_string (w\<lparr>string_escape_buffer := b\<rparr>) s = quoted_string w s"
  by (simp add: quoted_string_def quoted_def)

lemma csv_write_row_quoted:
  assumes "quotes_all w" and "w_delimiter w = [d]"
  shows "\<exists>buffer. csv_write_row to_str w ae (map Flex_string row) out
    = (w\<lparr>string_escape_buffer := buffer\<rparr>, out @ join_fields d (map (quoted_string w) row))"
  using assms
proof (induction row arbitrary: w out)
  case Nil
  have "w = w\<lparr>string_escape_buffer := string_escape_buffer w\<rparr>" by simp
  then show ?case by (metis append_Nil2 csv_write_row.simps(1) join_fields.simps(1) list.simps(8))
next
  case (Cons s row)
  from csv_print_quoted [OF Cons.prems(1)]
  obtain b where print: "csv_print to_str w (Flex_string s) ae out = (w\<lparr>string_escape_buffer := b\<rparr>, out @ quoted_string w s)"
    by blast
  have "quotes_all (w\<lparr>string_escape_buffer := b\<rparr>)" using Cons.prems by (simp add: quotes_all_def)
  from Cons.IH [OF this, of "out @ quoted_string w s @ (if row \<noteq> [] then [d] else [])"] print Cons.prems show ?case
    by (cases row) (auto simp: Let_def)
qed

section \<open>Reading them back\<close>

text \<open>The shapes of an escaped character.\<close>

lemma escape_character_shape:
  assumes "q \<in> {SINGLE_QUOTE, DOUBLE_QUOTE}"
  obtains (doubled) "dbl" "c = q" "escape_character BACKSLASH q True dbl c cs = [q, q]"
  | (escaped) x where "escape_character BACKSLASH q True dbl c cs = [BACKSLASH, x]"
  | (block) "c = BACKSLASH" "escape_character BACKSLASH q True dbl c cs = [BACKSLASH]" "cs \<noteq> []" "hd cs \<in> {LOWER_U, LOWER_X}"
  | (single) "c \<noteq> q" "c \<noteq> BACKSLASH" "escape_character BACKSLASH q True dbl c cs = [c]"
proof (cases "c = q")
  case True
  with assms have "escape_character BACKSLASH q True dbl c cs = (if dbl then [q, q] else [BACKSLASH, q])"
    by (simp add: escape_character_def)
  with True doubled escaped show ?thesis by (cases dbl) auto
next
  case other: False
  show ?thesis
  proof (cases "c = BACKSLASH")
    case True
    moreover have "BACKSLASH \<noteq> SINGLE_QUOTE" "BACKSLASH \<noteq> DOUBLE_QUOTE" by (simp_all add: characters)
    ultimately have "escape_character BACKSLASH q True dbl c cs
        = (if cs \<noteq> [] \<and> hd cs \<in> {LOWER_U, LOWER_X} then [BACKSLASH] else [BACKSLASH, BACKSLASH])"
      by (simp add: escape_character_def)
    with True block escaped show ?thesis by (cases "cs \<noteq> [] \<and> hd cs \<in> {LOWER_U, LOWER_X}") auto
  next
    case False
    with other have "(\<exists>x. escape_character BACKSLASH q True dbl c cs = [BACKSLASH, x])
        \<or> escape_character BACKSLASH q True dbl c cs = [c]"
      by (simp add: escape_character_def)
    with other False escaped single show ?thesis by metis
  qed
qed

lemma escape_character_block:
  "escape_character e q u dbl LOWER_U cs = [LOWER_U]" "escape_character e q u dbl LOWER_X cs = [LOWER_X]"
  by (simp_all add: escape_character_def characters)

lemma quoted_body_escape_characters:
  assumes "escape_char t = BACKSLASH" and "quote_char t \<in> {SINGLE_QUOTE, DOUBLE_QUOTE}"
  shows "quoted_body t False (escape_characters BACKSLASH (quote_char t) True (double_quote t) s)
    \<and> (s \<noteq> [] \<and> hd s \<in> {LOWER_U, LOWER_X}
        \<longrightarrow> quoted_body t True (escape_characters BACKSLASH (quote_char t) True (double_quote t) s))"
proof (induction s)
  case (Cons c cs)
  have q: "BACKSLASH \<noteq> quote_char t" using assms(2) by (auto simp: characters)
  have "quoted_body t True (escape_characters BACKSLASH (quote_char t) True (double_quote t) (c # cs))"
    if "c \<in> {LOWER_U, LOWER_X}"
    using that Cons.IH by (elim insertE) (simp_all add: escape_character_block)
  moreover have "quoted_body t False (escape_characters BACKSLASH (quote_char t) True (double_quote t) (c # cs))"
    using assms(2)
  proof (cases rule: escape_character_shape [where dbl = "double_quote t" and c = c and cs = cs])
    case doubled
    with Cons.IH show ?thesis by simp
  next
    case (escaped x)
    with Cons.IH q assms(1) show ?thesis by simp
  next
    case block
    with Cons.IH q assms(1) show ?thesis by auto
  next
    case single
    with Cons.IH assms(1) show ?thesis by simp
  qed
  ultimately show ?case by simp
qed simp

lemma quotes_not_space: "q \<in> {SINGLE_QUOTE, DOUBLE_QUOTE} \<Longrightarrow> \<not> isspace q"
  by (auto simp: isspace_def characters)

lemma string_value_quoted:
  assumes "quote_char t \<in> {SINGLE_QUOTE, DOUBLE_QUOTE}"
  shows "string_value t (quote_char t # body @ [quote_char t])
    = Flex_string (unescape_std_string body (escape_char t) (quote_char t) (double_quote t))"
  using quotes_not_space [OF assms]
  by (simp add: string_value_def parse_string_def Let_def field_at_def nth_append)

text \<open>The settings under which the reader understands the writer.\<close>

definition compatible :: "csv_writer \<Rightarrow> csv_line_tokenizer \<Rightarrow> u8 \<Rightarrow> bool" where
  "compatible w t d \<longleftrightarrow>
     quotes_all w \<and> w_delimiter w = [d] \<and> w_escape_char w = BACKSLASH \<and> w_quote_char w \<in> {SINGLE_QUOTE, DOUBLE_QUOTE}
     \<and> delimited t d \<and> escape_char t = BACKSLASH \<and> quote_char t = w_quote_char w
     \<and> double_quote t = w_double_quote w \<and> \<not> preserve_quoting t \<and> without_na t"

lemma reads_quoted_string:
  assumes "compatible w t d"
  shows "reads t d (quoted_string w s) (quoted_string w s)"
proof -
  have "quoted_body t False (escape_characters BACKSLASH (quote_char t) True (double_quote t) s)"
    using quoted_body_escape_characters [of t s] assms by (auto simp: compatible_def)
  from reads.quoted [OF this, of d] assms show ?thesis
    by (auto simp: compatible_def quoted_string_def quoted_def characters)
qed

lemma string_value_quoted_string:
  assumes "compatible w t d" and "escapable s"
  shows "string_value t (quoted_string w s) = Flex_string s"
  using assms string_value_quoted [of t "escape_characters BACKSLASH (quote_char t) True (double_quote t) s"]
    unescape_escape_characters [of "quote_char t" s "double_quote t"]
  by (simp add: compatible_def quoted_string_def quoted_def unescape_std_string_eq)

lemma store_string_simp [simp]: "store_string t tok (ctr, out) = (ctr + 1, out[ctr := string_value t tok])"
  by (simp add: store_string_def)

lemma string_column_simp [simp]:
  "string_column t n tok (ctr, out) = (without_na t \<and> ctr < n \<and> n < 2 ^ 64 \<and> get_type (out ! ctr) = STRING)"
  by (simp add: string_column_def)

lemma store_strings:
  assumes "length out = length toks"
  shows "fold (store_string t) toks (length pre, pre @ out) = (length pre + length toks, pre @ map (string_value t) toks)"
  using assms
proof (induction toks arbitrary: pre out)
  case (Cons tok toks)
  then obtain x out' where "out = x # out'" by (cases out) auto
  with Cons.IH [of out' "pre @ [string_value t tok]"] Cons.prems show ?case
    by (simp add: list_update_append)
qed simp

lemma string_columns_accept:
  assumes "length out = length toks" and "list_all (\<lambda>v. get_type v = STRING) out" and "without_na t"
    and "length pre + length toks = n" and "n < 2 ^ 64"
  shows "typed_strings.accepts t n toks (length pre, pre @ out)"
  using assms
proof (induction toks arbitrary: pre out)
  case (Cons tok toks)
  then obtain x out' where "out = x # out'" by (cases out) auto
  with Cons.IH [of out' "pre @ [string_value t tok]"] Cons.prems show ?case
    by (simp add: list_update_append)
qed simp

section \<open>Properties\<close>

lemma set_join_fields: "set (join_fields d fs) \<subseteq> insert d (\<Union> (set ` set fs))"
  by (induction d fs rule: join_fields.induct) auto

text \<open>Escaped text holds no line break.\<close>

lemma set_escape_character:
  "set (escape_character e q u dbl x s) \<subseteq> {x, e, BACKSLASH, LOWER_T, LOWER_B, LOWER_R, LOWER_N, 0}"
  by (simp add: escape_character_def)

lemma escape_characters_one_line:
  assumes "c \<in> {NEWLINE, CARRIAGE_RETURN}"
  shows "c \<notin> set (escape_characters BACKSLASH q u dbl s)"
proof (induction s)
  case (Cons x s)
  have "c \<noteq> BACKSLASH" "c \<noteq> SINGLE_QUOTE" "c \<noteq> DOUBLE_QUOTE" "c \<noteq> LOWER_T" "c \<noteq> LOWER_B" "c \<noteq> LOWER_R" "c \<noteq> LOWER_N"
    "c \<noteq> 0"
    using assms by (auto simp: characters)
  then have "c \<notin> set (escape_character BACKSLASH q u dbl x s)"
  proof (cases "x = c")
    case True
    with assms have "escape_character BACKSLASH q u dbl x s \<in> {[BACKSLASH, LOWER_N], [BACKSLASH, LOWER_R]}"
      by (elim insertE) (simp_all add: escape_character_sequences)
    with \<open>c \<noteq> BACKSLASH\<close> \<open>c \<noteq> LOWER_R\<close> \<open>c \<noteq> LOWER_N\<close> show ?thesis by auto
  next
    case False
    with \<open>c \<noteq> BACKSLASH\<close> \<open>c \<noteq> LOWER_T\<close> \<open>c \<noteq> LOWER_B\<close> \<open>c \<noteq> LOWER_R\<close> \<open>c \<noteq> LOWER_N\<close> \<open>c \<noteq> 0\<close>
    show ?thesis using set_escape_character [of BACKSLASH q u dbl x s] by blast
  qed
  with Cons show ?case by simp
qed simp

lemma quoted_string_one_line:
  assumes "c \<in> {NEWLINE, CARRIAGE_RETURN}" and "compatible w t d"
  shows "c \<notin> set (quoted_string w s)"
proof -
  have "c \<noteq> SINGLE_QUOTE" "c \<noteq> DOUBLE_QUOTE" using assms(1) by (auto simp: characters)
  with assms(2) escape_characters_one_line [OF assms(1)] show ?thesis
    by (auto simp: quoted_string_def quoted_def compatible_def)
qed



lemma escaped_text_Nil: "escaped_text val e ue q uq dbl = [] \<longleftrightarrow> val = [] \<and> \<not> uq"
proof -
  have "escape_character e q uq dbl c cs \<noteq> []" "double_character q dbl c \<noteq> []" for c cs
    by (simp_all add: escape_character_def double_character_def)
  then show ?thesis by (cases val) (auto simp: escaped_text_def)
qed

text \<open>
  In a table with one column a string is never written as nothing at all, so that no line comes
  out empty; a missing value is, unless the writer quotes everything or has a text for missing
  values, although the flag \<open>allow_empty_output\<close> is documented to exclude it.
\<close>

theorem csv_print_empty_output:
  "snd (csv_print to_str w (Flex_string s) False out) \<noteq> out
   \<and> (snd (csv_print to_str w FLEX_UNDEFINED False out) = out \<longleftrightarrow> w_quote_level w \<noteq> QUOTE_ALL \<and> w_na_value w = [])"
proof
  obtain b where "escape_into w s ue uq (w_double_quote w) (string_escape_buffer w)
      = (escaped_text s (w_escape_char w) ue (w_quote_char w) uq (w_double_quote w), b ue uq)" for ue uq
    using escape_into_text [of w s _ _ "w_double_quote w" "string_escape_buffer w"] by metis
  then have "snd (csv_print_string w s False) \<noteq> []"
    by (cases "s = []") (simp_all add: csv_print_string_def Let_def escaped_text_Nil)
  then show "snd (csv_print to_str w (Flex_string s) False out) \<noteq> out"
    by (auto simp: csv_print_def split: prod.splits)
qed (simp add: csv_print_def quoted_def)

lemma csv_print_appends: "\<exists>l. snd (csv_print to_str w val ae out) = out @ l"
  by (auto simp: csv_print_def Let_def split: flexible_type.splits prod.splits)

lemma csv_write_row_appends: "\<exists>l. snd (csv_write_row to_str w ae row out) = out @ l"
proof (induction row arbitrary: w out)
  case (Cons val row)
  obtain w' out' where print: "csv_print to_str w val ae out = (w', out')" by fastforce
  with csv_print_appends [of to_str w val ae out] obtain l where "out' = out @ l" by auto
  with print Cons [of w' "out' @ (if row \<noteq> [] then w_delimiter w' else [])"] show ?case by auto
qed simp

lemma comment_line:
  assumes "delimited t d" and "has_comment_char t" and "comment_char t = c" and "c \<noteq> quote_char t" and "c \<noteq> d"
    and "\<not> is_space_but_not_tab c"
  shows "tokenize_line_impl t cb (c # l) snk = Some (True, t, snk)"
proof -
  let ?s = "machine_start t (c # l) snk"
  let ?s' = "?s\<lparr>buf := l, keep_parsing := False\<rparr>"
  have "tokenize_step t cb ?s = ?s'"
    using assms by (simp add: step_single machine_start_def start_field_def end_iteration_def end_line_def)
  then have "tokenize_loop t cb ?s = Some ?s'"
    using loop_step [of ?s t cb] loop_end [of ?s' t cb] by (simp add: machine_start_def)
  with assms(1) show ?thesis
    by (simp add: tokenize_line_impl_def delimited_def tokenize_cleanup_def machine_start_def)
qed

text \<open>
  C30. A string that starts with the comment character of the reader is written without quotes when
  the writer does not quote everything and the string has no other special character; the reader
  takes the line that starts with it for a comment and the row is lost.
\<close>

theorem csv_comment_row_lost:
  assumes "w_quote_level w \<noteq> QUOTE_ALL" and "\<not> list_ex (special_character w) (c # cs)"
    and "w_quote_char w \<notin> set (c # cs)" and "delimited t d" and "has_comment_char t" and "comment_char t = c"
    and "c \<noteq> quote_char t" and "c \<noteq> d" and "\<not> is_space_but_not_tab c"
  shows "\<exists>l. snd (csv_write to_str w (Flex_string (c # cs) # row) []) = (c # cs) @ l
    \<and> tokenize_line_typed p t ((c # cs) @ l) output permit_undefined output_order = Some (0, t, output)"
proof -
  have "csv_print to_str w (Flex_string (c # cs)) ae [] = (w, c # cs)" for ae
    using assms(1-3) by (simp add: csv_print_def csv_print_string_def Let_def list_ex_iff)
  moreover obtain l where "snd (csv_write_row to_str w (1 < length (Flex_string (c # cs) # row)) row
      ((c # cs) @ (if row \<noteq> [] then w_delimiter w else []))) = ((c # cs) @ (if row \<noteq> [] then w_delimiter w else [])) @ l"
    using csv_write_row_appends by blast
  ultimately have "\<exists>l. snd (csv_write to_str w (Flex_string (c # cs) # row) []) = (c # cs) @ l"
    by (auto simp: csv_write_def Let_def split: prod.splits)
  moreover have "tokenize_line_typed p t ((c # cs) @ l) output permit_undefined output_order = Some (0, t, output)" for l
    by (simp add: tokenize_line_typed_def comment_line [OF assms(4-9)])
  ultimately show ?thesis by blast
qed

theorem csv_comment_row_lost_witness:
  "\<exists>l. snd (csv_write (\<lambda>_. []) csv_writer_new [Flex_string [35, 49], Flex_string [97]] []) = [35, 49] @ l
    \<and> tokenize_line_typed decimal_parser comma_tokenizer ([35, 49] @ l) [Flex_string [], Flex_string []] False None
        = Some (0, comma_tokenizer, [Flex_string [], Flex_string []])"
proof -
  have t: "has_comment_char comma_tokenizer" "comment_char comma_tokenizer = 35" "35 \<noteq> quote_char comma_tokenizer"
    by (simp_all add: csv_init_def csv_line_tokenizer_new_def Let_def characters)
  have w: "w_quote_level csv_writer_new \<noteq> QUOTE_ALL" "\<not> list_ex (special_character csv_writer_new) [35, 49]"
    "w_quote_char csv_writer_new \<notin> set [35, 49]"
    by (simp_all add: csv_writer_new_def special_character_def characters)
  have "35 \<noteq> (44 :: u8)" "\<not> is_space_but_not_tab 35" by (simp_all add: is_space_but_not_tab_def isspace_def)
  from csv_comment_row_lost [OF w comma_tokenizer_delimited t this, of "\<lambda>_. []" "[Flex_string [97]]"] show ?thesis
    by blast
qed

end
