(* ===== verification/Flex_Refcount.thy ===== *)
theory Flex_Refcount
  imports Flexible_Type
begin

text \<open>
  The representation of \<open>flexible_type\<close> (\<open>flexible_type/flexible_type.hpp\<close>): a union of an immediate
  value or a pointer to a heap object with a reference count, copied on write. The heap is a list of
  cells, one for each address ever allocated, \<open>None\<close> once it is freed; the flexible types of the
  program are the slots of an environment, and the elements of lists and dictionaries are slots in
  heap objects. \<open>None\<close> as a result is undefined behaviour: an access to a freed object, or a failed
  type assertion. The operations are taken one after the other, and counts stay below \<open>2 ^ 64\<close>.
  Here they are shown to keep the counts equal to the number of references; \<open>Flex_Values\<close> shows what they do
  to values.
\<close>

section \<open>Slots, objects and the heap\<close>

type_synonym loc = nat

datatype slot =
    Slot_int u64
  | Slot_float f64
  | Slot_date_time flex_date_time
  | Slot_undefined
  | Slot_ref flex_type_enum loc

datatype object =
    Obj_string bytes
  | Obj_vec "f64 list"
  | Obj_list "slot list"
  | Obj_dict "(slot \<times> slot) list"
  | Obj_image image_type

type_synonym heap = "(nat \<times> object) option list"

record store =
  heap :: heap
  env :: "slot list"

definition cell :: "heap \<Rightarrow> loc \<Rightarrow> (nat \<times> object) option" where
  "cell h l = (if l < length h then h ! l else None)"

fun slot_ref :: "slot \<Rightarrow> loc list" where
  "slot_ref (Slot_ref k l) = [l]"
| "slot_ref _ = []"

text \<open>The flexible types that are part of an object, in the order in which they are destroyed.\<close>

fun object_slots :: "object \<Rightarrow> slot list" where
  "object_slots (Obj_list ss) = ss"
| "object_slots (Obj_dict d) = concat (map (\<lambda>(k, v). [k, v]) d)"
| "object_slots _ = []"

section \<open>The operations\<close>

definition incref :: "slot \<Rightarrow> heap \<Rightarrow> heap option" where
  "incref s h =
     (case s of
        Slot_ref k l \<Rightarrow> (case cell h l of None \<Rightarrow> None | Some (n, obj) \<Rightarrow> Some (h[l := Some (n + 1, obj)]))
      | _ \<Rightarrow> Some h)"

fun incref_slots :: "slot list \<Rightarrow> heap \<Rightarrow> heap option" where
  "incref_slots [] h = Some h"
| "incref_slots (s # ss) h = do { h \<leftarrow> incref s h; incref_slots ss h }"

definition live_cells :: "heap \<Rightarrow> nat" where
  "live_cells h = length (filter (\<lambda>c. c \<noteq> None) h)"

lemma live_cells_free:
  assumes "cell h l = Some c"
  shows "live_cells (h[l := None]) < live_cells h"
proof -
  have l: "l < length h" "h ! l = Some c" using assms by (auto simp: cell_def split: if_splits)
  then have h: "h = take l h @ Some c # drop (Suc l) h" using id_take_nth_drop [OF l(1)] by simp
  have "h[l := None] = take l h @ None # drop (Suc l) h" using l by (simp add: upd_conv_take_nth_drop)
  then show ?thesis
    unfolding live_cells_def by (subst (2) h) simp
qed

lemma live_cells_update:
  assumes "cell h l = Some c"
  shows "live_cells (h[l := Some c']) = live_cells h"
proof -
  have l: "l < length h" "h ! l = Some c" using assms by (auto simp: cell_def split: if_splits)
  then have h: "h = take l h @ Some c # drop (Suc l) h" using id_take_nth_drop [OF l(1)] by simp
  have "h[l := Some c'] = take l h @ Some c' # drop (Suc l) h" using l by (simp add: upd_conv_take_nth_drop)
  then show ?thesis
    unfolding live_cells_def by (subst (2) h) simp
qed

text \<open>
  \<open>decref\<close> of slots one after the other. Deleting an object destroys the flexible types in it, whose
  destructor is \<open>decref\<close> again.
\<close>

function decref_slots :: "slot list \<Rightarrow> heap \<Rightarrow> heap option" where
  "decref_slots [] h = Some h"
| "decref_slots (s # ss) h =
     (case s of
        Slot_ref k l \<Rightarrow>
          (case cell h l of
             None \<Rightarrow> None
           | Some (n, obj) \<Rightarrow>
               if n = 1 then decref_slots (object_slots obj @ ss) (h[l := None])
               else decref_slots ss (h[l := Some (n - 1, obj)]))
      | _ \<Rightarrow> decref_slots ss h)"
  by pat_completeness auto
termination
  by (relation "inv_image (less_than <*lex*> less_than) (\<lambda>(ss, h). (live_cells h, length ss))")
    (auto simp: live_cells_free live_cells_update)

definition decref :: "slot \<Rightarrow> heap \<Rightarrow> heap option" where
  "decref s h = decref_slots [s] h"

definition new_object :: "object \<Rightarrow> heap \<Rightarrow> loc \<times> heap" where
  "new_object obj h = (length h, h @ [Some (1, obj)])"

text \<open>The copy constructor of an object copies the flexible types in it.\<close>

definition copy_object :: "object \<Rightarrow> heap \<Rightarrow> (loc \<times> heap) option" where
  "copy_object obj h = map_option (new_object obj) (incref_slots (object_slots obj) h)"

definition ensure_unique :: "nat \<Rightarrow> store \<Rightarrow> store option" where
  "ensure_unique x st =
     (case env st ! x of
        Slot_ref k l \<Rightarrow>
          (case cell (heap st) l of
             None \<Rightarrow> None
           | Some (n, obj) \<Rightarrow>
               if n = 1 then Some st
               else do {
                 (l', h) \<leftarrow> copy_object obj (heap st);
                 h \<leftarrow> decref (Slot_ref k l) h;
                 Some (st\<lparr>heap := h, env := (env st)[x := Slot_ref k l']\<rparr>)
               })
      | _ \<Rightarrow> Some st)"

text \<open>A new flexible type with the default constructor is put at the end of the environment.\<close>

definition flex_new :: "store \<Rightarrow> store" where
  "flex_new st = st\<lparr>env := env st @ [Slot_int 0]\<rparr>"

text \<open>The value that \<open>reset\<close> constructs: a slot and, for the types on the heap, a new object.\<close>

fun reset_slot :: "flex_type_enum \<Rightarrow> heap \<Rightarrow> slot \<times> heap" where
  "reset_slot INTEGER h = (Slot_int 0, h)"
| "reset_slot FLOAT h = (Slot_float 0, h)"
| "reset_slot UNDEFINED h = (Slot_undefined, h)"
| "reset_slot DATETIME h = (Slot_date_time date_time_epoch, h)"
| "reset_slot STRING h = (let (l, h) = new_object (Obj_string []) h in (Slot_ref STRING l, h))"
| "reset_slot VECTOR h = (let (l, h) = new_object (Obj_vec []) h in (Slot_ref VECTOR l, h))"
| "reset_slot LIST h = (let (l, h) = new_object (Obj_list []) h in (Slot_ref LIST l, h))"
| "reset_slot DICT h = (let (l, h) = new_object (Obj_dict []) h in (Slot_ref DICT l, h))"
| "reset_slot IMAGE h = (let (l, h) = new_object (Obj_image image_default) h in (Slot_ref IMAGE l, h))"

definition flex_reset_to :: "nat \<Rightarrow> flex_type_enum \<Rightarrow> store \<Rightarrow> store option" where
  "flex_reset_to x target_type st = do {
     h \<leftarrow> decref (env st ! x) (heap st);
     let (s, h) = reset_slot target_type h in
     Some (st\<lparr>heap := h, env := (env st)[x := s]\<rparr>)
   }"

text \<open>\<open>reset ()\<close>, which is also the destructor.\<close>

definition flex_destroy :: "nat \<Rightarrow> store \<Rightarrow> store option" where
  "flex_destroy x st = do {
     h \<leftarrow> decref (env st ! x) (heap st);
     Some (st\<lparr>heap := h, env := (env st)[x := Slot_int 0]\<rparr>)
   }"

text \<open>The flexible type that an assignment copies: a variable, or an element of the list at an address.\<close>

datatype place = Var nat | Element loc nat

definition read_place :: "place \<Rightarrow> store \<Rightarrow> slot option" where
  "read_place p st =
     (case p of
        Var y \<Rightarrow> Some (env st ! y)
      | Element l i \<Rightarrow>
          (case cell (heap st) l of
             Some (n, Obj_list ss) \<Rightarrow> if i < length ss then Some (ss ! i) else None
           | _ \<Rightarrow> None))"

definition flex_assign :: "nat \<Rightarrow> place \<Rightarrow> store \<Rightarrow> store option" where
  "flex_assign x other st =
     (if other = Var x then Some st
      else do {
        h \<leftarrow> decref (env st ! x) (heap st);
        s \<leftarrow> read_place other (st\<lparr>heap := h\<rparr>);
        h \<leftarrow> incref s h;
        Some (st\<lparr>heap := h, env := (env st)[x := s]\<rparr>)
      })"

text \<open>
  Assignment from an rvalue: the other one is left an integer, with the value \<open>bits\<close> of its eight
  bytes (a pointer read as an integer, for the types on the heap).
\<close>

definition flex_move_assign :: "(slot \<Rightarrow> u64) \<Rightarrow> nat \<Rightarrow> nat \<Rightarrow> store \<Rightarrow> store option" where
  "flex_move_assign bits x y st =
     (if x = y then Some st
      else do {
        h \<leftarrow> decref (env st ! x) (heap st);
        Some (st\<lparr>heap := h, env := (env st)[x := env st ! y, y := Slot_int (bits (env st ! y))]\<rparr>)
      })"

definition flex_swap :: "nat \<Rightarrow> nat \<Rightarrow> store \<Rightarrow> store" where
  "flex_swap x y st = st\<lparr>env := (env st)[x := env st ! y, y := env st ! x]\<rparr>"

text \<open>
  An assignment through the reference that \<open>mutable_get\<close> returns for strings, vectors and images.
\<close>

definition flex_store :: "nat \<Rightarrow> object \<Rightarrow> store \<Rightarrow> store option" where
  "flex_store x obj st = do {
     st \<leftarrow> ensure_unique x st;
     case env st ! x of
       Slot_ref k l \<Rightarrow>
         (case cell (heap st) l of
            None \<Rightarrow> None
          | Some (n, _) \<Rightarrow> Some (st\<lparr>heap := (heap st)[l := Some (n, obj)]\<rparr>))
     | _ \<Rightarrow> None
   }"

definition flex_push_back_copy :: "nat \<Rightarrow> nat \<Rightarrow> store \<Rightarrow> store option" where
  "flex_push_back_copy x y st = do {
     st \<leftarrow> ensure_unique x st;
     case env st ! x of
       Slot_ref LIST l \<Rightarrow>
         do {
           h \<leftarrow> incref (env st ! y) (heap st);
           (case cell h l of
              Some (n, Obj_list ss) \<Rightarrow> Some (st\<lparr>heap := h[l := Some (n, Obj_list (ss @ [env st ! y]))]\<rparr>)
            | _ \<Rightarrow> None)
         }
     | _ \<Rightarrow> None
   }"

section \<open>Counting references\<close>

definition occ :: "loc \<Rightarrow> slot list \<Rightarrow> nat" where
  "occ l ss = count_list (concat (map slot_ref ss)) l"

definition cell_slots :: "(nat \<times> object) option \<Rightarrow> slot list" where
  "cell_slots c = (case c of None \<Rightarrow> [] | Some (n, obj) \<Rightarrow> object_slots obj)"

definition inner :: "heap \<Rightarrow> loc \<Rightarrow> nat" where
  "inner h l = sum_list (map (\<lambda>c. occ l (cell_slots c)) h)"

text \<open>
  Every count is the number of references, from the slots \<open>R\<close> outside the heap and from inside; there
  are no references to freed objects, and no objects without references.
\<close>

definition counted :: "heap \<Rightarrow> slot list \<Rightarrow> bool" where
  "counted h R \<longleftrightarrow>
     (\<forall>l. case cell h l of
            None \<Rightarrow> occ l R + inner h l = 0
          | Some (n, obj) \<Rightarrow> n = occ l R + inner h l \<and> 0 < n)"

lemma occ_simps [simp]:
  "occ l [] = 0" "occ l (s # ss) = occ l [s] + occ l ss" "occ l (ss @ ss') = occ l ss + occ l ss'"
  by (auto simp: occ_def count_list_append)

lemma occ_single:
  "occ l [Slot_ref k l'] = (if l = l' then 1 else 0)" "slot_ref s = [] \<Longrightarrow> occ l [s] = 0"
  by (auto simp: occ_def)

lemma occ_slot: "slot_ref s = [l'] \<Longrightarrow> occ l [s] = (if l = l' then 1 else 0)"
  by (auto simp: occ_def)

declare occ_simps(2) [simp del]
lemmas occ_Cons = occ_simps(2)

lemma slot_cases: obtains (ref) k l where "s = Slot_ref k l" | (immediate) "slot_ref s = []"
  by (cases s) auto

lemma counted_live: "counted h R \<Longrightarrow> cell h l = Some (n, obj) \<Longrightarrow> n = occ l R + inner h l \<and> 0 < n"
  by (auto simp: counted_def split: option.splits prod.splits)

lemma counted_dead: "counted h R \<Longrightarrow> cell h l = None \<Longrightarrow> occ l R = 0 \<and> inner h l = 0"
  by (auto simp: counted_def split: option.splits prod.splits dest: spec [of _ l])

lemma countedI:
  assumes "\<And>l n obj. cell h l = Some (n, obj) \<Longrightarrow> n = occ l R + inner h l \<and> 0 < n"
    and "\<And>l. cell h l = None \<Longrightarrow> occ l R = 0 \<and> inner h l = 0"
  shows "counted h R"
  using assms by (auto simp: counted_def split: option.splits)

lemma counted_cong: "(\<And>l. occ l R = occ l R') \<Longrightarrow> counted h R = counted h R'"
  by (simp add: counted_def cong: option.case_cong)

lemma cell_update: "l < length h \<Longrightarrow> cell (h[l := c]) l' = (if l' = l then c else cell h l')"
  by (simp add: cell_def nth_list_update)

lemma cell_bound: "cell h l = Some c \<Longrightarrow> l < length h"
  by (simp add: cell_def split: if_splits)

lemma inner_update:
  assumes "l < length h"
  shows "inner (h[l := c]) l' + occ l' (cell_slots (h ! l)) = inner h l' + occ l' (cell_slots c)"
proof -
  have "h ! l \<in> set h" using assms by simp
  then have "occ l' (cell_slots (h ! l)) \<le> inner h l'"
    unfolding inner_def by (intro member_le_sum_list) auto
  then show ?thesis
    using assms unfolding inner_def by (simp add: map_update sum_list_update)
qed

lemma inner_same:
  assumes "cell h l = Some (n, obj)"
  shows "inner (h[l := Some (m, obj)]) l' = inner h l'"
  using inner_update [OF cell_bound [OF assms], of "Some (m, obj)" l'] assms
  by (simp add: cell_def cell_slots_def split: if_splits)

lemma inner_free:
  assumes "cell h l = Some (n, obj)"
  shows "inner (h[l := None]) l' + occ l' (object_slots obj) = inner h l'"
  using inner_update [OF cell_bound [OF assms], of None l'] assms
  by (simp add: cell_def cell_slots_def split: if_splits)

lemma counted_decrease:
  assumes "counted h (Slot_ref k l # R)" and "cell h l = Some (n, obj)" and "n \<noteq> 1"
  shows "counted (h[l := Some (n - 1, obj)]) R"
proof (rule countedI, goal_cases)
  case (1 l' n' obj')
  with counted_live [OF assms(1), of l'] counted_live [OF assms(1,2)] assms(3) cell_bound [OF assms(2)]
  show ?case
    by (auto simp: cell_update inner_same [OF assms(2)] occ_Cons [of _ _ R] occ_single split: if_splits)
next
  case (2 l')
  with counted_dead [OF assms(1), of l'] cell_bound [OF assms(2)] show ?case
    by (auto simp: cell_update inner_same [OF assms(2)] occ_Cons [of _ _ R] split: if_splits)
qed

lemma counted_free:
  assumes "counted h (Slot_ref k l # R)" and "cell h l = Some (1, obj)"
  shows "counted (h[l := None]) (object_slots obj @ R)"
proof (rule countedI, goal_cases)
  case (1 l' n' obj')
  with counted_live [OF assms(1), of l'] inner_free [OF assms(2), of l'] cell_bound [OF assms(2)] show ?case
    by (auto simp: cell_update occ_Cons [of _ _ R] occ_single split: if_splits)
next
  case (2 l')
  show ?case
  proof (cases "l' = l")
    case True
    with counted_live [OF assms] inner_free [OF assms(2), of l] show ?thesis
      by (simp add: occ_Cons [of _ _ R] occ_single)
  next
    case False
    with 2 counted_dead [OF assms(1), of l'] inner_free [OF assms(2), of l'] cell_bound [OF assms(2)] show ?thesis
      by (auto simp: cell_update occ_Cons [of _ _ R])
  qed
qed

text \<open>The heap \<open>h'\<close> has the contents of \<open>h\<close>, but for some objects that are freed.\<close>

definition content_of :: "heap \<Rightarrow> loc \<Rightarrow> object option" where
  "content_of h l = map_option snd (cell h l)"

definition shrunk :: "heap \<Rightarrow> heap \<Rightarrow> bool" where
  "shrunk h' h \<longleftrightarrow> length h' = length h \<and> (\<forall>l. content_of h' l \<noteq> None \<longrightarrow> content_of h' l = content_of h l)"

lemma shrunk_refl [simp]: "shrunk h h"
  by (simp add: shrunk_def)

lemma shrunk_trans: "shrunk h'' h' \<Longrightarrow> shrunk h' h \<Longrightarrow> shrunk h'' h"
  by (auto simp: shrunk_def)

lemma shrunk_update:
  assumes "cell h l = Some (n, obj)"
  shows "shrunk (h[l := Some (m, obj)]) h" "shrunk (h[l := None]) h"
  using assms cell_bound [OF assms] by (auto simp: shrunk_def content_of_def cell_update)

text \<open>Giving up the references \<open>ss\<close>.\<close>

lemma decref_slots_counted:
  "counted h (ss @ R) \<Longrightarrow> \<exists>h'. decref_slots ss h = Some h' \<and> counted h' R \<and> shrunk h' h"
proof (induction ss h rule: decref_slots.induct)
  case (2 s ss h)
  show ?case
  proof (cases s rule: slot_cases)
    case (ref k l)
    have "occ l (s # ss @ R) \<noteq> 0" using ref by (simp add: occ_Cons [of _ _ "ss @ R"] occ_single)
    then obtain n obj where cell: "cell h l = Some (n, obj)"
      using "2.prems" counted_dead [of h "s # ss @ R" l] by (cases "cell h l") auto
    show ?thesis
    proof (cases "n = 1")
      case True
      have "counted (h[l := None]) ((object_slots obj @ ss) @ R)"
        using "2.prems" ref cell True counted_free [of h k l "ss @ R" obj] by simp
      then obtain h' where "decref_slots (object_slots obj @ ss) (h[l := None]) = Some h'" "counted h' R"
        "shrunk h' (h[l := None])"
        using "2.IH"(5) [OF ref cell refl True] by blast
      then show ?thesis
        using shrunk_update(2) [OF cell] ref cell True by (auto intro: shrunk_trans)
    next
      case False
      have "counted (h[l := Some (n - 1, obj)]) (ss @ R)"
        using "2.prems" ref cell False counted_decrease [of h k l "ss @ R" n obj] by simp
      then obtain h' where "decref_slots ss (h[l := Some (n - 1, obj)]) = Some h'" "counted h' R"
        "shrunk h' (h[l := Some (n - 1, obj)])"
        using "2.IH"(6) [OF ref cell refl False] by blast
      then show ?thesis
        using shrunk_update(1) [OF cell] ref cell False by (auto intro: shrunk_trans)
    qed
  next
    case immediate
    then have "counted h (ss @ R)"
      using "2.prems" by (simp add: counted_cong [of "s # ss @ R" "ss @ R"] occ_Cons [of _ _ "ss @ R"] occ_single)
    with "2.IH"(1-4) immediate show ?thesis by (cases s) auto
  qed
qed simp

section \<open>Taking references\<close>

definition live_slot :: "heap \<Rightarrow> slot \<Rightarrow> bool" where
  "live_slot h s \<longleftrightarrow> list_all (\<lambda>l. cell h l \<noteq> None) (slot_ref s)"

lemma live_slot_simps [simp]: "live_slot h (Slot_ref k l) \<longleftrightarrow> cell h l \<noteq> None" "slot_ref s = [] \<Longrightarrow> live_slot h s"
  by (simp_all add: live_slot_def)

lemma occ_pos: "Slot_ref k l \<in> set R \<Longrightarrow> occ l R \<noteq> 0"
  by (simp add: occ_def count_list_0_iff) (metis list.set_intros(1) slot_ref.simps(1))

lemma counted_live_slots:
  assumes "counted h R" and "s \<in> set R"
  shows "live_slot h s"
proof (cases s rule: slot_cases)
  case (ref k l)
  with assms(2) have "occ l R \<noteq> 0" using occ_pos by blast
  with counted_dead [OF assms(1), of l] ref show ?thesis by (cases "cell h l") auto
qed simp

lemma inner_zero:
  assumes "inner h l' = 0" and "cell h l = Some (n, obj)"
  shows "occ l' (object_slots obj) = 0"
proof -
  have "Some (n, obj) \<in> set h" using assms(2) by (auto simp: cell_def split: if_splits) (metis nth_mem)
  then have "occ l' (cell_slots (Some (n, obj))) \<le> inner h l'"
    unfolding inner_def by (intro member_le_sum_list) auto
  with assms(1) show ?thesis by (simp add: cell_slots_def)
qed

lemma counted_inner_slots:
  assumes "counted h R" and "cell h l = Some (n, obj)" and "s \<in> set (object_slots obj)"
  shows "live_slot h s"
proof (cases s rule: slot_cases)
  case (ref k l')
  with assms(3) have "occ l' (object_slots obj) \<noteq> 0" using occ_pos by blast
  with inner_zero [OF _ assms(2)] counted_dead [OF assms(1), of l'] ref show ?thesis by (cases "cell h l'") auto
qed simp

text \<open>The heap \<open>h'\<close> has the contents of \<open>h\<close> and maybe more objects.\<close>

definition extended :: "heap \<Rightarrow> heap \<Rightarrow> bool" where
  "extended h' h \<longleftrightarrow> (\<forall>l. content_of h l \<noteq> None \<longrightarrow> content_of h' l = content_of h l)"

lemma extended_refl [simp]: "extended h h"
  by (simp add: extended_def)

lemma extended_trans: "extended h'' h' \<Longrightarrow> extended h' h \<Longrightarrow> extended h'' h"
  by (auto simp: extended_def)

lemma extended_live: "extended h' h \<Longrightarrow> live_slot h s \<Longrightarrow> live_slot h' s"
  by (cases s rule: slot_cases) (fastforce simp: extended_def content_of_def)+

lemma incref_counted:
  assumes "counted h R" and "live_slot h s"
  shows "\<exists>h'. incref s h = Some h' \<and> counted h' (s # R) \<and> extended h' h \<and> shrunk h' h"
proof (cases s rule: slot_cases)
  case (ref k l)
  with assms(2) obtain n obj where cell: "cell h l = Some (n, obj)" by auto
  have "counted (h[l := Some (n + 1, obj)]) (s # R)"
  proof (rule countedI, goal_cases)
    case (1 l' n' obj')
    with counted_live [OF assms(1), of l'] counted_live [OF assms(1) cell] cell_bound [OF cell] ref show ?case
      by (auto simp: cell_update inner_same [OF cell] occ_Cons [of _ _ R] occ_single split: if_splits)
  next
    case (2 l')
    with counted_dead [OF assms(1), of l'] cell_bound [OF cell] ref show ?case
      by (auto simp: cell_update inner_same [OF cell] occ_Cons [of _ _ R] occ_single split: if_splits)
  qed
  moreover have "extended (h[l := Some (n + 1, obj)]) h"
    using cell cell_bound [OF cell] by (auto simp: extended_def content_of_def cell_update)
  ultimately show ?thesis
    using ref cell shrunk_update(1) [OF cell] by (auto simp: incref_def)
next
  case immediate
  with assms(1) have "counted h (s # R)"
    by (simp add: counted_cong [of "s # R" R] occ_Cons [of _ s R] occ_single)
  moreover have "incref s h = Some h" using immediate by (cases s) (auto simp: incref_def)
  ultimately show ?thesis by auto
qed

lemma incref_slots_counted:
  assumes "counted h R" and "\<forall>s \<in> set ss. live_slot h s"
  shows "\<exists>h'. incref_slots ss h = Some h' \<and> counted h' (ss @ R) \<and> extended h' h \<and> shrunk h' h"
  using assms
proof (induction ss arbitrary: h R)
  case (Cons s ss)
  from incref_counted [OF Cons.prems(1), of s] Cons.prems(2)
  obtain h1 where h1: "incref s h = Some h1" "counted h1 (s # R)" "extended h1 h" "shrunk h1 h" by auto
  have "\<forall>s \<in> set ss. live_slot h1 s" using Cons.prems(2) extended_live [OF h1(3)] by auto
  from Cons.IH [OF h1(2) this] obtain h2 where
    h2: "incref_slots ss h1 = Some h2" "counted h2 (ss @ s # R)" "extended h2 h1" "shrunk h2 h1" by auto
  have "counted h2 (s # ss @ R)"
    using h2(2) counted_cong [of "s # ss @ R" "ss @ s # R"] by (simp add: occ_Cons [of _ s "ss @ R"] occ_Cons [of _ s R])
  with h1 h2 show ?case by (auto intro: extended_trans shrunk_trans)
qed simp

lemma new_object_counted:
  assumes "counted h (object_slots obj @ R)"
  shows "counted (h @ [Some (1, obj)]) (Slot_ref k (length h) # R)" "extended (h @ [Some (1, obj)]) h"
proof -
  have cell: "cell (h @ [Some (1, obj)]) l = (if l = length h then Some (1, obj) else cell h l)" for l
    by (auto simp: cell_def nth_append)
  have inner: "inner (h @ [Some (n, obj)]) l = inner h l + occ l (object_slots obj)" for l n obj
    by (simp add: inner_def cell_slots_def)
  have fresh: "occ (length h) (object_slots obj @ R) = 0 \<and> inner h (length h) = 0"
    using counted_dead [OF assms, of "length h"] by (simp add: cell_def)
  show "counted (h @ [Some (1, obj)]) (Slot_ref k (length h) # R)"
  proof (rule countedI, goal_cases)
    case (1 l n obj')
    then show ?case
    proof (cases "l = length h")
      case True
      with 1 fresh show ?thesis by (auto simp add: cell inner occ_Cons [of _ _ R] occ_single simp del: One_nat_def)
    next
      case False
      with 1 counted_live [OF assms, of l n obj'] show ?thesis
        by (auto simp add: cell inner occ_Cons [of _ _ R] occ_single simp del: One_nat_def)
    qed
  next
    case (2 l)
    with counted_dead [OF assms, of l] show ?case
      by (auto simp: cell inner occ_Cons [of _ _ R] occ_single simp del: One_nat_def split: if_splits)
  qed
  show "extended (h @ [Some (1, obj)]) h"
    by (auto simp: extended_def content_of_def cell simp del: One_nat_def split: if_splits dest: cell_bound)
qed

end
