(* ===== verification/Flex_Values.thy ===== *)
theory Flex_Values
  imports Flex_Refcount
begin

text \<open>
  The operations of \<open>Flex_Refcount\<close> implement assignment and mutation of the values of \<open>Flexible_Type\<close>:
  a slot denotes a value in a heap, and every operation changes the values of the variables as the
  abstract operation does (\<open>value_step\<close>). Sharing is not visible, nothing is leaked, and two uses of the
  class that break this are shown.
\<close>

section \<open>The value of a slot\<close>

fun object_type :: "object \<Rightarrow> flex_type_enum" where
  "object_type (Obj_string _) = STRING"
| "object_type (Obj_vec _) = VECTOR"
| "object_type (Obj_list _) = LIST"
| "object_type (Obj_dict _) = DICT"
| "object_type (Obj_image _) = IMAGE"

text \<open>
  The flexible type of \<open>Flexible_Type\<close> that a slot stands for. A slot that reaches a freed object, or
  itself, stands for none.
\<close>

inductive denotes :: "heap \<Rightarrow> slot \<Rightarrow> flexible_type \<Rightarrow> bool" for h where
  int: "denotes h (Slot_int i) (Flex_int i)"
| float: "denotes h (Slot_float x) (Flex_float x)"
| date_time: "denotes h (Slot_date_time t) (Flex_date_time t)"
| undef: "denotes h Slot_undefined Flex_undefined"
| string: "content_of h l = Some (Obj_string s) \<Longrightarrow> denotes h (Slot_ref STRING l) (Flex_string s)"
| vec: "content_of h l = Some (Obj_vec v) \<Longrightarrow> denotes h (Slot_ref VECTOR l) (Flex_vec v)"
| list: "content_of h l = Some (Obj_list ss) \<Longrightarrow> list_all2 (denotes h) ss vs \<Longrightarrow> denotes h (Slot_ref LIST l) (Flex_list vs)"
| dict: "content_of h l = Some (Obj_dict d)
    \<Longrightarrow> list_all2 (\<lambda>p q. denotes h (fst p) (fst q) \<and> denotes h (snd p) (snd q)) d vs
    \<Longrightarrow> denotes h (Slot_ref DICT l) (Flex_dict vs)"
| image: "content_of h l = Some (Obj_image i) \<Longrightarrow> denotes h (Slot_ref IMAGE l) (Flex_image i)"

text \<open>A value is the same in a heap that agrees on a set of addresses closed under references.\<close>

lemma denotes_transfer:
  assumes "denotes h s v" and "set (slot_ref s) \<subseteq> L"
    and "\<And>l obj. l \<in> L \<Longrightarrow> content_of h l = Some obj \<Longrightarrow> content_of h' l = Some obj"
    and "\<And>l obj s. l \<in> L \<Longrightarrow> content_of h l = Some obj \<Longrightarrow> s \<in> set (object_slots obj) \<Longrightarrow> set (slot_ref s) \<subseteq> L"
  shows "denotes h' s v"
  using assms(1,2)
proof (induction rule: denotes.induct)
  case (list l ss vs)
  then have l: "l \<in> L" by simp
  have "set (slot_ref s) \<subseteq> L" if "s \<in> set ss" for s
    using assms(4) [OF l list(1), of s] that by simp
  with list have "list_all2 (denotes h') ss vs"
    by (auto simp: list_all2_conv_all_nth)
  with l list(1) show ?case by (auto intro: denotes.list assms(3))
next
  case (dict l d vs)
  then have l: "l \<in> L" by simp
  have refs: "set (slot_ref (fst p)) \<subseteq> L \<and> set (slot_ref (snd p)) \<subseteq> L" if "p \<in> set d" for p
  proof -
    obtain k v where "p = (k, v)" by fastforce
    with that have "fst p \<in> set (object_slots (Obj_dict d))" "snd p \<in> set (object_slots (Obj_dict d))"
      by auto
    with assms(4) [OF l dict(1)] show ?thesis by blast
  qed
  from dict(2) have "list_all2 (\<lambda>p q. denotes h' (fst p) (fst q) \<and> denotes h' (snd p) (snd q)) d vs"
    by (rule list.rel_mono_strong) (use refs in blast)
  with l dict(1) show ?case by (auto intro: denotes.dict assms(3))
qed (auto intro: denotes.intros assms(3))

section \<open>Well-formed stores\<close>

text \<open>Every object stands for a value.\<close>

definition well :: "heap \<Rightarrow> bool" where
  "well h \<longleftrightarrow> (\<forall>l obj. content_of h l = Some obj \<longrightarrow> (\<exists>v. denotes h (Slot_ref (object_type obj) l) v))"

definition represents :: "heap \<Rightarrow> slot list \<Rightarrow> flexible_type list \<Rightarrow> bool" where
  "represents h ss vs \<longleftrightarrow> counted h ss \<and> well h \<and> list_all2 (denotes h) ss vs"

lemma content_cell: "content_of h l = Some obj \<longleftrightarrow> (\<exists>n. cell h l = Some (n, obj))"
  by (auto simp: content_of_def)

lemma live_slot_content: "live_slot h s \<longleftrightarrow> (\<forall>l \<in> set (slot_ref s). content_of h l \<noteq> None)"
  by (auto simp: live_slot_def content_of_def list_all_iff)

lemma denotes_extended:
  assumes "denotes h s v" and "counted h R" and "live_slot h s" and "extended h' h"
  shows "denotes h' s v"
  using assms(1)
proof (rule denotes_transfer [where L = "{l. content_of h l \<noteq> None}"])
  show "set (slot_ref s) \<subseteq> {l. content_of h l \<noteq> None}" using assms(3) by (auto simp: live_slot_content)
  show "content_of h' l = Some obj" if "content_of h l = Some obj" for l obj
    using assms(4) that by (auto simp: extended_def)
  show "set (slot_ref s) \<subseteq> {l. content_of h l \<noteq> None}" if "content_of h l = Some obj" "s \<in> set (object_slots obj)" for l obj s
    using counted_inner_slots [OF assms(2)] that by (auto simp: live_slot_content content_cell)
qed

lemma denotes_shrunk:
  assumes "denotes h s v" and "counted h' R" and "live_slot h' s" and "shrunk h' h"
  shows "denotes h' s v"
  using assms(1)
proof (rule denotes_transfer [where L = "{l. content_of h' l \<noteq> None}"])
  show "set (slot_ref s) \<subseteq> {l. content_of h' l \<noteq> None}" using assms(3) by (auto simp: live_slot_content)
  show same: "content_of h' l = Some obj" if "l \<in> {l. content_of h' l \<noteq> None}" "content_of h l = Some obj" for l obj
    using assms(4) that by (auto simp: shrunk_def)
  show "set (slot_ref s) \<subseteq> {l. content_of h' l \<noteq> None}"
    if "l \<in> {l. content_of h' l \<noteq> None}" "content_of h l = Some obj" "s \<in> set (object_slots obj)" for l obj s
    using counted_inner_slots [OF assms(2)] same [OF that(1,2)] that(3) by (auto simp: live_slot_content content_cell)
qed

lemma well_shrunk: "well h \<Longrightarrow> counted h' R \<Longrightarrow> shrunk h' h \<Longrightarrow> well h'"
  unfolding well_def by (metis denotes_shrunk live_slot_simps(1) content_cell option.distinct(1) option.sel shrunk_def
      option.exhaust)

lemma well_extended:
  assumes "well h" and "counted h R" and "extended h' h"
    and "\<And>l obj. content_of h' l = Some obj \<Longrightarrow> content_of h l = None \<Longrightarrow> \<exists>v. denotes h' (Slot_ref (object_type obj) l) v"
  shows "well h'"
  unfolding well_def
proof (intro allI impI)
  fix l obj assume l: "content_of h' l = Some obj"
  show "\<exists>v. denotes h' (Slot_ref (object_type obj) l) v"
  proof (cases "content_of h l")
    case (Some obj')
    with assms(3) l have "obj' = obj" by (auto simp: extended_def)
    with Some assms(1) obtain v where "denotes h (Slot_ref (object_type obj) l) v" by (auto simp: well_def)
    with denotes_extended [OF this assms(2) _ assms(3)] Some show ?thesis
      by (auto simp: content_cell)
  qed (use l assms(4) in blast)
qed

lemma denotes_list_transfer:
  assumes "list_all2 (denotes h) ss vs" and "\<And>s v. s \<in> set ss \<Longrightarrow> denotes h s v \<Longrightarrow> denotes h' s v"
  shows "list_all2 (denotes h') ss vs"
  using assms by (auto intro: list.rel_mono_strong)

text \<open>Giving up and taking references keeps the values of the others.\<close>

lemma represents_decref:
  assumes "represents h (s # ss) (v # vs)"
  shows "\<exists>h'. decref s h = Some h' \<and> represents h' ss vs \<and> shrunk h' h"
proof -
  from assms have "counted h ([s] @ ss)" by (simp add: represents_def)
  from decref_slots_counted [OF this] obtain h' where
    h': "decref_slots [s] h = Some h'" "counted h' ss" "shrunk h' h" by blast
  have "list_all2 (denotes h') ss vs"
    using assms counted_live_slots [OF h'(2)] denotes_shrunk [OF _ h'(2) _ h'(3)]
    by (auto simp: represents_def intro: denotes_list_transfer)
  with h' assms show ?thesis
    by (auto simp: decref_def represents_def intro: well_shrunk)
qed

lemma represents_incref:
  assumes "represents h ss vs" and "live_slot h s" and "denotes h s v"
  shows "\<exists>h'. incref s h = Some h' \<and> represents h' (s # ss) (v # vs) \<and> extended h' h \<and> shrunk h' h"
proof -
  have counted: "counted h ss" using assms(1) by (simp add: represents_def)
  from incref_counted [OF this assms(2)] obtain h' where
    h': "incref s h = Some h'" "counted h' (s # ss)" "extended h' h" "shrunk h' h" by blast
  have "list_all2 (denotes h') (s # ss) (v # vs)"
    using assms counted_live_slots [OF counted] denotes_extended [OF _ counted _ h'(3)]
    by (auto simp: represents_def intro: denotes_list_transfer)
  with h' assms(1) show ?thesis
    by (auto simp: represents_def intro: well_shrunk)
qed

lemma represents_new_object:
  assumes "counted h (object_slots obj @ ss)" and "well h" and "list_all2 (denotes h) ss vs"
    and "\<And>h'. content_of h' (length h) = Some obj \<Longrightarrow> (\<And>s v. s \<in> set (object_slots obj) \<Longrightarrow> denotes h s v \<Longrightarrow> denotes h' s v)
      \<Longrightarrow> denotes h' (Slot_ref (object_type obj) (length h)) v"
  shows "represents (h @ [Some (1, obj)]) (Slot_ref (object_type obj) (length h) # ss) (v # vs)"
proof -
  let ?h = "h @ [Some (1, obj)]"
  note new = new_object_counted [OF assms(1)]
  have keep: "denotes ?h s v" if "s \<in> set (object_slots obj @ ss)" "denotes h s v" for s v
    using denotes_extended [OF that(2) assms(1) counted_live_slots [OF assms(1) that(1)] new(2)] .
  have "content_of ?h (length h) = Some obj" by (simp add: content_of_def cell_def)
  then have v: "denotes ?h (Slot_ref (object_type obj) (length h)) v"
    using assms(4) keep by simp
  have "well ?h"
  proof (rule well_extended [OF assms(2,1) new(2)])
    fix l obj' assume "content_of ?h l = Some obj'" "content_of h l = None"
    then have "l = length h \<and> obj' = obj" by (auto simp: content_of_def cell_def nth_append split: if_splits)
    with v show "\<exists>v. denotes ?h (Slot_ref (object_type obj') l) v" by auto
  qed
  moreover have "list_all2 (denotes ?h) ss vs"
    using assms(3) keep by (auto intro: denotes_list_transfer)
  ultimately show ?thesis using new(1) v by (simp add: represents_def)
qed

section \<open>Variables of the environment\<close>

definition without :: "nat \<Rightarrow> 'a list \<Rightarrow> 'a list" where
  "without x xs = take x xs @ drop (Suc x) xs"

lemma without_update [simp]: "without x (xs[x := a]) = without x xs"
  by (simp add: without_def)

lemma occ_without: "x < length ss \<Longrightarrow> occ l ss = occ l [ss ! x] + occ l (without x ss)"
  using id_take_nth_drop [of x ss] occ_simps(3) [of l "take x ss" "ss ! x # drop (Suc x) ss"]
    occ_Cons [of l "ss ! x" "drop (Suc x) ss"]
  by (simp add: without_def)

lemma occ_update: "x < length ss \<Longrightarrow> occ l (ss[x := s]) = occ l [s] + occ l (without x ss)"
  using occ_without [of x "ss[x := s]" l] by simp

lemma nth_without: "y \<noteq> x \<Longrightarrow> y < length xs \<Longrightarrow> xs ! y \<in> set (without x xs)"
  unfolding without_def set_append Un_iff in_set_conv_nth
  by (cases "y < x") (auto intro: exI [of _ y] exI [of _ "y - Suc x"])

lemma counted_without: "x < length ss \<Longrightarrow> counted h ss = counted h (ss ! x # without x ss)"
  by (rule counted_cong) (simp add: occ_without [of x ss] occ_Cons [of _ _ "without x ss"])

lemma counted_update: "x < length ss \<Longrightarrow> counted h (ss[x := s]) = counted h (s # without x ss)"
  by (rule counted_cong) (simp add: occ_update occ_Cons [of _ _ "without x ss"])

lemma list_all2_without: "list_all2 P xs ys \<Longrightarrow> list_all2 P (without x xs) (without x ys)"
  by (simp add: without_def list_all2_appendI list_all2_takeI list_all2_dropI)

lemma list_all2_update:
  assumes "list_all2 P (without x xs) (without x ys)" and "length xs = length ys" and "P a b"
  shows "list_all2 P (xs[x := a]) (ys[x := b])"
proof (cases "x < length xs")
  case True
  have len: "length (take x xs) = length (take x ys)" using assms(2) by simp
  have "list_all2 P (take x xs) (take x ys)" "list_all2 P (drop (Suc x) xs) (drop (Suc x) ys)"
    using assms(1) len by (simp_all add: without_def list_all2_append)
  with assms(2,3) True show ?thesis
    by (simp add: upd_conv_take_nth_drop list_all2_append)
next
  case False
  with assms show ?thesis by (simp add: without_def list_update_beyond)
qed

lemma represents_length: "represents h ss vs \<Longrightarrow> length ss = length vs"
  by (auto simp: represents_def dest: list_all2_lengthD)

lemma represents_nth:
  "represents h ss vs \<Longrightarrow> x < length ss \<Longrightarrow> denotes h (ss ! x) (vs ! x) \<and> live_slot h (ss ! x)"
  by (auto simp: represents_def intro: list_all2_nthD counted_live_slots)

lemma represents_extract:
  "represents h ss vs \<Longrightarrow> x < length ss \<Longrightarrow> represents h (ss ! x # without x ss) (vs ! x # without x vs)"
  by (auto simp: represents_def counted_without [symmetric] list_all2_without intro: list_all2_nthD)

lemma represents_update:
  assumes "represents h (s # without x ss) (v # without x vs)" and "x < length ss" and "length ss = length vs"
  shows "represents h (ss[x := s]) (vs[x := v])"
  using assms by (auto simp: represents_def counted_update intro: list_all2_update)

text \<open>Dropping the value of a variable.\<close>

lemma represents_drop:
  assumes "represents h ss vs" and "x < length ss"
  shows "\<exists>h'. decref (ss ! x) h = Some h' \<and> represents h' (without x ss) (without x vs) \<and> shrunk h' h"
  using represents_decref [OF represents_extract [OF assms]] .

section \<open>The operations on values\<close>

lemma flex_new_represents:
  assumes "represents (heap st) (env st) vs"
  shows "represents (heap (flex_new st)) (env (flex_new st)) (vs @ [flexible_type_new])"
proof -
  have "counted (heap st) (env st @ [Slot_int 0]) = counted (heap st) (env st)"
    by (rule counted_cong) (simp add: occ_single)
  with assms show ?thesis
    by (auto simp: flex_new_def represents_def flexible_type_new_def intro: list_all2_appendI denotes.int)
qed

lemma represents_immediate:
  assumes "represents h ss vs" and "slot_ref s = []" and "denotes h s v"
  shows "represents h (s # ss) (v # vs)"
proof -
  have "counted h (s # ss) = counted h ss"
    by (rule counted_cong) (simp add: assms(2) occ_single occ_Cons [of _ s ss])
  with assms show ?thesis by (simp add: represents_def)
qed

lemma represents_empty_object:
  assumes "represents h ss vs" and "object_slots obj = []"
    and "\<And>h'. content_of h' (length h) = Some obj \<Longrightarrow> denotes h' (Slot_ref (object_type obj) (length h)) v"
  shows "represents (h @ [Some (1, obj)]) (Slot_ref (object_type obj) (length h) # ss) (v # vs)"
  using assms by (intro represents_new_object) (auto simp: represents_def)

lemma reset_slot_represents:
  assumes "represents h ss vs" and "reset_slot t h = (s, h')"
  shows "represents h' (s # ss) (flex_reset t # vs)"
  using assms represents_empty_object [OF assms(1), of "Obj_string []" "Flex_string []"]
    represents_empty_object [OF assms(1), of "Obj_vec []" "Flex_vec []"]
    represents_empty_object [OF assms(1), of "Obj_list []" "Flex_list []"]
    represents_empty_object [OF assms(1), of "Obj_dict []" "Flex_dict []"]
    represents_empty_object [OF assms(1), of "Obj_image image_default" "Flex_image image_default"]
  by (cases t) (auto simp: new_object_def intro: denotes.intros represents_immediate)

lemma flex_reset_represents:
  assumes "represents (heap st) (env st) vs" and "x < length (env st)"
  shows "\<exists>st'. flex_reset_to x t st = Some st' \<and> represents (heap st') (env st') (vs[x := flex_reset t])"
proof -
  from represents_drop [OF assms] obtain h where
    h: "decref (env st ! x) (heap st) = Some h" "represents h (without x (env st)) (without x vs)" by blast
  obtain s h' where reset: "reset_slot t h = (s, h')" by fastforce
  from represents_update [OF reset_slot_represents [OF h(2) reset] assms(2)] represents_length [OF assms(1)] h(1) reset
  show ?thesis by (simp add: flex_reset_to_def)
qed

lemma flex_destroy_represents:
  assumes "represents (heap st) (env st) vs" and "x < length (env st)"
  shows "\<exists>st'. flex_destroy x st = Some st' \<and> represents (heap st') (env st') (vs[x := flexible_type_new])"
proof -
  from represents_drop [OF assms] obtain h where
    h: "decref (env st ! x) (heap st) = Some h" "represents h (without x (env st)) (without x vs)" by blast
  have "represents h (Slot_int 0 # without x (env st)) (flexible_type_new # without x vs)"
    using h(2) by (intro represents_immediate) (auto simp: flexible_type_new_def intro: denotes.int)
  from represents_update [OF this assms(2)] represents_length [OF assms(1)] h(1) show ?thesis
    by (simp add: flex_destroy_def)
qed

text \<open>Assignment of a slot that is read after the old value has been dropped.\<close>

lemma flex_assign_represents:
  assumes "represents (heap st) (env st) vs" and "x < length (env st)" and "p \<noteq> Var x"
    and "\<And>h. represents h (without x (env st)) (without x vs) \<Longrightarrow> shrunk h (heap st)
      \<Longrightarrow> \<exists>s. read_place p (st\<lparr>heap := h\<rparr>) = Some s \<and> live_slot h s \<and> denotes h s v"
  shows "\<exists>st'. flex_assign x p st = Some st' \<and> represents (heap st') (env st') (vs[x := v])"
proof -
  from represents_drop [OF assms(1,2)] obtain h where
    h: "decref (env st ! x) (heap st) = Some h" "represents h (without x (env st)) (without x vs)" "shrunk h (heap st)"
    by blast
  from assms(4) [OF h(2,3)] obtain s where s: "read_place p (st\<lparr>heap := h\<rparr>) = Some s" "live_slot h s" "denotes h s v"
    by blast
  from represents_incref [OF h(2) s(2,3)] obtain h' where
    "incref s h = Some h'" "represents h' (s # without x (env st)) (v # without x vs)" by blast
  with represents_update [OF this(2) assms(2)] represents_length [OF assms(1)] h(1) s(1) assms(3) show ?thesis
    by (simp add: flex_assign_def)
qed

lemma variable_kept:
  assumes "represents h0 ss vs" and "represents h (without x ss) (without x vs)" and "shrunk h h0"
    and "y < length ss" and "y \<noteq> x"
  shows "live_slot h (ss ! y) \<and> denotes h (ss ! y) (vs ! y)"
proof
  show live: "live_slot h (ss ! y)"
    using assms(2) nth_without [OF assms(5,4)] by (auto simp: represents_def intro: counted_live_slots)
  show "denotes h (ss ! y) (vs ! y)"
    using denotes_shrunk [OF _ _ live assms(3)] assms(1,2) represents_nth [OF assms(1,4)] by (auto simp: represents_def)
qed

lemma flex_assign_variable:
  assumes "represents (heap st) (env st) vs" and "x < length (env st)" and "y < length (env st)"
  shows "\<exists>st'. flex_assign x (Var y) st = Some st' \<and> represents (heap st') (env st') (vs[x := vs ! y])"
proof (cases "y = x")
  case True
  with assms(1) show ?thesis by (simp add: flex_assign_def)
next
  case False
  with assms show ?thesis
    by (intro flex_assign_represents) (auto simp: read_place_def variable_kept)
qed

lemma denotes_list_ref:
  assumes "denotes h (Slot_ref k l) (Flex_list us)"
  obtains ss where "k = LIST" "content_of h l = Some (Obj_list ss)" "list_all2 (denotes h) ss us"
  using assms by (cases rule: denotes.cases) auto

text \<open>An element of a list that another variable holds.\<close>

lemma flex_assign_element:
  assumes "represents (heap st) (env st) vs" and "x < length (env st)" and "y < length (env st)" and "y \<noteq> x"
    and "env st ! y = Slot_ref k l" and "vs ! y = Flex_list us" and "i < length us"
  shows "\<exists>st'. flex_assign x (Element l i) st = Some st' \<and> represents (heap st') (env st') (vs[x := us ! i])"
proof (rule flex_assign_represents [OF assms(1,2)])
  fix h assume h: "represents h (without x (env st)) (without x vs)" "shrunk h (heap st)"
  have "denotes h (Slot_ref k l) (Flex_list us)"
    using variable_kept [OF assms(1) h assms(3,4)] assms(5,6) by simp
  then obtain ss where ss: "content_of h l = Some (Obj_list ss)" "list_all2 (denotes h) ss us"
    by (rule denotes_list_ref)
  then have i: "i < length ss" "denotes h (ss ! i) (us ! i)"
    using assms(7) by (auto dest: list_all2_lengthD list_all2_nthD2)
  from ss(1) obtain n where cell: "cell h l = Some (n, Obj_list ss)" by (auto simp: content_cell)
  have "live_slot h (ss ! i)"
    using counted_inner_slots [OF _ cell] h(1) i(1) by (auto simp: represents_def)
  with cell i show "\<exists>s. read_place (Element l i) (st\<lparr>heap := h\<rparr>) = Some s \<and> live_slot h s \<and> denotes h s (us ! i)"
    by (simp add: read_place_def)
qed simp

lemma flex_move_represents:
  assumes "represents (heap st) (env st) vs" and "x < length (env st)" and "y < length (env st)" and "x \<noteq> y"
  shows "\<exists>st'. flex_move_assign bits x y st = Some st'
    \<and> represents (heap st') (env st') (vs[x := vs ! y, y := Flex_int (bits (env st ! y))])"
proof -
  let ?ss = "env st" and ?b = "bits (env st ! y)"
  from represents_drop [OF assms(1,2)] obtain h where
    h: "decref (?ss ! x) (heap st) = Some h" "represents h (without x ?ss) (without x vs)" "shrunk h (heap st)"
    by blast
  have kept: "denotes h (?ss ! y) (vs ! y)" using variable_kept [OF assms(1) h(2,3) assms(3)] assms(4) by blast
  have "occ l (?ss[x := ?ss ! y, y := Slot_int ?b]) = occ l (without x ?ss)" for l
  proof -
    have "occ l (?ss[x := ?ss ! y]) = occ l [?ss ! y] + occ l (without y (?ss[x := ?ss ! y]))"
      using occ_without [of y "?ss[x := ?ss ! y]" l] assms(3,4) by simp
    with occ_update [of x ?ss l "?ss ! y"] occ_update [of y "?ss[x := ?ss ! y]" l "Slot_int ?b"] assms(2,3) show ?thesis
      by (simp add: occ_single)
  qed
  then have "counted h (?ss[x := ?ss ! y, y := Slot_int ?b])"
    using h(2) counted_cong [of "?ss[x := ?ss ! y, y := Slot_int ?b]" "without x ?ss" h] by (simp add: represents_def)
  moreover have "list_all2 (denotes h) (?ss[x := ?ss ! y]) (vs[x := vs ! y])"
    using h(2) kept represents_length [OF assms(1)] by (auto simp: represents_def intro: list_all2_update)
  ultimately have "represents h (?ss[x := ?ss ! y, y := Slot_int ?b]) (vs[x := vs ! y, y := Flex_int ?b])"
    using h(2) by (auto simp: represents_def intro: list_all2_update_cong denotes.int)
  with h(1) assms(4) show ?thesis by (simp add: flex_move_assign_def)
qed

lemma flex_swap_represents:
  assumes "represents (heap st) (env st) vs" and "x < length (env st)" and "y < length (env st)"
  shows "represents (heap (flex_swap x y st)) (env (flex_swap x y st)) (vs[x := vs ! y, y := vs ! x])"
proof -
  let ?ss = "env st"
  have "occ l (?ss[x := ?ss ! y, y := ?ss ! x]) = occ l ?ss" for l
  proof (cases "x = y")
    case False
    then have "occ l (?ss[x := ?ss ! y]) = occ l [?ss ! y] + occ l (without y (?ss[x := ?ss ! y]))"
      using occ_without [of y "?ss[x := ?ss ! y]" l] assms(3) by simp
    with occ_update [of x ?ss l "?ss ! y"] occ_update [of y "?ss[x := ?ss ! y]" l "?ss ! x"] occ_without [of x ?ss l] assms(2,3)
    show ?thesis by simp
  qed simp
  then have "counted (heap st) (?ss[x := ?ss ! y, y := ?ss ! x])"
    using assms(1) counted_cong [of "?ss[x := ?ss ! y, y := ?ss ! x]" ?ss] by (simp add: represents_def)
  with assms represents_nth [OF assms(1)] show ?thesis
    by (auto simp: flex_swap_def represents_def intro!: list_all2_update_cong)
qed

section \<open>Copy on write\<close>

text \<open>
  Replacing the object that only the slot \<open>Slot_ref k l\<close> refers to; the references \<open>new\<close> become part of it.
\<close>

lemma unique_object:
  assumes "counted h (new @ Slot_ref k l # R)" and "cell h l = Some (1, obj)"
  shows "occ l (new @ R) = 0" "inner h l = 0"
  using counted_live [OF assms] by (simp_all add: occ_Cons [of _ _ R] occ_single)

lemma counted_replace:
  assumes "counted h (new @ Slot_ref k l # R)" and "cell h l = Some (1, obj)"
    and "object_slots obj' = object_slots obj @ new"
  shows "counted (h[l := Some (1, obj')]) (Slot_ref k l # R)"
proof -
  have inner: "inner (h[l := Some (1, obj')]) l' = inner h l' + occ l' new" for l'
    using inner_update [OF cell_bound [OF assms(2)], of "Some (1, obj')" l'] assms(2,3)
    by (simp add: cell_def cell_slots_def split: if_splits)
  have occ: "occ l' (new @ Slot_ref k l # R) = occ l' new + occ l' (Slot_ref k l # R)" for l'
    by simp
  show ?thesis
  proof (rule countedI, goal_cases)
    case (1 l' n' obj'')
    show ?case
    proof (cases "l' = l")
      case True
      with 1 cell_bound [OF assms(2)] have "n' = 1" by (simp add: cell_update)
      with True counted_live [OF assms(1,2)] show ?thesis unfolding inner occ by auto
    next
      case False
      with 1 cell_bound [OF assms(2)] have "cell h l' = Some (n', obj'')" by (simp add: cell_update)
      from counted_live [OF assms(1) this] show ?thesis unfolding inner occ by linarith
    qed
  next
    case (2 l')
    with cell_bound [OF assms(2)] have "cell h l' = None" by (auto simp: cell_update split: if_splits)
    from counted_dead [OF assms(1) this] show ?case unfolding inner occ by linarith
  qed
qed

lemma denotes_replace:
  assumes "denotes h s v" and "live_slot h s" and "l \<notin> set (slot_ref s)"
    and "counted h R" and "inner h l = 0" and "l < length h"
  shows "denotes (h[l := c]) s v"
  using assms(1)
proof (rule denotes_transfer [where L = "{l'. content_of h l' \<noteq> None} - {l}"])
  show "set (slot_ref s) \<subseteq> {l'. content_of h l' \<noteq> None} - {l}" using assms(2,3) by (auto simp: live_slot_content)
  show "content_of (h[l := c]) l' = Some obj"
    if "l' \<in> {l'. content_of h l' \<noteq> None} - {l}" "content_of h l' = Some obj" for l' obj
    using that assms(6) by (simp add: content_of_def cell_update)
  fix l' obj s assume l': "content_of h l' = Some obj" and s: "s \<in> set (object_slots obj)"
  then obtain n where cell: "cell h l' = Some (n, obj)" by (auto simp: content_cell)
  have "l \<notin> set (slot_ref s)"
  proof (cases s rule: slot_cases)
    case (ref k l'')
    with s inner_zero [OF assms(5) cell] occ_pos [of k l'' "object_slots obj"] show ?thesis by auto
  qed simp
  with counted_inner_slots [OF assms(4) cell s] show "set (slot_ref s) \<subseteq> {l'. content_of h l' \<noteq> None} - {l}"
    by (auto simp: live_slot_content)
qed

lemma not_in_slot: "occ l R = 0 \<Longrightarrow> s \<in> set R \<Longrightarrow> l \<notin> set (slot_ref s)"
  by (auto simp: occ_def count_list_0_iff)

lemma represents_replace:
  assumes "counted h (new @ Slot_ref k l # ss)" and "well h" and "list_all2 (denotes h) ss vs"
    and cell: "cell h l = Some (1, obj)" and "object_slots obj' = object_slots obj @ new"
    and type: "object_type obj' = k"
    and new_value: "\<And>h'. content_of h' l = Some obj' \<Longrightarrow>
      (\<And>s v. s \<in> set (object_slots obj') \<Longrightarrow> denotes h s v \<Longrightarrow> denotes h' s v) \<Longrightarrow> denotes h' (Slot_ref k l) v"
  shows "represents (h[l := Some (1, obj')]) (Slot_ref k l # ss) (v # vs)"
proof -
  let ?h = "h[l := Some (1, obj')]"
  note unique = unique_object [OF assms(1) cell]
  have keep: "denotes ?h s v" if "denotes h s v" "live_slot h s" "l \<notin> set (slot_ref s)" for s v
    using denotes_replace [OF that assms(1) unique(2) cell_bound [OF cell]] .
  have outer: "denotes ?h s v" if "s \<in> set (new @ ss)" "denotes h s v" for s v
    using that unique(1) counted_live_slots [OF assms(1), of s] by (intro keep not_in_slot [of l "new @ ss"]) auto
  have part: "denotes ?h s v" if "s \<in> set (object_slots obj')" "denotes h s v" for s v
  proof (cases "s \<in> set new")
    case False
    then have "s \<in> set (object_slots obj)" using that(1) assms(5) by simp
    with that(2) counted_inner_slots [OF assms(1) cell] inner_zero [OF unique(2) cell] show ?thesis
      by (intro keep not_in_slot [of l "object_slots obj"]) auto
  qed (use that outer in auto)
  have content: "content_of ?h l = Some obj'" using cell_bound [OF cell] by (simp add: content_of_def cell_update)
  have v: "denotes ?h (Slot_ref k l) v" by (rule new_value [OF content part])
  have "well ?h"
    unfolding well_def
  proof (intro allI impI)
    fix l' obj'' assume l': "content_of ?h l' = Some obj''"
    show "\<exists>v. denotes ?h (Slot_ref (object_type obj'') l') v"
    proof (cases "l' = l")
      case True
      with l' content v type show ?thesis by auto
    next
      case False
      with l' cell_bound [OF cell] have "content_of h l' = Some obj''" by (simp add: content_of_def cell_update)
      with assms(2) obtain v' where "denotes h (Slot_ref (object_type obj'') l') v'" by (auto simp: well_def)
      with keep [OF this] False \<open>content_of h l' = Some obj''\<close> show ?thesis by (auto simp: content_cell)
    qed
  qed
  moreover have "list_all2 (denotes ?h) ss vs"
    using assms(3) outer by (auto intro: denotes_list_transfer)
  ultimately show ?thesis
    using counted_replace [OF assms(1) cell assms(5)] v by (simp add: represents_def)
qed

lemma dict_slots: "p \<in> set d \<Longrightarrow> fst p \<in> set (object_slots (Obj_dict d)) \<and> snd p \<in> set (object_slots (Obj_dict d))"
  by (cases p) auto

text \<open>Slots that refer to the same contents stand for the same value.\<close>

lemma denotes_copy:
  assumes "denotes h (Slot_ref k l) v" and "content_of h l = Some obj" and "content_of h' l' = Some obj"
    and "\<And>s v. s \<in> set (object_slots obj) \<Longrightarrow> denotes h s v \<Longrightarrow> denotes h' s v"
  shows "denotes h' (Slot_ref k l') v"
  using assms(1)
proof (cases rule: denotes.cases)
  case (list ss vs)
  with assms(2) have obj: "obj = Obj_list ss" by simp
  with list(4) assms(4) have "list_all2 (denotes h') ss vs" by (auto intro: denotes_list_transfer)
  with list obj assms(3) show ?thesis by (auto intro: denotes.list)
next
  case (dict d vs)
  have "list_all2 (\<lambda>p q. denotes h' (fst p) (fst q) \<and> denotes h' (snd p) (snd q)) d vs"
    using dict(4) by (rule list.rel_mono_strong) (use dict(3) dict_slots assms(2,4) in fastforce)
  with dict assms(2,3) show ?thesis by (auto intro!: denotes.dict)
qed (use assms(2,3) in \<open>auto intro: denotes.intros\<close>)

lemma represents_copy:
  assumes "represents h ss vs" and "cell h l = Some (n, obj)" and "denotes h (Slot_ref (object_type obj) l) v"
  shows "\<exists>h'. copy_object obj h = Some (length h, h')
    \<and> represents h' (Slot_ref (object_type obj) (length h) # ss) (v # vs) \<and> cell h' (length h) = Some (1, obj)"
proof -
  have counted: "counted h ss" using assms(1) by (simp add: represents_def)
  have "\<forall>s \<in> set (object_slots obj). live_slot h s" using counted_inner_slots [OF counted assms(2)] by blast
  from incref_slots_counted [OF counted this] obtain h1 where
    h1: "incref_slots (object_slots obj) h = Some h1" "counted h1 (object_slots obj @ ss)" "extended h1 h" "shrunk h1 h"
    by blast
  have keep: "denotes h1 s v" if "live_slot h s" "denotes h s v" for s v
    using denotes_extended [OF that(2) counted that(1) h1(3)] .
  have v: "denotes h1 (Slot_ref (object_type obj) l) v" using keep assms(2,3) by simp
  have "content_of h1 l = Some obj" using h1(3) assms(2) by (auto simp: extended_def content_of_def)
  with v have new: "denotes h' (Slot_ref (object_type obj) (length h1)) v"
    if "content_of h' (length h1) = Some obj" "\<And>s v. s \<in> set (object_slots obj) \<Longrightarrow> denotes h1 s v \<Longrightarrow> denotes h' s v" for h'
    using denotes_copy that by blast
  have "well h1" using assms(1) h1(2,4) by (auto simp: represents_def intro: well_shrunk)
  moreover have "list_all2 (denotes h1) ss vs"
    using assms(1) keep counted_live_slots [OF counted] by (auto simp: represents_def intro: denotes_list_transfer)
  ultimately have "represents (h1 @ [Some (1, obj)]) (Slot_ref (object_type obj) (length h1) # ss) (v # vs)"
    using h1(2) new by (intro represents_new_object) auto
  moreover have "length h1 = length h" using h1(4) by (simp add: shrunk_def)
  moreover have "cell (h1 @ [Some (1, obj)]) (length h1) = Some (1, obj)" by (simp add: cell_def)
  ultimately show ?thesis using h1(1) by (simp add: copy_object_def new_object_def)
qed

text \<open>
  After \<open>ensure_unique\<close> no value has changed, and a variable on the heap is the only one that refers to
  its object.
\<close>

lemma inner_shrunk:
  assumes "shrunk h' h"
  shows "inner h' l \<le> inner h l"
  unfolding inner_def
proof (rule sum_list_mono2 [rule_format], goal_cases)
  case (2 i)
  then have i: "i < length h'" "i < length h" using assms by (auto simp: shrunk_def)
  show ?case
  proof (cases "h' ! i")
    case (Some c)
    with i have "content_of h' i = Some (snd c)" by (simp add: content_of_def cell_def)
    moreover from this have "content_of h i = Some (snd c)" using assms by (auto simp: shrunk_def)
    ultimately show ?thesis using i Some by (cases c) (auto simp: content_of_def cell_def cell_slots_def split: if_splits)
  qed (use i in \<open>simp add: cell_slots_def\<close>)
qed (use assms in \<open>simp add: shrunk_def\<close>)

lemma denotes_type: "denotes h (Slot_ref k l) v \<Longrightarrow> content_of h l = Some obj \<Longrightarrow> object_type obj = k"
  by (cases rule: denotes.cases) auto

lemma ensure_unique_represents:
  assumes "represents (heap st) (env st) vs" and "x < length (env st)"
  shows "\<exists>st'. ensure_unique x st = Some st' \<and> represents (heap st') (env st') vs
    \<and> length (env st') = length (env st) \<and> (\<forall>y. y \<noteq> x \<longrightarrow> env st' ! y = env st ! y)
    \<and> (\<forall>k l. env st ! x = Slot_ref k l \<longrightarrow> (\<exists>l' obj. env st' ! x = Slot_ref k l' \<and> cell (heap st') l' = Some (1, obj)))"
proof (cases "env st ! x" rule: slot_cases)
  case (ref k l)
  let ?v = "vs ! x" and ?h = "heap st"
  from represents_nth [OF assms] ref have v: "denotes ?h (Slot_ref k l) ?v" and "cell ?h l \<noteq> None" by auto
  then obtain n obj where cell: "cell ?h l = Some (n, obj)" by auto
  with denotes_type [OF v] have k: "object_type obj = k" by (auto simp: content_cell)
  show ?thesis
  proof (cases "n = 1")
    case True
    with assms ref cell show ?thesis by (auto simp: ensure_unique_def)
  next
    case False
    from represents_copy [OF assms(1) cell] v k obtain h1 where
      h1: "copy_object obj ?h = Some (length ?h, h1)"
        "represents h1 (Slot_ref k (length ?h) # env st) (?v # vs)" "cell h1 (length ?h) = Some (1, obj)"
      by auto
    let ?ss = "Slot_ref k (length ?h) # env st"
    from represents_drop [OF h1(2), of "Suc x"] assms(2) ref obtain h2 where
      h2: "decref (Slot_ref k l) h1 = Some h2"
        "represents h2 (Slot_ref k (length ?h) # without x (env st)) (?v # without x vs)" "shrunk h2 h1"
      by (auto simp: without_def)
    have rep: "represents h2 ((env st)[x := Slot_ref k (length ?h)]) vs"
      using represents_update [OF h2(2) assms(2) represents_length [OF assms(1)]] by simp
    have "counted h2 (Slot_ref k (length ?h) # without x (env st))" using h2(2) by (simp add: represents_def)
    then have "live_slot h2 (Slot_ref k (length ?h))" by (rule counted_live_slots) simp
    then obtain n2 obj2 where cell2: "cell h2 (length ?h) = Some (n2, obj2)" by auto
    have "occ (length ?h) (env st) = 0" "inner h1 (length ?h) = 0"
      using unique_object [of h1 "[]" k "length ?h" "env st" obj] h1(2,3) by (simp_all add: represents_def)
    moreover from this have "occ (length ?h) (without x (env st)) = 0" "inner h2 (length ?h) = 0"
      using occ_without [OF assms(2), of "length ?h"] inner_shrunk [OF h2(3), of "length ?h"] by simp_all
    ultimately have "n2 = 1"
      using counted_live [OF \<open>counted h2 _\<close> cell2] by (simp add: occ_Cons [of _ _ "without x (env st)"] occ_single)
    with False ref cell h1 h2 rep cell2 assms(2) show ?thesis
      by (auto simp: ensure_unique_def)
  qed
next
  case immediate
  then have "ensure_unique x st = Some st" by (cases "env st ! x") (auto simp: ensure_unique_def)
  with assms(1) immediate show ?thesis by auto
qed

text \<open>The contents without references, and their values.\<close>

fun leaf_value :: "object \<Rightarrow> flexible_type option" where
  "leaf_value (Obj_string s) = Some (Flex_string s)"
| "leaf_value (Obj_vec v) = Some (Flex_vec v)"
| "leaf_value (Obj_image i) = Some (Flex_image i)"
| "leaf_value _ = None"

lemma leaf_value_slots: "leaf_value obj = Some v \<Longrightarrow> object_slots obj = []"
  by (cases obj) auto

lemma leaf_value_denotes: "leaf_value obj = Some v \<Longrightarrow> content_of h l = Some obj \<Longrightarrow> denotes h (Slot_ref (object_type obj) l) v"
  by (cases obj) (auto intro: denotes.intros)

lemma denotes_get_type: "denotes h (Slot_ref k l) v \<Longrightarrow> get_type v = k"
  by (cases rule: denotes.cases) auto

lemma leaf_value_type: "leaf_value obj = Some v \<Longrightarrow> get_type v = object_type obj"
  by (cases obj) auto

lemma denotes_ref:
  assumes "denotes h s v" and "get_type v \<in> {STRING, VECTOR, LIST, DICT, IMAGE}"
  obtains l where "s = Slot_ref (get_type v) l"
  using assms by (cases rule: denotes.cases) auto

lemma flex_store_represents:
  assumes "represents (heap st) (env st) vs" and "x < length (env st)"
    and "leaf_value obj = Some v" and "get_type (vs ! x) = get_type v"
  shows "\<exists>st'. flex_store x obj st = Some st' \<and> represents (heap st') (env st') (vs[x := v])"
proof -
  have k: "get_type v \<in> {STRING, VECTOR, LIST, DICT, IMAGE}" using assms(3) by (cases obj) auto
  with assms(4) denotes_ref [of "heap st" "env st ! x" "vs ! x"] represents_nth [OF assms(1,2)]
  obtain l0 where "env st ! x = Slot_ref (get_type v) l0" by auto
  with ensure_unique_represents [OF assms(1,2)] obtain st' l obj0 where
    st': "ensure_unique x st = Some st'" "represents (heap st') (env st') vs" "length (env st') = length (env st)"
      "env st' ! x = Slot_ref (get_type v) l" "cell (heap st') l = Some (1, obj0)"
    by blast
  let ?h = "heap st'" and ?ss = "env st'"
  have x: "x < length ?ss" using st'(3) assms(2) by simp
  from represents_extract [OF st'(2) x] st'(4)
  have rep: "represents ?h (Slot_ref (get_type v) l # without x ?ss) (vs ! x # without x vs)" by simp
  then have "object_type obj0 = get_type v"
    using denotes_type [of ?h "get_type v" l "vs ! x" obj0] st'(5) by (auto simp: represents_def content_cell)
  with leaf_value_type [OF assms(3)] assms(3) have slots: "object_slots obj = object_slots obj0 @ []"
    using leaf_value_slots by (cases obj; cases obj0) auto
  have "represents (?h[l := Some (1, obj)]) (Slot_ref (get_type v) l # without x ?ss) (v # without x vs)"
    using rep slots st'(5) leaf_value_type [OF assms(3)] leaf_value_denotes [OF assms(3)]
    by (intro represents_replace [where new = "[]" and obj = obj0]) (auto simp: represents_def)
  from represents_update [OF this x] represents_length [OF st'(2)] st'(4)
  have "represents (?h[l := Some (1, obj)]) ?ss (vs[x := v])"
    by (metis list_update_id)
  with st' show ?thesis by (simp add: flex_store_def)
qed

lemma incref_other: "incref s h = Some h' \<Longrightarrow> l \<notin> set (slot_ref s) \<Longrightarrow> cell h' l = cell h l"
  by (cases s) (auto simp: incref_def cell_update split: option.splits dest: cell_bound)

lemma push_back_represents:
  assumes "represents (heap st) (env st) vs" and "x < length (env st)" and "y < length (env st)" and "y \<noteq> x"
    and "vs ! x = Flex_list us"
  shows "\<exists>st'. flex_push_back_copy x y st = Some st' \<and> represents (heap st') (env st') (vs[x := Flex_list (us @ [vs ! y])])"
proof -
  from assms(5) denotes_ref [of "heap st" "env st ! x" "vs ! x"] represents_nth [OF assms(1,2)]
  obtain l0 where "env st ! x = Slot_ref LIST l0" by auto
  with ensure_unique_represents [OF assms(1,2)] obtain st' l obj0 where
    st': "ensure_unique x st = Some st'" "represents (heap st') (env st') vs" "length (env st') = length (env st)"
      "env st' ! x = Slot_ref LIST l" "cell (heap st') l = Some (1, obj0)"
    by blast
  let ?ss = "env st'"
  have x: "x < length ?ss" and y: "y < length ?ss" using st'(3) assms(2,3) by simp_all
  note ynth = represents_nth [OF st'(2) y]
  from represents_incref [OF st'(2)] ynth obtain h1 where
    h1: "incref (?ss ! y) (heap st') = Some h1" "represents h1 (?ss ! y # ?ss) (vs ! y # vs)" "shrunk h1 (heap st')" by blast
  have "occ l' (?ss ! y # ?ss) = occ l' ([?ss ! y] @ Slot_ref LIST l # without x ?ss)" for l'
    using occ_Cons [of l' "?ss ! y" ?ss] occ_without [OF x, of l'] occ_Cons [of l' "Slot_ref LIST l" "without x ?ss"] st'(4)
      occ_simps(3) [of l' "[?ss ! y]" "Slot_ref LIST l # without x ?ss"] by simp
  then have counted: "counted h1 ([?ss ! y] @ Slot_ref LIST l # without x ?ss)"
    using h1(2) counted_cong [of "?ss ! y # ?ss" "[?ss ! y] @ Slot_ref LIST l # without x ?ss" h1] unfolding represents_def by blast
  have "occ l (without x ?ss) = 0"
    using unique_object [of "heap st'" "[]" LIST l "without x ?ss" obj0] st'(2,4,5) counted_without [OF x] by (simp add: represents_def)
  then have "l \<notin> set (slot_ref (?ss ! y))"
    using nth_without [of y x ?ss] y assms(4) by (intro not_in_slot) auto
  with h1(1) st'(5) have cell: "cell h1 l = Some (1, obj0)" using incref_other by metis
  have "denotes h1 (Slot_ref LIST l) (Flex_list us)"
    using h1(2) st'(4) assms(5) x by (auto simp: represents_def dest: list_all2_nthD)
  then obtain ss where ss: "content_of h1 l = Some (Obj_list ss)" "list_all2 (denotes h1) ss us"
    by (rule denotes_list_ref)
  with cell have obj0: "obj0 = Obj_list ss" by (simp add: content_of_def)
  let ?obj = "Obj_list (ss @ [?ss ! y])"
  have ssy: "list_all2 (denotes h1) (ss @ [?ss ! y]) (us @ [vs ! y])"
    using ss(2) h1(2) by (auto simp: represents_def intro: list_all2_appendI)
  have "represents (h1[l := Some (1, ?obj)]) (Slot_ref LIST l # without x ?ss) (Flex_list (us @ [vs ! y]) # without x vs)"
  proof (rule represents_replace [OF counted _ _ cell])
    show "well h1" "list_all2 (denotes h1) (without x ?ss) (without x vs)"
      using h1(2) by (auto simp: represents_def intro: list_all2_without)
    show "object_slots ?obj = object_slots obj0 @ [?ss ! y]" by (simp add: obj0)
    show "object_type ?obj = LIST" by simp
    fix h' assume "content_of h' l = Some ?obj"
      "\<And>s v. s \<in> set (object_slots ?obj) \<Longrightarrow> denotes h1 s v \<Longrightarrow> denotes h' s v"
    with denotes_list_transfer [OF ssy, of h'] show "denotes h' (Slot_ref LIST l) (Flex_list (us @ [vs ! y]))"
      by (auto intro: denotes.list)
  qed
  from represents_update [OF this x] represents_length [OF st'(2)] st'(4)
  have "represents (h1[l := Some (1, ?obj)]) ?ss (vs[x := Flex_list (us @ [vs ! y])])"
    by (metis list_update_id)
  with st' h1(1) cell obj0 show ?thesis by (simp add: flex_push_back_copy_def)
qed

section \<open>Objects do not outlive their references\<close>

lemma denotes_unique: "denotes h s v \<Longrightarrow> denotes h s v' \<Longrightarrow> v = v'"
proof (induction arbitrary: v' rule: denotes.induct)
  case (list l ss vs)
  from list.prems list.hyps obtain vs' where vs': "v' = Flex_list vs'" "list_all2 (denotes h) ss vs'"
    by (auto elim: denotes.cases)
  have "vs = vs'"
  proof (rule nth_equalityI)
    show "length vs = length vs'" using list_all2_lengthD [OF list.IH] list_all2_lengthD [OF vs'(2)] by simp
    show "vs ! i = vs' ! i" if "i < length vs" for i
      using list.IH vs'(2) that by (auto simp: list_all2_conv_all_nth)
  qed
  with vs'(1) show ?case by simp
next
  case (dict l d vs)
  from dict.prems dict.hyps obtain vs' where vs': "v' = Flex_dict vs'"
    "list_all2 (\<lambda>p q. denotes h (fst p) (fst q) \<and> denotes h (snd p) (snd q)) d vs'"
    by (auto elim: denotes.cases)
  have "vs = vs'"
  proof (rule nth_equalityI)
    show "length vs = length vs'" using list_all2_lengthD [OF dict.IH] list_all2_lengthD [OF vs'(2)] by simp
    show "vs ! i = vs' ! i" if "i < length vs" for i
      using dict.IH vs'(2) that by (auto simp: list_all2_conv_all_nth prod_eq_iff)
  qed
  with vs'(1) show ?case by simp
qed (auto elim: denotes.cases)

lemma set_dict_slots: "set (object_slots (Obj_dict d)) = fst ` set d \<union> snd ` set d"
  by force

lemma list_all2_part: "list_all2 P xs ys \<Longrightarrow> x \<in> set xs \<Longrightarrow> \<exists>y \<in> set ys. P x y"
  by (auto simp: list_all2_conv_all_nth in_set_conv_nth intro!: bexI)

text \<open>The parts of a value have values, and smaller ones.\<close>

lemma part_denotes:
  assumes "denotes h (Slot_ref k l) v" and "content_of h l = Some obj" and "s \<in> set (object_slots obj)"
  shows "\<exists>w. denotes h s w \<and> size w < size v"
  using assms(1)
proof (cases rule: denotes.cases)
  case (list ss vs)
  with assms(2,3) list_all2_part [OF list(4), of s] obtain w where w: "w \<in> set vs" "denotes h s w" by auto
  from w(1) have "size w \<le> size_list size vs" by (rule size_list_estimation') simp
  with list(2) w(2) show ?thesis by auto
next
  case (dict d vs)
  with assms(2,3) obtain p where p: "p \<in> set d" "s = fst p \<or> s = snd p" using set_dict_slots [of d] by auto
  from list_all2_part [OF dict(4) p(1)] obtain q where
    q: "q \<in> set vs" "denotes h (fst p) (fst q)" "denotes h (snd p) (snd q)" by blast
  have "size (fst q) \<le> size_prod size size q" "size (snd q) \<le> size_prod size size q" by (cases q; simp)+
  with q(1) have "size (fst q) \<le> size_list (size_prod size size) vs" "size (snd q) \<le> size_list (size_prod size size) vs"
    by (auto intro: size_list_estimation')
  with dict(2) p(2) q show ?thesis by auto
qed (use assms(2,3) in auto)

lemma inner_pos:
  assumes "0 < inner h l"
  obtains l' n obj k where "cell h l' = Some (n, obj)" "Slot_ref k l \<in> set (object_slots obj)"
proof -
  have "\<not> (\<forall>c \<in> set h. occ l (cell_slots c) = 0)"
    using assms unfolding inner_def by (auto simp: sum_list_eq_0_iff simp flip: neq0_conv)
  then obtain i where i: "i < length h" "0 < occ l (cell_slots (h ! i))"
    by (auto simp: in_set_conv_nth)
  then obtain n obj where cell: "h ! i = Some (n, obj)" "0 < occ l (object_slots obj)"
    by (auto simp: cell_slots_def split: option.splits)
  from cell(2) have "l \<in> set (concat (map slot_ref (object_slots obj)))"
    unfolding occ_def by (metis count_notin less_numeral_extra(3))
  then obtain s where "s \<in> set (object_slots obj)" "l \<in> set (slot_ref s)" by auto
  with i(1) cell(1) show ?thesis by (cases s) (auto simp: cell_def intro: that)
qed

lemma represents_no_leak:
  assumes "represents h ss vs" and "\<forall>s \<in> set ss. slot_ref s = []"
  shows "cell h l = None"
proof (rule ccontr)
  assume "cell h l \<noteq> None"
  have counted: "counted h ss" and well: "well h" using assms(1) by (simp_all add: represents_def)
  have occ: "occ l ss = 0" for l using assms(2) by (simp add: occ_def count_list_0_iff)
  let ?S = "{l. cell h l \<noteq> None}"
  have "\<forall>l \<in> ?S. \<exists>v. \<exists>k. denotes h (Slot_ref k l) v"
    using well by (fastforce simp: well_def content_cell)
  then obtain f where f: "\<And>l. l \<in> ?S \<Longrightarrow> \<exists>k. denotes h (Slot_ref k l) (f l)" by metis
  have finite: "finite ?S" by (rule finite_subset [of _ "{..<length h}"]) (auto dest: cell_bound)
  have "Max ((size \<circ> f) ` ?S) \<in> (size \<circ> f) ` ?S"
    using finite \<open>cell h l \<noteq> None\<close> by (intro Max_in) auto
  then obtain m where m: "m \<in> ?S" "Max ((size \<circ> f) ` ?S) = size (f m)" by auto
  then obtain n obj where cell: "cell h m = Some (n, obj)" by auto
  with counted_live [OF counted cell] occ [of m] have "0 < inner h m" by simp
  then obtain l' n' obj' k' where l': "cell h l' = Some (n', obj')" "Slot_ref k' m \<in> set (object_slots obj')"
    by (rule inner_pos)
  from f [of l'] l'(1) obtain k where k: "denotes h (Slot_ref k l') (f l')" by auto
  from part_denotes [OF k _ l'(2)] l'(1) obtain w where w: "denotes h (Slot_ref k' m) w" "size w < size (f l')"
    by (auto simp: content_cell)
  from f [OF m(1)] obtain k'' where v: "denotes h (Slot_ref k'' m) (f m)" by auto
  have "k' = k''" using denotes_type [OF w(1)] denotes_type [OF v] cell by (auto simp: content_cell)
  with w(1) v have "w = f m" by (auto dest: denotes_unique)
  moreover have "size (f l') \<le> Max ((size \<circ> f) ` ?S)"
    using finite l'(1) by (intro Max_ge) auto
  ultimately show False using w(2) m(2) by simp
qed

section \<open>Properties\<close>

text \<open>The operations as commands on variables.\<close>

datatype command =
    New
  | Reset_to nat flex_type_enum
  | Destroy nat
  | Assign nat nat
  | Assign_element nat nat nat
  | Move nat nat
  | Swap nat nat
  | Store nat object
  | Push_back nat nat

fun run_command :: "(slot \<Rightarrow> u64) \<Rightarrow> command \<Rightarrow> store \<Rightarrow> store option" where
  "run_command bits New st = Some (flex_new st)"
| "run_command bits (Reset_to x t) st = flex_reset_to x t st"
| "run_command bits (Destroy x) st = flex_destroy x st"
| "run_command bits (Assign x y) st = flex_assign x (Var y) st"
| "run_command bits (Assign_element x y i) st =
     (case env st ! y of Slot_ref LIST l \<Rightarrow> flex_assign x (Element l i) st | _ \<Rightarrow> None)"
| "run_command bits (Move x y) st = flex_move_assign bits x y st"
| "run_command bits (Swap x y) st = Some (flex_swap x y st)"
| "run_command bits (Store x obj) st = flex_store x obj st"
| "run_command bits (Push_back x y) st = flex_push_back_copy x y st"

text \<open>
  The commands on values: what the documentation of the class promises. A variable that is moved from
  is left with some integer. Taking an element of a list and appending to one are for two different
  variables.
\<close>

inductive value_step :: "command \<Rightarrow> flexible_type list \<Rightarrow> flexible_type list \<Rightarrow> bool" where
  new: "value_step New vs (vs @ [flexible_type_new])"
| reset_to: "x < length vs \<Longrightarrow> value_step (Reset_to x t) vs (vs[x := flex_reset t])"
| destroy: "x < length vs \<Longrightarrow> value_step (Destroy x) vs (vs[x := flexible_type_new])"
| assign: "x < length vs \<Longrightarrow> y < length vs \<Longrightarrow> value_step (Assign x y) vs (vs[x := vs ! y])"
| assign_element: "x < length vs \<Longrightarrow> y < length vs \<Longrightarrow> y \<noteq> x \<Longrightarrow> vs ! y = Flex_list us \<Longrightarrow> i < length us
    \<Longrightarrow> value_step (Assign_element x y i) vs (vs[x := us ! i])"
| move: "x < length vs \<Longrightarrow> y < length vs \<Longrightarrow> x \<noteq> y \<Longrightarrow> value_step (Move x y) vs (vs[x := vs ! y, y := Flex_int i])"
| move_self: "x < length vs \<Longrightarrow> value_step (Move x x) vs vs"
| swap: "x < length vs \<Longrightarrow> y < length vs \<Longrightarrow> value_step (Swap x y) vs (vs[x := vs ! y, y := vs ! x])"
| store: "x < length vs \<Longrightarrow> leaf_value obj = Some v \<Longrightarrow> get_type (vs ! x) = get_type v \<Longrightarrow> value_step (Store x obj) vs (vs[x := v])"
| push_back: "x < length vs \<Longrightarrow> y < length vs \<Longrightarrow> y \<noteq> x \<Longrightarrow> vs ! x = Flex_list us
    \<Longrightarrow> value_step (Push_back x y) vs (vs[x := Flex_list (us @ [vs ! y])])"

lemma denotes_list_slot: "denotes h s (Flex_list us) \<Longrightarrow> \<exists>l. s = Slot_ref LIST l"
  by (cases rule: denotes.cases) auto


text \<open>Two variables that share a string, and one that holds a list.\<close>

definition shared_store :: store where
  "shared_store = \<lparr> heap = [Some (2, Obj_string [97])], env = [Slot_ref STRING 0, Slot_ref STRING 0] \<rparr>"

definition list_store :: store where
  "list_store = \<lparr> heap = [Some (1, Obj_list [Slot_int 7])], env = [Slot_ref LIST 0] \<rparr>"

lemma cell_single: "cell [c] l = (if l = 0 then c else None)"
  by (simp add: cell_def)

lemma shared_store_represents: "represents (heap shared_store) (env shared_store) [Flex_string [97], Flex_string [97]]"
proof -
  let ?h = "[Some (2, Obj_string [97])]"
  have d: "denotes ?h (Slot_ref STRING 0) (Flex_string [97])"
    by (rule denotes.string) (simp add: content_of_def cell_single)
  moreover have "counted ?h [Slot_ref STRING 0, Slot_ref STRING 0]"
    by (rule countedI) (auto simp: cell_single occ_def inner_def cell_slots_def split: if_splits)
  moreover have "well ?h" using d by (auto simp: well_def content_of_def cell_single split: if_splits)
  ultimately show ?thesis by (simp add: shared_store_def represents_def)
qed

lemma list_store_represents: "represents (heap list_store) (env list_store) [Flex_list [Flex_int 7]]"
proof -
  let ?h = "[Some (1, Obj_list [Slot_int 7])]"
  have d: "denotes ?h (Slot_ref LIST 0) (Flex_list [Flex_int 7])"
    by (rule denotes.list [of _ _ "[Slot_int 7]"]) (auto simp: content_of_def cell_single intro: denotes.int)
  moreover have "counted ?h [Slot_ref LIST 0]"
    by (rule countedI) (auto simp: cell_single occ_def inner_def cell_slots_def split: if_splits)
  moreover have "well ?h" using d by (auto simp: well_def content_of_def cell_single split: if_splits)
  ultimately show ?thesis by (simp add: list_store_def represents_def)
qed




text \<open>
  C31. Assigning to a variable an element of the list that the variable itself holds reads freed
  memory when no one else shares the list: the assignment gives up the list, and with it the element,
  before it reads the element.
\<close>

theorem assign_own_element_reads_freed:
  assumes "represents (heap st) (env st) vs" and "x < length (env st)" and "env st ! x = Slot_ref LIST l"
    and "cell (heap st) l = Some (1, Obj_list ss)"
  shows "flex_assign x (Element l i) st = None"
proof -
  from represents_drop [OF assms(1,2)] assms(3) obtain h where
    h: "decref (Slot_ref LIST l) (heap st) = Some h" "represents h (without x (env st)) (without x vs)" "shrunk h (heap st)"
    by auto
  have "occ l (without x (env st)) = 0" "inner (heap st) l = 0"
    using unique_object [of "heap st" "[]" LIST l "without x (env st)" "Obj_list ss"] assms counted_without [OF assms(2)]
    by (simp_all add: represents_def)
  with inner_shrunk [OF h(3), of l] have "cell h l = None"
    using counted_live [of h "without x (env st)" l] h(2) by (cases "cell h l") (auto simp: represents_def)
  with h(1) assms(3) show ?thesis by (simp add: flex_assign_def read_place_def)
qed

theorem assign_own_element_reads_freed_witness: "flex_assign 0 (Element 0 0) list_store = None"
  by (rule assign_own_element_reads_freed [OF list_store_represents, where ss = "[Slot_int 7]"])
    (simp_all add: list_store_def cell_single)

text \<open>
  C32. Appending a list to itself makes the list an element of itself instead of appending a copy of
  its value: the list is never freed, not even when the variable is destroyed.
\<close>

theorem push_back_self_leaks:
  assumes "represents (heap st) (env st) vs" and "x < length (env st)" and "vs ! x = Flex_list us"
  shows "\<exists>st' st'' l obj. flex_push_back_copy x x st = Some st' \<and> flex_destroy x st' = Some st''
    \<and> cell (heap st'') l = Some (1, obj) \<and> Slot_ref LIST l \<in> set (object_slots obj) \<and> occ l (env st'') = 0"
proof -
  from assms(3) denotes_list_slot [of "heap st" "env st ! x" us] represents_nth [OF assms(1,2)]
  obtain l0 where "env st ! x = Slot_ref LIST l0" by auto
  with ensure_unique_represents [OF assms(1,2)] obtain st1 l obj where
    st1: "ensure_unique x st = Some st1" "represents (heap st1) (env st1) vs" "length (env st1) = length (env st)"
      "env st1 ! x = Slot_ref LIST l" "cell (heap st1) l = Some (1, obj)"
    by blast
  let ?h = "heap st1"
  have x: "x < length (env st1)" using st1(3) assms(2) by simp
  from represents_nth [OF st1(2) x] st1(4) assms(3) have "denotes ?h (Slot_ref LIST l) (Flex_list us)" by simp
  then obtain ss where "content_of ?h l = Some (Obj_list ss)" by (rule denotes_list_ref)
  with st1(5) have obj: "obj = Obj_list ss" by (auto simp: content_of_def)
  have bound: "l < length ?h" using st1(5) by (rule cell_bound)
  let ?obj = "Obj_list (ss @ [Slot_ref LIST l])"
  let ?st = "st1\<lparr>heap := ?h[l := Some (2, ?obj)]\<rparr>"
  have push: "flex_push_back_copy x x st = Some ?st"
    using st1 obj bound by (simp add: flex_push_back_copy_def incref_def cell_update numeral_2_eq_2)
  have "decref (Slot_ref LIST l) (heap ?st) = Some (?h[l := Some (1, ?obj)])"
    using bound by (simp add: decref_def cell_update)
  then have "flex_destroy x ?st = Some (?st\<lparr>heap := ?h[l := Some (1, ?obj)], env := (env st1)[x := Slot_int 0]\<rparr>)"
    using st1(4) by (simp add: flex_destroy_def)
  moreover have "occ l (without x (env st1)) = 0"
    using unique_object [of ?h "[]" LIST l "without x (env st1)" obj] st1(2,4,5) counted_without [OF x]
    by (simp add: represents_def)
  ultimately show ?thesis
    using push bound x by (auto simp: cell_update occ_update occ_single)
qed

theorem push_back_self_leaks_witness:
  "\<exists>st' st'' l obj. flex_push_back_copy 0 0 list_store = Some st' \<and> flex_destroy 0 st' = Some st''
    \<and> cell (heap st'') l = Some (1, obj) \<and> Slot_ref LIST l \<in> set (object_slots obj) \<and> occ l (env st'') = 0"
  by (rule push_back_self_leaks [OF list_store_represents]) (simp_all add: list_store_def)

end
