(* ===== verification/Value_Mapper.thy ===== *)
theory Value_Mapper
  imports Prelude
begin

text \<open>
  \<open>util/generics/value_container_mapper.hpp\<close>, the lookup from a value to the container that holds
  it, which the space-saving sketch uses. The containers live outside the mapper and change under it:
  an entry of the table is valid only as long as the container it points to still holds the key it was
  filed under, and stale entries are dropped now and then. The table itself is
  \<open>google::dense_hash_set\<close>, a library outside the repository: it is a parameter of the operations,
  the record \<open>hash_set\<close>, and the locale \<open>hash_set_ops\<close> states its contract. The locale's lemmas show
  that the mapper answers as a map from values to containers would.

  Both specialisations of \<open>vc_hashkey\<close> answer false to \<open>use_explicit_delete()\<close>, a constant
  expression, so the branches for the deleted key are not part of any instance of the template and
  are left out here; so are the \<open>DASSERT\<close>s, which a release build drops.
\<close>

section \<open>Keys\<close>

text \<open>
  \<open>vc_hashkey<T>\<close>: the key of a value, the test for the key that the hash table reserves for empty
  buckets, whether equal keys mean equal values, and what a default-constructed \<open>hashkey_and_value\<close>
  holds. The general class keys by a 64-bit hash, the one
  for integers by the value itself. The operators \<open>==\<close> of the keys and of the values are equality.
\<close>

record ('v, 'k) key_traits =
  key_of :: "'v \<Rightarrow> 'k"
  is_empty_key :: "'k \<Rightarrow> bool"
  key_is_exact :: bool
  default_kv :: "'k \<times> 'v"

definition hashed_keys :: "('v \<Rightarrow> u64) \<Rightarrow> 'v \<Rightarrow> ('v, u64) key_traits" where
  "hashed_keys hash64 default_value =
     \<lparr>key_of = hash64, is_empty_key = (\<lambda>k. NOT k = 0), key_is_exact = False, default_kv = (0, default_value)\<rparr>"

definition integer_keys :: "('w::len word, 'w word) key_traits" where
  "integer_keys = \<lparr>key_of = (\<lambda>v. v), is_empty_key = (\<lambda>k. k = NOT 0), key_is_exact = True, default_kv = (0, 0)\<rparr>"

text \<open>The two ways in which a container can be addressed: a caller's container, or the mapper's own
  scratch container \<open>v_temp\<close>, which holds the value looked for.\<close>

datatype 'p cell = Null | Temp | At 'p

type_synonym ('k, 'p) internal_value = "'k \<times> 'p cell"

text \<open>What the containers hold, \<open>get_hashkey_and_value()\<close>; \<open>None\<close> for a pointer to no container.\<close>

type_synonym ('p, 'k, 'v) containers = "'p \<Rightarrow> ('k \<times> 'v) option"

primrec held_at :: "('p, 'k, 'v) containers \<Rightarrow> ('k \<times> 'v) option \<Rightarrow> 'p cell \<Rightarrow> ('k \<times> 'v) option" where
  "held_at held v_temp Null = None"
| "held_at held v_temp Temp = v_temp"
| "held_at held v_temp (At p) = held p"

definition gdhs_equality ::
    "('v, 'k) key_traits \<Rightarrow> ('p cell \<Rightarrow> ('k \<times> 'v) option) \<Rightarrow>
     ('k, 'p) internal_value \<Rightarrow> ('k, 'p) internal_value \<Rightarrow> bool" where
  "gdhs_equality K held x y =
     (if key_is_exact K then fst x = fst y
      else if fst x \<noteq> fst y then False
      else if snd x = Null \<and> snd y = Null then True
      else snd x \<noteq> Null \<and> snd y \<noteq> Null
        \<and> map_option fst (held (snd x)) = Some (fst x)
        \<and> map_option fst (held (snd y)) = Some (fst y)
        \<and> map_option snd (held (snd x)) = map_option snd (held (snd y)))"

section \<open>The hash table\<close>

text \<open>
  The operations of \<open>google::dense_hash_set\<close> that the mapper calls, with the equality functor as it
  is at the time of the call: \<open>clear\<close>, \<open>find\<close>, \<open>insert\<close> (the table and the element that the returned
  iterator points to), the assignment through an iterator, and the elements in iteration order.
\<close>

record ('e, 't) hash_set =
  hs_empty :: 't
  hs_find :: "('e \<Rightarrow> 'e \<Rightarrow> bool) \<Rightarrow> 'e \<Rightarrow> 't \<Rightarrow> 'e option"
  hs_insert :: "('e \<Rightarrow> 'e \<Rightarrow> bool) \<Rightarrow> 'e \<Rightarrow> 't \<Rightarrow> 't \<times> 'e"
  hs_assign :: "'e \<Rightarrow> 'e \<Rightarrow> 't \<Rightarrow> 't"
  hs_elems :: "'t \<Rightarrow> 'e list"

type_synonym ('k, 'p, 't) key_table = "(('k, 'p) internal_value, 't) hash_set"

section \<open>The mapper\<close>

text \<open>
  \<open>_kv_empty\<close> and its overflow stack hold the containers whose key is the reserved one; their
  \<open>first\<close> is always that key.
\<close>

record ('p, 't) value_container_mapper =
  reserved_size :: nat
  erase_counter :: nat
  kv_empty :: "'p option"
  kv_empty_overflow_stack :: "'p list"
  key_table :: 't

definition vcm_new :: "('k, 'p, 't) key_table \<Rightarrow> ('p, 't) value_container_mapper" where
  "vcm_new H = \<lparr>reserved_size = 0, erase_counter = 0, kv_empty = None,
     kv_empty_overflow_stack = [], key_table = hs_empty H\<rparr>"

definition vcm_reserve :: "nat \<Rightarrow> ('p, 't) value_container_mapper \<Rightarrow> ('p, 't) value_container_mapper" where
  "vcm_reserve n m = m\<lparr>reserved_size := 3 * n, erase_counter := 0\<rparr>"

definition vcm_clear :: "('k, 'p, 't) key_table \<Rightarrow> ('p, 't) value_container_mapper \<Rightarrow>
    ('p, 't) value_container_mapper" where
  "vcm_clear H m = m\<lparr>kv_empty := None, kv_empty_overflow_stack := [], key_table := hs_empty H\<rparr>"

definition vcm_size :: "('k, 'p, 't) key_table \<Rightarrow> ('p, 't) value_container_mapper \<Rightarrow> nat" where
  "vcm_size H m = (if kv_empty m = None then 0 else 1) + length (kv_empty_overflow_stack m)
     + length (hs_elems H (key_table m))"

definition insert_in_stack :: "('v, 'k) key_traits \<Rightarrow> 'p \<Rightarrow> ('p, 't) value_container_mapper \<Rightarrow>
    ('p, 't) value_container_mapper" where
  "insert_in_stack K p m =
     (if key_is_exact K then m\<lparr>kv_empty := Some p\<rparr>
      else if kv_empty m = None then m\<lparr>kv_empty := Some p\<rparr>
      else m\<lparr>kv_empty_overflow_stack := kv_empty_overflow_stack m @ [p]\<rparr>)"

text \<open>\<open>swap (stack[i], stack.back()); stack.pop_back()\<close>\<close>

definition swap_out :: "nat \<Rightarrow> 'p list \<Rightarrow> 'p list" where
  "swap_out i ps = butlast (ps[i := last ps])"

definition found_idx :: "('p, 'k, 'v) containers \<Rightarrow> 'p \<Rightarrow> 'p list \<Rightarrow> nat" where
  "found_idx held p ps =
     length (takeWhile (\<lambda>q. map_option snd (held q) \<noteq> map_option snd (held p)) ps)"

definition erase_in_stack :: "('v, 'k) key_traits \<Rightarrow> ('p, 'k, 'v) containers \<Rightarrow> 'p \<Rightarrow>
    ('p, 't) value_container_mapper \<Rightarrow> ('p, 't) value_container_mapper option" where
  "erase_in_stack K held p m =
     (let stack = kv_empty_overflow_stack m in
      if key_is_exact K then Some (m\<lparr>kv_empty := None\<rparr>)
      else case kv_empty m of
        None \<Rightarrow> None
      | Some b \<Rightarrow>
          if map_option snd (held b) = map_option snd (held p) then
            if stack = [] then Some (m\<lparr>kv_empty := None\<rparr>)
            else Some (m\<lparr>kv_empty := Some (last stack), kv_empty_overflow_stack := butlast stack\<rparr>)
          else
            let i = found_idx held p stack in
            if i < length stack then Some (m\<lparr>kv_empty_overflow_stack := swap_out i stack\<rparr>)
            else None)"

definition table_insert :: "('v, 'k) key_traits \<Rightarrow> ('k, 'p, 't) key_table \<Rightarrow> ('p, 'k, 'v) containers \<Rightarrow>
    ('k, 'p) internal_value \<Rightarrow> 't \<Rightarrow> 't \<times> ('k, 'p) internal_value" where
  "table_insert K H held x = hs_insert H (gdhs_equality K (held_at held None)) x"

definition vcm_insert :: "('v, 'k) key_traits \<Rightarrow> ('k, 'p, 't) key_table \<Rightarrow> ('p, 'k, 'v) containers \<Rightarrow>
    'k \<Rightarrow> 'p \<Rightarrow> ('p, 't) value_container_mapper \<Rightarrow> ('p, 't) value_container_mapper" where
  "vcm_insert K H held key p m =
     (if is_empty_key K key then insert_in_stack K p m
      else
        let (t, it) = table_insert K H held (key, At p) (key_table m)
        in m\<lparr>key_table := hs_assign H it (fst it, At p) t\<rparr>)"

definition refresh_hash_table :: "('v, 'k) key_traits \<Rightarrow> ('k, 'p, 't) key_table \<Rightarrow> ('p, 'k, 'v) containers \<Rightarrow>
    't \<Rightarrow> 't" where
  "refresh_hash_table K H held t =
     fold (\<lambda>it alt_table. if map_option fst (held_at held None (snd it)) = Some (fst it)
                          then fst (table_insert K H held it alt_table) else alt_table)
       (hs_elems H t) (hs_empty H)"

definition vcm_invalidate :: "('v, 'k) key_traits \<Rightarrow> ('k, 'p, 't) key_table \<Rightarrow> ('p, 'k, 'v) containers \<Rightarrow>
    'k \<Rightarrow> 'p \<Rightarrow> ('p, 't) value_container_mapper \<Rightarrow> ('p, 't) value_container_mapper option" where
  "vcm_invalidate K H held key p m =
     (if is_empty_key K key then erase_in_stack K held p m
      else
        let n = Suc (erase_counter m) in
        if reserved_size m \<le> n
        then Some (m\<lparr>erase_counter := 0, key_table := refresh_hash_table K H held (key_table m)\<rparr>)
        else Some (m\<lparr>erase_counter := n\<rparr>))"

definition find_in_stack :: "('p, 'k, 'v) containers \<Rightarrow> 'v \<Rightarrow> 'p option \<Rightarrow> 'p list \<Rightarrow> 'p option" where
  "find_in_stack held t kv_base stack =
     (case kv_base of
        None \<Rightarrow> None
      | Some b \<Rightarrow>
          if map_option snd (held b) = Some t then Some b
          else List.find (\<lambda>q. map_option snd (held q) = Some t) stack)"

definition vcm_find :: "('v, 'k) key_traits \<Rightarrow> ('k, 'p, 't) key_table \<Rightarrow> ('p, 'k, 'v) containers \<Rightarrow>
    'k \<Rightarrow> 'v \<Rightarrow> ('p, 't) value_container_mapper \<Rightarrow> 'p option" where
  "vcm_find K H held key t m =
     (if is_empty_key K key then
        if key_is_exact K then kv_empty m
        else find_in_stack held t (kv_empty m) (kv_empty_overflow_stack m)
      else
        case hs_find H (gdhs_equality K (held_at held (Some (key, t)))) (key, Temp) (key_table m) of
          Some (first, At p) \<Rightarrow> if map_option fst (held p) \<noteq> Some first then None else Some p
        | _ \<Rightarrow> None)"

section \<open>The contract of the hash table\<close>

text \<open>
  What the mapper relies on: for an equality functor under which equal elements have equal keys (and
  so equal hashes), \<open>find\<close> returns an equal element if there is one, \<open>insert\<close> adds the element if there is
  none, and assigning through an iterator replaces the element.
\<close>

locale hash_set_ops =
  fixes H :: "('k \<times> 'c, 't) hash_set"
  assumes elems_empty: "set (hs_elems H (hs_empty H)) = {}"
    and find_none: "(\<And>a b. eq a b \<Longrightarrow> fst a = fst b) \<Longrightarrow>
      hs_find H eq x t = None \<longleftrightarrow> (\<forall>y \<in> set (hs_elems H t). \<not> eq y x)"
    and find_some: "(\<And>a b. eq a b \<Longrightarrow> fst a = fst b) \<Longrightarrow>
      hs_find H eq x t = Some y \<Longrightarrow> y \<in> set (hs_elems H t) \<and> eq y x"
    and insert_present: "(\<And>a b. eq a b \<Longrightarrow> fst a = fst b) \<Longrightarrow> hs_insert H eq x t = (t', y) \<Longrightarrow>
      \<exists>z \<in> set (hs_elems H t). eq z x \<Longrightarrow> t' = t \<and> y \<in> set (hs_elems H t) \<and> eq y x"
    and insert_absent: "(\<And>a b. eq a b \<Longrightarrow> fst a = fst b) \<Longrightarrow> hs_insert H eq x t = (t', y) \<Longrightarrow>
      \<forall>z \<in> set (hs_elems H t). \<not> eq z x \<Longrightarrow> y = x \<and> set (hs_elems H t') = insert x (set (hs_elems H t))"
    and elems_assign: "e \<in> set (hs_elems H t) \<Longrightarrow>
      set (hs_elems H (hs_assign H e e' t)) = insert e' (set (hs_elems H t) - {e})"

text \<open>A list of elements without an order to rely on is such a table.\<close>

definition list_table :: "('e, 'e list) hash_set" where
  "list_table = \<lparr>hs_empty = [],
     hs_find = (\<lambda>eq x t. List.find (\<lambda>y. eq y x) t),
     hs_insert = (\<lambda>eq x t. case List.find (\<lambda>y. eq y x) t of Some y \<Rightarrow> (t, y) | None \<Rightarrow> (x # t, x)),
     hs_assign = (\<lambda>e e' t. e' # filter (\<lambda>y. y \<noteq> e) t),
     hs_elems = (\<lambda>t. t)\<rparr>"

interpretation list_table: hash_set_ops "list_table :: ('k \<times> 'c, ('k \<times> 'c) list) hash_set"
  by unfold_locales
     (auto simp: list_table_def find_None_iff find_Some_iff split: option.splits)

section \<open>The mapping between values and containers\<close>

text \<open>The containers filed under the reserved key, the base one first.\<close>

definition empty_key_cells :: "('p, 't) value_container_mapper \<Rightarrow> 'p list" where
  "empty_key_cells m = (case kv_empty m of None \<Rightarrow> [] | Some b \<Rightarrow> b # kv_empty_overflow_stack m)"

definition empty_holders :: "('v, 'k) key_traits \<Rightarrow> ('p, 'k, 'v) containers \<Rightarrow> 'p set \<Rightarrow> 'p set" where
  "empty_holders K held P = {p \<in> P. \<exists>kv. held p = Some kv \<and> is_empty_key K (fst kv)}"

text \<open>
  The mapper is in step with the set \<open>P\<close> of containers: they hold different values, each under the
  key of its value; those with the reserved key are in the empty slot or its stack, the others in the
  table; the table points only to containers, and an entry outside \<open>P\<close> is stale. \<open>X\<close> is the set of
  containers in transit, between \<open>invalidate\<close> and \<open>insert\<close>, whose entries are not relied upon.
\<close>

definition holders_in_step :: "('v, 'k) key_traits \<Rightarrow> ('p, 'k, 'v) containers \<Rightarrow> 'p set \<Rightarrow> bool" where
  "holders_in_step K held P \<longleftrightarrow> (\<forall>p \<in> P. \<exists>v. held p = Some (key_of K v, v)) \<and> inj_on held P"

definition cells_in_step :: "('v, 'k) key_traits \<Rightarrow> ('p, 'k, 'v) containers \<Rightarrow> 'p set \<Rightarrow>
    ('p, 't) value_container_mapper \<Rightarrow> bool" where
  "cells_in_step K held P m \<longleftrightarrow>
     set (empty_key_cells m) = empty_holders K held P \<and> distinct (empty_key_cells m)
   \<and> (kv_empty m = None \<or> key_is_exact K \<longrightarrow> kv_empty_overflow_stack m = [])"

definition table_in_step :: "('v, 'k) key_traits \<Rightarrow> ('p, 'k, 'v) containers \<Rightarrow>
    'p set \<Rightarrow> 'p set \<Rightarrow> ('k, 'p) internal_value set \<Rightarrow> bool" where
  "table_in_step K held P X E \<longleftrightarrow>
     (\<forall>p \<in> P. \<forall>k v. held p = Some (k, v) \<longrightarrow> \<not> is_empty_key K k \<longrightarrow> (k, At p) \<in> E)
   \<and> (\<forall>(k, c) \<in> E. \<exists>p k' v. c = At p \<and> held p = Some (k', v)
        \<and> \<not> is_empty_key K k \<and> (k' = k \<longrightarrow> p \<in> P \<union> X))
   \<and> (key_is_exact K \<longrightarrow> inj_on fst E)"

definition in_step :: "('v, 'k) key_traits \<Rightarrow> ('k, 'p, 't) key_table \<Rightarrow> ('p, 'k, 'v) containers \<Rightarrow>
    'p set \<Rightarrow> 'p set \<Rightarrow> ('p, 't) value_container_mapper \<Rightarrow> bool" where
  "in_step K H held P X m \<longleftrightarrow> holders_in_step K held P \<and> cells_in_step K held P m
     \<and> table_in_step K held P X (set (hs_elems H (key_table m)))"

lemmas in_step_defs = in_step_def holders_in_step_def cells_in_step_def table_in_step_def

lemma find_unique:
  "(\<And>x y. x \<in> set xs \<Longrightarrow> y \<in> set xs \<Longrightarrow> P x \<Longrightarrow> P y \<Longrightarrow> x = y) \<Longrightarrow>
   List.find P xs = Some p \<longleftrightarrow> p \<in> set xs \<and> P p"
  by (induction xs) (auto split: if_splits)

lemma takeWhile_stops: "x \<in> set xs \<Longrightarrow> \<not> P x \<Longrightarrow> length (takeWhile P xs) < length xs"
  by (induction xs) auto

lemma table_in_step_file:
  assumes S: "table_in_step K held P X S" and X: "X \<subseteq> {p}"
    and p: "held p = Some (k, v)" "\<not> is_empty_key K k"
    and E: "\<And>e. e \<in> E \<Longrightarrow> fst e = k" "\<And>e. e \<in> E \<Longrightarrow> \<not> key_is_exact K \<Longrightarrow> e = (k, At p)"
      "key_is_exact K \<Longrightarrow> {e \<in> S. fst e = k} \<subseteq> E"
    and fresh: "\<And>q w. key_is_exact K \<Longrightarrow> q \<in> P \<Longrightarrow> held q \<noteq> Some (k, w)"
  shows "table_in_step K held (insert p P) {} (insert (k, At p) (S - E))"
proof -
  have "(k', At q) \<in> insert (k, At p) (S - E)"
    if "q \<in> insert p P" "held q = Some (k', w)" "\<not> is_empty_key K k'" for q k' w
  proof (cases "q = p")
    case False
    then have "(k', At q) \<in> S" using that S by (simp add: table_in_step_def)
    then show ?thesis using E(1,2) [of "(k', At q)"] fresh [of q w] that False by fastforce
  qed (use that p in simp)
  moreover have "\<exists>q l w. c = At q \<and> held q = Some (l, w) \<and> \<not> is_empty_key K k'
      \<and> (l = k' \<longrightarrow> q \<in> insert p P \<union> {})" if "(k', c) \<in> insert (k, At p) (S - E)" for k' c
    using that S p X unfolding table_in_step_def by fastforce
  moreover have "inj_on fst (insert (k, At p) (S - E))" if "key_is_exact K"
    using that S E(3) by (auto simp: table_in_step_def inj_on_def)
  ultimately show ?thesis
    unfolding table_in_step_def by blast
qed

locale mapper = hash_set_ops H for H :: "('k, 'p, 't) key_table" +
  fixes K :: "('v, 'k) key_traits"
  assumes exact_keys: "key_is_exact K \<Longrightarrow> inj (key_of K)"
    and one_empty_key: "is_empty_key K k \<Longrightarrow> is_empty_key K k' \<Longrightarrow> k = k'"
begin

lemma equality_keys: "gdhs_equality K held a b \<Longrightarrow> fst a = fst b"
  by (auto simp: gdhs_equality_def split: if_splits)

lemma find_none_key:
  "hs_find H (gdhs_equality K held) x t = None \<longleftrightarrow>
     (\<forall>y \<in> set (hs_elems H t). \<not> gdhs_equality K held y x)"
  by (rule find_none) (rule equality_keys)

lemma find_some_key:
  "hs_find H (gdhs_equality K held) x t = Some y \<Longrightarrow>
     y \<in> set (hs_elems H t) \<and> gdhs_equality K held y x"
  by (rule find_some) (auto dest: equality_keys)

lemma in_step_clear: "in_step K H held {} X (vcm_clear H m)"
  by (simp add: in_step_defs vcm_clear_def empty_key_cells_def empty_holders_def elems_empty)

lemma in_step_inj:
  "in_step K H held P X m \<Longrightarrow> p \<in> P \<Longrightarrow> q \<in> P \<Longrightarrow> held p = held q \<Longrightarrow> p = q"
  by (auto simp: in_step_defs dest: inj_onD)

lemma in_step_holds: "in_step K H held P X m \<Longrightarrow> p \<in> P \<Longrightarrow> \<exists>v. held p = Some (key_of K v, v)"
  by (auto simp: in_step_defs)

lemma in_step_filed:
  "in_step K H held P X m \<Longrightarrow> p \<in> P \<Longrightarrow> held p = Some (k, v) \<Longrightarrow> \<not> is_empty_key K k \<Longrightarrow>
   (k, At p) \<in> set (hs_elems H (key_table m))"
  unfolding in_step_def table_in_step_def by blast

lemma in_step_entry:
  assumes "in_step K H held P X m" "e \<in> set (hs_elems H (key_table m))"
  obtains p v k where "e = (fst e, At p)" "held p = Some (k, v)" "k = fst e \<Longrightarrow> p \<in> P \<union> X"
    "\<not> is_empty_key K (fst e)"
proof -
  have "case e of (k, c) \<Rightarrow> \<exists>p k' v. c = At p \<and> held p = Some (k', v) \<and> \<not> is_empty_key K k
      \<and> (k' = k \<longrightarrow> p \<in> P \<union> X)"
    using assms unfolding in_step_def table_in_step_def by blast
  then show thesis by (cases e) (auto intro: that)
qed

text \<open>Two containers of an exact mapper with the same key are the same.\<close>

lemma same_key_same_container:
  assumes "in_step K H held P X m" "key_is_exact K" "p \<in> P" "q \<in> P"
    and "map_option fst (held p) = map_option fst (held q)"
  shows "p = q"
proof -
  obtain v w where "held p = Some (key_of K v, v)" "held q = Some (key_of K w, w)"
    using in_step_holds [OF assms(1)] assms(3,4) by blast
  then show ?thesis
    using assms exact_keys [OF assms(2)] in_step_inj [OF assms(1,3,4)] by (auto dest: injD)
qed

lemma exact_entry_is:
  assumes "in_step K H held P X m" "key_is_exact K" "e \<in> set (hs_elems H (key_table m))"
    and "p \<in> P" "held p = Some (fst e, v)" "\<not> is_empty_key K (fst e)"
  shows "e = (fst e, At p)"
proof (rule inj_onD)
  show "inj_on fst (set (hs_elems H (key_table m)))" using assms by (simp add: in_step_defs)
qed (use assms in_step_filed in auto)

lemma find_in_stack_cells:
  "kv_empty m = None \<longrightarrow> kv_empty_overflow_stack m = [] \<Longrightarrow>
   find_in_stack held t (kv_empty m) (kv_empty_overflow_stack m)
     = List.find (\<lambda>q. map_option snd (held q) = Some t) (empty_key_cells m)"
  by (auto simp: find_in_stack_def empty_key_cells_def split: option.splits)

lemma find_empty_key:
  assumes "in_step K H held P {} m" "is_empty_key K (key_of K t)"
  shows "vcm_find K H held (key_of K t) t m = Some p \<longleftrightarrow> p \<in> P \<and> held p = Some (key_of K t, t)"
proof -
  have cells: "q \<in> set (empty_key_cells m) \<longleftrightarrow> q \<in> P \<and> map_option fst (held q) = Some (key_of K t)" for q
    using assms one_empty_key by (fastforce simp: in_step_defs empty_holders_def)
  show ?thesis
  proof (cases "key_is_exact K")
    case True
    have "kv_empty_overflow_stack m = []" using assms True by (simp add: in_step_defs)
    then have "kv_empty m = Some p \<longleftrightarrow> p \<in> set (empty_key_cells m)"
      by (auto simp: empty_key_cells_def split: option.splits)
    then show ?thesis
      using True assms cells [of p] in_step_holds [OF assms(1), of p] exact_keys
      by (auto simp: vcm_find_def dest: injD)
  next
    case False
    have "vcm_find K H held (key_of K t) t m
        = List.find (\<lambda>q. map_option snd (held q) = Some t) (empty_key_cells m)"
      using assms False by (simp add: vcm_find_def find_in_stack_cells in_step_defs)
    moreover have "List.find (\<lambda>q. map_option snd (held q) = Some t) (empty_key_cells m) = Some p \<longleftrightarrow>
        p \<in> set (empty_key_cells m) \<and> map_option snd (held p) = Some t"
    proof (rule find_unique)
      fix x y assume "x \<in> set (empty_key_cells m)" "y \<in> set (empty_key_cells m)"
        "map_option snd (held x) = Some t" "map_option snd (held y) = Some t"
      then show "x = y"
        using cells [of x] cells [of y] in_step_inj [OF assms(1), of x y] by auto
    qed
    ultimately show ?thesis
      using cells [of p] by (auto simp: option.map_sel)
  qed
qed

lemma find_other_key:
  assumes "in_step K H held P {} m" "\<not> is_empty_key K (key_of K t)"
  shows "vcm_find K H held (key_of K t) t m = Some p \<longleftrightarrow> p \<in> P \<and> held p = Some (key_of K t, t)"
proof -
  let ?eq = "gdhs_equality K (held_at held (Some (key_of K t, t)))"
  have holder: "e = (key_of K t, At q) \<and> q \<in> P \<and> held q = Some (key_of K t, t)"
    if e: "e \<in> set (hs_elems H (key_table m))" and eq: "?eq e (key_of K t, Temp)"
      and live: "snd e = At q" "map_option fst (held q) = Some (fst e)" for e q
  proof -
    have q: "q \<in> P" "fst e = key_of K t"
      using in_step_entry [OF assms(1) e] live equality_keys [OF eq] by force+
    obtain v where "held q = Some (key_of K v, v)" using in_step_holds [OF assms(1) q(1)] by blast
    moreover have "v = t" if "key_is_exact K" "key_of K v = key_of K t"
      using that exact_keys by (auto dest: injD)
    ultimately show ?thesis
      using q eq live by (cases e) (auto simp: gdhs_equality_def split: if_splits)
  qed
  have match: "?eq (key_of K t, At q) (key_of K t, Temp)" if "held q = Some (key_of K t, t)" for q
    using that by (simp add: gdhs_equality_def)
  show ?thesis
  proof (cases "hs_find H ?eq (key_of K t, Temp) (key_table m)")
    case None
    then have "\<not> (p \<in> P \<and> held p = Some (key_of K t, t))"
      using find_none_key match [of p] in_step_filed [OF assms(1)] assms(2) by blast
    with None assms(2) show ?thesis by (simp add: vcm_find_def)
  next
    case (Some e)
    then have e: "e \<in> set (hs_elems H (key_table m))" "?eq e (key_of K t, Temp)"
      using find_some_key by blast+
    obtain q k v where q: "e = (fst e, At q)" "held q = Some (k, v)"
      using in_step_entry [OF assms(1) e(1)] by metis
    show ?thesis
    proof (cases "k = fst e")
      case True
      then have "vcm_find K H held (key_of K t) t m = Some q"
        using Some q assms(2) by (cases e) (simp add: vcm_find_def)
      moreover have "q \<in> P" "held q = Some (key_of K t, t)"
        using holder [OF e, of q] True q by (metis fst_conv option.simps(9) snd_conv)+
      ultimately show ?thesis using in_step_inj [OF assms(1), of q p] by auto
    next
      case False
      then have "vcm_find K H held (key_of K t) t m = None"
        using Some q assms(2) by (cases e) (simp add: vcm_find_def)
      moreover have exact: "key_is_exact K"
        using False q e(2) by (cases e) (auto simp: gdhs_equality_def split: if_splits)
      moreover have "\<not> (p \<in> P \<and> held p = Some (key_of K t, t))"
        using exact_entry_is [OF assms(1) exact e(1)] equality_keys [OF e(2)] assms(2) False q by force
      ultimately show ?thesis by simp
    qed
  qed
qed

text \<open>The lookup of a value finds the container that holds it, if any does.\<close>

theorem find_iff:
  assumes "in_step K H held P {} m"
  shows "vcm_find K H held (key_of K t) t m = Some p \<longleftrightarrow> p \<in> P \<and> held p = Some (key_of K t, t)"
  using assms find_empty_key find_other_key by blast

lemma find_none_iff:
  assumes "in_step K H held P {} m"
  shows "vcm_find K H held (key_of K t) t m = None \<longleftrightarrow> (\<forall>p \<in> P. held p \<noteq> Some (key_of K t, t))"
  using find_iff [OF assms] by (metis not_None_eq)

section \<open>Filing a container\<close>

lemma table_insert_present:
  "table_insert K H held x t = (t', y) \<Longrightarrow> z \<in> set (hs_elems H t) \<Longrightarrow>
   gdhs_equality K (held_at held None) z x \<Longrightarrow>
   t' = t \<and> y \<in> set (hs_elems H t) \<and> gdhs_equality K (held_at held None) y x"
  unfolding table_insert_def
  by (rule insert_present [of "gdhs_equality K (held_at held None)"]) (auto dest: equality_keys)

lemma table_insert_absent:
  "table_insert K H held x t = (t', y) \<Longrightarrow>
   \<forall>z \<in> set (hs_elems H t). \<not> gdhs_equality K (held_at held None) z x \<Longrightarrow>
   y = x \<and> set (hs_elems H t') = insert x (set (hs_elems H t))"
  unfolding table_insert_def
  by (rule insert_absent [of "gdhs_equality K (held_at held None)"]) (auto dest: equality_keys)

text \<open>
  Filing a container in the table replaces the entry under the same key of an exact mapper; it
  replaces nothing but an entry of the container itself otherwise.
\<close>

lemma filed_elems:
  assumes m: "in_step K H held P X m" and X: "X \<subseteq> {p}" "p \<notin> P"
    and p: "held p = Some (key_of K v, v)" "\<forall>q \<in> P. held q \<noteq> held p" "\<not> is_empty_key K (key_of K v)"
  obtains E where "set (hs_elems H (key_table (vcm_insert K H held (key_of K v) p m)))
      = insert (key_of K v, At p) (set (hs_elems H (key_table m)) - E)"
    and "\<And>e. e \<in> E \<Longrightarrow> fst e = key_of K v" "\<And>e. e \<in> E \<Longrightarrow> \<not> key_is_exact K \<Longrightarrow> e = (key_of K v, At p)"
    and "key_is_exact K \<Longrightarrow> {e \<in> set (hs_elems H (key_table m)). fst e = key_of K v} \<subseteq> E"
proof -
  let ?S = "set (hs_elems H (key_table m))" and ?eq = "gdhs_equality K (held_at held None)"
    and ?x = "(key_of K v, At p)"
  obtain t y where ins: "table_insert K H held ?x (key_table m) = (t, y)" by (metis surj_pair)
  have table: "key_table (vcm_insert K H held (key_of K v) p m) = hs_assign H y (fst y, At p) t"
    using p(3) ins by (simp add: vcm_insert_def)
  show ?thesis
  proof (cases "\<exists>z \<in> ?S. ?eq z ?x")
    case True
    then have y: "t = key_table m" "y \<in> ?S" "?eq y ?x"
      using table_insert_present [OF ins] by blast+
    have fst_y: "fst y = key_of K v" using equality_keys [OF y(3)] by simp
    obtain q k w where q: "y = (fst y, At q)" "held q = Some (k, w)" "k = fst y \<Longrightarrow> q \<in> P \<union> X"
      using in_step_entry [OF m y(2)] by metis
    have "y = ?x" if "\<not> key_is_exact K"
    proof -
      have "k = fst y" "w = v"
        using y(3) that q(1,2) p(1) by (cases y; auto simp: gdhs_equality_def split: if_splits)+
      then show ?thesis using q p X fst_y by (metis Un_iff singletonD subset_eq)
    qed
    moreover have "{e \<in> ?S. fst e = key_of K v} \<subseteq> {y}" if "key_is_exact K"
      using that m y(2) fst_y by (auto simp: in_step_defs inj_on_def)
    ultimately show ?thesis
      using that [of "{y}"] y fst_y elems_assign [OF y(2)] table by simp
  next
    case False
    then have "y = ?x" "set (hs_elems H t) = insert ?x ?S"
      using table_insert_absent [OF ins] by blast+
    then have "set (hs_elems H (key_table (vcm_insert K H held (key_of K v) p m))) = insert ?x (?S - {?x})"
      using elems_assign [of y t] table by auto
    then show ?thesis
      using that [of "{?x}"] False by (auto simp: gdhs_equality_def split: if_splits)
  qed
qed

lemma empty_holders_insert:
  "held p = Some (k, v) \<Longrightarrow> empty_holders K held (insert p P)
     = (if is_empty_key K k then insert p (empty_holders K held P) else empty_holders K held P)"
  by (auto simp: empty_holders_def)

lemma cells_insert_in_stack:
  assumes "in_step K H held P X m" "p \<notin> P" "\<forall>q \<in> P. held q \<noteq> held p"
    "held p = Some (key_of K v, v)" "is_empty_key K (key_of K v)"
  shows "empty_key_cells (insert_in_stack K p m) = empty_key_cells m @ [p]"
proof -
  have "kv_empty m = None" if "key_is_exact K"
  proof (rule ccontr)
    assume "kv_empty m \<noteq> None"
    then obtain b where "b \<in> empty_holders K held P"
      using assms(1) by (auto simp: in_step_defs empty_key_cells_def split: option.splits)
    then obtain w where b: "b \<in> P" "held b = Some (key_of K w, w)" "is_empty_key K (key_of K w)"
      using in_step_holds [OF assms(1), of b] by (auto simp: empty_holders_def)
    then have "w = v" using exact_keys [OF that] one_empty_key [of "key_of K w" "key_of K v"] assms(5) by (auto dest: injD)
    then show False using b assms(3,4) by auto
  qed
  then show ?thesis
    using assms(1) by (auto simp: insert_in_stack_def empty_key_cells_def in_step_defs split: option.splits)
qed

lemma vcm_insert_cells:
  "\<not> is_empty_key K k \<Longrightarrow> kv_empty (vcm_insert K H held k p m) = kv_empty m"
  "\<not> is_empty_key K k \<Longrightarrow>
     kv_empty_overflow_stack (vcm_insert K H held k p m) = kv_empty_overflow_stack m"
  "\<not> is_empty_key K k \<Longrightarrow> empty_key_cells (vcm_insert K H held k p m) = empty_key_cells m"
  by (simp_all add: vcm_insert_def empty_key_cells_def split_beta split: option.splits)

lemma in_step_insert:
  assumes m: "in_step K H held P X m" and X: "X \<subseteq> {p}" "p \<notin> P"
    and p: "held p = Some (key_of K v, v)" "\<forall>q \<in> P. held q \<noteq> held p"
  shows "in_step K H held (insert p P) {} (vcm_insert K H held (key_of K v) p m)"
proof -
  let ?k = "key_of K v" and ?S = "set (hs_elems H (key_table m))"
  have holders: "holders_in_step K held (insert p P)"
    using m p X(2) by (auto simp: in_step_def holders_in_step_def inj_on_insert)
  have table: "table_in_step K held P X ?S" using m by (simp add: in_step_def)
  show ?thesis
  proof (cases "is_empty_key K ?k")
    case True
    have "kv_empty_overflow_stack (insert_in_stack K p m) = []" if "key_is_exact K"
      using m that by (auto simp: insert_in_stack_def in_step_defs)
    moreover have "kv_empty (insert_in_stack K p m) \<noteq> None"
      using m by (auto simp: insert_in_stack_def in_step_defs)
    ultimately have "cells_in_step K held (insert p P) (insert_in_stack K p m)"
      using m True X(2) p(1) cells_insert_in_stack [OF m X(2) p(2,1) True]
      by (auto simp: in_step_def cells_in_step_def empty_holders_insert [of held, OF p(1)] empty_holders_def)
    moreover have "table_in_step K held (insert p P) {} ?S"
      using table X p(1) True by (force simp: table_in_step_def)
    ultimately show ?thesis
      using holders True by (simp add: in_step_def vcm_insert_def insert_in_stack_def)
  next
    case False
    have "cells_in_step K held (insert p P) (vcm_insert K H held ?k p m)"
      using m False empty_holders_insert [of held, OF p(1)]
      by (simp add: in_step_def cells_in_step_def vcm_insert_cells)
    moreover obtain E where E: "set (hs_elems H (key_table (vcm_insert K H held ?k p m))) = insert (?k, At p) (?S - E)"
      "\<And>e. e \<in> E \<Longrightarrow> fst e = ?k" "\<And>e. e \<in> E \<Longrightarrow> \<not> key_is_exact K \<Longrightarrow> e = (?k, At p)"
      "key_is_exact K \<Longrightarrow> {e \<in> ?S. fst e = ?k} \<subseteq> E"
      by (rule filed_elems [OF m X p False]) (rule that)
    have "table_in_step K held (insert p P) {} (insert (?k, At p) (?S - E))"
    proof (rule table_in_step_file [OF table X(1) p(1) False E(2-4)])
      show "held q \<noteq> Some (?k, w)" if "key_is_exact K" "q \<in> P" for q w
        using that in_step_holds [OF m, of q] p exact_keys by (auto simp: inj_eq)
    qed
    ultimately show ?thesis using holders E(1) by (simp add: in_step_def)
  qed
qed

section \<open>Dropping a container\<close>

lemma in_step_change:
  assumes "in_step K H held P {p} m" "p \<notin> P" "\<And>q. q \<noteq> p \<Longrightarrow> held' q = held q" "held' p \<noteq> None"
  shows "in_step K H held' P {p} m"
proof -
  have same: "held' q = held q" if "q \<in> P" for q using that assms(2,3) by metis
  have "holders_in_step K held' P" "cells_in_step K held' P m"
    using assms(1) by (auto simp: in_step_def holders_in_step_def cells_in_step_def empty_holders_def same inj_on_def)
  moreover have "table_in_step K held' P {p} (set (hs_elems H (key_table m)))"
  proof -
    have "\<exists>q k' v. c = At q \<and> held' q = Some (k', v) \<and> \<not> is_empty_key K k \<and> (k' = k \<longrightarrow> q \<in> P \<union> {p})"
      if kc: "(k, c) \<in> set (hs_elems H (key_table m))" for k c
    proof -
      obtain q v k' where "(k, c) = (fst (k, c), At q)" "held q = Some (k', v)"
        "k' = fst (k, c) \<Longrightarrow> q \<in> P \<union> {p}" "\<not> is_empty_key K (fst (k, c))"
        by (rule in_step_entry [OF assms(1) kc]) (rule that)
      then show ?thesis using assms(3) [of q] assms(4) by (cases "q = p") auto
    qed
    then show ?thesis using assms(1) unfolding in_step_def table_in_step_def by (auto simp: same)
  qed
  ultimately show ?thesis by (simp add: in_step_def)
qed

text \<open>Live entries are equal for the functor only if they are the same entry.\<close>

definition live_entry :: "('p \<Rightarrow> ('k \<times> 'v) option) \<Rightarrow> ('k, 'p) internal_value \<Rightarrow> bool" where
  "live_entry held e \<longleftrightarrow> map_option fst (held_at held None (snd e)) = Some (fst e)"

lemma live_entries_differ:
  assumes "in_step K H held P {} m" "e \<in> set (hs_elems H (key_table m))" "e' \<in> set (hs_elems H (key_table m))"
    and "live_entry held e" "live_entry held e'" "gdhs_equality K (held_at held None) e e'"
  shows "e = e'"
proof -
  obtain p k v where e: "e = (fst e, At p)" "held p = Some (k, v)" "k = fst e \<Longrightarrow> p \<in> P \<union> {}"
    using in_step_entry [OF assms(1,2)] by metis
  obtain p' k' v' where e': "e' = (fst e', At p')" "held p' = Some (k', v')" "k' = fst e' \<Longrightarrow> p' \<in> P \<union> {}"
    using in_step_entry [OF assms(1,3)] by metis
  have k: "k = fst e" "k' = fst e'" using assms(4,5) e e' by (cases e; cases e'; auto simp: live_entry_def)+
  have same: "fst e = fst e'" using equality_keys assms(6) by blast
  have "p = p'"
  proof (cases "key_is_exact K")
    case True
    then show ?thesis using same_key_same_container [OF assms(1) True, of p p'] e e' k same by simp
  next
    case False
    then have "v = v'" using assms(6) e e' by (cases e; cases e'; auto simp: gdhs_equality_def split: if_splits)
    then show ?thesis using in_step_inj [OF assms(1), of p p'] e e' k same by simp
  qed
  then show ?thesis using e e' same by metis
qed

lemma refresh_elems:
  assumes "in_step K H held P {} m"
  shows "set (hs_elems H (refresh_hash_table K H held (key_table m)))
    = {e \<in> set (hs_elems H (key_table m)). live_entry held e}"
proof -
  let ?S = "set (hs_elems H (key_table m))"
  have "set (hs_elems H (fold (\<lambda>it alt_table. if live_entry held it
          then fst (table_insert K H held it alt_table) else alt_table) xs t))
      = set (hs_elems H t) \<union> {e \<in> set xs. live_entry held e}"
    if "set xs \<subseteq> ?S" "set (hs_elems H t) \<subseteq> {e \<in> ?S. live_entry held e}" for xs t
    using that
  proof (induction xs arbitrary: t)
    case (Cons x xs)
    obtain t' y where ins: "table_insert K H held x t = (t', y)" by (metis surj_pair)
    have "set (hs_elems H t') = insert x (set (hs_elems H t))" if "live_entry held x"
    proof (cases "\<exists>z \<in> set (hs_elems H t). gdhs_equality K (held_at held None) z x")
      case True
      then obtain z where "z \<in> set (hs_elems H t)" "gdhs_equality K (held_at held None) z x" by blast
      moreover from this have "z = x"
        using Cons.prems that by (intro live_entries_differ [OF assms]) auto
      ultimately show ?thesis using table_insert_present [OF ins] by auto
    qed (use table_insert_absent [OF ins] in blast)
    then show ?case using Cons.IH [of "if live_entry held x then t' else t"] Cons.prems ins by auto
  qed simp
  from this [of "hs_elems H (key_table m)" "hs_empty H"] show ?thesis
    by (simp add: refresh_hash_table_def elems_empty live_entry_def)
qed

lemma table_in_step_live:
  assumes "table_in_step K held P {} S"
  shows "table_in_step K held P {} {e \<in> S. live_entry held e}"
proof -
  have "(k, At p) \<in> {e \<in> S. live_entry held e}"
    if "p \<in> P" "held p = Some (k, v)" "\<not> is_empty_key K k" for p k v
    using that assms unfolding table_in_step_def live_entry_def by auto
  then show ?thesis using assms unfolding table_in_step_def by (fast intro: inj_on_subset)
qed

lemma table_in_step_drop:
  "table_in_step K held P {} S \<Longrightarrow> table_in_step K held (P - {p}) {p} S"
  unfolding table_in_step_def by fastforce

lemma holders_in_step_drop: "holders_in_step K held P \<Longrightarrow> holders_in_step K held (P - {p})"
  by (auto simp: holders_in_step_def intro: inj_on_subset)

lemma swap_out_set:
  assumes "i < length ps" "distinct ps"
  shows "set (swap_out i ps) = set ps - {ps ! i}" "distinct (swap_out i ps)"
proof -
  obtain qs z where ps: "ps = qs @ [z]" using assms(1) by (cases ps rule: rev_cases) auto
  have "swap_out i ps = (if i < length qs then qs[i := z] else qs)"
    using assms(1) by (auto simp: swap_out_def ps list_update_append butlast_append split: nat.splits)
  then show "set (swap_out i ps) = set ps - {ps ! i}" "distinct (swap_out i ps)"
    using assms ps by (auto simp: set_update_distinct nth_append distinct_list_update)
qed

lemma erase_in_stack_in_step:
  assumes m: "in_step K H held P {} m" and p: "p \<in> P" "held p = Some (k, v)" "is_empty_key K k"
  shows "\<exists>m'. erase_in_stack K held p m = Some m' \<and> cells_in_step K held (P - {p}) m' \<and> key_table m' = key_table m"
proof -
  let ?C = "empty_key_cells m" and ?st = "kv_empty_overflow_stack m"
  have C: "set ?C = empty_holders K held P" "distinct ?C" "p \<in> set ?C"
    using m p by (auto simp: in_step_def cells_in_step_def empty_holders_def)
  have less: "empty_holders K held (P - {p}) = set ?C - {p}"
    using C(1) by (auto simp: empty_holders_def)
  have same: "q = p" if "q \<in> set ?C" "map_option snd (held q) = map_option snd (held p)" for q
    using that C(1) p m one_empty_key by (auto simp: empty_holders_def intro!: in_step_inj [OF m])
  obtain b where b: "kv_empty m = Some b" "?C = b # ?st"
    using C(3) by (cases "kv_empty m") (auto simp: empty_key_cells_def)
  show ?thesis
  proof (cases "key_is_exact K")
    case True
    then have "?C = [p]" using b C(3) m by (auto simp: in_step_def cells_in_step_def)
    then show ?thesis
      using True less b by (auto simp: erase_in_stack_def Let_def cells_in_step_def empty_key_cells_def)
  next
    case inexact: False
    show ?thesis
    proof (cases "b = p")
      case True
      have "set ?st = set (butlast ?st) \<union> {last ?st} \<and> distinct (last ?st # butlast ?st)" if "?st \<noteq> []"
        using that C(2) b by (cases ?st rule: rev_cases) auto
      then show ?thesis
        using True inexact less b C
        by (auto simp: erase_in_stack_def Let_def cells_in_step_def empty_key_cells_def)
    next
      case False
      then have p_st: "p \<in> set ?st" using b C(3) by auto
      let ?i = "found_idx held p ?st"
      have i: "?i < length ?st"
        unfolding found_idx_def using p_st by (intro takeWhile_stops) auto
      moreover have "?st ! ?i = p"
        using nth_length_takeWhile [of _ ?st] i b by (intro same) (auto simp: found_idx_def)
      moreover have "map_option snd (held b) \<noteq> map_option snd (held p)"
        using same [of b] False b by auto
      ultimately show ?thesis
        using inexact less b C False swap_out_set [OF i]
        by (auto simp: erase_in_stack_def Let_def cells_in_step_def empty_key_cells_def)
    qed
  qed
qed

lemma in_step_invalidate:
  assumes m: "in_step K H held P {} m" and p: "p \<in> P" "held p = Some (k, v)"
  shows "\<exists>m'. vcm_invalidate K H held k p m = Some m' \<and> in_step K H held (P - {p}) {p} m'"
proof (cases "is_empty_key K k")
  case True
  then show ?thesis
    using erase_in_stack_in_step [OF m p True] m
    by (auto simp: vcm_invalidate_def in_step_def holders_in_step_drop table_in_step_drop)
next
  case False
  have "empty_holders K held (P - {p}) = empty_holders K held P"
    using False p by (auto simp: empty_holders_def)
  moreover have "empty_key_cells (m\<lparr>erase_counter := n, key_table := t\<rparr>) = empty_key_cells m"
    "empty_key_cells (m\<lparr>erase_counter := n\<rparr>) = empty_key_cells m" for n t
    by (simp_all add: empty_key_cells_def split: option.splits)
  ultimately show ?thesis
    using m False table_in_step_live [of held P]
    by (auto simp: vcm_invalidate_def Let_def in_step_def cells_in_step_def holders_in_step_drop
        table_in_step_drop refresh_elems [OF m])
qed

text \<open>What the sketch does to the least frequent entry: its container is given another value.\<close>

theorem in_step_rebind:
  assumes "in_step K H held P {} m" "p \<in> P" "held p = Some (k, v)"
    and "held' = held(p \<mapsto> (key_of K w, w))" "\<forall>q \<in> P. held q \<noteq> Some (key_of K w, w)"
  shows "\<exists>m'. vcm_invalidate K H held k p m = Some m' \<and>
    in_step K H held' P {} (vcm_insert K H held' (key_of K w) p m')"
proof -
  obtain m' where m': "vcm_invalidate K H held k p m = Some m'" "in_step K H held (P - {p}) {p} m'"
    using in_step_invalidate [OF assms(1-3)] by blast
  have "in_step K H held' (P - {p}) {p} m'"
    by (rule in_step_change [OF m'(2)]) (simp_all add: assms(4))
  then have "in_step K H held' (insert p (P - {p})) {} (vcm_insert K H held' (key_of K w) p m')"
    using assms(4,5) by (intro in_step_insert [where X = "{p}"]) auto
  then show ?thesis using m'(1) assms(2) by (auto simp: insert_absorb)
qed

lemma in_step_file:
  assumes "in_step K H held P {} m" "p \<notin> P"
    and "held' = held(p \<mapsto> (key_of K w, w))" "\<forall>q \<in> P. held q \<noteq> Some (key_of K w, w)"
  shows "in_step K H held' (insert p P) {} (vcm_insert K H held' (key_of K w) p m)"
proof -
  have "in_step K H held P {p} m"
    using assms(1,2) table_in_step_drop [of held P _ p] by (simp add: in_step_def)
  then have "in_step K H held' P {p} m"
    by (rule in_step_change) (simp_all add: assms)
  then show ?thesis
    using assms(2-4) by (intro in_step_insert [where X = "{p}"]) auto
qed

end

section \<open>The two kinds of keys\<close>

lemma hashed_mapper: "hash_set_ops H \<Longrightarrow> mapper H (hashed_keys hash64 v0)"
  by (simp add: mapper_def mapper_axioms_def hashed_keys_def) (metis bit.double_compl)

lemma integer_mapper: "hash_set_ops H \<Longrightarrow> mapper H integer_keys"
  by (simp add: mapper_def mapper_axioms_def integer_keys_def inj_def)

interpretation hashed_list: mapper list_table "hashed_keys hash64 v0"
  by (rule hashed_mapper) (rule list_table.hash_set_ops_axioms)

interpretation integer_list: mapper list_table integer_keys
  by (rule integer_mapper) (rule list_table.hash_set_ops_axioms)

section \<open>Histories\<close>

text \<open>
  The histories that the protocol of the header allows: the mapper is cleared; a container gets a
  value that no other one holds and is filed; a filed container is invalidated, gets another value and
  is filed again.
\<close>

inductive vcm_history :: "('v, 'k) key_traits \<Rightarrow> ('k, 'p, 't) key_table \<Rightarrow> ('p, 'k, 'v) containers \<Rightarrow>
    'p set \<Rightarrow> ('p, 't) value_container_mapper \<Rightarrow> bool" for K H where
  cleared: "vcm_history K H held {} (vcm_clear H m)"
| filed: "vcm_history K H held P m \<Longrightarrow> p \<notin> P \<Longrightarrow> \<forall>q \<in> P. held q \<noteq> Some (key_of K w, w) \<Longrightarrow>
    held' = held(p \<mapsto> (key_of K w, w)) \<Longrightarrow>
    vcm_history K H held' (insert p P) (vcm_insert K H held' (key_of K w) p m)"
| rebound: "vcm_history K H held P m \<Longrightarrow> p \<in> P \<Longrightarrow> held p = Some (k, v) \<Longrightarrow>
    \<forall>q \<in> P. held q \<noteq> Some (key_of K w, w) \<Longrightarrow> vcm_invalidate K H held k p m = Some m' \<Longrightarrow>
    held' = held(p \<mapsto> (key_of K w, w)) \<Longrightarrow>
    vcm_history K H held' P (vcm_insert K H held' (key_of K w) p m')"

lemma history_in_step:
  assumes "mapper H K" "vcm_history K H held P m"
  shows "in_step K H held P {} m"
  using assms(2)
proof induction
  case (rebound held P m p k v w m' held')
  show ?case
    using mapper.in_step_rebind [OF assms(1) rebound.IH rebound.hyps(2,3,6,4)] rebound.hyps(5) by force
next
  case (filed held P m p w held')
  show ?case by (rule mapper.in_step_file [OF assms(1) filed.IH filed.hyps(2,4,3)])
qed (rule mapper.in_step_clear [OF assms(1)])

text \<open>
  C9. After any history of the mapper a lookup answers as a map from values to containers: it
  returns a container exactly if that container is filed and holds the value, whatever the hashes
  collide and however many stale entries the table holds; and a filed container can be invalidated.
\<close>

theorem mapper_refines_map:
  assumes "mapper H K" "vcm_history K H held P m"
  shows "(vcm_find K H held (key_of K t) t m = Some p \<longleftrightarrow> p \<in> P \<and> held p = Some (key_of K t, t))
    \<and> (p \<in> P \<longrightarrow> held p = Some (k, v) \<longrightarrow> vcm_invalidate K H held k p m \<noteq> None)"
  using mapper.find_iff [OF assms(1) history_in_step [OF assms], of t p]
    mapper.in_step_invalidate [OF assms(1) history_in_step [OF assms], of p k v] by auto

text \<open>Two values with the same hash, one of them filed in a container that held another value before.\<close>

theorem mapper_refines_map_witness:
  "\<exists>held m. vcm_history (hashed_keys (\<lambda>_. 7) 0) list_table held {0, Suc 0} m
     \<and> held 0 = Some (7, 8 :: nat) \<and> held (Suc 0) = Some (7, 6)
     \<and> vcm_find (hashed_keys (\<lambda>_. 7) 0) list_table held 7 8 m = Some (0 :: nat)"
proof -
  let ?K = "hashed_keys (\<lambda>_ :: nat. 7) 0"
  define h1 :: "(nat, u64, nat) containers" where "h1 = (\<lambda>_. None)(0 \<mapsto> (7, 5))"
  define h2 where "h2 = h1(Suc 0 \<mapsto> (7, 6))"
  define h3 where "h3 = h2(0 \<mapsto> (7, 8))"
  note H = h1_def h2_def h3_def hashed_keys_def
  have "vcm_history ?K list_table h1 (insert 0 {}) (vcm_insert ?K list_table h1 (key_of ?K 5) 0 (vcm_clear list_table (vcm_new list_table)))"
    by (rule vcm_history.filed [where held = "\<lambda>_. None"]) (auto simp: H intro: vcm_history.cleared)
  then have "vcm_history ?K list_table h2 (insert (Suc 0) (insert 0 {})) (vcm_insert ?K list_table h2 (key_of ?K 6) (Suc 0)
      (vcm_insert ?K list_table h1 (key_of ?K 5) 0 (vcm_clear list_table (vcm_new list_table))))" (is "vcm_history _ _ _ _ ?m2")
    by (rule vcm_history.filed) (auto simp: H)
  note h = this
  then obtain m' where "vcm_invalidate ?K list_table h2 7 0 ?m2 = Some m'"
    using mapper_refines_map [OF hashed_list.mapper_axioms h, of 5 0 7 5] by (auto simp: H)
  with h have h3: "vcm_history ?K list_table h3 (insert (Suc 0) (insert 0 {})) (vcm_insert ?K list_table h3 (key_of ?K 8) 0 m')"
    by (intro vcm_history.rebound [where held = h2 and k = 7 and v = 5]) (auto simp: H)
  show ?thesis
    using mapper_refines_map [OF hashed_list.mapper_axioms h3, of 8 0] h3 by (force simp: H insert_commute)
qed

end
