(* ===== verification/Rounding.thy ===== *)
theory Rounding
  imports Complex_Main
begin

text \<open>
  The result of an arithmetic operation on \<open>double\<close>, as far as the sketches rely on it: the exact
  real result rounded to 53 significant bits, to nearest with ties to even. Values are taken as the
  reals they stand for; overflow and subnormal results (magnitudes from $2^{1024}$ on and below
  $2^{-1022}$) are outside this model. What the code needs of the rounding is proved here: it is
  monotone, and it does nothing to integers below $2^{53}$.
\<close>

definition round_half_even :: "real \<Rightarrow> int" where
  "round_half_even m =
     (let f = \<lfloor>m\<rfloor>; d = m - of_int f in if d < 1 / 2 \<or> d = 1 / 2 \<and> even f then f else f + 1)"

definition dbl_round :: "real \<Rightarrow> real" where
  "dbl_round x =
     (if x = 0 then 0
      else
        let ulp = 2 powr (real_of_int \<lfloor>log 2 \<bar>x\<bar>\<rfloor> - 52)
        in sgn x * (of_int (round_half_even (\<bar>x\<bar> / ulp)) * ulp))"

lemma round_half_even_bounds: "\<lfloor>m\<rfloor> \<le> round_half_even m" "round_half_even m \<le> \<lfloor>m\<rfloor> + 1"
  by (simp_all add: round_half_even_def Let_def)

lemma round_half_even_mono: "m \<le> n \<Longrightarrow> round_half_even m \<le> round_half_even n"
proof (cases "\<lfloor>m\<rfloor> = \<lfloor>n\<rfloor>")
  case True
  then show "m \<le> n \<Longrightarrow> ?thesis" by (auto simp: round_half_even_def Let_def)
next
  case False
  then show "m \<le> n \<Longrightarrow> ?thesis"
    using floor_mono [of m n] round_half_even_bounds [of m] round_half_even_bounds [of n] by linarith
qed

lemma round_half_even_of_int [simp]: "round_half_even (of_int z) = z"
  by (simp add: round_half_even_def)

text \<open>The significand of a positive number lies between $2^{52}$ and $2^{53}$.\<close>

lemma significand_bounds:
  assumes "0 < x"
  defines "e \<equiv> real_of_int \<lfloor>log 2 x\<rfloor>"
  shows "2 ^ 52 \<le> real_of_int (round_half_even (x / 2 powr (e - 52)))"
    "real_of_int (round_half_even (x / 2 powr (e - 52))) \<le> 2 ^ 53"
proof -
  have x: "2 powr e \<le> x" "x < 2 powr (e + 1)"
    using assms floor_correct [of "log 2 x"] by (auto simp: powr_le_iff less_powr_iff)
  have p: "(2 :: real) powr e = 2 ^ 52 * 2 powr (e - 52)" "(2 :: real) powr (e + 1) = 2 ^ 53 * 2 powr (e - 52)"
    by (simp_all add: powr_diff powr_add)
  have "round_half_even (of_int (2 ^ 52)) \<le> round_half_even (x / 2 powr (e - 52))"
    using x p by (intro round_half_even_mono) (simp add: field_simps)
  then have "real_of_int (2 ^ 52) \<le> of_int (round_half_even (x / 2 powr (e - 52)))"
    by (simp only: round_half_even_of_int of_int_le_iff)
  then show "2 ^ 52 \<le> real_of_int (round_half_even (x / 2 powr (e - 52)))" by simp
  have "round_half_even (x / 2 powr (e - 52)) \<le> round_half_even (of_int (2 ^ 53))"
    using x p by (intro round_half_even_mono) (simp add: field_simps)
  then have "of_int (round_half_even (x / 2 powr (e - 52))) \<le> real_of_int (2 ^ 53)"
    by (simp only: round_half_even_of_int of_int_le_iff)
  then show "real_of_int (round_half_even (x / 2 powr (e - 52))) \<le> 2 ^ 53" by simp
qed

lemma dbl_round_pos:
  "0 < x \<Longrightarrow> dbl_round x = of_int (round_half_even (x / 2 powr (real_of_int \<lfloor>log 2 x\<rfloor> - 52)))
     * 2 powr (real_of_int \<lfloor>log 2 x\<rfloor> - 52)"
  by (simp add: dbl_round_def Let_def)

lemma dbl_round_mono:
  assumes "0 < x" "x \<le> y"
  shows "dbl_round x \<le> dbl_round y"
proof -
  define a b where "a = real_of_int \<lfloor>log 2 x\<rfloor>" and "b = real_of_int \<lfloor>log 2 y\<rfloor>"
  have "log 2 x \<le> log 2 y" using assms by simp
  then have ab: "\<lfloor>log 2 x\<rfloor> \<le> \<lfloor>log 2 y\<rfloor>" by (rule floor_mono)
  have rx: "dbl_round x = of_int (round_half_even (x / 2 powr (a - 52))) * 2 powr (a - 52)"
    and ry: "dbl_round y = of_int (round_half_even (y / 2 powr (b - 52))) * 2 powr (b - 52)"
    using assms by (simp_all add: dbl_round_pos a_def b_def)
  show ?thesis
  proof (cases "a = b")
    case True
    have "round_half_even (x / 2 powr (a - 52)) \<le> round_half_even (y / 2 powr (a - 52))"
      using assms by (intro round_half_even_mono divide_right_mono) simp_all
    then show ?thesis using True rx ry by simp
  next
    case False
    then have "a + 1 \<le> b" using ab by (simp add: a_def b_def)
    have "dbl_round x \<le> 2 ^ 53 * 2 powr (a - 52)"
      unfolding rx using significand_bounds(2) [OF assms(1)]
      by (intro mult_right_mono) (simp_all add: a_def)
    also have "\<dots> = 2 powr (a + 1)" by (simp add: powr_diff powr_add)
    also have "\<dots> \<le> 2 powr b" using \<open>a + 1 \<le> b\<close> by simp
    also have "\<dots> = 2 ^ 52 * 2 powr (b - 52)" by (simp add: powr_diff)
    also have "\<dots> \<le> dbl_round y"
      unfolding ry using significand_bounds(1) [of y] assms
      by (intro mult_right_mono) (simp_all add: b_def)
    finally show ?thesis .
  qed
qed

lemma dbl_round_of_nat:
  assumes "n < 2 ^ 53"
  shows "dbl_round (real n) = real n"
proof (cases "n = 0")
  case False
  define e where "e = \<lfloor>log 2 (real n)\<rfloor>"
  have "real n < 2 ^ 53" using assms by (metis of_nat_less_iff of_nat_numeral of_nat_power)
  then have "log 2 (real n) < 53" using False by (simp add: log_less_iff)
  then have "e \<le> 52" by (simp add: e_def floor_le_iff)
  then obtain k where k: "int k = 52 - e" by (metis nat_0_le diff_ge_0_iff_ge)
  have "(2 :: real) powr (of_int e - 52) = inverse (2 ^ k)"
  proof -
    have "of_int e - 52 = - real k" using k by linarith
    then show ?thesis by (simp add: powr_minus powr_realpow)
  qed
  moreover have "real n / inverse (2 ^ k) = of_int (int n * 2 ^ k)" by (simp add: divide_inverse)
  ultimately show ?thesis
    using False by (simp only: dbl_round_pos e_def [symmetric] of_nat_0_less_iff round_half_even_of_int) simp
qed (simp add: dbl_round_def)

end
