(* ===== verification/Space_Saving.thy ===== *)
theory Space_Saving
  imports Value_Mapper Rounding
begin

text \<open>
  \<open>sketches/space_saving.hpp\<close>: the space-saving sketch, which counts the frequent values of a stream in
  a fixed number of entries. An entry holds a value, a count and the error that the count may have;
  when a new value comes and the entries are used up, the value takes over an entry with the least
  count. The candidates for that are kept in a stack, \<open>base_level_candidates\<close>, which is rebuilt by a
  scan when it is empty.

  The stack holds pointers into the vector \<open>entries\<close>, and merging two sketches replaces that vector. A
  pointer is modelled by the generation of the vector's storage and an index; following a pointer of
  an earlier generation, a null pointer or an index past the end is undefined in C++ and the value
  \<open>None\<close> here. \<open>size_t\<close> is \<open>nat\<close> with the wrap-around at $2^{64}$ written out, \<open>epsilon\<close> a real number
  with the rounding of \<open>Rounding\<close>. \<open>index_buffer\<close>, which is resized but never used, and the \<open>DASSERT\<close>s are
  left out.
\<close>

section \<open>State\<close>

record ('k, 'v) entry =
  entry_count :: nat
  entry_error :: nat
  entry_kv :: "'k \<times> 'v"

type_synonym eptr = "nat \<times> nat"

record ('k, 'v, 't) space_saving =
  m_size :: nat
  m_max_capacity :: nat
  m_epsilon :: real
  n_entries :: nat
  storage :: nat
  entries :: "('k, 'v) entry list"
  base_level :: nat
  base_level_candidates :: "eptr option list"
  base_level_candidate_count :: nat
  global_map :: "(eptr, 't) value_container_mapper"
  cached_insertion_key :: 'k
  cached_insertion_value :: "eptr option"

definition wrap64 :: "nat \<Rightarrow> nat" where
  "wrap64 n = n mod 2 ^ 64"

text \<open>Following a pointer.\<close>

definition deref :: "('k, 'v, 't) space_saving \<Rightarrow> eptr option \<Rightarrow> ('k, 'v) entry option" where
  "deref s p =
     (case p of
        None \<Rightarrow> None
      | Some (g, i) \<Rightarrow> if g = storage s \<and> i < length (entries s) then Some (entries s ! i) else None)"

text \<open>What the containers of the mapper hold.\<close>

definition held_by :: "('k, 'v, 't) space_saving \<Rightarrow> (eptr, 'k, 'v) containers" where
  "held_by s p = map_option entry_kv (deref s (Some p))"

definition set_entry :: "eptr \<Rightarrow> ('k, 'v) entry \<Rightarrow> ('k, 'v, 't) space_saving \<Rightarrow> ('k, 'v, 't) space_saving" where
  "set_entry p e s = s\<lparr>entries := (entries s)[snd p := e]\<rparr>"

definition value_of :: "('k, 'v) entry \<Rightarrow> 'v" where
  "value_of e = snd (entry_kv e)"

definition default_entry :: "('v, 'k) key_traits \<Rightarrow> ('k, 'v) entry" where
  "default_entry K = \<lparr>entry_count = 0, entry_error = 0, entry_kv = default_kv K\<rparr>"

section \<open>Construction\<close>

text \<open>The members before the constructor's body runs.\<close>

definition ss_members :: "('v, 'k) key_traits \<Rightarrow> ('k, eptr, 't) key_table \<Rightarrow> ('k, 'v, 't) space_saving" where
  "ss_members K H = \<lparr>m_size = 0, m_max_capacity = 0, m_epsilon = 1, n_entries = 0, storage = 0,
     entries = [], base_level = 1, base_level_candidates = [], base_level_candidate_count = 0,
     global_map = vcm_new H, cached_insertion_key = fst (default_kv K), cached_insertion_value = None\<rparr>"

definition ss_clear :: "('v, 'k) key_traits \<Rightarrow> ('k, eptr, 't) key_table \<Rightarrow> ('k, 'v, 't) space_saving \<Rightarrow>
    ('k, 'v, 't) space_saving" where
  "ss_clear K H s = s\<lparr>m_size := 0, n_entries := 0, base_level := 1, base_level_candidate_count := 0,
     cached_insertion_key := fst (default_kv K), cached_insertion_value := None,
     global_map := vcm_clear H (global_map s)\<rparr>"

definition capacity_for :: "real \<Rightarrow> nat" where
  "capacity_for epsilon = nat \<lfloor>dbl_round (of_int \<lceil>dbl_round (1 / epsilon)\<rceil> + 1)\<rfloor>"

definition ss_initialize :: "('v, 'k) key_traits \<Rightarrow> ('k, eptr, 't) key_table \<Rightarrow> real \<Rightarrow>
    ('k, 'v, 't) space_saving \<Rightarrow> ('k, 'v, 't) space_saving" where
  "ss_initialize K H epsilon s =
     (ss_clear K H s)\<lparr>m_max_capacity := capacity_for epsilon, m_epsilon := epsilon\<rparr>"

text \<open>\<open>vector::resize\<close>; a vector that grows moves to new storage.\<close>

definition resized :: "nat \<Rightarrow> 'a \<Rightarrow> 'a list \<Rightarrow> 'a list" where
  "resized n x xs = take n xs @ replicate (n - length xs) x"

definition init_data_structures :: "('v, 'k) key_traits \<Rightarrow> ('k, 'v, 't) space_saving \<Rightarrow>
    ('k, 'v, 't) space_saving" where
  "init_data_structures K s = s\<lparr>
     entries := resized (m_max_capacity s) (default_entry K) (entries s),
     storage := (if length (entries s) < m_max_capacity s then Suc (storage s) else storage s),
     n_entries := 0, base_level := 1,
     base_level_candidates := resized (m_max_capacity s) None (base_level_candidates s),
     base_level_candidate_count := 0,
     global_map := vcm_reserve (5 * m_max_capacity s div 4) (global_map s),
     cached_insertion_value := None\<rparr>"

definition ss_new :: "('v, 'k) key_traits \<Rightarrow> ('k, eptr, 't) key_table \<Rightarrow> real \<Rightarrow> ('k, 'v, 't) space_saving" where
  "ss_new K H epsilon = init_data_structures K (ss_initialize K H epsilon (ss_members K H))"

section \<open>Adding a value\<close>

text \<open>
  The scan of \<open>regenerate_base_level\<close>: the least count so far, the number of candidates and the
  vector of candidates.
\<close>

fun regenerate_loop :: "('k, 'v, 't) space_saving \<Rightarrow> nat list \<Rightarrow> nat \<times> nat \<times> eptr option list \<Rightarrow>
    (nat \<times> nat \<times> eptr option list) option" where
  "regenerate_loop s [] acc = Some acc"
| "regenerate_loop s (i # is) (min_value, n, cands) =
     (case deref s (Some (storage s, i)) of
        None \<Rightarrow> None
      | Some e \<Rightarrow>
          if entry_count e < min_value then
            if 0 < length cands
            then regenerate_loop s is (entry_count e, 1, cands[0 := Some (storage s, i)]) else None
          else if entry_count e = min_value then
            if n < length cands
            then regenerate_loop s is (min_value, Suc n, cands[n := Some (storage s, i)]) else None
          else regenerate_loop s is (min_value, n, cands))"

definition regenerate_base_level :: "('k, 'v, 't) space_saving \<Rightarrow> ('k, 'v, 't) space_saving option" where
  "regenerate_base_level s =
     (case regenerate_loop s [0..<m_max_capacity s]
             (2 ^ 64 - 1, base_level_candidate_count s, base_level_candidates s) of
        None \<Rightarrow> None
      | Some (min_value, n, cands) \<Rightarrow>
          Some (s\<lparr>base_level := min_value, base_level_candidate_count := n,
                   base_level_candidates := cands\<rparr>))"

definition increment_element :: "eptr \<Rightarrow> nat \<Rightarrow> nat \<Rightarrow> ('k, 'v, 't) space_saving \<Rightarrow>
    ('k, 'v, 't) space_saving option" where
  "increment_element p count_incr error_incr s =
     (case deref s (Some p) of
        None \<Rightarrow> None
      | Some e \<Rightarrow> Some (set_entry p (e\<lparr>entry_count := wrap64 (entry_count e + count_incr),
                          entry_error := wrap64 (entry_error e + error_incr)\<rparr>) s))"

definition insert_element :: "('v, 'k) key_traits \<Rightarrow> ('k, eptr, 't) key_table \<Rightarrow> 'k \<Rightarrow> 'v \<Rightarrow> nat \<Rightarrow> nat \<Rightarrow>
    ('k, 'v, 't) space_saving \<Rightarrow> (('k, 'v, 't) space_saving \<times> eptr) option" where
  "insert_element K H key t cnt err s =
     (let dest = n_entries s; p = (storage s, dest);
          candidate = (cnt = base_level s)
      in if length (entries s) \<le> dest
            \<or> candidate \<and> length (base_level_candidates s) \<le> base_level_candidate_count s then None
         else
           let s = (set_entry p \<lparr>entry_count = cnt, entry_error = err, entry_kv = (key, t)\<rparr> s)
                     \<lparr>n_entries := Suc dest\<rparr>;
               s = (if candidate
                    then s\<lparr>base_level_candidates :=
                             (base_level_candidates s)[base_level_candidate_count s := Some p],
                           base_level_candidate_count := Suc (base_level_candidate_count s)\<rparr>
                    else s)
           in Some (s\<lparr>global_map := vcm_insert K H (held_by s) key p (global_map s)\<rparr>, p))"

text \<open>The loop that pops the candidates whose count is no longer the base level.\<close>

primrec pop_stale :: "('k, 'v, 't) space_saving \<Rightarrow> nat \<Rightarrow> nat option" where
  "pop_stale s 0 = Some 0"
| "pop_stale s (Suc n) =
     (case deref s (base_level_candidates s ! n) of
        None \<Rightarrow> None
      | Some e \<Rightarrow> if entry_count e \<noteq> base_level s then pop_stale s n else Some (Suc n))"

text \<open>The guard in front of it reads the last slot of the vector, \<open>base_level_candidates.back()\<close>.\<close>

definition drop_stale_candidates :: "('k, 'v, 't) space_saving \<Rightarrow> ('k, 'v, 't) space_saving option" where
  "drop_stale_candidates s =
     (if 0 < base_level_candidate_count s then
        if base_level_candidates s = [] then None
        else case deref s (last (base_level_candidates s)) of
          None \<Rightarrow> None
        | Some e \<Rightarrow>
            if entry_count e \<noteq> base_level s
            then map_option (\<lambda>n. s\<lparr>base_level_candidate_count := n\<rparr>)
                   (pop_stale s (base_level_candidate_count s))
            else Some s
      else Some s)"

text \<open>The candidate on top of the stack is given to the new value.\<close>

definition replace_candidate :: "('v, 'k) key_traits \<Rightarrow> ('k, eptr, 't) key_table \<Rightarrow> 'k \<Rightarrow> 'v \<Rightarrow>
    nat \<Rightarrow> nat \<Rightarrow> ('k, 'v, 't) space_saving \<Rightarrow> (('k, 'v, 't) space_saving \<times> eptr) option" where
  "replace_candidate K H key t cnt err s =
     (if base_level_candidate_count s = 0 then None
      else
        let idx = base_level_candidate_count s - 1 in
        case base_level_candidates s ! idx of
          None \<Rightarrow> None
        | Some p \<Rightarrow>
            (case deref s (Some p) of
               None \<Rightarrow> None
             | Some e \<Rightarrow>
                 (case vcm_invalidate K H (held_by s) (fst (entry_kv e)) p (global_map s) of
                    None \<Rightarrow> None
                  | Some gm \<Rightarrow>
                      let s = set_entry p \<lparr>entry_count = wrap64 (entry_count e + cnt),
                                entry_error = wrap64 (entry_count e + err), entry_kv = (key, t)\<rparr> s
                      in Some (s\<lparr>global_map := vcm_insert K H (held_by s) key p gm,
                                 base_level_candidate_count := idx\<rparr>, p))))"

definition change_and_increment_value :: "('v, 'k) key_traits \<Rightarrow> ('k, eptr, 't) key_table \<Rightarrow> 'k \<Rightarrow> 'v \<Rightarrow>
    nat \<Rightarrow> nat \<Rightarrow> ('k, 'v, 't) space_saving \<Rightarrow> (('k, 'v, 't) space_saving \<times> eptr) option" where
  "change_and_increment_value K H key t cnt err s =
     do {
       s \<leftarrow> drop_stale_candidates s;
       s \<leftarrow> (if base_level_candidate_count s = 0 then regenerate_base_level s else Some s);
       replace_candidate K H key t cnt err s
     }"

text \<open>The test of the cache of the last insertion: the pointer to increment, if it is the same value.\<close>

definition cached_entry :: "('v, 'k) key_traits \<Rightarrow> 'k \<Rightarrow> 'v \<Rightarrow> ('k, 'v, 't) space_saving \<Rightarrow> eptr option option" where
  "cached_entry K key t s =
     (case cached_insertion_value s of
        None \<Rightarrow> Some None
      | Some p \<Rightarrow>
          if cached_insertion_key s \<noteq> key then Some None
          else if key_is_exact K then Some (Some p)
          else case deref s (Some p) of
            None \<Rightarrow> None
          | Some e \<Rightarrow> Some (if value_of e = t then Some p else None))"

text \<open>The branch without a hit in the cache.\<close>

definition add_uncached :: "('v, 'k) key_traits \<Rightarrow> ('k, eptr, 't) key_table \<Rightarrow> 'k \<Rightarrow> 'v \<Rightarrow> nat \<Rightarrow> nat \<Rightarrow>
    ('k, 'v, 't) space_saving \<Rightarrow> ('k, 'v, 't) space_saving option" where
  "add_uncached K H key t cnt err s =
     (case vcm_find K H (held_by s) key t (global_map s) of
        Some p \<Rightarrow> map_option (\<lambda>s. s\<lparr>cached_insertion_value := Some p\<rparr>) (increment_element p cnt err s)
      | None \<Rightarrow>
          map_option (\<lambda>(s, p). s\<lparr>cached_insertion_value := Some p\<rparr>)
            (if n_entries s = m_max_capacity s
             then change_and_increment_value K H key t cnt err s
             else insert_element K H key t cnt err s))"

definition add_impl :: "('v, 'k) key_traits \<Rightarrow> ('k, eptr, 't) key_table \<Rightarrow> 'v \<Rightarrow> nat \<Rightarrow> nat \<Rightarrow>
    ('k, 'v, 't) space_saving \<Rightarrow> ('k, 'v, 't) space_saving option" where
  "add_impl K H t cnt err s =
     (let s = s\<lparr>m_size := wrap64 (m_size s + cnt)\<rparr>; key = key_of K t in
      case cached_entry K key t s of
        None \<Rightarrow> None
      | Some (Some p) \<Rightarrow> increment_element p cnt err s
      | Some None \<Rightarrow> add_uncached K H key t cnt err (s\<lparr>cached_insertion_key := key\<rparr>))"

definition ss_add :: "('v, 'k) key_traits \<Rightarrow> ('k, eptr, 't) key_table \<Rightarrow> 'v \<Rightarrow> nat \<Rightarrow>
    ('k, 'v, 't) space_saving \<Rightarrow> ('k, 'v, 't) space_saving option" where
  "ss_add K H t cnt s = add_impl K H t cnt 0 s"

section \<open>Queries\<close>

definition ss_threshold :: "('k, 'v, 't) space_saving \<Rightarrow> nat" where
  "ss_threshold s = max 1 (nat \<lfloor>dbl_round (m_epsilon s * dbl_round (real (m_size s)))\<rfloor>)"

definition frequent_items :: "('k, 'v, 't) space_saving \<Rightarrow> ('v \<times> nat) list" where
  "frequent_items s =
     (let es = take (n_entries s) (entries s) in
      if n_entries s < length (entries s) then map (\<lambda>e. (value_of e, entry_count e)) es
      else map (\<lambda>e. (value_of e, entry_count e)) (filter (\<lambda>e. ss_threshold s \<le> entry_count e) es))"

definition guaranteed_frequent_items :: "('k, 'v, 't) space_saving \<Rightarrow> ('v \<times> nat) list" where
  "guaranteed_frequent_items s =
     (let es = take (n_entries s) (entries s) in
      if n_entries s < length (entries s) then map (\<lambda>e. (value_of e, entry_count e)) es
      else map (\<lambda>e. (value_of e, entry_count e))
             (filter (\<lambda>e. ss_threshold s \<le> wrap64 (entry_count e + 2 ^ 64 - entry_error e)) es))"

section \<open>Merging\<close>

text \<open>
  A sketch over another type of values is merged through a conversion of its keys and values,
  \<open>cast\<close>: the identity for the same type, and otherwise the conversion of the value with the key
  computed anew.
\<close>

definition cast_same :: "'k \<times> 'v \<Rightarrow> 'k \<times> 'v" where
  "cast_same kv = kv"

definition cast_value :: "('v, 'k) key_traits \<Rightarrow> ('u \<Rightarrow> 'v) \<Rightarrow> 'l \<times> 'u \<Rightarrow> 'k \<times> 'v" where
  "cast_value K conv kv = (key_of K (conv (snd kv)), conv (snd kv))"

definition find_eptr :: "('v, 'k) key_traits \<Rightarrow> ('k, eptr, 't) key_table \<Rightarrow> ('l \<times> 'u \<Rightarrow> 'k \<times> 'v) \<Rightarrow>
    ('l, 'u) entry \<Rightarrow> ('k, 'v, 't) space_saving \<Rightarrow> eptr option" where
  "find_eptr K H cast e s =
     vcm_find K H (held_by s) (fst (cast (entry_kv e))) (snd (cast (entry_kv e))) (global_map s)"

definition cast_entry :: "('l \<times> 'u \<Rightarrow> 'k \<times> 'v) \<Rightarrow> ('l, 'u) entry \<Rightarrow> ('k, 'v) entry" where
  "cast_entry cast e =
     \<lparr>entry_count = entry_count e, entry_error = entry_error e, entry_kv = cast (entry_kv e)\<rparr>"

text \<open>\<open>++part_sizes[level]\<close> on a \<open>std::map\<close>, in the order of its keys.\<close>

fun part_incr :: "nat \<Rightarrow> (nat \<times> nat) list \<Rightarrow> (nat \<times> nat) list" where
  "part_incr k [] = [(k, 1)]"
| "part_incr k ((l, n) # ps) =
     (if k < l then (k, 1) # (l, n) # ps else if k = l then (l, Suc n) # ps else (l, n) # part_incr k ps)"

text \<open>The counts of the values that both sketches track are added up, the others are counted by level.\<close>

fun combine_common :: "('v, 'k) key_traits \<Rightarrow> ('k, eptr, 't) key_table \<Rightarrow> ('l \<times> 'u \<Rightarrow> 'k \<times> 'v) \<Rightarrow>
    ('l, 'u) entry list \<Rightarrow> ('k, 'v, 't) space_saving \<times> (nat \<times> nat) list \<Rightarrow>
    (('k, 'v, 't) space_saving \<times> (nat \<times> nat) list) option" where
  "combine_common K H cast [] acc = Some acc"
| "combine_common K H cast (e # es) (s, parts) =
     (case find_eptr K H cast e s of
        None \<Rightarrow> combine_common K H cast es (s, part_incr (entry_count e) parts)
      | Some p \<Rightarrow>
          (case increment_element p (entry_count e) (entry_error e) s of
             None \<Rightarrow> None
           | Some s \<Rightarrow> combine_common K H cast es (s, parts)))"

text \<open>The partitions are counted out from the highest level down.\<close>

fun count_out :: "(nat \<times> nat) list \<Rightarrow> nat \<Rightarrow> nat \<Rightarrow> nat \<times> nat" where
  "count_out [] base position = (base, position)"
| "count_out ((level, part_size) # ps) base position =
     (if position \<le> part_size then (level, position) else count_out ps base (position - part_size))"

definition base_partition :: "(nat \<times> nat) list \<Rightarrow> nat \<Rightarrow> nat \<Rightarrow> (nat \<times> nat) option" where
  "base_partition parts base capacity =
     (let (base, position) = count_out (rev parts) base capacity in
      if base = 0 then
        (case parts of [] \<Rightarrow> None | (level, part_size) # _ \<Rightarrow> Some (level, position + part_size))
      else Some (base, position))"

text \<open>\<open>write_entry\<close>: the number of entries of the base level that may still be kept, the position of the
  next one, and the new vector.\<close>

definition write_entry :: "nat \<Rightarrow> ('k, 'v) entry \<Rightarrow> nat \<times> nat \<times> ('k, 'v) entry list \<Rightarrow>
    (nat \<times> nat \<times> ('k, 'v) entry list) option" where
  "write_entry base e acc =
     (case acc of (left, position, alt) \<Rightarrow>
        if entry_count e < base \<or> entry_count e = base \<and> left = 0 then Some acc
        else if position < length alt
        then Some (if entry_count e = base then left - 1 else left, Suc position, alt[position := e])
        else None)"

primrec write_entries :: "nat \<Rightarrow> ('k, 'v) entry list \<Rightarrow> nat \<times> nat \<times> ('k, 'v) entry list \<Rightarrow>
    (nat \<times> nat \<times> ('k, 'v) entry list) option" where
  "write_entries base [] acc = Some acc"
| "write_entries base (e # es) acc = Option.bind (write_entry base e acc) (write_entries base es)"

text \<open>The mapper is filled anew from the entries.\<close>

primrec fill_map :: "('v, 'k) key_traits \<Rightarrow> ('k, eptr, 't) key_table \<Rightarrow> nat list \<Rightarrow>
    ('k, 'v, 't) space_saving \<Rightarrow> ('k, 'v, 't) space_saving" where
  "fill_map K H [] s = s"
| "fill_map K H (i # is) s = fill_map K H is
     (s\<lparr>global_map := vcm_insert K H (held_by s) (fst (entry_kv (entries s ! i))) (storage s, i) (global_map s)\<rparr>)"

definition install_entries :: "('v, 'k) key_traits \<Rightarrow> ('k, eptr, 't) key_table \<Rightarrow> nat \<Rightarrow> nat \<Rightarrow>
    ('k, 'v) entry list \<Rightarrow> ('k, 'v, 't) space_saving \<Rightarrow> ('k, 'v, 't) space_saving" where
  "install_entries K H n other_size alt s =
     (fill_map K H [0..<n]
       (s\<lparr>n_entries := n, m_size := wrap64 (m_size s + other_size), entries := alt,
          storage := Suc (storage s), global_map := vcm_clear H (global_map s)\<rparr>))
     \<lparr>cached_insertion_value := None, base_level_candidate_count := 0\<rparr>"

definition ss_combine :: "('v, 'k) key_traits \<Rightarrow> ('k, eptr, 't) key_table \<Rightarrow> ('l \<times> 'u \<Rightarrow> 'k \<times> 'v) \<Rightarrow>
    ('l, 'u, 'r) space_saving \<Rightarrow> ('k, 'v, 't) space_saving \<Rightarrow> ('k, 'v, 't) space_saving option" where
  "ss_combine K H cast other s =
     (if m_size other = 0 then Some s
      else
        let others = take (n_entries other) (entries other) in
        do {
          (s, parts) \<leftarrow> combine_common K H cast others (s, []);
          let own = take (n_entries s) (entries s);
          let parts = fold (\<lambda>e. part_incr (entry_count e)) own parts;
          (base, position) \<leftarrow> base_partition parts (base_level s) (m_max_capacity s);
          (_, n, alt) \<leftarrow> write_entries base
             (own @ map (cast_entry cast) (filter (\<lambda>e. find_eptr K H cast e s = None) others))
             (position, 0, replicate (m_max_capacity s) (default_entry K));
          Some (install_entries K H n (m_size other) alt (s\<lparr>base_level := base\<rparr>))
        })"

section \<open>Streams\<close>

text \<open>The values of a stream are added one by one.\<close>

primrec ss_add_all :: "('v, 'k) key_traits \<Rightarrow> ('k, eptr, 't) key_table \<Rightarrow> 'v list \<Rightarrow>
    ('k, 'v, 't) space_saving \<Rightarrow> ('k, 'v, 't) space_saving option" where
  "ss_add_all K H [] s = Some s"
| "ss_add_all K H (x # xs) s = Option.bind (ss_add K H x 1 s) (ss_add_all K H xs)"

end
