(* ===== verification/Sketch_Refinement.thy ===== *)
theory Sketch_Refinement
  imports Space_Saving
begin

text \<open>
  The space-saving algorithm as a step relation on lists of counters, in which a new value takes over any
  counter with the least count, with the bounds on the counts as invariants of that relation; and the
  invariant of the sketch of \<open>Space_Saving\<close>, under which a unit insertion follows only valid pointers,
  takes over an entry with the least count and so makes a step of the algorithm. The locale
  \<open>sketch_mapper\<close> is the mapper of \<open>Value_Mapper\<close> with entries as containers.
\<close>

section \<open>The abstract algorithm\<close>

type_synonym 'v counters = "('v \<times> nat \<times> nat) list"

inductive count_step :: "nat \<Rightarrow> 'v \<Rightarrow> 'v counters \<Rightarrow> 'v counters \<Rightarrow> bool" for cap x where
  hit: "i < length A \<Longrightarrow> A ! i = (x, c, e) \<Longrightarrow> count_step cap x A (A[i := (x, Suc c, e)])"
| fresh: "x \<notin> fst ` set A \<Longrightarrow> length A < cap \<Longrightarrow> count_step cap x A (A @ [(x, 1, 0)])"
| evict: "x \<notin> fst ` set A \<Longrightarrow> length A = cap \<Longrightarrow> i < length A \<Longrightarrow> A ! i = (y, c, e) \<Longrightarrow>
    \<forall>(v, c', e') \<in> set A. c \<le> c' \<Longrightarrow> count_step cap x A (A[i := (x, Suc c, c)])"

inductive counts :: "nat \<Rightarrow> 'v list \<Rightarrow> 'v counters \<Rightarrow> bool" for cap where
  start: "counts cap [] []"
| more: "counts cap xs A \<Longrightarrow> count_step cap x A A' \<Longrightarrow> counts cap (xs @ [x]) A'"

text \<open>
  The counts add up to the length of the stream; a tracked value occurs at most as often as its
  count says and at least as often as the count less the error; a value that is not tracked occurs no
  more often than any count says.
\<close>

definition counters_ok :: "nat \<Rightarrow> 'v list \<Rightarrow> 'v counters \<Rightarrow> bool" where
  "counters_ok cap xs A \<longleftrightarrow>
     distinct (map fst A) \<and> length A \<le> cap \<and> (\<Sum>(v, c, e) \<leftarrow> A. c) = length xs
   \<and> (\<forall>v c e. (v, c, e) \<in> set A \<longrightarrow> count_list xs v \<le> c \<and> c \<le> count_list xs v + e \<and> e \<le> c)
   \<and> (\<forall>v. v \<notin> fst ` set A \<longrightarrow> 0 < count_list xs v \<longrightarrow> length A = cap)
   \<and> (\<forall>v w c e. v \<notin> fst ` set A \<longrightarrow> (w, c, e) \<in> set A \<longrightarrow> count_list xs v \<le> c)
   \<and> (\<forall>v c e. length A < cap \<longrightarrow> (v, c, e) \<in> set A \<longrightarrow> e = 0)"

lemma sum_update:
  "i < length A \<Longrightarrow> A ! i = (y, c, e) \<Longrightarrow>
   (\<Sum>(v, c, e) \<leftarrow> A[i := (x, c + k, e')]. c) = (\<Sum>(v, c, e) \<leftarrow> A. c) + k" for c k :: nat
  by (induction A arbitrary: i) (auto split: nat.splits simp: nth_Cons)

lemma set_update_tracked:
  assumes "distinct (map fst A)" "i < length A" "A ! i = (y, d)"
  shows "set (A[i := a]) = insert a {b \<in> set A. fst b \<noteq> y}"
proof -
  have "distinct A" using assms(1) by (simp add: distinct_map)
  then have "set (A[i := a]) = insert a (set A - {(y, d)})"
    using assms by (simp add: set_update_distinct)
  also have "set A - {(y, d)} = {b \<in> set A. fst b \<noteq> y}"
  proof -
    have "(y, d) \<in> set A" using assms(2,3) by (metis nth_mem)
    moreover have "inj_on fst (set A)" using assms(1) by (simp add: distinct_map)
    ultimately have "b = (y, d) \<longleftrightarrow> fst b = y" if "b \<in> set A" for b
      using that inj_on_eq_iff [of fst "set A" b "(y, d)"] by simp
    then show ?thesis by blast
  qed
  finally show ?thesis .
qed

lemma count_list_snoc: "count_list (xs @ [x]) v = count_list xs v + (if v = x then 1 else 0)"
  by simp

lemma counters_okI:
  assumes "distinct (map fst A)" "length A \<le> cap" "(\<Sum>(v, c, e) \<leftarrow> A. c) = length xs"
    and "\<And>v c e. (v, c, e) \<in> set A \<Longrightarrow> count_list xs v \<le> c \<and> c \<le> count_list xs v + e \<and> e \<le> c"
    and "\<And>v. v \<notin> fst ` set A \<Longrightarrow> 0 < count_list xs v \<Longrightarrow> length A = cap"
    and "\<And>v w c e. v \<notin> fst ` set A \<Longrightarrow> (w, c, e) \<in> set A \<Longrightarrow> count_list xs v \<le> c"
    and "\<And>v c e. length A < cap \<Longrightarrow> (v, c, e) \<in> set A \<Longrightarrow> e = 0"
  shows "counters_ok cap xs A"
  unfolding counters_ok_def by (intro conjI allI impI) (use assms in blast)+

lemma counters_okD:
  assumes "counters_ok cap xs A"
  shows "distinct (map fst A)" "length A \<le> cap" "(\<Sum>(v, c, e) \<leftarrow> A. c) = length xs"
    and "(v, c, e) \<in> set A \<Longrightarrow> count_list xs v \<le> c" "(v, c, e) \<in> set A \<Longrightarrow> c \<le> count_list xs v + e"
    and "(v, c, e) \<in> set A \<Longrightarrow> e \<le> c"
    and "w \<notin> fst ` set A \<Longrightarrow> 0 < count_list xs w \<Longrightarrow> length A = cap"
    and "w \<notin> fst ` set A \<Longrightarrow> (v, c, e) \<in> set A \<Longrightarrow> count_list xs w \<le> c"
    and "length A < cap \<Longrightarrow> (v, c, e) \<in> set A \<Longrightarrow> e = 0"
  using assms unfolding counters_ok_def by blast+

lemma counters_ok_hit:
  assumes A: "counters_ok cap xs A" and i: "i < length A" "A ! i = (x, c, e)"
  shows "counters_ok cap (xs @ [x]) (A[i := (x, Suc c, e)])"
proof (rule counters_okI)
  let ?A = "A[i := (x, Suc c, e)]"
  note D = counters_okD [OF A]
  have keys: "map fst ?A = map fst A"
    using i by (simp add: map_update) (metis fst_conv list_update_id map_update)
  have set_A: "set ?A = insert (x, Suc c, e) {b \<in> set A. fst b \<noteq> x}"
    using set_update_tracked [OF D(1) i] by simp
  have x: "(x, c, e) \<in> set A" using i by (metis nth_mem)
  have fsts: "fst ` set ?A = fst ` set A" using keys by (metis set_map)
  show "distinct (map fst ?A)" "length ?A \<le> cap" "(\<Sum>(v, c, e) \<leftarrow> ?A. c) = length (xs @ [x])"
    using D(1-3) keys sum_update [OF i, of x 1 e] by simp_all
  show "count_list (xs @ [x]) v \<le> c' \<and> c' \<le> count_list (xs @ [x]) v + e' \<and> e' \<le> c'"
    if "(v, c', e') \<in> set ?A" for v c' e'
    using that D(4-6) [OF x] D(4-6) [of v c' e'] unfolding set_A by auto
  show "length ?A = cap" if "v \<notin> fst ` set ?A" "0 < count_list (xs @ [x]) v" for v
    using that D(7) [of v] x fsts by (force split: if_splits)
  show "count_list (xs @ [x]) v \<le> c'" if "v \<notin> fst ` set ?A" "(w, c', e') \<in> set ?A" for v w c' e'
  proof -
    have "v \<noteq> x" "v \<notin> fst ` set A" using that(1) fsts set_A by auto
    then show ?thesis using that(2) D(8) [of v, OF _ x] D(8) [of v w c' e'] unfolding set_A by auto
  qed
  show "e' = 0" if "length ?A < cap" "(v, c', e') \<in> set ?A" for v c' e'
    using that D(9) [OF _ x] D(9) [of v c' e'] unfolding set_A by auto
qed

lemma counters_ok_fresh:
  assumes A: "counters_ok cap xs A" and x: "x \<notin> fst ` set A" and room: "length A < cap"
  shows "counters_ok cap (xs @ [x]) (A @ [(x, 1, 0)])"
proof -
  note D = counters_okD [OF A]
  have absent: "count_list xs v = 0" if "v \<notin> fst ` set A" for v
    using D(7) [OF that] room by auto
  show ?thesis
  proof (rule counters_okI)
    show "count_list (xs @ [x]) v \<le> c \<and> c \<le> count_list (xs @ [x]) v + e \<and> e \<le> c"
      if "(v, c, e) \<in> set (A @ [(x, 1, 0)])" for v c e
      using that D(4-6) [of v c e] absent [OF x] x by (force split: if_splits)
  qed (use x room absent D(1-3) D(9) in \<open>auto split: if_splits\<close>)
qed

lemma counters_ok_evict:
  assumes A: "counters_ok cap xs A" and x: "x \<notin> fst ` set A" and full: "length A = cap"
    and i: "i < length A" "A ! i = (y, c, e)" and least: "\<forall>(v, c', e') \<in> set A. c \<le> c'"
  shows "counters_ok cap (xs @ [x]) (A[i := (x, Suc c, c)])"
proof (rule counters_okI)
  let ?A = "A[i := (x, Suc c, c)]"
  note D = counters_okD [OF A]
  have set_A: "set ?A = insert (x, Suc c, c) {b \<in> set A. fst b \<noteq> y}"
    using set_update_tracked [OF D(1) i] by simp
  have y: "(y, c, e) \<in> set A" using i by (metis nth_mem)
  have bound: "count_list xs v \<le> c" if "v \<notin> fst ` set A \<or> v = y" for v
    using that D(4) [OF y] D(8) [OF _ y] by blast
  show "distinct (map fst ?A)" "length ?A \<le> cap" "(\<Sum>(v, c, e) \<leftarrow> ?A. c) = length (xs @ [x])"
    using D(1-3) x i sum_update [OF i, of x 1 c] by (simp_all add: map_update distinct_list_update)
  show "count_list (xs @ [x]) v \<le> c' \<and> c' \<le> count_list (xs @ [x]) v + e' \<and> e' \<le> c'"
    if "(v, c', e') \<in> set ?A" for v c' e'
    using that x bound [of x] D(4-6) [of v c' e'] unfolding set_A by (force split: if_splits)
  show "count_list (xs @ [x]) v \<le> c'" if "v \<notin> fst ` set ?A" "(w, c', e') \<in> set ?A" for v w c' e'
  proof -
    have "v \<noteq> x" "v \<notin> fst ` set A \<or> v = y" using that(1) unfolding set_A by (auto simp: image_iff)
    then show ?thesis using bound [of v] least that(2) unfolding set_A by fastforce
  qed
qed (use full in simp_all)

theorem counts_ok: "counts cap xs A \<Longrightarrow> counters_ok cap xs A"
proof (induction rule: counts.induct)
  case (more xs A x A')
  from more.hyps(2) more.IH show ?case
    by cases (auto simp del: One_nat_def intro: counters_ok_hit counters_ok_fresh counters_ok_evict)
qed (simp add: counters_ok_def)

text \<open>A value that is not tracked, in a full list of counters, has at most its share of the stream.\<close>

lemma untracked_share:
  assumes "counters_ok cap xs A" "v \<notin> fst ` set A"
  shows "cap * count_list xs v \<le> length xs"
proof (cases "count_list xs v = 0")
  case False
  then have "length A = cap" using counters_okD(7) [OF assms] by simp
  moreover have "length A * n \<le> (\<Sum>(w, c, e) \<leftarrow> A. c)" if "\<And>w c e. (w, c, e) \<in> set A \<Longrightarrow> n \<le> c" for n :: nat
    using that by (induction A) (force split: prod.splits)+
  ultimately show ?thesis
    using counters_okD(3,8) [OF assms(1)] assms(2) by metis
qed simp

section \<open>The invariant of the sketch\<close>

definition abs_counters :: "('k, 'v, 't) space_saving \<Rightarrow> 'v counters" where
  "abs_counters s = map (\<lambda>e. (value_of e, entry_count e, entry_error e)) (take (n_entries s) (entries s))"

abbreviation count_at :: "('k, 'v, 't) space_saving \<Rightarrow> nat \<Rightarrow> nat" where
  "count_at s i \<equiv> entry_count (entries s ! i)"

definition ptrs :: "('k, 'v, 't) space_saving \<Rightarrow> nat list \<Rightarrow> eptr option list" where
  "ptrs s js = map (\<lambda>i. Some (storage s, i)) js"

definition shape_ok :: "('k, 'v, 't) space_saving \<Rightarrow> bool" where
  "shape_ok s \<longleftrightarrow> length (entries s) = m_max_capacity s \<and> length (base_level_candidates s) = m_max_capacity s
     \<and> n_entries s \<le> m_max_capacity s \<and> 0 < m_max_capacity s"

text \<open>
  The slots of a full sketch all point to entries, the last slot to the last entry: the guard of
  \<open>change_and_increment_value\<close> reads it.
\<close>

definition slots_ok :: "('k, 'v, 't) space_saving \<Rightarrow> bool" where
  "slots_ok s \<longleftrightarrow> (\<forall>c \<in> set (base_level_candidates s). \<exists>i < m_max_capacity s. c = Some (storage s, i))
     \<and> last (base_level_candidates s) = Some (storage s, m_max_capacity s - 1)"

text \<open>
  The stack holds the indices \<open>js\<close>, in increasing order, among them those of all entries at the
  base level.
\<close>

definition stack_of :: "('k, 'v, 't) space_saving \<Rightarrow> nat list \<Rightarrow> bool" where
  "stack_of s js \<longleftrightarrow> length js = base_level_candidate_count s
     \<and> take (length js) (base_level_candidates s) = ptrs s js
     \<and> sorted_wrt (<) js \<and> set js \<subseteq> {..<n_entries s}
     \<and> (\<forall>i < n_entries s. base_level s \<le> count_at s i \<and> (count_at s i = base_level s \<longrightarrow> i \<in> set js))"

definition stack_ok :: "('k, 'v, 't) space_saving \<Rightarrow> bool" where
  "stack_ok s \<longleftrightarrow> (\<exists>js. stack_of s js
     \<and> (n_entries s < m_max_capacity s \<longrightarrow> base_level s = 1 \<and> js = [0..<n_entries s]))
     \<and> (n_entries s = m_max_capacity s \<longrightarrow> slots_ok s)"

definition cache_ok :: "('k, 'v, 't) space_saving \<Rightarrow> bool" where
  "cache_ok s \<longleftrightarrow> (\<forall>p. cached_insertion_value s = Some p \<longrightarrow>
     (\<exists>i < n_entries s. p = (storage s, i) \<and> fst (entry_kv (entries s ! i)) = cached_insertion_key s))"

definition tracked_ptrs :: "('k, 'v, 't) space_saving \<Rightarrow> eptr set" where
  "tracked_ptrs s = Pair (storage s) ` {..<n_entries s}"

definition map_ok :: "('v, 'k) key_traits \<Rightarrow> ('k, eptr, 't) key_table \<Rightarrow> ('k, 'v, 't) space_saving \<Rightarrow> bool" where
  "map_ok K H s \<longleftrightarrow> in_step K H (held_by s) (tracked_ptrs s) {} (global_map s)"

definition sketch_ok :: "('v, 'k) key_traits \<Rightarrow> ('k, eptr, 't) key_table \<Rightarrow> ('k, 'v, 't) space_saving \<Rightarrow> bool" where
  "sketch_ok K H s \<longleftrightarrow> shape_ok s \<and> stack_ok s \<and> map_ok K H s \<and> cache_ok s"

lemma deref_own [simp]: "i < length (entries s) \<Longrightarrow> deref s (Some (storage s, i)) = Some (entries s ! i)"
  by (simp add: deref_def)

lemma held_by_own [simp]: "i < length (entries s) \<Longrightarrow> held_by s (storage s, i) = Some (entry_kv (entries s ! i))"
  by (simp add: held_by_def)

lemma held_by_set_entry:
  "i < length (entries s) \<Longrightarrow>
   held_by (set_entry (storage s, i) e s) = (held_by s)((storage s, i) \<mapsto> entry_kv e)"
  by (auto simp: fun_eq_iff held_by_def deref_def set_entry_def nth_list_update)

lemma held_by_cong: "storage s = storage s' \<Longrightarrow> entries s = entries s' \<Longrightarrow> held_by s = held_by s'"
  by (simp add: fun_eq_iff held_by_def deref_def)

lemma wrap64_id [simp]: "n < 2 ^ 64 \<Longrightarrow> wrap64 n = n"
  by (simp add: wrap64_def)

section \<open>The stack of candidates\<close>

lemma stack_ofD:
  assumes "stack_of s js"
  shows "base_level_candidate_count s = length js" "take (length js) (base_level_candidates s) = ptrs s js"
    "sorted_wrt (<) js" "i \<in> set js \<Longrightarrow> i < n_entries s"
    "i < n_entries s \<Longrightarrow> base_level s \<le> count_at s i"
    "i < n_entries s \<Longrightarrow> count_at s i = base_level s \<Longrightarrow> i \<in> set js"
  using assms by (auto simp: stack_of_def)

lemma stack_nth:
  assumes "stack_of s js" "j < length js"
  shows "base_level_candidates s ! j = Some (storage s, js ! j)"
proof -
  have "take (length js) (base_level_candidates s) ! j = ptrs s js ! j"
    using stack_ofD(2) [OF assms(1)] by simp
  then show ?thesis using assms(2) by (simp add: ptrs_def)
qed

lemma pop_stale_stack:
  assumes "stack_of s js" "shape_ok s" "n \<le> length js"
  shows "\<exists>k \<le> n. pop_stale s n = Some k \<and> (\<forall>j. k \<le> j \<longrightarrow> j < n \<longrightarrow> count_at s (js ! j) \<noteq> base_level s)
    \<and> (0 < k \<longrightarrow> count_at s (js ! (k - 1)) = base_level s)"
  using assms(3)
proof (induction n)
  case (Suc n)
  have "js ! n < length (entries s)"
    using stack_ofD(4) [OF assms(1) nth_mem [of n js]] assms(2) Suc.prems by (simp add: shape_ok_def)
  then have top: "deref s (base_level_candidates s ! n) = Some (entries s ! (js ! n))"
    using stack_nth [OF assms(1), of n] Suc.prems by simp
  obtain k where k: "k \<le> n" "pop_stale s n = Some k"
      "\<forall>j. k \<le> j \<longrightarrow> j < n \<longrightarrow> count_at s (js ! j) \<noteq> base_level s"
      "0 < k \<longrightarrow> count_at s (js ! (k - 1)) = base_level s"
    using Suc by auto
  show ?case
  proof (cases "count_at s (js ! n) = base_level s")
    case True
    then show ?thesis using top by (intro exI [of _ "Suc n"]) auto
  next
    case False
    then show ?thesis using top k by (intro exI [of _ k]) (auto simp: less_Suc_eq)
  qed
qed simp

text \<open>The stack without its top elements, which are not at the base level.\<close>

lemma stack_of_take:
  assumes "stack_of s js" "k \<le> length js"
    and "\<And>j. k \<le> j \<Longrightarrow> j < length js \<Longrightarrow> count_at s (js ! j) \<noteq> base_level s"
  shows "stack_of (s\<lparr>base_level_candidate_count := k\<rparr>) (take k js)"
proof -
  have "take k (base_level_candidates s) = take k (ptrs s js)"
    using assms(1,2) by (metis stack_of_def min.absorb1 take_take)
  moreover have "i \<in> set (take k js)" if "i \<in> set js" "count_at s i = base_level s" for i
    using that assms(2,3) by (metis in_set_conv_nth length_take linorder_not_le min.absorb2 nth_take)
  moreover have "set (take k js) \<subseteq> set js" by (rule set_take_subset)
  ultimately show ?thesis
    using assms(1,2) by (auto simp: stack_of_def ptrs_def take_map min_absorb2 sorted_wrt_take)
qed

lemma drop_stale_candidates_ok:
  assumes "stack_of s js" "shape_ok s" "slots_ok s" "n_entries s = m_max_capacity s"
  obtains k where "drop_stale_candidates s = Some (s\<lparr>base_level_candidate_count := k\<rparr>)"
    "stack_of (s\<lparr>base_level_candidate_count := k\<rparr>) (take k js)" "k \<le> length js"
    "0 < k \<Longrightarrow> count_at s (js ! (k - 1)) = base_level s"
proof -
  let ?l = "m_max_capacity s - 1"
  have cnt: "base_level_candidate_count s = length js" using assms(1) by (simp add: stack_of_def)
  have guard: "base_level_candidates s \<noteq> []" "deref s (last (base_level_candidates s)) = Some (entries s ! ?l)"
    using assms(2,3) by (auto simp: shape_ok_def slots_ok_def)
  consider "js = []" | "js \<noteq> []" "count_at s ?l = base_level s" | "js \<noteq> []" "count_at s ?l \<noteq> base_level s"
    by blast
  then show thesis
  proof cases
    case 1
    then show thesis using that [of 0] assms(1) cnt by (simp add: drop_stale_candidates_def stack_of_def ptrs_def)
  next
    case 2
    have "?l \<in> set js" using 2 assms(2,4) stack_ofD(6) [OF assms(1), of ?l] by (auto simp: shape_ok_def)
    then have "last js = ?l"
      using stack_ofD(3) [OF assms(1)] stack_ofD(4) [OF assms(1), of "last js"] assms(2,4)
      by (cases js rule: rev_cases) (auto simp: sorted_wrt_append shape_ok_def)
    then show thesis
      using that [of "length js"] 2 stack_of_take [OF assms(1), of "length js"] cnt guard by (simp add: drop_stale_candidates_def last_conv_nth)
  next
    case 3
    obtain k where "k \<le> length js" "pop_stale s (length js) = Some k"
        "\<forall>j. k \<le> j \<longrightarrow> j < length js \<longrightarrow> count_at s (js ! j) \<noteq> base_level s"
        "0 < k \<longrightarrow> count_at s (js ! (k - 1)) = base_level s"
      using pop_stale_stack [OF assms(1,2) order_refl] by blast
    then show thesis
      using that [of k] 3 cnt guard stack_of_take [OF assms(1), of k] by (simp add: drop_stale_candidates_def)
  qed
qed

text \<open>
  The scan has seen the first \<open>i\<close> entries: the stack holds those with the least count so far.
\<close>

definition scanned :: "('k, 'v, 't) space_saving \<Rightarrow> nat \<Rightarrow> nat \<times> nat \<times> eptr option list \<Rightarrow> bool" where
  "scanned s i acc = (case acc of (min_value, n, cands) \<Rightarrow>
     (let js = filter (\<lambda>j. count_at s j = min_value) [0..<i] in
      n = length js \<and> take n cands = ptrs s js \<and> (\<forall>j < i. min_value \<le> count_at s j)
      \<and> (if i = 0 then min_value = 2 ^ 64 - 1 else js \<noteq> [])
      \<and> length cands = m_max_capacity s \<and> (\<forall>c \<in> set cands. \<exists>i < m_max_capacity s. c = Some (storage s, i))
      \<and> last cands = Some (storage s, m_max_capacity s - 1)))"

lemma slot_update:
  assumes "length cands = cap" "\<forall>c \<in> set cands. \<exists>i < cap. c = Some (g, i)" "last cands = Some (g, cap - 1)"
    and "n \<le> i" "i < cap"
  shows "\<forall>c \<in> set (cands[n := Some (g, i)]). \<exists>i < cap. c = Some (g, i)"
    "last (cands[n := Some (g, i)]) = Some (g, cap - 1)"
proof -
  show "\<forall>c \<in> set (cands[n := Some (g, i)]). \<exists>i < cap. c = Some (g, i)"
    using assms(2,5) set_update_subset_insert [of cands n] by blast
  have "cands \<noteq> []" using assms(1,5) by auto
  then show "last (cands[n := Some (g, i)]) = Some (g, cap - 1)"
    using assms by (cases "n = cap - 1") (auto simp: last_list_update)
qed

lemma scannedD:
  assumes "scanned s i (m, n, cands)"
  defines "js \<equiv> filter (\<lambda>j. count_at s j = m) [0..<i]"
  shows "n = length js" "take n cands = ptrs s js" "\<forall>j < i. m \<le> count_at s j"
    "i = 0 \<Longrightarrow> m = 2 ^ 64 - 1" "i \<noteq> 0 \<Longrightarrow> js \<noteq> []" "length cands = m_max_capacity s"
    "\<forall>c \<in> set cands. \<exists>i < m_max_capacity s. c = Some (storage s, i)"
    "last cands = Some (storage s, m_max_capacity s - 1)"
  using assms(1) unfolding scanned_def Let_def prod.case js_def by (auto simp only: if_True if_False)

lemma scan_step:
  assumes "scanned s i (m, n, cands)" "shape_ok s" "i < m_max_capacity s" "count_at s i < 2 ^ 64"
    and "count_at s i < m \<Longrightarrow> acc = (count_at s i, 1, cands[0 := Some (storage s, i)])"
    and "count_at s i = m \<Longrightarrow> acc = (m, Suc n, cands[n := Some (storage s, i)])"
    and "m < count_at s i \<Longrightarrow> acc = (m, n, cands)"
  shows "scanned s (Suc i) acc"
proof -
  let ?js = "filter (\<lambda>j. count_at s j = m) [0..<i]"
  note I = scannedD [OF assms(1)]
  have "n \<le> i" using I(1) length_filter_le [of "\<lambda>j. count_at s j = m" "[0..<i]"] by simp
  consider "count_at s i < m" | "count_at s i = m" | "m < count_at s i" by linarith
  then show ?thesis
  proof cases
    case 1
    then have "filter (\<lambda>j. count_at s j = count_at s i) [0..<Suc i] = [i]"
      using I(3) by (auto simp: filter_empty_conv)
    moreover have "take 1 (cands[0 := Some (storage s, i)]) = ptrs s [i]"
      using I(6) assms(3) by (cases cands) (auto simp: ptrs_def)
    moreover have "\<forall>j < Suc i. count_at s i \<le> count_at s j"
      using 1 I(3) by (auto simp: less_Suc_eq)
    ultimately show ?thesis
      unfolding assms(5) [OF 1] scanned_def Let_def prod.case
      using I(6) slot_update [OF I(6-8), of 0 i] assms(3) by simp
  next
    case 2
    then have "filter (\<lambda>j. count_at s j = m) [0..<Suc i] = ?js @ [i]" by simp
    moreover have "take (Suc n) (cands[n := Some (storage s, i)]) = ptrs s (?js @ [i])"
      using I(2,6) assms(3) \<open>n \<le> i\<close> by (simp add: take_Suc_conv_app_nth ptrs_def)
    moreover have "\<forall>j < Suc i. m \<le> count_at s j"
      using 2 I(3) by (auto simp: less_Suc_eq)
    ultimately show ?thesis
      unfolding assms(6) [OF 2] scanned_def Let_def prod.case
      using I(1,6) slot_update [OF I(6-8) \<open>n \<le> i\<close> assms(3)] by simp
  next
    case 3
    then have "filter (\<lambda>j. count_at s j = m) [0..<Suc i] = ?js" by simp
    moreover have "0 < i" using I(4) 3 assms(4) by (cases i) auto
    moreover have "\<forall>j < Suc i. m \<le> count_at s j"
      using 3 I(3) by (auto simp: less_Suc_eq)
    ultimately show ?thesis
      unfolding assms(7) [OF 3] scanned_def Let_def prod.case
      using I by simp
  qed
qed

lemma regenerate_loop_scans:
  assumes "shape_ok s" "\<And>j. j < m_max_capacity s \<Longrightarrow> count_at s j < 2 ^ 64" "i \<le> m_max_capacity s" "scanned s i acc"
  shows "\<exists>acc'. regenerate_loop s [i..<m_max_capacity s] acc = Some acc' \<and> scanned s (m_max_capacity s) acc'"
  using assms(3,4)
proof (induction "m_max_capacity s - i" arbitrary: i acc)
  case (Suc d)
  then have i: "i < m_max_capacity s" "[i..<m_max_capacity s] = i # [Suc i..<m_max_capacity s]"
    by (auto simp: upt_conv_Cons)
  obtain m n cands where acc: "acc = (m, n, cands)" by (cases acc)
  have "length cands = m_max_capacity s" "n \<le> i"
    using Suc.prems length_filter_le [of "\<lambda>j. count_at s j = m" "[0..<i]"] acc by (auto simp: scanned_def Let_def)
  define acc' where "acc' = (if count_at s i < m then (count_at s i, 1, cands[0 := Some (storage s, i)])
    else if count_at s i = m then (m, Suc n, cands[n := Some (storage s, i)]) else (m, n, cands))"
  have "regenerate_loop s [i..<m_max_capacity s] acc = regenerate_loop s [Suc i..<m_max_capacity s] acc'"
    using i assms(1) \<open>length cands = _\<close> \<open>n \<le> i\<close> by (simp add: acc acc'_def shape_ok_def)
  moreover have "scanned s (Suc i) acc'"
    by (rule scan_step [OF _ assms(1) i(1) assms(2) [OF i(1)]]) (use Suc.prems acc in \<open>auto simp: acc'_def\<close>)
  ultimately show ?case using Suc.hyps(1) [of "Suc i" acc'] Suc.hyps(2) i(1) by simp
qed simp

text \<open>Rebuilding an empty stack puts all entries with the least count on it.\<close>

lemma regenerate_base_level_ok:
  assumes "shape_ok s" "slots_ok s" "n_entries s = m_max_capacity s" "base_level_candidate_count s = 0"
    and "\<And>j. j < m_max_capacity s \<Longrightarrow> count_at s j < 2 ^ 64"
  obtains s' m n cands js where "regenerate_base_level s = Some s'"
    "s' = s\<lparr>base_level := m, base_level_candidate_count := n, base_level_candidates := cands\<rparr>"
    "stack_of s' js" "slots_ok s'" "js \<noteq> []" "length cands = m_max_capacity s" "count_at s (last js) = m"
proof -
  have "scanned s 0 (2 ^ 64 - 1, 0, base_level_candidates s)"
    unfolding scanned_def Let_def prod.case using assms(1,2) by (simp add: shape_ok_def slots_ok_def ptrs_def)
  then obtain acc where acc: "regenerate_loop s [0..<m_max_capacity s] (2 ^ 64 - 1, 0, base_level_candidates s) = Some acc"
      "scanned s (m_max_capacity s) acc"
    using regenerate_loop_scans [of s 0] assms(1,5) by blast
  obtain m n cands where [simp]: "acc = (m, n, cands)" by (cases acc)
  let ?s = "s\<lparr>base_level := m, base_level_candidate_count := n, base_level_candidates := cands\<rparr>"
    and ?js = "filter (\<lambda>j. count_at s j = m) [0..<m_max_capacity s]"
  have "m_max_capacity s \<noteq> 0" using assms(1) by (simp add: shape_ok_def)
  note S = scannedD [of s "m_max_capacity s" m n cands] acc(2) this
  have js: "?js \<noteq> []" using S by simp
  show thesis
  proof (rule that [of ?s])
    show "regenerate_base_level s = Some ?s" using acc(1) assms(4) by (simp add: regenerate_base_level_def)
    show "stack_of ?s ?js" using S assms(3) by (auto simp: stack_of_def ptrs_def sorted_wrt_filter)
    show "count_at s (last ?js) = m" using last_in_set [OF js] by simp
  qed (use S js in \<open>simp_all add: slots_ok_def\<close>)
qed

section \<open>A unit insertion is a step of the algorithm\<close>

lemma held_by_frame [simp]:
  "held_by (s\<lparr>m_size := a\<rparr>) = held_by s" "held_by (s\<lparr>cached_insertion_key := k\<rparr>) = held_by s"
  "held_by (s\<lparr>cached_insertion_value := p\<rparr>) = held_by s" "held_by (s\<lparr>n_entries := n\<rparr>) = held_by s"
  "held_by (s\<lparr>base_level := l\<rparr>) = held_by s" "held_by (s\<lparr>base_level_candidate_count := n\<rparr>) = held_by s"
  "held_by (s\<lparr>base_level_candidates := cs\<rparr>) = held_by s" "held_by (s\<lparr>global_map := m\<rparr>) = held_by s"
  by (rule held_by_cong; simp)+

lemma set_entry_sel [simp]:
  "entries (set_entry p e s) = (entries s)[snd p := e]" "storage (set_entry p e s) = storage s"
  "n_entries (set_entry p e s) = n_entries s" "m_max_capacity (set_entry p e s) = m_max_capacity s"
  "base_level (set_entry p e s) = base_level s" "m_size (set_entry p e s) = m_size s"
  "base_level_candidates (set_entry p e s) = base_level_candidates s" "m_epsilon (set_entry p e s) = m_epsilon s"
  "base_level_candidate_count (set_entry p e s) = base_level_candidate_count s"
  "global_map (set_entry p e s) = global_map s"
  "cached_insertion_key (set_entry p e s) = cached_insertion_key s"
  "cached_insertion_value (set_entry p e s) = cached_insertion_value s"
  by (simp_all add: set_entry_def)

lemma abs_counters_nth:
  "i < n_entries s \<Longrightarrow> n_entries s \<le> length (entries s) \<Longrightarrow> abs_counters s ! i
     = (value_of (entries s ! i), entry_count (entries s ! i), entry_error (entries s ! i))"
  by (simp add: abs_counters_def)

lemma length_abs_counters [simp]: "n_entries s \<le> length (entries s) \<Longrightarrow> length (abs_counters s) = n_entries s"
  by (simp add: abs_counters_def)

lemma set_abs_counters:
  "n_entries s \<le> length (entries s) \<Longrightarrow> set (abs_counters s)
     = (\<lambda>i. (value_of (entries s ! i), entry_count (entries s ! i), entry_error (entries s ! i))) ` {..<n_entries s}"
  by (simp add: abs_counters_def image_image atLeast0LessThan flip: nth_image)

lemma abs_counters_set_entry:
  "abs_counters (set_entry (g, i) e s) = (abs_counters s)[i := (value_of e, entry_count e, entry_error e)]"
  by (simp add: abs_counters_def take_update_swap map_update)

text \<open>Raising the count of an entry keeps the stack: the entry may stay on it as a stale candidate.\<close>

lemma stack_of_raise:
  "stack_of s js \<Longrightarrow> i < n_entries s \<Longrightarrow> n_entries s \<le> length (entries s) \<Longrightarrow> base_level s < entry_count e \<Longrightarrow>
   stack_of (set_entry (storage s, i) e s) js"
  by (auto simp: stack_of_def ptrs_def nth_list_update)

lemma stack_ok_raise:
  assumes "stack_ok s" "shape_ok s" "i < n_entries s" "base_level s < entry_count e"
  shows "stack_ok (set_entry (storage s, i) e s)"
  using assms stack_of_raise [of s _ i e] unfolding stack_ok_def shape_ok_def slots_ok_def by auto

lemma stack_ok_base: "stack_ok s \<Longrightarrow> i < n_entries s \<Longrightarrow> base_level s \<le> count_at s i"
  by (auto simp: stack_ok_def stack_of_def)

lemma stack_ok_frame [simp]:
  "stack_ok (s\<lparr>m_size := a\<rparr>) = stack_ok s" "stack_ok (s\<lparr>cached_insertion_key := k\<rparr>) = stack_ok s"
  "stack_ok (s\<lparr>cached_insertion_value := p\<rparr>) = stack_ok s" "stack_ok (s\<lparr>global_map := m\<rparr>) = stack_ok s"
  by (simp_all add: stack_ok_def stack_of_def slots_ok_def ptrs_def)

lemma shape_ok_frame [simp]:
  "shape_ok (s\<lparr>m_size := a\<rparr>) = shape_ok s" "shape_ok (s\<lparr>cached_insertion_key := k\<rparr>) = shape_ok s"
  "shape_ok (s\<lparr>cached_insertion_value := p\<rparr>) = shape_ok s" "shape_ok (s\<lparr>global_map := m\<rparr>) = shape_ok s"
  "shape_ok (set_entry q e s) = shape_ok s"
  by (simp_all add: shape_ok_def)

lemma map_ok_frame [simp]:
  "map_ok K H (s\<lparr>m_size := a\<rparr>) = map_ok K H s" "map_ok K H (s\<lparr>cached_insertion_key := k\<rparr>) = map_ok K H s"
  "map_ok K H (s\<lparr>cached_insertion_value := p\<rparr>) = map_ok K H s"
  by (simp_all add: map_ok_def tracked_ptrs_def)

lemma abs_counters_frame [simp]:
  "abs_counters (s\<lparr>m_size := a\<rparr>) = abs_counters s" "abs_counters (s\<lparr>cached_insertion_key := k\<rparr>) = abs_counters s"
  "abs_counters (s\<lparr>cached_insertion_value := p\<rparr>) = abs_counters s" "abs_counters (s\<lparr>global_map := m\<rparr>) = abs_counters s"
  "abs_counters (s\<lparr>base_level := l\<rparr>) = abs_counters s" "abs_counters (s\<lparr>base_level_candidates := cs\<rparr>) = abs_counters s"
  "abs_counters (s\<lparr>base_level_candidate_count := n\<rparr>) = abs_counters s"
  by (simp_all add: abs_counters_def)

text \<open>What every unit insertion does: the sketch stays well-formed and a step of the algorithm is made.\<close>

definition unit_step :: "('v, 'k) key_traits \<Rightarrow> ('k, eptr, 't) key_table \<Rightarrow> 'v \<Rightarrow>
    ('k, 'v, 't) space_saving \<Rightarrow> ('k, 'v, 't) space_saving \<Rightarrow> bool" where
  "unit_step K H x s s' \<longleftrightarrow> shape_ok s' \<and> stack_ok s' \<and> map_ok K H s'
     \<and> count_step (m_max_capacity s) x (abs_counters s) (abs_counters s')
     \<and> m_max_capacity s' = m_max_capacity s \<and> m_epsilon s' = m_epsilon s \<and> m_size s' = m_size s"

definition unsaturated :: "('k, 'v, 't) space_saving \<Rightarrow> bool" where
  "unsaturated s \<longleftrightarrow> (\<forall>i < n_entries s. count_at s i + 1 < 2 ^ 64)"

lemma increment_unit_step:
  assumes "shape_ok s" "stack_ok s" "map_ok K H s" "unsaturated s" "i < n_entries s" "value_of (entries s ! i) = x"
    and "entry_error (entries s ! i) < 2 ^ 64"
  obtains s' where "increment_element (storage s, i) 1 0 s = Some s'" "unit_step K H x s s'"
    "storage s' = storage s" "n_entries s' = n_entries s" "entry_kv (entries s' ! i) = entry_kv (entries s ! i)"
    "cached_insertion_key s' = cached_insertion_key s" "cached_insertion_value s' = cached_insertion_value s"
    "\<And>j. entry_kv (entries s' ! j) = entry_kv (entries s ! j)"
proof -
  let ?e = "entries s ! i"
  let ?e' = "?e\<lparr>entry_count := entry_count ?e + 1\<rparr>"
  let ?s = "set_entry (storage s, i) ?e' s"
  have len: "i < length (entries s)" "n_entries s \<le> length (entries s)" using assms(1,5) by (auto simp: shape_ok_def)
  have "entry_count ?e + 1 < 2 ^ 64" using assms(4,5) by (auto simp: unsaturated_def)
  then have inc: "increment_element (storage s, i) 1 0 s = Some ?s"
    using len assms(7) by (simp add: increment_element_def)
  have "held_by ?s = held_by s"
    using held_by_set_entry [OF len(1), of ?e'] len(1) by (auto simp: fun_eq_iff)
  then have "map_ok K H ?s" using assms(3) by (simp add: map_ok_def tracked_ptrs_def)
  moreover have "stack_ok ?s"
    using stack_ok_raise [OF assms(2,1,5), of ?e'] stack_ok_base [OF assms(2,5)] by simp
  moreover have "count_step (m_max_capacity s) x (abs_counters s) (abs_counters ?s)"
    using count_step.hit [of i "abs_counters s" x "entry_count ?e" "entry_error ?e"] assms(5,6) len
    by (simp add: abs_counters_set_entry abs_counters_nth value_of_def)
  ultimately have "unit_step K H x s ?s" using assms(1) by (simp add: unit_step_def)
  then show thesis using that [OF inc] len by (simp add: nth_list_update)
qed

text \<open>The mapper of a sketch, whose containers are entries.\<close>

locale sketch_mapper = mapper H K
  for H :: "('k, eptr, 't) key_table" and K :: "('v, 'k) key_traits"
begin

lemma untracked_not_held:
  assumes "shape_ok s" "x \<notin> fst ` set (abs_counters s)"
  shows "\<forall>q \<in> tracked_ptrs s. held_by s q \<noteq> Some (key_of K x, x)"
proof
  fix q assume "q \<in> tracked_ptrs s"
  then obtain i where i: "q = (storage s, i)" "i < n_entries s" by (auto simp: tracked_ptrs_def)
  then have "value_of (entries s ! i) \<in> fst ` set (abs_counters s)"
    using assms(1) by (auto simp: set_abs_counters shape_ok_def image_image)
  then show "held_by s q \<noteq> Some (key_of K x, x)"
    using assms i by (force simp: shape_ok_def value_of_def)
qed

lemma insert_unit_step:
  assumes "shape_ok s" "stack_ok s" "map_ok K H s" "n_entries s < m_max_capacity s"
    and "x \<notin> fst ` set (abs_counters s)"
  obtains s' where "insert_element K H (key_of K x) x 1 0 s = Some (s', (storage s, n_entries s))" "unit_step K H x s s'"
    "storage s' = storage s" "n_entries s' = Suc (n_entries s)"
    "entry_kv (entries s' ! n_entries s) = (key_of K x, x)" "cached_insertion_key s' = cached_insertion_key s"
proof -
  let ?n = "n_entries s" and ?e = "\<lparr>entry_count = 1, entry_error = 0, entry_kv = (key_of K x, x)\<rparr>"
  let ?p = "(storage s, ?n)"
  define s1 where "s1 = (set_entry ?p ?e s)\<lparr>n_entries := Suc ?n,
    base_level_candidates := (base_level_candidates s)[?n := Some ?p], base_level_candidate_count := Suc ?n\<rparr>"
  define s2 where "s2 = s1\<lparr>global_map := vcm_insert K H (held_by s1) (key_of K x) ?p (global_map s)\<rparr>"
  have len: "?n < length (entries s)" "?n < length (base_level_candidates s)" "?n \<le> length (entries s)"
    using assms(1,4) by (auto simp: shape_ok_def)
  have stack: "stack_of s [0..<?n]" "base_level s = 1"
    using assms(2,4) by (auto simp: stack_ok_def)
  have ins: "insert_element K H (key_of K x) x 1 0 s = Some (s2, ?p)"
    using len stack stack_ofD(1) [OF stack(1)] by (simp add: insert_element_def Let_def s1_def s2_def)
  have "held_by s1 = (held_by s)(?p \<mapsto> (key_of K x, x))"
    using held_by_set_entry [OF len(1), of ?e] by (simp add: s1_def)
  moreover have "tracked_ptrs s2 = insert ?p (tracked_ptrs s)"
    by (simp add: tracked_ptrs_def s1_def s2_def lessThan_Suc)
  moreover have "?p \<notin> tracked_ptrs s" by (auto simp: tracked_ptrs_def)
  ultimately have map: "map_ok K H s2"
    using in_step_file [of "held_by s" "tracked_ptrs s" "global_map s" ?p] assms(3) untracked_not_held [OF assms(1,5)]
    by (simp add: map_ok_def s2_def)
  have shape: "shape_ok s2" using assms(1,4) by (simp add: shape_ok_def s1_def s2_def)
  have stack2: "stack_of s2 [0..<Suc ?n]"
    using stack len unfolding stack_of_def s1_def s2_def
    by (auto simp: ptrs_def take_Suc_conv_app_nth nth_list_update less_Suc_eq sorted_wrt_append)
  have "slots_ok s2" if "Suc ?n = m_max_capacity s"
  proof -
    have "base_level_candidates s2 = ptrs s2 [0..<m_max_capacity s]"
      using stack_ofD(2) [OF stack2] that assms(1) by (simp add: s1_def s2_def shape_ok_def)
    then show ?thesis
      by (auto simp: slots_ok_def ptrs_def s1_def s2_def simp flip: that)
  qed
  then have "stack_ok s2"
    using stack2 stack(2) unfolding stack_ok_def by (auto simp: s1_def s2_def)
  moreover have "abs_counters s2 = abs_counters s @ [(x, 1, 0)]"
    using len by (simp add: abs_counters_def s1_def s2_def take_Suc_conv_app_nth value_of_def)
  then have "count_step (m_max_capacity s) x (abs_counters s) (abs_counters s2)"
    using count_step.fresh [OF assms(5), of "m_max_capacity s"] assms(4) len by simp
  ultimately have "unit_step K H x s s2"
    using map shape by (simp add: unit_step_def s1_def s2_def)
  then show thesis using that [OF ins] len by (simp add: s1_def s2_def)
qed

text \<open>The entry on top of the stack, at the base level, is handed over.\<close>

lemma replace_unit_step:
  assumes "shape_ok s" "stack_of s js" "slots_ok s" "map_ok K H s" "unsaturated s" "n_entries s = m_max_capacity s"
    and "x \<notin> fst ` set (abs_counters s)" "js \<noteq> []" "count_at s (last js) = base_level s"
  obtains s' i where "replace_candidate K H (key_of K x) x 1 0 s = Some (s', (storage s, i))" "unit_step K H x s s'"
    "storage s' = storage s" "n_entries s' = n_entries s" "i < n_entries s"
    "entry_kv (entries s' ! i) = (key_of K x, x)" "cached_insertion_key s' = cached_insertion_key s"
proof -
  let ?i = "last js" let ?e = "entries s ! ?i" let ?p = "(storage s, ?i)"
  let ?e' = "\<lparr>entry_count = entry_count ?e + 1, entry_error = entry_count ?e, entry_kv = (key_of K x, x)\<rparr>"
  note stack = stack_ofD [OF assms(2)]
  have i: "?i < n_entries s" "?i < length (entries s)" "n_entries s \<le> length (entries s)"
    using stack(4) [of ?i] assms(1,8) by (auto simp: shape_ok_def)
  have top: "base_level_candidates s ! (length js - 1) = Some ?p"
    using stack_nth [OF assms(2), of "length js - 1"] assms(8) by (simp add: last_conv_nth)
  have count: "entry_count ?e + 1 < 2 ^ 64" using assms(5) i(1) by (auto simp: unsaturated_def)
  define s1 where "s1 = set_entry ?p ?e' s"
  have heap: "held_by s1 = (held_by s)(?p \<mapsto> (key_of K x, x))"
    using held_by_set_entry [OF i(2), of ?e'] by (simp add: s1_def)
  obtain gm where gm: "vcm_invalidate K H (held_by s) (fst (entry_kv ?e)) ?p (global_map s) = Some gm"
      "in_step K H (held_by s1) (tracked_ptrs s) {} (vcm_insert K H (held_by s1) (key_of K x) ?p gm)"
    using in_step_rebind [OF _ _ _ heap untracked_not_held [OF assms(1,7)], of "global_map s"
        "fst (entry_kv ?e)" "snd (entry_kv ?e)"] assms(4) i
    by (auto simp: map_ok_def tracked_ptrs_def)
  define s2 where "s2 = s1\<lparr>global_map := vcm_insert K H (held_by s1) (key_of K x) ?p gm,
    base_level_candidate_count := length js - 1\<rparr>"
  have rep: "replace_candidate K H (key_of K x) x 1 0 s = Some (s2, ?p)"
    using assms(8) top i(2) gm(1) count stack(1) by (simp add: replace_candidate_def Let_def s1_def s2_def)
  have "shape_ok s2" using assms(1) by (simp add: shape_ok_def s1_def s2_def)
  moreover have "map_ok K H s2" using gm(2) by (simp add: map_ok_def tracked_ptrs_def s1_def s2_def)
  moreover have "stack_ok s2"
  proof -
    have "stack_of s1 js" using stack_of_raise [OF assms(2) i(1,3), of ?e'] assms(9) by (simp add: s1_def)
    moreover have "count_at s1 (js ! j) \<noteq> base_level s1" if "length js - 1 \<le> j" "j < length js" for j
    proof -
      have "j = length js - 1" using that by linarith
      then have "js ! j = ?i" using assms(8) by (simp add: last_conv_nth)
      then show ?thesis using i(2) assms(9) by (simp add: s1_def)
    qed
    ultimately have "stack_of (s1\<lparr>base_level_candidate_count := length js - 1\<rparr>) (take (length js - 1) js)"
      by (intro stack_of_take) simp_all
    then have "stack_of s2 (take (length js - 1) js)" by (simp add: s2_def stack_of_def ptrs_def)
    then show ?thesis using assms(3,6) by (auto simp: stack_ok_def slots_ok_def s1_def s2_def)
  qed
  moreover have "count_step (m_max_capacity s) x (abs_counters s) (abs_counters s2)"
  proof -
    have "\<forall>(v, c', e') \<in> set (abs_counters s). entry_count ?e \<le> c'"
      using stack(5) assms(9) i(3) by (auto simp: set_abs_counters)
    then show ?thesis
      using count_step.evict [OF assms(7), of "m_max_capacity s" ?i "value_of ?e" "entry_count ?e" "entry_error ?e"] i assms(6)
      by (simp add: abs_counters_set_entry abs_counters_nth s1_def s2_def value_of_def)
  qed
  ultimately have "unit_step K H x s s2" by (simp add: unit_step_def s1_def s2_def)
  then show thesis using that [OF rep] i by (simp add: s1_def s2_def)
qed

lemma change_unit_step:
  assumes "shape_ok s" "stack_ok s" "map_ok K H s" "unsaturated s" "n_entries s = m_max_capacity s"
    and "x \<notin> fst ` set (abs_counters s)"
  obtains s' i where "change_and_increment_value K H (key_of K x) x 1 0 s = Some (s', (storage s, i))"
    "unit_step K H x s s'" "storage s' = storage s" "n_entries s' = n_entries s" "i < n_entries s"
    "entry_kv (entries s' ! i) = (key_of K x, x)" "cached_insertion_key s' = cached_insertion_key s"
proof -
  obtain js where js: "stack_of s js" "slots_ok s" using assms(2,5) by (auto simp: stack_ok_def)
  obtain k where k: "drop_stale_candidates s = Some (s\<lparr>base_level_candidate_count := k\<rparr>)"
    "stack_of (s\<lparr>base_level_candidate_count := k\<rparr>) (take k js)" "k \<le> length js"
    "0 < k \<Longrightarrow> count_at s (js ! (k - 1)) = base_level s"
    by (rule drop_stale_candidates_ok [OF js(1) assms(1) js(2) assms(5)]) (rule that)
  define s1 where "s1 = s\<lparr>base_level_candidate_count := k\<rparr>"
  have s1: "shape_ok s1" "slots_ok s1" "map_ok K H s1" "unsaturated s1" "n_entries s1 = m_max_capacity s1"
      "abs_counters s1 = abs_counters s"
    using assms js(2) by (simp_all add: s1_def shape_ok_def slots_ok_def map_ok_def tracked_ptrs_def unsaturated_def)
  obtain s2 ls where s2: "(if base_level_candidate_count s1 = 0 then regenerate_base_level s1 else Some s1) = Some s2"
      "stack_of s2 ls" "slots_ok s2" "ls \<noteq> []" "count_at s2 (last ls) = base_level s2"
      "shape_ok s2" "map_ok K H s2" "unsaturated s2" "n_entries s2 = m_max_capacity s2" "abs_counters s2 = abs_counters s"
      "storage s2 = storage s" "n_entries s2 = n_entries s" "m_max_capacity s2 = m_max_capacity s"
      "m_epsilon s2 = m_epsilon s" "m_size s2 = m_size s" "cached_insertion_key s2 = cached_insertion_key s"
  proof (cases "k = 0")
    case True
    have empty: "base_level_candidate_count s1 = 0" using True by (simp add: s1_def)
    have small: "count_at s1 j < 2 ^ 64" if "j < m_max_capacity s1" for j
      using that s1(4,5) by (auto simp: unsaturated_def)
    obtain r m n cands ls where r: "regenerate_base_level s1 = Some r"
      "r = s1\<lparr>base_level := m, base_level_candidate_count := n, base_level_candidates := cands\<rparr>"
      "stack_of r ls" "slots_ok r" "ls \<noteq> []" "length cands = m_max_capacity s1" "count_at s1 (last ls) = m"
      by (rule regenerate_base_level_ok [OF s1(1,2,5) empty], erule small, rule that)
    have "shape_ok r" "map_ok K H r" "unsaturated r"
      using s1 r(2,6) by (simp_all add: shape_ok_def map_ok_def tracked_ptrs_def unsaturated_def)
    then show thesis
      using that [of r ls] r s1(5,6) empty by (simp add: s1_def)
  next
    case False
    have "last (take k js) = js ! (k - 1)" using k(3) False by (subst last_conv_nth) (auto simp: min_absorb2)
    moreover have "js \<noteq> []" using k(3) False by auto
    ultimately show thesis using that [of s1 "take k js"] s1 k False by (auto simp: s1_def)
  qed
  have x: "x \<notin> fst ` set (abs_counters s2)" using assms(6) s2(10) by simp
  obtain s' i where s': "replace_candidate K H (key_of K x) x 1 0 s2 = Some (s', (storage s2, i))" "unit_step K H x s2 s'"
    "storage s' = storage s2" "n_entries s' = n_entries s2" "i < n_entries s2"
    "entry_kv (entries s' ! i) = (key_of K x, x)" "cached_insertion_key s' = cached_insertion_key s2"
    by (rule replace_unit_step [OF s2(6,2,3,7-9) x s2(4,5)]) (rule that)
  have "change_and_increment_value K H (key_of K x) x 1 0 s = Some (s', (storage s, i))"
    using k(1) [folded s1_def] s2(1,11) s'(1) by (simp add: change_and_increment_value_def)
  moreover have "unit_step K H x s s'"
    using s'(2) s2(10-15) by (simp add: unit_step_def)
  ultimately show thesis using that s' s2(11,12,16) by simp
qed

text \<open>The cache of the last insertion and the mapper both find the entry of a tracked value.\<close>

lemma tracked_entry:
  assumes "shape_ok s" "map_ok K H s" "i < n_entries s"
  shows "entry_kv (entries s ! i) = (key_of K (value_of (entries s ! i)), value_of (entries s ! i))"
proof -
  have "(storage s, i) \<in> tracked_ptrs s" using assms(3) by (simp add: tracked_ptrs_def)
  then have "\<exists>v. held_by s (storage s, i) = Some (key_of K v, v)"
    using in_step_holds assms(2) unfolding map_ok_def by blast
  then show ?thesis using assms(1,3) by (auto simp: shape_ok_def value_of_def)
qed

lemma cached_entry_ok:
  assumes "shape_ok s" "map_ok K H s" "cache_ok s"
  obtains "cached_entry K (key_of K x) x s = Some None"
  | i where "cached_entry K (key_of K x) x s = Some (Some (storage s, i))" "i < n_entries s"
      "value_of (entries s ! i) = x" "cached_insertion_key s = key_of K x" "cached_insertion_value s = Some (storage s, i)"
proof (cases "cached_insertion_value s")
  case None
  then show thesis using that(1) by (simp add: cached_entry_def)
next
  case (Some p)
  then obtain i where i: "i < n_entries s" "p = (storage s, i)" "fst (entry_kv (entries s ! i)) = cached_insertion_key s"
    using assms(3) by (auto simp: cache_ok_def)
  have len: "i < length (entries s)" using i(1) assms(1) by (simp add: shape_ok_def)
  have key: "cached_insertion_key s = key_of K (value_of (entries s ! i))"
    using tracked_entry [OF assms(1,2) i(1)] i(3) by (metis fst_conv)
  have exact: "value_of (entries s ! i) = x" if "key_is_exact K" "cached_insertion_key s = key_of K x"
    using that key exact_keys by (simp add: inj_eq)
  show thesis
  proof (cases "cached_insertion_key s = key_of K x \<and> value_of (entries s ! i) = x")
    case True
    then show thesis using that(2) [of i] Some i len by (simp add: cached_entry_def)
  next
    case False
    then have "cached_entry K (key_of K x) x s = Some None"
      using Some i len exact by (cases "cached_insertion_key s = key_of K x") (auto simp: cached_entry_def)
    then show thesis by (rule that(1))
  qed
qed

lemma find_untracked:
  assumes "shape_ok s" "map_ok K H s" "vcm_find K H (held_by s) (key_of K x) x (global_map s) = None"
  shows "x \<notin> fst ` set (abs_counters s)"
proof
  assume "x \<in> fst ` set (abs_counters s)"
  then obtain i where i: "i < n_entries s" "value_of (entries s ! i) = x"
    using assms(1) by (auto simp: set_abs_counters shape_ok_def image_image)
  have "(storage s, i) \<in> tracked_ptrs s" using i(1) by (simp add: tracked_ptrs_def)
  moreover have "held_by s (storage s, i) = Some (key_of K x, x)"
    using tracked_entry [OF assms(1,2) i(1)] i assms(1) by (simp add: shape_ok_def)
  ultimately show False
    using find_none_iff [of "held_by s" "tracked_ptrs s" "global_map s" x] assms(2,3) by (auto simp: map_ok_def)
qed

lemma find_tracked:
  assumes "shape_ok s" "map_ok K H s" "vcm_find K H (held_by s) (key_of K x) x (global_map s) = Some p"
  obtains i where "p = (storage s, i)" "i < n_entries s" "value_of (entries s ! i) = x"
proof -
  have "p \<in> tracked_ptrs s" "held_by s p = Some (key_of K x, x)"
    using find_iff [of "held_by s" "tracked_ptrs s" "global_map s" x p] assms(2,3) by (auto simp: map_ok_def)
  then show thesis
    using that assms(1) by (auto simp: tracked_ptrs_def shape_ok_def value_of_def)
qed

lemma cached_sketch_ok:
  assumes "unit_step K H x s s'" "i < n_entries s'" "entry_kv (entries s' ! i) = (key_of K x, x)"
    and "cached_insertion_key s' = key_of K x"
  shows "sketch_ok K H (s'\<lparr>cached_insertion_value := Some (storage s', i)\<rparr>)"
  using assms by (auto simp: sketch_ok_def unit_step_def cache_ok_def)

text \<open>The lookup of a value that is not in the cache, and what follows it.\<close>

lemma uncached_unit_step:
  assumes s: "shape_ok s" "stack_ok s" "map_ok K H s" "unsaturated s" "cached_insertion_key s = key_of K x"
    and "\<forall>i < n_entries s. entry_error (entries s ! i) < 2 ^ 64"
  obtains s' p where "unit_step K H x s s'" "sketch_ok K H (s'\<lparr>cached_insertion_value := Some p\<rparr>)"
    "add_uncached K H (key_of K x) x 1 0 s = Some (s'\<lparr>cached_insertion_value := Some p\<rparr>)"
proof (cases "vcm_find K H (held_by s) (key_of K x) x (global_map s)")
  case (Some q)
  obtain i where i: "q = (storage s, i)" "i < n_entries s" "value_of (entries s ! i) = x"
    using find_tracked [OF s(1,3) Some] by blast
  obtain s' where s': "increment_element (storage s, i) 1 0 s = Some s'" "unit_step K H x s s'"
    "storage s' = storage s" "n_entries s' = n_entries s" "entry_kv (entries s' ! i) = entry_kv (entries s ! i)"
    "cached_insertion_key s' = cached_insertion_key s"
    using increment_unit_step [OF s(1-4) i(2,3)] assms(6) i(2) by metis
  have "entry_kv (entries s' ! i) = (key_of K x, x)"
    using tracked_entry [OF s(1,3) i(2)] s'(5) i(3) by simp
  then show thesis
    using that [OF s'(2), of q] cached_sketch_ok [OF s'(2), of i] s' i s(5) Some by (simp add: add_uncached_def)
next
  case None
  then have x: "x \<notin> fst ` set (abs_counters s)" by (rule find_untracked [OF s(1,3)])
  show thesis
  proof (cases "n_entries s = m_max_capacity s")
    case True
    obtain s' i where s': "change_and_increment_value K H (key_of K x) x 1 0 s = Some (s', (storage s, i))"
      "unit_step K H x s s'" "storage s' = storage s" "n_entries s' = n_entries s" "i < n_entries s"
      "entry_kv (entries s' ! i) = (key_of K x, x)" "cached_insertion_key s' = cached_insertion_key s"
      using change_unit_step [OF s(1-4) True x] by metis
    then show thesis
      using that [OF s'(2), of "(storage s, i)"] cached_sketch_ok [OF s'(2), of i] s(5) True None by (simp add: add_uncached_def)
  next
    case False
    then have room: "n_entries s < m_max_capacity s" using s(1) by (simp add: shape_ok_def)
    obtain s' where s': "insert_element K H (key_of K x) x 1 0 s = Some (s', (storage s, n_entries s))" "unit_step K H x s s'"
      "storage s' = storage s" "n_entries s' = Suc (n_entries s)"
      "entry_kv (entries s' ! n_entries s) = (key_of K x, x)" "cached_insertion_key s' = cached_insertion_key s"
      using insert_unit_step [OF s(1-3) room x] by metis
    then show thesis
      using that [OF s'(2), of "(storage s, n_entries s)"] cached_sketch_ok [OF s'(2), of "n_entries s"] s(5) False None
      by (simp add: add_uncached_def)
  qed
qed

theorem add_unit_step:
  assumes s: "sketch_ok K H s" "unsaturated s" "m_size s + 1 < 2 ^ 64"
    and errors: "\<forall>i < n_entries s. entry_error (entries s ! i) < 2 ^ 64"
  obtains s' where "ss_add K H x 1 s = Some s'" "sketch_ok K H s'"
    "count_step (m_max_capacity s) x (abs_counters s) (abs_counters s')"
    "m_max_capacity s' = m_max_capacity s" "m_epsilon s' = m_epsilon s" "m_size s' = m_size s + 1"
proof -
  define s0 where "s0 = s\<lparr>m_size := m_size s + 1\<rparr>"
  have s0: "shape_ok s0" "stack_ok s0" "map_ok K H s0" "cache_ok s0" "unsaturated s0"
    using s by (simp_all add: s0_def sketch_ok_def cache_ok_def unsaturated_def)
  have errors0: "\<forall>i < n_entries s0. entry_error (entries s0 ! i) < 2 ^ 64" using errors by (simp add: s0_def)
  have size: "wrap64 (m_size s + 1) = m_size s + 1" using s(3) by (rule wrap64_id)
  show thesis
  proof (rule cached_entry_ok [OF s0(1,3,4), of x])
    assume miss: "cached_entry K (key_of K x) x s0 = Some None"
    define s1 where "s1 = s0\<lparr>cached_insertion_key := key_of K x\<rparr>"
    have "shape_ok s1" "stack_ok s1" "map_ok K H s1" "unsaturated s1" "cached_insertion_key s1 = key_of K x"
        "\<forall>i < n_entries s1. entry_error (entries s1 ! i) < 2 ^ 64"
      using s0 errors by (simp_all add: s1_def s0_def unsaturated_def)
    then obtain s' p where "unit_step K H x s1 s'" "sketch_ok K H (s'\<lparr>cached_insertion_value := Some p\<rparr>)"
        "add_uncached K H (key_of K x) x 1 0 s1 = Some (s'\<lparr>cached_insertion_value := Some p\<rparr>)"
      by (rule uncached_unit_step) (rule that)
    moreover have "ss_add K H x 1 s = add_uncached K H (key_of K x) x 1 0 s1"
      using miss unfolding ss_add_def add_impl_def size s0_def [symmetric] Let_def by (simp add: s1_def)
    ultimately show thesis
      using that by (simp add: unit_step_def s1_def s0_def)
  next
    fix i assume i: "cached_entry K (key_of K x) x s0 = Some (Some (storage s0, i))" "i < n_entries s0"
      "value_of (entries s0 ! i) = x" "cached_insertion_key s0 = key_of K x" "cached_insertion_value s0 = Some (storage s0, i)"
    then obtain s' where s': "increment_element (storage s0, i) 1 0 s0 = Some s'" "unit_step K H x s0 s'"
      "storage s' = storage s0" "n_entries s' = n_entries s0" "entry_kv (entries s' ! i) = entry_kv (entries s0 ! i)"
      "cached_insertion_key s' = cached_insertion_key s0" "cached_insertion_value s' = cached_insertion_value s0"
      using increment_unit_step [OF s0(1-3,5) i(2,3)] errors0 by metis
    then have "cache_ok s'"
      using i tracked_entry [OF s0(1,3) i(2)] by (auto simp: cache_ok_def)
    then show thesis
      using that [of s'] s' i(1) unfolding ss_add_def add_impl_def size s0_def [symmetric] Let_def
      by (simp add: unit_step_def sketch_ok_def s0_def)
  qed
qed

end

end
