(* ===== verification/Frequent_Items.thy ===== *)
theory Frequent_Items
  imports Sketch_Refinement
begin

text \<open>
  What the space-saving sketch promises for a stream of values added one by one: it never follows an
  invalid pointer, the counts it reports bound the true ones, \<open>frequent_items\<close> misses no frequent value
  and \<open>guaranteed_frequent_items\<close> reports only frequent ones once the entries are used up. The theory
  ends with what does not hold: insertions with a count, and insertions after a merge, can follow a null
  pointer, a merge loses frequent values, and \<open>initialize\<close> leaves the vectors too short.
\<close>

section \<open>Streams\<close>

lemma counters_small:
  assumes "counters_ok cap xs A" "(v, c, e) \<in> set A"
  shows "c \<le> length xs" "e \<le> length xs"
proof -
  have "c \<in> set (map (\<lambda>(v, c, e). c) A)" using assms(2) by force
  then have "c \<le> (\<Sum>(v, c, e) \<leftarrow> A. c)" by (rule member_le_sum_list) simp
  then show "c \<le> length xs" using counters_okD(3) [OF assms(1)] by simp
  then show "e \<le> length xs" using counters_okD(6) [OF assms] by simp
qed

context sketch_mapper
begin

lemma new_sketch_ok:
  assumes "0 < capacity_for eps"
  shows "sketch_ok K H (ss_new K H eps)"
proof -
  let ?s = "ss_new K H eps"
  have sels: "m_max_capacity ?s = capacity_for eps" "n_entries ?s = 0" "base_level ?s = 1"
      "base_level_candidate_count ?s = 0" "cached_insertion_value ?s = None"
      "length (entries ?s) = capacity_for eps" "length (base_level_candidates ?s) = capacity_for eps"
      "global_map ?s = vcm_reserve (5 * capacity_for eps div 4) (vcm_clear H (vcm_new H))"
    by (simp_all add: ss_new_def init_data_structures_def ss_initialize_def ss_clear_def ss_members_def resized_def)
  have "stack_of ?s []" by (simp add: stack_of_def sels ptrs_def)
  moreover have "in_step K H (held_by ?s) {} {} (global_map ?s)"
    using in_step_clear [of "held_by ?s" "{}" "vcm_new H"]
    by (simp add: sels in_step_def cells_in_step_def vcm_reserve_def empty_key_cells_def vcm_clear_def)
  ultimately show ?thesis
    using assms by (simp add: sketch_ok_def shape_ok_def stack_ok_def map_ok_def tracked_ptrs_def cache_ok_def sels)
qed

lemma add_all_counts:
  assumes "sketch_ok K H s" "counts (m_max_capacity s) ys (abs_counters s)" "m_size s = length ys"
    and "length ys + length xs < 2 ^ 64"
  shows "\<exists>s'. ss_add_all K H xs s = Some s' \<and> sketch_ok K H s'
    \<and> counts (m_max_capacity s) (ys @ xs) (abs_counters s')
    \<and> m_size s' = length (ys @ xs) \<and> m_max_capacity s' = m_max_capacity s \<and> m_epsilon s' = m_epsilon s"
  using assms
proof (induction xs arbitrary: s ys)
  case (Cons x xs)
  have entries: "(value_of (entries s ! i), count_at s i, entry_error (entries s ! i)) \<in> set (abs_counters s)"
    if "i < n_entries s" for i
    using that Cons.prems(1) by (auto simp: set_abs_counters sketch_ok_def shape_ok_def)
  have "unsaturated s" "\<forall>i < n_entries s. entry_error (entries s ! i) < 2 ^ 64"
    using counters_small [OF counts_ok [OF Cons.prems(2)] entries] Cons.prems(4) by (force simp: unsaturated_def)+
  then obtain s1 where s1: "ss_add K H x 1 s = Some s1" "sketch_ok K H s1"
    "count_step (m_max_capacity s) x (abs_counters s) (abs_counters s1)"
    "m_max_capacity s1 = m_max_capacity s" "m_epsilon s1 = m_epsilon s" "m_size s1 = m_size s + 1"
    using add_unit_step [OF Cons.prems(1), of x] Cons.prems(3,4) by auto
  have "counts (m_max_capacity s1) (ys @ [x]) (abs_counters s1)"
    using counts.more [OF Cons.prems(2) s1(3)] s1(4) by simp
  then show ?case
    using Cons.IH [OF s1(2), of "ys @ [x]"] Cons.prems(3,4) s1 by simp
qed simp

lemma stream_counts:
  assumes "0 < capacity_for eps" "length xs < 2 ^ 64"
  obtains s where "ss_add_all K H xs (ss_new K H eps) = Some s" "sketch_ok K H s"
    "counts (capacity_for eps) xs (abs_counters s)" "m_size s = length xs"
    "m_max_capacity s = capacity_for eps" "m_epsilon s = eps"
proof -
  let ?s = "ss_new K H eps"
  have "m_size ?s = 0" "abs_counters ?s = []" "m_max_capacity ?s = capacity_for eps" "m_epsilon ?s = eps"
    by (simp_all add: ss_new_def init_data_structures_def ss_initialize_def ss_clear_def abs_counters_def)
  then show thesis
    using add_all_counts [OF new_sketch_ok [OF assms(1)], of "[]" xs] assms(2) that by (auto intro: counts.start)
qed

end

section \<open>The capacity and the threshold\<close>

lemma dbl_round_nonneg: "0 < x \<Longrightarrow> 0 \<le> dbl_round x"
  using significand_bounds(1) [of x] by (simp add: dbl_round_pos)

lemma capacity_bound:
  assumes "0 < eps" "1 / eps < 2 ^ 52"
  shows "1 / eps < real (capacity_for eps)"
proof -
  define y where "y = 1 / eps"
  define c where "c = \<lceil>dbl_round y\<rceil>"
  have y: "0 < y" "y < 2 ^ 52" using assms by (simp_all add: y_def)
  define n where "n = nat \<lceil>y\<rceil>"
  have n: "real n = of_int \<lceil>y\<rceil>" "y \<le> real n" "real n < y + 1" "0 < n"
    using y by (auto simp: n_def) linarith+
  have "real n < real (2 ^ 52 + 1)" using n(3) y(2) by simp
  then have n_le: "n < 2 ^ 52 + 1" by (simp only: of_nat_less_iff)
  then have small: "n < 2 ^ 53" by simp
  have "0 \<le> c" using dbl_round_nonneg [OF y(1)] by (simp add: c_def)
  have "dbl_round y \<le> real n"
    using dbl_round_mono [OF y(1) n(2)] dbl_round_of_nat [OF small] by simp
  then have "c \<le> int n" by (simp add: c_def ceiling_le_iff)
  have "y < real_of_int c + 1"
  proof (cases "y = real n")
    case True
    then show ?thesis using dbl_round_of_nat [OF small] by (simp add: c_def)
  next
    case False
    have "real (n - 1) \<le> dbl_round y"
    proof (cases "n = 1")
      case True
      then show ?thesis using dbl_round_nonneg [OF y(1)] by simp
    next
      case F: False
      have "real (n - 1) \<le> y" "0 < real (n - 1)" using n F by (auto simp: of_nat_diff)
      then show ?thesis using dbl_round_mono [of "real (n - 1)" y] dbl_round_of_nat [of "n - 1"] small by simp
    qed
    then have "int (n - 1) \<le> c" using le_of_int_ceiling [of "dbl_round y"] by (simp add: c_def) linarith
    then show ?thesis using n False by linarith
  qed
  moreover have "capacity_for eps = nat (c + 1)"
  proof -
    have "nat (c + 1) < 2 ^ 53" using \<open>c \<le> int n\<close> n_le by simp
    moreover have "of_int c + 1 = real (nat (c + 1))" using \<open>0 \<le> c\<close> by simp
    ultimately have "dbl_round (of_int c + 1) = real (nat (c + 1))"
      using dbl_round_of_nat [of "nat (c + 1)"] by (simp only:)
    then show ?thesis
      unfolding capacity_for_def y_def [symmetric] c_def [symmetric] by (simp only: floor_of_nat nat_int)
  qed
  ultimately show ?thesis using \<open>0 \<le> c\<close> by (simp add: y_def)
qed

lemma threshold_le:
  assumes "0 < eps" "m_epsilon s = eps" "m_size s < 2 ^ 53" "eps * real (m_size s) \<le> real f" "0 < f" "f < 2 ^ 53"
  shows "ss_threshold s \<le> f"
proof (cases "m_size s = 0")
  case True
  then show ?thesis using assms(5) by (simp add: ss_threshold_def dbl_round_def)
next
  case False
  have "dbl_round (eps * real (m_size s)) \<le> real f"
    using dbl_round_mono [OF _ assms(4)] dbl_round_of_nat [OF assms(6)] assms(1) False by simp
  then have "\<lfloor>dbl_round (eps * real (m_size s))\<rfloor> \<le> int f" by linarith
  then show ?thesis
    using assms(2,5) dbl_round_of_nat [OF assms(3)] by (simp add: ss_threshold_def)
qed

section \<open>What the sketch promises\<close>

lemma capacity_one: "capacity_for 1 = 2"
  using dbl_round_of_nat [of 1] dbl_round_of_nat [of 2] by (simp add: capacity_for_def)

lemma capacity_half: "capacity_for (1 / 2) = 3"
  using dbl_round_of_nat [of 2] dbl_round_of_nat [of 3] by (simp add: capacity_for_def)

interpretation hashed_sketch: sketch_mapper list_table "hashed_keys hash64 v0"
  by (simp add: sketch_mapper_def hashed_list.mapper_axioms)

interpretation integer_sketch: sketch_mapper list_table integer_keys
  by (simp add: sketch_mapper_def integer_list.mapper_axioms)

lemma stream_sketch:
  assumes "mapper H K" "0 < capacity_for eps" "length xs < 2 ^ 64"
  obtains s where "ss_add_all K H xs (ss_new K H eps) = Some s" "sketch_ok K H s"
    "counts (capacity_for eps) xs (abs_counters s)" "m_size s = length xs"
    "m_max_capacity s = capacity_for eps" "m_epsilon s = eps"
  using sketch_mapper.stream_counts [of H K eps xs] assms unfolding sketch_mapper_def by blast

lemma sketch_ok_full: "sketch_ok K H s \<Longrightarrow> length (entries s) = m_max_capacity s \<and> n_entries s \<le> m_max_capacity s"
  by (simp add: sketch_ok_def shape_ok_def)

lemma set_frequent_items:
  assumes "sketch_ok K H s"
  shows "(x, c) \<in> set (frequent_items s) \<longleftrightarrow>
    (\<exists>e. (x, c, e) \<in> set (abs_counters s)) \<and> (n_entries s = m_max_capacity s \<longrightarrow> ss_threshold s \<le> c)"
  using sketch_ok_full [OF assms] by (auto simp: frequent_items_def Let_def abs_counters_def image_iff)

lemma set_guaranteed_items:
  assumes "sketch_ok K H s" "counters_ok (m_max_capacity s) xs (abs_counters s)" "length xs < 2 ^ 64"
  shows "(x, c) \<in> set (guaranteed_frequent_items s) \<longleftrightarrow>
    (\<exists>e. (x, c, e) \<in> set (abs_counters s) \<and> (n_entries s = m_max_capacity s \<longrightarrow> ss_threshold s \<le> c - e))"
proof -
  have "wrap64 (entry_count e + 2 ^ 64 - entry_error e) = entry_count e - entry_error e"
    if "e \<in> set (take (n_entries s) (entries s))" for e
  proof -
    have "(value_of e, entry_count e, entry_error e) \<in> set (abs_counters s)"
      using that by (auto simp: abs_counters_def)
    from counters_small [OF assms(2) this] counters_okD(6) [OF assms(2) this]
    have "entry_error e \<le> entry_count e" "entry_count e < 2 ^ 64" using assms(3) by simp_all
    then have "entry_count e + 2 ^ 64 - entry_error e = (entry_count e - entry_error e) + 2 ^ 64" by simp
    then show ?thesis using \<open>entry_count e < 2 ^ 64\<close> by (simp only: wrap64_def mod_add_self2) simp
  qed
  then show ?thesis
    using sketch_ok_full [OF assms(1)] by (auto simp: guaranteed_frequent_items_def Let_def abs_counters_def image_iff)
qed

lemma counts_positive: "counts cap xs A \<Longrightarrow> (v, c, e) \<in> set A \<Longrightarrow> 0 < c"
proof (induction arbitrary: v c e rule: counts.induct)
  case (more xs A x A')
  from more.hyps(2) show ?case
  proof cases
    case (hit i c' e')
    then show ?thesis using more.prems more.IH set_update_subset_insert [of A i "(x, Suc c', e')"] by fastforce
  next
    case fresh
    then show ?thesis using more.prems more.IH by auto
  next
    case (evict i y c' e')
    then show ?thesis using more.prems more.IH set_update_subset_insert [of A i "(x, Suc c', c')"] by fastforce
  qed
qed simp

text \<open>
  C10. On a stream of fewer than $2^{64}$ values, added one by one to a new sketch, every call returns
  (the candidates' pointers are valid whenever they are followed) and the entries are those that the
  abstract space-saving algorithm can have after the stream, where a new value takes over a counter with
  the least count.
\<close>

theorem sketch_refines_counters:
  assumes "mapper H K" "0 < capacity_for eps" "length xs < 2 ^ 64"
  shows "\<exists>s. ss_add_all K H xs (ss_new K H eps) = Some s \<and> m_size s = length xs
    \<and> counts (capacity_for eps) xs (abs_counters s)"
  using stream_sketch [OF assms] by metis

theorem sketch_refines_counters_witness:
  "\<exists>s. ss_add_all integer_keys list_table [7 :: 8 word, 9, 8, 7] (ss_new integer_keys list_table 1) = Some s
    \<and> m_size s = length [7 :: 8 word, 9, 8, 7] \<and> counts 2 [7, 9, 8, 7] (abs_counters s)"
  using sketch_refines_counters [OF integer_list.mapper_axioms, of 1 "[7 :: 8 word, 9, 8, 7]"]
  by (simp add: capacity_one)

text \<open>
  The counts that the sketch reports bound the true ones: a reported value occurs at most as often
  as reported, a value that occurs in the stream and has no entry occurs at most
  \<open>length xs / capacity\<close> times, the counts of the entries add up to the length of the stream, and as long
  as there is a free entry the reported values are exactly those of the stream with their exact counts.
\<close>

theorem frequent_items_bounds:
  assumes "mapper H K" "0 < capacity_for eps" "length xs < 2 ^ 64"
    and "ss_add_all K H xs (ss_new K H eps) = Some s"
  shows "(\<forall>x c. (x, c) \<in> set (frequent_items s) \<longrightarrow> count_list xs x \<le> c)
    \<and> (\<forall>x. x \<notin> value_of ` set (take (n_entries s) (entries s)) \<longrightarrow> capacity_for eps * count_list xs x \<le> length xs)
    \<and> (\<Sum>e \<leftarrow> take (n_entries s) (entries s). entry_count e) = length xs
    \<and> (n_entries s < capacity_for eps \<longrightarrow>
        set (frequent_items s) = (\<lambda>x. (x, count_list xs x)) ` set xs)"
proof -
  obtain s: "sketch_ok K H s" "counts (capacity_for eps) xs (abs_counters s)" "m_max_capacity s = capacity_for eps"
    using stream_sketch [OF assms(1-3)] assms(4) by (metis option.inject)
  note ok = counts_ok [OF s(2)]
  note D = counters_okD [OF ok]
  have fst_abs: "fst ` set (abs_counters s) = value_of ` set (take (n_entries s) (entries s))"
    by (force simp: abs_counters_def)
  have sum: "(\<Sum>(v, c, e) \<leftarrow> abs_counters s. c) = (\<Sum>e \<leftarrow> take (n_entries s) (entries s). entry_count e)"
    by (simp add: abs_counters_def o_def)
  have len: "length (abs_counters s) = n_entries s"
    using sketch_ok_full [OF s(1)] by simp
  have "set (frequent_items s) = (\<lambda>x. (x, count_list xs x)) ` set xs" if room: "n_entries s < capacity_for eps"
  proof -
    have "(x, c) \<in> set (frequent_items s) \<longleftrightarrow> x \<in> set xs \<and> c = count_list xs x" for x c
    proof -
      have "(x, c) \<in> set (frequent_items s) \<longleftrightarrow> (\<exists>e. (x, c, e) \<in> set (abs_counters s))"
        using set_frequent_items [OF s(1)] room s(3) by auto
      moreover have "d = count_list xs x \<and> 0 < d" if "(x, d, e) \<in> set (abs_counters s)" for d e
        using D(4,5,9) [of x d e] that room len counts_positive [OF s(2) that] by simp
      moreover have "\<exists>c e. (x, c, e) \<in> set (abs_counters s)" if "x \<in> set xs"
        using D(7) [of x] that room len by (force simp: count_list_0_iff)
      ultimately show ?thesis by (metis count_list_0_iff less_irrefl)
    qed
    then show ?thesis by auto
  qed
  then show ?thesis
    using D(3,4) untracked_share [OF ok] fst_abs sum set_frequent_items [OF s(1)] by auto
qed

theorem frequent_items_bounds_witness:
  "\<exists>s. ss_add_all integer_keys list_table [7 :: 8 word, 9, 8, 7] (ss_new integer_keys list_table 1) = Some s
    \<and> (\<forall>x c. (x, c) \<in> set (frequent_items s) \<longrightarrow> count_list [7, 9, 8, 7] x \<le> c)"
proof -
  obtain s where s: "ss_add_all integer_keys list_table [7 :: 8 word, 9, 8, 7] (ss_new integer_keys list_table 1) = Some s"
    by (rule stream_sketch [OF integer_list.mapper_axioms, of 1 "[7 :: 8 word, 9, 8, 7]"]) (simp_all add: capacity_one)
  show ?thesis
    using frequent_items_bounds [OF integer_list.mapper_axioms _ _ s] s by (simp add: capacity_one)
qed

text \<open>
  C8. The promise of the header: every value that makes up at least the fraction \<open>epsilon\<close> of the stream
  is reported by \<open>frequent_items\<close>, with a count that is not below the true one, although the capacity and
  the threshold are computed in floating point.
\<close>

theorem frequent_items_complete:
  assumes "mapper H K" "0 < eps" "1 / eps < 2 ^ 52" "length xs < 2 ^ 53"
    and "x \<in> set xs" "eps * real (length xs) \<le> real (count_list xs x)"
  shows "\<exists>s c. ss_add_all K H xs (ss_new K H eps) = Some s \<and> (x, c) \<in> set (frequent_items s)
    \<and> count_list xs x \<le> c"
proof -
  have cap: "1 / eps < real (capacity_for eps)" by (rule capacity_bound [OF assms(2,3)])
  then have "0 < capacity_for eps" using assms(2) by (cases "capacity_for eps") auto
  then obtain s where s: "ss_add_all K H xs (ss_new K H eps) = Some s" "sketch_ok K H s"
      "counts (capacity_for eps) xs (abs_counters s)" "m_size s = length xs"
      "m_max_capacity s = capacity_for eps" "m_epsilon s = eps"
    using stream_sketch [OF assms(1), of eps xs] assms(4) by auto
  note ok = counts_ok [OF s(3)]
  have "x \<in> fst ` set (abs_counters s)"
  proof (rule ccontr)
    assume "x \<notin> fst ` set (abs_counters s)"
    then have "capacity_for eps * count_list xs x \<le> length xs" by (rule untracked_share [OF ok])
    then have "real (capacity_for eps) * (eps * real (length xs)) \<le> real (length xs)"
      using mult_left_mono [OF assms(6), of "real (capacity_for eps)"]
      by (smt (verit) of_nat_0_le_iff of_nat_le_iff of_nat_mult)
    moreover have "1 < real (capacity_for eps) * eps" using cap assms(2) by (simp add: field_simps)
    then have "1 * real (length xs) < real (capacity_for eps) * eps * real (length xs)"
      using assms(5) by (intro mult_strict_right_mono) (auto simp: length_pos_if_in_set)
    ultimately show False by (simp add: mult.assoc)
  qed
  then obtain c e where entry: "(x, c, e) \<in> set (abs_counters s)" by force
  then have c: "count_list xs x \<le> c" by (rule counters_okD(4) [OF ok])
  have "0 < count_list xs x" "count_list xs x < 2 ^ 53"
    using assms(4,5) count_le_length [of xs x] by (auto simp: count_list_0_iff intro: gr0I)
  then have "ss_threshold s \<le> count_list xs x"
    using threshold_le [OF assms(2) s(6)] s(4) assms(4,6) by simp
  then show ?thesis
    using s(1) entry c set_frequent_items [OF s(2)] by fastforce
qed

theorem frequent_items_complete_witness:
  "\<exists>s c. ss_add_all integer_keys list_table [7 :: 8 word, 9, 7, 8] (ss_new integer_keys list_table (1 / 2)) = Some s
    \<and> (7, c) \<in> set (frequent_items s) \<and> count_list [7 :: 8 word, 9, 7, 8] 7 \<le> c"
  using frequent_items_complete [OF integer_list.mapper_axioms, of "1 / 2" "[7 :: 8 word, 9, 7, 8]" 7]
  by simp

text \<open>
  The values that \<open>guaranteed_frequent_items\<close> reports are frequent, once all entries are used: each
  occurs at least \<open>threshold\<close> times, the integer part of \<open>epsilon * m_size\<close> (at least one), and no more
  often than reported.
\<close>

theorem guaranteed_items_sound:
  assumes "mapper H K" "0 < capacity_for eps" "length xs < 2 ^ 64"
    and "ss_add_all K H xs (ss_new K H eps) = Some s" "n_entries s = capacity_for eps"
    and "(x, c) \<in> set (guaranteed_frequent_items s)"
  shows "ss_threshold s \<le> count_list xs x \<and> count_list xs x \<le> c"
proof -
  obtain s: "sketch_ok K H s" "counts (capacity_for eps) xs (abs_counters s)" "m_max_capacity s = capacity_for eps"
    using stream_sketch [OF assms(1-3)] assms(4) by (metis option.inject)
  note ok = counts_ok [OF s(2)]
  obtain e where "(x, c, e) \<in> set (abs_counters s)" "ss_threshold s \<le> c - e"
    using set_guaranteed_items [OF s(1), of xs x c] ok s(3) assms(3,5,6) by auto
  then show ?thesis using counters_okD(4,5) [OF ok, of x c e] by simp
qed

section \<open>Evaluation\<close>

text \<open>For the examples: natural numbers that all have the same hash.\<close>

definition colliding_keys :: "(nat, u64) key_traits" where
  "colliding_keys = hashed_keys (\<lambda>_. 7) 0"

lemma colliding_keys_simps:
  "key_of colliding_keys v = 7" "is_empty_key colliding_keys 7 = False" "key_is_exact colliding_keys = False"
  "default_kv colliding_keys = (0, 0)"
  by (simp_all add: colliding_keys_def hashed_keys_def)

lemma colliding_mapper: "mapper list_table colliding_keys"
  by (simp add: colliding_keys_def hashed_list.mapper_axioms)

lemma wrap64_numerals:
  "wrap64 0 = 0" "wrap64 (Suc 0) = Suc 0" "wrap64 (numeral k) = numeral k mod 2 ^ 64"
  "wrap64 (Suc (numeral k)) = Suc (numeral k) mod 2 ^ 64"
  by (simp_all add: wrap64_def)

lemmas sketch_eval = ss_new_def ss_initialize_def ss_members_def ss_clear_def init_data_structures_def
  resized_def default_entry_def ss_add_def add_impl_def cached_entry_def add_uncached_def insert_element_def
  set_entry_def deref_def held_by_def increment_element_def value_of_def change_and_increment_value_def
  drop_stale_candidates_def replace_candidate_def regenerate_base_level_def Let_def
  vcm_new_def vcm_clear_def vcm_reserve_def vcm_find_def vcm_insert_def table_insert_def gdhs_equality_def
  vcm_invalidate_def refresh_hash_table_def list_table_def colliding_keys_simps wrap64_numerals

lemma replicate_small: "replicate 3 x = [x, x, x]" "replicate 2 x = [x, x]"
  by (simp_all add: numeral_eq_Suc)

lemmas merge_eval = ss_combine_def find_eptr_def cast_entry_def cast_same_def base_partition_def
  write_entry_def install_entries_def

lemma threshold_six:
  assumes "m_size s = 6" "m_epsilon s = 1 / 2"
  shows "ss_threshold s = 3"
  using dbl_round_of_nat [of 6] dbl_round_of_nat [of 3] unfolding ss_threshold_def assms by simp

theorem guaranteed_items_sound_witness:
  "\<exists>s. ss_add_all colliding_keys list_table [1, 1, 1, 1, 2, 3] (ss_new colliding_keys list_table (1 / 2)) = Some s
    \<and> ss_threshold s \<le> count_list [1, 1, 1, 1, 2, 3 :: nat] 1"
proof -
  obtain s where s: "ss_add_all colliding_keys list_table [1, 1, 1, 1, 2, 3] (ss_new colliding_keys list_table (1 / 2)) = Some s"
    "m_size s = 6" "n_entries s = 3" "m_epsilon s = 1 / 2" "length (entries s) = 3"
    "map (\<lambda>e. (value_of e, entry_count e, entry_error e)) (entries s) = [(1, 4, 0), (2, 1, 0), (3, 1, 0)]"
    by (simp add: capacity_half sketch_eval replicate_small)
  have "ss_threshold s = 3"
    using threshold_six [OF s(2,4)] .
  then have "(1, 4) \<in> set (guaranteed_frequent_items s)"
    using s(2,3,5,6) by (auto simp: guaranteed_frequent_items_def wrap64_def image_iff)
  then have "ss_threshold s \<le> count_list [1, 1, 1, 1, 2, 3 :: nat] 1"
    using guaranteed_items_sound [OF colliding_mapper _ _ s(1), of 1 4] s(3) by (simp add: capacity_half)
  then show ?thesis using s(1) by blast
qed

section \<open>What does not hold\<close>


text \<open>
  C34. Merging two sketches loses the promise of the header. A value that one sketch counts and the other
  has dropped keeps the count of the first alone: with \<open>epsilon\<close> one half, 9 makes up half of the six
  values of the two streams, and the merged sketch reports nothing.
\<close>

theorem merge_loses_frequent_item:
  "\<exists>s1 s2 s. ss_add_all colliding_keys list_table [9, 9] (ss_new colliding_keys list_table (1 / 2)) = Some s1
    \<and> ss_add_all colliding_keys list_table [1, 2, 9, 3] (ss_new colliding_keys list_table (1 / 2)) = Some s2
    \<and> ss_combine colliding_keys list_table cast_same s2 s1 = Some s
    \<and> real (count_list [9, 9, 1, 2, 9, 3 :: nat] 9) = 1 / 2 * real (length [9, 9, 1, 2, 9, 3 :: nat])
    \<and> m_size s = 6 \<and> frequent_items s = []"
proof -
  obtain s1 s2 s where run: "ss_add_all colliding_keys list_table [9, 9] (ss_new colliding_keys list_table (1 / 2)) = Some s1"
    "ss_add_all colliding_keys list_table [1, 2, 9, 3] (ss_new colliding_keys list_table (1 / 2)) = Some s2"
    "ss_combine colliding_keys list_table cast_same s2 s1 = Some s"
    and s: "m_size s = 6" "n_entries s = 3" "m_epsilon s = 1 / 2" "length (entries s) = 3" "map entry_count (entries s) = [2, 1, 2]"
    by (simp add: capacity_half sketch_eval merge_eval replicate_small)
  have "frequent_items s = []"
    using s threshold_six [OF s(1,3)] by (auto simp: frequent_items_def)
  then show ?thesis using run s(1) by simp
qed

text \<open>
  \<open>guaranteed_frequent_items\<close> is documented to return only values that occur at least
  \<open>epsilon * m_size\<close> times. While there is a free entry it returns every value of the stream: with
  \<open>epsilon\<close> one half, it returns 2, which occurs once among nine values.
\<close>

theorem guaranteed_reports_infrequent:
  "\<exists>s. ss_add_all colliding_keys list_table [1, 1, 1, 1, 1, 1, 1, 1, 2] (ss_new colliding_keys list_table (1 / 2)) = Some s
    \<and> (2, 1) \<in> set (guaranteed_frequent_items s)
    \<and> real (count_list [1, 1, 1, 1, 1, 1, 1, 1, 2 :: nat] 2) < 1 / 2 * real (m_size s)"
  by (simp add: capacity_half sketch_eval replicate_small guaranteed_frequent_items_def)

text \<open>
  \<open>initialize\<close>, which is public, sets a new capacity but leaves the vectors as the constructor made
  them: after \<open>initialize\<close> with a smaller \<open>epsilon\<close> the sketch writes past the end of \<open>entries\<close>.
\<close>

theorem initialize_keeps_vectors:
  "ss_add_all colliding_keys list_table [1, 2, 3]
     (ss_initialize colliding_keys list_table (1 / 2) (ss_new colliding_keys list_table 1)) = None"
  by (simp add: capacity_one capacity_half sketch_eval replicate_small)

end
