(* ===== verification/Flex_Operators.thy ===== *)
theory Flex_Operators
  imports Flexible_Type
begin

text \<open>
  The comparison and arithmetic operators of \<open>flexible_type\<close>, the visitors of
  \<open>flexible_type_detail.hpp\<close>. A pair of types without an overload runs into \<open>FLEX_TYPE_ASSERT(false)\<close>,
  which throws: the value \<open>None\<close>. The arithmetic of \<open>double\<close> beyond comparison and conversion is a
  parameter, the record \<open>double_ops\<close>; so is the comparison of two dictionaries, which the code leaves
  to \<open>std::unordered_multimap\<close>.
\<close>

section \<open>Comparison\<close>

text \<open>
  The four operations and the conversion from \<open>size_t\<close>; their type is a parameter, so that algorithms
  written over them can be studied with exact numbers too. \<open>std::floor\<close>, \<open>std::atof\<close> and \<open>std::sqrt\<close> come on top.
\<close>

record 'd arith =
  d_add :: "'d \<Rightarrow> 'd \<Rightarrow> 'd"
  d_sub :: "'d \<Rightarrow> 'd \<Rightarrow> 'd"
  d_mul :: "'d \<Rightarrow> 'd \<Rightarrow> 'd"
  d_div :: "'d \<Rightarrow> 'd \<Rightarrow> 'd"
  d_of_size :: "u64 \<Rightarrow> 'd"
  d_zero :: 'd

record double_ops = "f64 arith" +
  d_floor :: "f64 \<Rightarrow> f64"
  d_atof :: "bytes \<Rightarrow> f64"
  d_sqrt :: "f64 \<Rightarrow> f64"

definition microsecond_res_timestamp :: "double_ops \<Rightarrow> flex_date_time \<Rightarrow> f64" where
  "microsecond_res_timestamp F d =
     d_add F (int_to_double (posix_timestamp d))
       (d_div F (int_to_double (of_int (microsecond d))) (int_to_double (of_int MICROSECONDS_PER_SECOND)))"

text \<open>\<open>operator<\<close> of \<open>std::string\<close>, which compares bytes as unsigned.\<close>

fun bytes_less :: "bytes \<Rightarrow> bytes \<Rightarrow> bool" where
  "bytes_less [] us = (us \<noteq> [])"
| "bytes_less (t # ts) [] = False"
| "bytes_less (t # ts) (u # us) = (if t < u then True else if u < t then False else bytes_less ts us)"

fun vec_lt :: "f64 list \<Rightarrow> f64 list \<Rightarrow> bool" where
  "vec_lt [] us = (us \<noteq> [])"
| "vec_lt (t # ts) [] = False"
| "vec_lt (t # ts) (u # us) = (if dbl_less u t then False else if dbl_less t u then True else vec_lt ts us)"

fun vec_gt :: "f64 list \<Rightarrow> f64 list \<Rightarrow> bool" where
  "vec_gt [] us = False"
| "vec_gt (t # ts) [] = True"
| "vec_gt (t # ts) (u # us) = (if dbl_less u t then True else if dbl_less t u then False else vec_gt ts us)"

text \<open>The overloads for everything but lists.\<close>

definition scalar_lt :: "double_ops \<Rightarrow> flexible_type \<Rightarrow> flexible_type \<Rightarrow> bool option" where
  "scalar_lt F t u =
     (case (t, u) of
        (Flex_float t, Flex_float u) \<Rightarrow> Some (dbl_less t u)
      | (Flex_int t, Flex_int u) \<Rightarrow> Some (sint t < sint u)
      | (Flex_date_time t, Flex_int u) \<Rightarrow> Some (sint (posix_timestamp t) < sint u)
      | (Flex_int t, Flex_date_time u) \<Rightarrow> Some (sint t < sint (posix_timestamp u))
      | (Flex_date_time t, Flex_float u) \<Rightarrow> Some (dbl_less (microsecond_res_timestamp F t) u)
      | (Flex_float t, Flex_date_time u) \<Rightarrow> Some (dbl_less t (microsecond_res_timestamp F u))
      | (Flex_date_time t, Flex_date_time u) \<Rightarrow> Some (date_time_less t u)
      | (Flex_int t, Flex_float u) \<Rightarrow> Some (dbl_less (int_to_double t) u)
      | (Flex_float t, Flex_int u) \<Rightarrow> Some (dbl_less t (int_to_double u))
      | (Flex_string t, Flex_string u) \<Rightarrow> Some (bytes_less t u)
      | (Flex_vec t, Flex_vec u) \<Rightarrow> Some (vec_lt t u)
      | _ \<Rightarrow> None)"

definition scalar_gt :: "double_ops \<Rightarrow> flexible_type \<Rightarrow> flexible_type \<Rightarrow> bool option" where
  "scalar_gt F t u =
     (case (t, u) of
        (Flex_float t, Flex_float u) \<Rightarrow> Some (dbl_less u t)
      | (Flex_date_time t, Flex_int u) \<Rightarrow> Some (sint u < sint (posix_timestamp t))
      | (Flex_int t, Flex_date_time u) \<Rightarrow> Some (sint (posix_timestamp u) < sint t)
      | (Flex_date_time t, Flex_float u) \<Rightarrow> Some (dbl_less u (microsecond_res_timestamp F t))
      | (Flex_float t, Flex_date_time u) \<Rightarrow> Some (dbl_less (microsecond_res_timestamp F u) t)
      | (Flex_date_time t, Flex_date_time u) \<Rightarrow> Some (date_time_greater t u)
      | (Flex_int t, Flex_int u) \<Rightarrow> Some (sint u < sint t)
      | (Flex_int t, Flex_float u) \<Rightarrow> Some (dbl_less u (int_to_double t))
      | (Flex_float t, Flex_int u) \<Rightarrow> Some (dbl_less (int_to_double u) t)
      | (Flex_string t, Flex_string u) \<Rightarrow> Some (bytes_less u t)
      | (Flex_vec t, Flex_vec u) \<Rightarrow> Some (vec_gt t u)
      | _ \<Rightarrow> None)"

function lt_operator :: "double_ops \<Rightarrow> flexible_type \<Rightarrow> flexible_type \<Rightarrow> bool option"
  and gt_operator :: "double_ops \<Rightarrow> flexible_type \<Rightarrow> flexible_type \<Rightarrow> bool option"
  and list_lt :: "double_ops \<Rightarrow> flexible_type list \<Rightarrow> flexible_type list \<Rightarrow> bool option"
  and list_gt :: "double_ops \<Rightarrow> flexible_type list \<Rightarrow> flexible_type list \<Rightarrow> bool option" where
  "lt_operator F t u =
     (case (t, u) of (Flex_list ts, Flex_list us) \<Rightarrow> list_lt F ts us | _ \<Rightarrow> scalar_lt F t u)"
| "gt_operator F t u =
     (case (t, u) of (Flex_list ts, Flex_list us) \<Rightarrow> list_gt F ts us | _ \<Rightarrow> scalar_gt F t u)"
| "list_lt F ts us =
     (case (ts, us) of
        ([], _) \<Rightarrow> Some (us \<noteq> [])
      | (t # ts, []) \<Rightarrow> Some False
      | (t # ts, u # us) \<Rightarrow> do {
          greater \<leftarrow> gt_operator F t u;
          if greater then Some False
          else do { less \<leftarrow> lt_operator F t u; if less then Some True else list_lt F ts us }
        })"
| "list_gt F ts us =
     (case (ts, us) of
        ([], _) \<Rightarrow> Some False
      | (t # ts, []) \<Rightarrow> Some True
      | (t # ts, u # us) \<Rightarrow> do {
          greater \<leftarrow> gt_operator F t u;
          if greater then Some True
          else do { less \<leftarrow> lt_operator F t u; if less then Some False else list_gt F ts us }
        })"
  by pat_completeness auto

termination
  by (relation "measure (\<lambda>x. case x of
        Inl (Inl (_, t, _)) \<Rightarrow> 2 * size t | Inl (Inr (_, t, _)) \<Rightarrow> 2 * size t
      | Inr (Inl (_, ts, _)) \<Rightarrow> 2 * size_list size ts + 1 | Inr (Inr (_, ts, _)) \<Rightarrow> 2 * size_list size ts + 1)") auto

declare lt_operator.simps [simp del] gt_operator.simps [simp del] list_lt.simps [simp del] list_gt.simps [simp del]

section \<open>Equality\<close>

definition MICROSECOND_EPSILON :: f64 where
  "MICROSECOND_EPSILON = 0x3ea0c6f7a0b5ed8d"

definition dbl_abs :: "f64 \<Rightarrow> f64" where
  "dbl_abs x = take_bit 63 x"

definition vec_eq :: "f64 list \<Rightarrow> f64 list \<Rightarrow> bool" where
  "vec_eq ts us = list_all2 dbl_eq ts us"

definition near_timestamp :: "double_ops \<Rightarrow> flex_date_time \<Rightarrow> f64 \<Rightarrow> bool" where
  "near_timestamp F t u =
     dbl_less (dbl_abs (d_sub F (microsecond_res_timestamp F t) u)) MICROSECOND_EPSILON"

definition float_near_timestamp :: "double_ops \<Rightarrow> f64 \<Rightarrow> flex_date_time \<Rightarrow> bool" where
  "float_near_timestamp F t u =
     dbl_less (dbl_abs (d_sub F t (microsecond_res_timestamp F u))) MICROSECOND_EPSILON"

text \<open>\<open>dict_eq\<close> is the comparison of the two multimaps.\<close>

type_synonym dict_eq = "(flexible_type \<times> flexible_type) list \<Rightarrow> (flexible_type \<times> flexible_type) list \<Rightarrow> bool"

definition scalar_equal :: "double_ops \<Rightarrow> dict_eq \<Rightarrow> flexible_type \<Rightarrow> flexible_type \<Rightarrow> bool" where
  "scalar_equal F D t u =
     (case (t, u) of
        (Flex_undefined, Flex_undefined) \<Rightarrow> True
      | (Flex_date_time t, Flex_date_time u) \<Rightarrow> date_time_equal t u
      | (Flex_date_time t, Flex_int u) \<Rightarrow> (posix_timestamp t = u \<and> microsecond t = 0)
      | (Flex_int t, Flex_date_time u) \<Rightarrow> (t = posix_timestamp u \<and> microsecond u = 0)
      | (Flex_date_time t, Flex_float u) \<Rightarrow> near_timestamp F t u
      | (Flex_float t, Flex_date_time u) \<Rightarrow> float_near_timestamp F t u
      | (Flex_int t, Flex_int u) \<Rightarrow> (t = u)
      | (Flex_float t, Flex_float u) \<Rightarrow> (dbl_isnan t \<and> dbl_isnan u \<or> dbl_eq t u)
      | (Flex_int t, Flex_float u) \<Rightarrow> dbl_eq (int_to_double t) u
      | (Flex_float t, Flex_int u) \<Rightarrow> dbl_eq t (int_to_double u)
      | (Flex_string t, Flex_string u) \<Rightarrow> (t = u)
      | (Flex_vec t, Flex_vec u) \<Rightarrow> vec_eq t u
      | (Flex_dict t, Flex_dict u) \<Rightarrow> (length t = length u \<and> D t u)
      | _ \<Rightarrow> False)"

function approx_equality_operator :: "double_ops \<Rightarrow> dict_eq \<Rightarrow> flexible_type \<Rightarrow> flexible_type \<Rightarrow> bool"
  and list_equal :: "double_ops \<Rightarrow> dict_eq \<Rightarrow> flexible_type list \<Rightarrow> flexible_type list \<Rightarrow> bool" where
  "approx_equality_operator F D t u =
     (case (t, u) of (Flex_list ts, Flex_list us) \<Rightarrow> list_equal F D ts us | _ \<Rightarrow> scalar_equal F D t u)"
| "list_equal F D ts us =
     (case (ts, us) of
        ([], []) \<Rightarrow> True
      | (t # ts, u # us) \<Rightarrow>
          length ts = length us \<and> approx_equality_operator F D t u \<and> list_equal F D ts us
      | _ \<Rightarrow> False)"
  by pat_completeness auto

termination
  by (relation "measure (\<lambda>x. case x of
        Inl (_, _, t, _) \<Rightarrow> 2 * size t | Inr (_, _, ts, _) \<Rightarrow> 2 * size_list size ts + 1)") auto

declare approx_equality_operator.simps [simp del] list_equal.simps [simp del]

text \<open>\<open>identical\<close>: no comparison across types except with dates. The elements of lists are compared by
  \<open>operator==\<close>, the looser comparison.\<close>

definition equality_operator :: "double_ops \<Rightarrow> dict_eq \<Rightarrow> flexible_type \<Rightarrow> flexible_type \<Rightarrow> bool" where
  "equality_operator F D t u =
     (case (t, u) of
        (Flex_date_time t, Flex_date_time u) \<Rightarrow> date_time_equal t u
      | (Flex_date_time t, Flex_int u) \<Rightarrow> (posix_timestamp t = u \<and> microsecond t = 0)
      | (Flex_int t, Flex_date_time u) \<Rightarrow> (t = posix_timestamp u \<and> microsecond u = 0)
      | (Flex_date_time t, Flex_float u) \<Rightarrow> near_timestamp F t u
      | (Flex_float t, Flex_date_time u) \<Rightarrow> float_near_timestamp F t u
      | (Flex_int t, Flex_int u) \<Rightarrow> (t = u)
      | (Flex_float t, Flex_float u) \<Rightarrow> dbl_eq t u
      | (Flex_string t, Flex_string u) \<Rightarrow> (t = u)
      | (Flex_vec t, Flex_vec u) \<Rightarrow> vec_eq t u
      | (Flex_dict t, Flex_dict u) \<Rightarrow> (length t = length u \<and> D t u)
      | (Flex_list t, Flex_list u) \<Rightarrow> list_equal F D t u
      | (Flex_undefined, Flex_undefined) \<Rightarrow> True
      | _ \<Rightarrow> False)"

definition flex_le :: "double_ops \<Rightarrow> dict_eq \<Rightarrow> flexible_type \<Rightarrow> flexible_type \<Rightarrow> bool option" where
  "flex_le F D t u = do { less \<leftarrow> lt_operator F t u; Some (less \<or> approx_equality_operator F D t u) }"

definition flex_ge :: "double_ops \<Rightarrow> dict_eq \<Rightarrow> flexible_type \<Rightarrow> flexible_type \<Rightarrow> bool option" where
  "flex_ge F D t u = do { greater \<leftarrow> gt_operator F t u; Some (greater \<or> approx_equality_operator F D t u) }"

section \<open>Arithmetic\<close>

text \<open>\<open>t op= u\<close> on an integer and a double is computed in \<open>double\<close> and truncated.\<close>

definition int_op_float :: "(f64 \<Rightarrow> f64 \<Rightarrow> f64) \<Rightarrow> u64 \<Rightarrow> f64 \<Rightarrow> u64" where
  "int_op_float f t u = double_to_int (f (int_to_double t) u)"

definition date_time_plus_float :: "double_ops \<Rightarrow> flex_date_time \<Rightarrow> f64 \<Rightarrow> flex_date_time option" where
  "date_time_plus_float F t u =
     (let integral_part = double_to_int (d_floor F u);
          us_part = double_to_int (d_mul F (d_sub F u (int_to_double integral_part))
                      (int_to_double (of_int MICROSECONDS_PER_SECOND)));
          t = set_posix_timestamp (posix_timestamp t + integral_part) t;
          us = microsecond t + sint us_part
      in if us \<ge> MICROSECONDS_PER_SECOND
         then set_microsecond (us - MICROSECONDS_PER_SECOND) (set_posix_timestamp (posix_timestamp t + 1) t)
         else set_microsecond us t)"

definition date_time_minus_float :: "double_ops \<Rightarrow> flex_date_time \<Rightarrow> f64 \<Rightarrow> flex_date_time option" where
  "date_time_minus_float F t u =
     (let integral_part = double_to_int (d_floor F u);
          us_part = double_to_int (d_mul F (d_sub F u (int_to_double integral_part))
                      (int_to_double (of_int MICROSECONDS_PER_SECOND)));
          t = set_posix_timestamp (posix_timestamp t - integral_part) t;
          us = microsecond t - sint us_part
      in if us < 0
         then set_microsecond (us + MICROSECONDS_PER_SECOND) (set_posix_timestamp (posix_timestamp t - 1) t)
         else set_microsecond us t)"

definition vec_op :: "(f64 \<Rightarrow> f64 \<Rightarrow> f64) \<Rightarrow> f64 list \<Rightarrow> f64 list \<Rightarrow> flexible_type option" where
  "vec_op f t u = (if length t = length u then Some (Flex_vec (map2 f t u)) else None)"

definition plus_equal_operator :: "double_ops \<Rightarrow> flexible_type \<Rightarrow> flexible_type \<Rightarrow> flexible_type option" where
  "plus_equal_operator F t u =
     (case (t, u) of
        (Flex_int t, Flex_int u) \<Rightarrow> Some (Flex_int (t + u))
      | (Flex_date_time t, Flex_int u) \<Rightarrow> Some (Flex_date_time (set_posix_timestamp (posix_timestamp t + u) t))
      | (Flex_date_time t, Flex_float u) \<Rightarrow> map_option Flex_date_time (date_time_plus_float F t u)
      | (Flex_int t, Flex_float u) \<Rightarrow> Some (Flex_int (int_op_float (d_add F) t u))
      | (Flex_float t, Flex_int u) \<Rightarrow> Some (Flex_float (d_add F t (int_to_double u)))
      | (Flex_float t, Flex_float u) \<Rightarrow> Some (Flex_float (d_add F t u))
      | (Flex_string t, Flex_string u) \<Rightarrow> Some (Flex_string (t @ u))
      | (Flex_vec t, Flex_vec u) \<Rightarrow> vec_op (d_add F) t u
      | (Flex_vec t, Flex_int u) \<Rightarrow> Some (Flex_vec (map (\<lambda>x. d_add F x (int_to_double u)) t))
      | (Flex_vec t, Flex_float u) \<Rightarrow> Some (Flex_vec (map (\<lambda>x. d_add F x u) t))
      | _ \<Rightarrow> None)"

definition minus_equal_operator :: "double_ops \<Rightarrow> flexible_type \<Rightarrow> flexible_type \<Rightarrow> flexible_type option" where
  "minus_equal_operator F t u =
     (case (t, u) of
        (Flex_date_time t, Flex_int u) \<Rightarrow> Some (Flex_date_time (set_posix_timestamp (posix_timestamp t - u) t))
      | (Flex_date_time t, Flex_float u) \<Rightarrow> map_option Flex_date_time (date_time_minus_float F t u)
      | (Flex_int t, Flex_int u) \<Rightarrow> Some (Flex_int (t - u))
      | (Flex_int t, Flex_float u) \<Rightarrow> Some (Flex_int (int_op_float (d_sub F) t u))
      | (Flex_float t, Flex_int u) \<Rightarrow> Some (Flex_float (d_sub F t (int_to_double u)))
      | (Flex_float t, Flex_float u) \<Rightarrow> Some (Flex_float (d_sub F t u))
      | (Flex_vec t, Flex_vec u) \<Rightarrow> vec_op (d_sub F) t u
      | (Flex_vec t, Flex_int u) \<Rightarrow> Some (Flex_vec (map (\<lambda>x. d_sub F x (int_to_double u)) t))
      | (Flex_vec t, Flex_float u) \<Rightarrow> Some (Flex_vec (map (\<lambda>x. d_sub F x u) t))
      | _ \<Rightarrow> None)"

text \<open>Integer division truncates towards zero; by zero, and of the least integer by $-1$, it is undefined.\<close>

definition int_divide :: "u64 \<Rightarrow> u64 \<Rightarrow> u64 option" where
  "int_divide t u =
     (if u = 0 \<or> t = INT64_MIN \<and> u = - 1 then None
      else Some (of_int (sgn (sint t) * sgn (sint u) * (\<bar>sint t\<bar> div \<bar>sint u\<bar>))))"

definition divide_equal_operator :: "double_ops \<Rightarrow> flexible_type \<Rightarrow> flexible_type \<Rightarrow> flexible_type option" where
  "divide_equal_operator F t u =
     (case (t, u) of
        (Flex_int t, Flex_int u) \<Rightarrow> map_option Flex_int (int_divide t u)
      | (Flex_int t, Flex_float u) \<Rightarrow> Some (Flex_int (int_op_float (d_div F) t u))
      | (Flex_float t, Flex_int u) \<Rightarrow> Some (Flex_float (d_div F t (int_to_double u)))
      | (Flex_float t, Flex_float u) \<Rightarrow> Some (Flex_float (d_div F t u))
      | (Flex_vec t, Flex_vec u) \<Rightarrow> vec_op (d_div F) t u
      | (Flex_vec t, Flex_int u) \<Rightarrow> Some (Flex_vec (map (\<lambda>x. d_div F x (int_to_double u)) t))
      | (Flex_vec t, Flex_float u) \<Rightarrow> Some (Flex_vec (map (\<lambda>x. d_div F x u) t))
      | _ \<Rightarrow> None)"

definition multiply_equal_operator :: "double_ops \<Rightarrow> flexible_type \<Rightarrow> flexible_type \<Rightarrow> flexible_type option" where
  "multiply_equal_operator F t u =
     (case (t, u) of
        (Flex_int t, Flex_int u) \<Rightarrow> Some (Flex_int (t * u))
      | (Flex_int t, Flex_float u) \<Rightarrow> Some (Flex_int (int_op_float (d_mul F) t u))
      | (Flex_float t, Flex_int u) \<Rightarrow> Some (Flex_float (d_mul F t (int_to_double u)))
      | (Flex_float t, Flex_float u) \<Rightarrow> Some (Flex_float (d_mul F t u))
      | (Flex_vec t, Flex_vec u) \<Rightarrow> vec_op (d_mul F) t u
      | (Flex_vec t, Flex_int u) \<Rightarrow> Some (Flex_vec (map (\<lambda>x. d_mul F x (int_to_double u)) t))
      | (Flex_vec t, Flex_float u) \<Rightarrow> Some (Flex_vec (map (\<lambda>x. d_mul F x u) t))
      | _ \<Rightarrow> None)"

fun negation_operator :: "flexible_type \<Rightarrow> flexible_type option" where
  "negation_operator (Flex_int t) = Some (Flex_int (- t))"
| "negation_operator (Flex_float t) = Some (Flex_float (t XOR 2 ^ 63))"
| "negation_operator (Flex_vec t) = Some (Flex_vec (map (\<lambda>x. x XOR 2 ^ 63) t))"
| "negation_operator t = None"

section \<open>Conversions\<close>

fun get_float_visitor :: "double_ops \<Rightarrow> flexible_type \<Rightarrow> f64 option" where
  "get_float_visitor F Flex_undefined = Some 0"
| "get_float_visitor F (Flex_date_time t) = Some (microsecond_res_timestamp F t)"
| "get_float_visitor F (Flex_int t) = Some (int_to_double t)"
| "get_float_visitor F (Flex_float t) = Some t"
| "get_float_visitor F (Flex_string t) = Some (d_atof F t)"
| "get_float_visitor F t = None"

section \<open>Less and greater\<close>

lemma dbl_less_asym: "dbl_less x y \<Longrightarrow> \<not> dbl_less y x"
  by (auto simp: dbl_less_def)

lemma dbl_less_trans: "dbl_less x y \<Longrightarrow> dbl_less y z \<Longrightarrow> dbl_less x z"
  by (auto simp: dbl_less_def)

lemma less_Nil [simp]: "\<not> bytes_less ts []" "\<not> vec_lt us []"
  by (cases ts; simp; fail | cases us; simp)+

lemma bytes_less_asym: "bytes_less ts us \<Longrightarrow> \<not> bytes_less us ts"
  by (induction ts us rule: bytes_less.induct) (auto split: if_splits)

lemma bytes_less_total: "bytes_less ts us \<or> ts = us \<or> bytes_less us ts"
  by (induction ts us rule: bytes_less.induct) auto

lemma bytes_less_trans: "bytes_less ts us \<Longrightarrow> bytes_less us vs \<Longrightarrow> bytes_less ts vs"
proof (induction ts us arbitrary: vs rule: bytes_less.induct)
  case (3 t ts u us)
  then show ?case by (cases vs) (auto split: if_splits)
qed (auto elim: bytes_less.elims)

lemma vec_gt_converse: "vec_gt ts us = vec_lt us ts"
  by (induction ts us rule: vec_gt.induct) (auto dest: dbl_less_asym)

lemma vec_lt_asym: "vec_lt ts us \<Longrightarrow> \<not> vec_lt us ts"
  by (induction ts us rule: vec_lt.induct) (auto split: if_splits)

lemma date_time_greater_converse: "date_time_greater a b = date_time_less b a"
  by (auto simp: date_time_greater_def date_time_less_def)

lemma date_time_less_asym: "date_time_less a b \<Longrightarrow> \<not> date_time_less b a"
  by (auto simp: date_time_less_def)

definition antisymmetric_at :: "bool option \<Rightarrow> bool option \<Rightarrow> bool" where
  "antisymmetric_at a b \<longleftrightarrow> (a = None \<longleftrightarrow> b = None) \<and> \<not> (a = Some True \<and> b = Some True)"

lemma scalar_converse: "scalar_gt F t u = scalar_lt F u t"
  by (cases t; cases u; simp add: scalar_gt_def scalar_lt_def vec_gt_converse date_time_greater_converse)

lemma scalar_antisymmetric: "antisymmetric_at (scalar_lt F t u) (scalar_lt F u t)"
  by (cases t; cases u; auto simp: antisymmetric_at_def scalar_lt_def
      dest: dbl_less_asym bytes_less_asym vec_lt_asym date_time_less_asym)

definition converse_at :: "double_ops \<Rightarrow> flexible_type \<Rightarrow> flexible_type \<Rightarrow> bool" where
  "converse_at F t u \<longleftrightarrow> gt_operator F t u = lt_operator F u t \<and> gt_operator F u t = lt_operator F t u
     \<and> antisymmetric_at (lt_operator F t u) (lt_operator F u t)"

lemma list_converse:
  "(\<And>t u. t \<in> set ts \<Longrightarrow> converse_at F t u) \<Longrightarrow>
   list_gt F ts us = list_lt F us ts \<and> list_gt F us ts = list_lt F ts us
     \<and> antisymmetric_at (list_lt F ts us) (list_lt F us ts)"
proof (induction ts arbitrary: us)
  case Nil
  show ?case by (cases us) (simp_all add: list_gt.simps list_lt.simps antisymmetric_at_def)
next
  case (Cons t ts)
  show ?case
  proof (cases us)
    case Nil
    then show ?thesis by (simp add: list_gt.simps list_lt.simps antisymmetric_at_def)
  next
    case (Cons u us')
    have "converse_at F t u" using Cons.prems by simp
    moreover have "list_gt F ts us' = list_lt F us' ts \<and> list_gt F us' ts = list_lt F ts us'
        \<and> antisymmetric_at (list_lt F ts us') (list_lt F us' ts)"
      using Cons.IH Cons.prems by simp
    ultimately show ?thesis
      unfolding Cons list_gt.simps [of F "_ # _"] list_lt.simps [of F "_ # _"]
      by (cases "lt_operator F t u"; cases "lt_operator F u t") (auto simp: converse_at_def antisymmetric_at_def)
  qed
qed

lemma converse_everywhere: "converse_at F t u"
proof (induction t arbitrary: u)
  case (Flex_list ts)
  show ?case
  proof (cases u)
    case (Flex_list us)
    then show ?thesis
      using list_converse [of ts F us] Flex_list.IH
      by (simp add: converse_at_def lt_operator.simps gt_operator.simps)
  qed (simp_all add: converse_at_def lt_operator.simps gt_operator.simps scalar_converse scalar_antisymmetric)
qed (use scalar_converse scalar_antisymmetric in
     \<open>simp_all add: converse_at_def lt_operator.simps gt_operator.simps split: flexible_type.splits\<close>)

text \<open>
  On all pairs of values, however deep their lists are nested, \<open>>\<close> is the converse of \<open><\<close>, the
  two raise an exception for the same pairs, and no two values are each less than the other.
\<close>

theorem flex_greater_is_converse:
  "gt_operator F t u = lt_operator F u t
   \<and> (lt_operator F t u = None \<longleftrightarrow> lt_operator F u t = None)
   \<and> \<not> (lt_operator F t u = Some True \<and> lt_operator F u t = Some True)"
  using converse_everywhere [of F t u] by (simp add: converse_at_def antisymmetric_at_def)

end
