(* ===== verification/Aggregators.thy ===== *)
theory Aggregators
  imports Flex_Operators
begin

text \<open>
  The aggregators of \<open>sframe/groupby_aggregate_operators.hpp\<close>, subclasses of
  \<open>group_aggregate_value\<close>: a datatype with a constructor per class and the class's members as its
  arguments, and a function per virtual method, which dispatches on the constructor. An exception (an
  operator without an overload, a failed \<open>dynamic_cast\<close>, a method that a class does not support) is the
  value \<open>None\<close>. The quantile aggregator, which wraps the quantile sketch, is left out; the methods that
  save and load the state are too.
\<close>

section \<open>State\<close>

text \<open>The operations that the values need: arithmetic, the comparison of dictionaries, the hash of a value and \<open>hash64_combine\<close> (CityHash, vendored).\<close>

record flex_env =
  fe_ops :: double_ops
  fe_dict_eq :: dict_eq
  fe_hash :: "flexible_type \<Rightarrow> u64"
  fe_hash_combine :: "u64 \<Rightarrow> u64 \<Rightarrow> u64"

datatype group_aggregate_value =
    Agg_vector_sum flexible_type bool bool
  | Agg_sum flexible_type
  | Agg_min flexible_type bool
  | Agg_argmin "flexible_type list" bool
  | Agg_argmax "flexible_type list" bool
  | Agg_max flexible_type bool
  | Agg_count u64
  | Agg_non_null_count u64
  | Agg_vector_average flexible_type bool bool u64
  | Agg_average f64 u64
  | Agg_variance u64 f64 f64
  | Agg_stdv u64 f64 f64
  | Agg_zip_dict "(flexible_type \<times> flexible_type) list" bool
  | Agg_zip_list "flexible_type list" bool bool
  | Agg_select_one flexible_type bool
  | Agg_count_distinct "flexible_type list"
  | Agg_distinct "flexible_type list"
  | Agg_frequency_count "(flexible_type \<times> u64) list"

abbreviation is_missing :: "flexible_type \<Rightarrow> bool" where
  "is_missing x \<equiv> get_type x = UNDEFINED"

fun new_instance :: "group_aggregate_value \<Rightarrow> group_aggregate_value" where
  "new_instance (Agg_vector_sum _ _ _) = Agg_vector_sum (Flex_vec []) False False"
| "new_instance (Agg_sum v) = Agg_sum (flex_reset (get_type v))"
| "new_instance (Agg_min v _) = Agg_min (flex_reset (get_type v)) False"
| "new_instance (Agg_argmin _ _) = Agg_argmin [] False"
| "new_instance (Agg_argmax _ _) = Agg_argmax [] False"
| "new_instance (Agg_max v _) = Agg_max (flex_reset (get_type v)) False"
| "new_instance (Agg_count _) = Agg_count 0"
| "new_instance (Agg_non_null_count _) = Agg_non_null_count 0"
| "new_instance (Agg_vector_average _ _ _ _) = Agg_vector_average (Flex_vec []) False False 0"
| "new_instance (Agg_average _ _) = Agg_average 0 0"
| "new_instance (Agg_variance _ _ _) = Agg_variance 0 0 0"
| "new_instance (Agg_stdv _ _ _) = Agg_stdv 0 0 0"
| "new_instance (Agg_zip_dict _ _) = Agg_zip_dict [] False"
| "new_instance (Agg_zip_list _ _ is_float) = Agg_zip_list [] False is_float"
| "new_instance (Agg_select_one _ _) = Agg_select_one flexible_type_new False"
| "new_instance (Agg_count_distinct _) = Agg_count_distinct []"
| "new_instance (Agg_distinct _) = Agg_distinct []"
| "new_instance (Agg_frequency_count _) = Agg_frequency_count []"

section \<open>Adding an element\<close>

text \<open>
  \<open>std::map::insert\<close> with \<open>operator<\<close> of the keys, on the pairs in the order of the keys: a key that is
  there keeps its value.
\<close>

fun map_insert :: "double_ops \<Rightarrow> flexible_type \<times> flexible_type \<Rightarrow> (flexible_type \<times> flexible_type) list \<Rightarrow>
    (flexible_type \<times> flexible_type) list option" where
  "map_insert F kv [] = Some [kv]"
| "map_insert F kv (lw # m) = do {
     before \<leftarrow> lt_operator F (fst kv) (fst lw);
     if before then Some (kv # lw # m)
     else do {
       after \<leftarrow> lt_operator F (fst lw) (fst kv);
       if after then map_option (Cons lw) (map_insert F kv m) else Some (lw # m)
     }
   }"

fun map_insert_all :: "double_ops \<Rightarrow> (flexible_type \<times> flexible_type) list \<Rightarrow>
    (flexible_type \<times> flexible_type) list \<Rightarrow> (flexible_type \<times> flexible_type) list option" where
  "map_insert_all F [] m = Some m"
| "map_insert_all F (kv # kvs) m = Option.bind (map_insert F kv m) (map_insert_all F kvs)"

text \<open>
  \<open>std::unordered_set::insert\<close> and \<open>std::unordered_map\<close>, on the elements in the order of insertion:
  two elements are the same if their hashes are and \<open>operator==\<close> holds. The order of iteration, which
  the library leaves open, is that of the list.
\<close>

definition same_element :: "flex_env \<Rightarrow> flexible_type \<Rightarrow> flexible_type \<Rightarrow> bool" where
  "same_element E x y \<longleftrightarrow>
     fe_hash E x = fe_hash E y \<and> approx_equality_operator (fe_ops E) (fe_dict_eq E) x y"

definition set_insert :: "flex_env \<Rightarrow> flexible_type \<Rightarrow> flexible_type list \<Rightarrow> flexible_type list" where
  "set_insert E x xs = (if list_ex (same_element E x) xs then xs else xs @ [x])"

fun count_insert :: "flex_env \<Rightarrow> flexible_type \<Rightarrow> (flexible_type \<times> u64) list \<Rightarrow> (flexible_type \<times> u64) list" where
  "count_insert E x [] = [(x, 1)]"
| "count_insert E x ((y, n) # m) =
     (if same_element E x y then (y, n + 1) # m else (y, n) # count_insert E x m)"

definition counts_insert_pair :: "flex_env \<Rightarrow> flexible_type \<times> u64 \<Rightarrow> (flexible_type \<times> u64) list \<Rightarrow>
    (flexible_type \<times> u64) list" where
  "counts_insert_pair E kv m = (if list_ex (\<lambda>lw. same_element E (fst kv) (fst lw)) m then m else m @ [kv])"

text \<open>The recurrences of the mean and of the sum of squared differences.\<close>

definition mean_add :: "('d, 'z) arith_scheme \<Rightarrow> 'd \<Rightarrow> 'd \<times> u64 \<Rightarrow> 'd \<times> u64" where
  "mean_add N x acc =
     (case acc of (v, count) \<Rightarrow>
        let count = count + 1 in (d_add N v (d_div N (d_sub N x v) (d_of_size N count)), count))"

definition variance_add :: "('d, 'z) arith_scheme \<Rightarrow> 'd \<Rightarrow> u64 \<times> 'd \<times> 'd \<Rightarrow> u64 \<times> 'd \<times> 'd" where
  "variance_add N x acc =
     (case acc of (count, mean, M2) \<Rightarrow>
        let count = count + 1;
            delta = d_sub N x mean;
            mean = d_add N mean (d_div N delta (d_of_size N count))
        in (count, mean, d_add N M2 (d_mul N delta (d_sub N x mean))))"

definition vector_average_add :: "double_ops \<Rightarrow> flexible_type \<Rightarrow> flexible_type \<Rightarrow> u64 \<Rightarrow> flexible_type option" where
  "vector_average_add F flex v count = do {
     d \<leftarrow> minus_equal_operator F flex v;
     d \<leftarrow> divide_equal_operator F d (Flex_float (d_of_size F count));
     plus_equal_operator F v d
   }"

definition vector_sum_add :: "flex_env \<Rightarrow> flexible_type \<Rightarrow> flexible_type \<Rightarrow> bool \<Rightarrow> bool \<Rightarrow> group_aggregate_value option" where
  "vector_sum_add E flex v f i =
     (if f \<or> is_missing flex then Some (Agg_vector_sum v f i)
      else if \<not> i then Some (Agg_vector_sum flex f True)
      else if flex_size flex \<noteq> flex_size v then Some (Agg_vector_sum v True i)
      else map_option (\<lambda>v. Agg_vector_sum v f i) (plus_equal_operator (fe_ops E) v flex))"

definition sum_add :: "flex_env \<Rightarrow> flexible_type \<Rightarrow> flexible_type \<Rightarrow> group_aggregate_value option" where
  "sum_add E flex v =
     (if is_missing flex then Some (Agg_sum v) else map_option Agg_sum (plus_equal_operator (fe_ops E) v flex))"

definition min_add :: "flex_env \<Rightarrow> flexible_type \<Rightarrow> flexible_type \<Rightarrow> bool \<Rightarrow> group_aggregate_value option" where
  "min_add E flex v i =
     (if is_missing flex then Some (Agg_min v i)
      else if \<not> i then Some (Agg_min flex True)
      else map_option (\<lambda>greater. Agg_min (if greater then flex else v) i) (gt_operator (fe_ops E) v flex))"

definition max_add :: "flex_env \<Rightarrow> flexible_type \<Rightarrow> flexible_type \<Rightarrow> bool \<Rightarrow> group_aggregate_value option" where
  "max_add E flex v i =
     (if is_missing flex then Some (Agg_max v i)
      else if \<not> i then Some (Agg_max flex True)
      else map_option (\<lambda>less. Agg_max (if less then flex else v) i) (lt_operator (fe_ops E) v flex))"

definition count_add :: "flex_env \<Rightarrow> flexible_type \<Rightarrow> u64 \<Rightarrow> group_aggregate_value option" where
  "count_add E flex n = Some (Agg_count (n + 1))"

definition non_null_count_add :: "flex_env \<Rightarrow> flexible_type \<Rightarrow> u64 \<Rightarrow> group_aggregate_value option" where
  "non_null_count_add E flex n = Some (Agg_non_null_count (if is_missing flex then n else n + 1))"

definition vector_average_add_value :: "flex_env \<Rightarrow> flexible_type \<Rightarrow> flexible_type \<Rightarrow> bool \<Rightarrow> bool \<Rightarrow> u64 \<Rightarrow> group_aggregate_value option" where
  "vector_average_add_value E flex v i f n =
     (if f \<or> is_missing flex then Some (Agg_vector_average v i f n)
      else if \<not> i then Some (Agg_vector_average flex True f (n + 1))
      else if flex_size flex \<noteq> flex_size v then Some (Agg_vector_average v i True n)
      else map_option (\<lambda>v. Agg_vector_average v i f (n + 1)) (vector_average_add (fe_ops E) flex v (n + 1)))"

definition average_add :: "flex_env \<Rightarrow> flexible_type \<Rightarrow> f64 \<Rightarrow> u64 \<Rightarrow> group_aggregate_value option" where
  "average_add E flex v n =
     (if is_missing flex then Some (Agg_average v n)
      else map_option (\<lambda>x. case mean_add (fe_ops E) x (v, n) of (v, n) \<Rightarrow> Agg_average v n)
             (get_float_visitor (fe_ops E) flex))"

definition variance_add_value :: "flex_env \<Rightarrow> flexible_type \<Rightarrow> u64 \<Rightarrow> f64 \<Rightarrow> f64 \<Rightarrow> group_aggregate_value option" where
  "variance_add_value E flex n m M2 =
     (if is_missing flex then Some (Agg_variance n m M2)
      else map_option (\<lambda>x. case variance_add (fe_ops E) x (n, m, M2) of (n, m, M2) \<Rightarrow> Agg_variance n m M2)
             (get_float_visitor (fe_ops E) flex))"

definition stdv_add :: "flex_env \<Rightarrow> flexible_type \<Rightarrow> u64 \<Rightarrow> f64 \<Rightarrow> f64 \<Rightarrow> group_aggregate_value option" where
  "stdv_add E flex n m M2 =
     (if is_missing flex then Some (Agg_stdv n m M2)
      else map_option (\<lambda>x. case variance_add (fe_ops E) x (n, m, M2) of (n, m, M2) \<Rightarrow> Agg_stdv n m M2)
             (get_float_visitor (fe_ops E) flex))"

definition zip_list_add :: "flex_env \<Rightarrow> flexible_type \<Rightarrow> flexible_type list \<Rightarrow> bool \<Rightarrow> bool \<Rightarrow> group_aggregate_value option" where
  "zip_list_add E flex v missing is_float =
     Some (if is_missing flex then Agg_zip_list v True is_float else Agg_zip_list (v @ [flex]) missing is_float)"

definition select_one_add :: "flex_env \<Rightarrow> flexible_type \<Rightarrow> flexible_type \<Rightarrow> bool \<Rightarrow> group_aggregate_value option" where
  "select_one_add E flex v has_value =
     Some (if has_value then Agg_select_one v has_value else Agg_select_one flex True)"

definition count_distinct_add :: "flex_env \<Rightarrow> flexible_type \<Rightarrow> flexible_type list \<Rightarrow> group_aggregate_value option" where
  "count_distinct_add E flex vs = Some (Agg_count_distinct (set_insert E flex vs))"

definition distinct_add :: "flex_env \<Rightarrow> flexible_type \<Rightarrow> flexible_type list \<Rightarrow> group_aggregate_value option" where
  "distinct_add E flex vs = Some (Agg_distinct (set_insert E flex vs))"

definition frequency_count_add :: "flex_env \<Rightarrow> flexible_type \<Rightarrow> (flexible_type \<times> u64) list \<Rightarrow> group_aggregate_value option" where
  "frequency_count_add E flex m = Some (Agg_frequency_count (count_insert E flex m))"

text \<open>\<open>add_element_simple\<close>; the classes with two input columns throw.\<close>

fun add_element_simple :: "flex_env \<Rightarrow> flexible_type \<Rightarrow> group_aggregate_value \<Rightarrow> group_aggregate_value option" where
  "add_element_simple E flex (Agg_vector_sum v f i) = vector_sum_add E flex v f i"
| "add_element_simple E flex (Agg_sum v) = sum_add E flex v"
| "add_element_simple E flex (Agg_min v i) = min_add E flex v i"
| "add_element_simple E flex (Agg_max v i) = max_add E flex v i"
| "add_element_simple E flex (Agg_argmin _ _) = None"
| "add_element_simple E flex (Agg_argmax _ _) = None"
| "add_element_simple E flex (Agg_count n) = count_add E flex n"
| "add_element_simple E flex (Agg_non_null_count n) = non_null_count_add E flex n"
| "add_element_simple E flex (Agg_vector_average v i f n) = vector_average_add_value E flex v i f n"
| "add_element_simple E flex (Agg_average v n) = average_add E flex v n"
| "add_element_simple E flex (Agg_variance n m M2) = variance_add_value E flex n m M2"
| "add_element_simple E flex (Agg_stdv n m M2) = stdv_add E flex n m M2"
| "add_element_simple E flex (Agg_zip_dict _ _) = None"
| "add_element_simple E flex (Agg_zip_list v missing is_float) = zip_list_add E flex v missing is_float"
| "add_element_simple E flex (Agg_select_one v has_value) = select_one_add E flex v has_value"
| "add_element_simple E flex (Agg_count_distinct vs) = count_distinct_add E flex vs"
| "add_element_simple E flex (Agg_distinct vs) = distinct_add E flex vs"
| "add_element_simple E flex (Agg_frequency_count m) = frequency_count_add E flex m"

definition argmin_add :: "flex_env \<Rightarrow> flexible_type \<Rightarrow> flexible_type list \<Rightarrow> flexible_type list \<Rightarrow> bool \<Rightarrow> group_aggregate_value option" where
  "argmin_add E x xs vs i =
     (if is_missing x then Some (Agg_argmin vs i)
      else if \<not> i then Some (Agg_argmin (x # xs) True)
      else if vs = [] then None
      else map_option (\<lambda>greater. Agg_argmin (if greater then x # xs else vs) i) (gt_operator (fe_ops E) (hd vs) x))"

definition argmax_add :: "flex_env \<Rightarrow> flexible_type \<Rightarrow> flexible_type list \<Rightarrow> flexible_type list \<Rightarrow> bool \<Rightarrow> group_aggregate_value option" where
  "argmax_add E x xs vs i =
     (if is_missing x then Some (Agg_argmax vs i)
      else if \<not> i then Some (Agg_argmax (x # xs) True)
      else if vs = [] then None
      else map_option (\<lambda>less. Agg_argmax (if less then x # xs else vs) i) (lt_operator (fe_ops E) (hd vs) x))"

definition zip_dict_add :: "flex_env \<Rightarrow> flexible_type \<Rightarrow> flexible_type list \<Rightarrow> (flexible_type \<times> flexible_type) list \<Rightarrow> bool \<Rightarrow> group_aggregate_value option" where
  "zip_dict_add E x xs m missing =
     (if is_missing x then Some (Agg_zip_dict m True)
      else if xs = [] then None
      else map_option (\<lambda>m. Agg_zip_dict m missing) (map_insert (fe_ops E) (x, hd xs) m))"

text \<open>\<open>add_element\<close>; the default adds the first value. Without values the code reads \<open>values[0]\<close> out of bounds.\<close>

fun add_element :: "flex_env \<Rightarrow> flexible_type list \<Rightarrow> group_aggregate_value \<Rightarrow> group_aggregate_value option" where
  "add_element E [] a = None"
| "add_element E (x # xs) (Agg_argmin vs i) = argmin_add E x xs vs i"
| "add_element E (x # xs) (Agg_argmax vs i) = argmax_add E x xs vs i"
| "add_element E (x # xs) (Agg_zip_dict m missing) = zip_dict_add E x xs m missing"
| "add_element E (x # xs) a = add_element_simple E x a"

section \<open>Combining two aggregates\<close>

definition mean_combine :: "('d, 'z) arith_scheme \<Rightarrow> 'd \<times> u64 \<Rightarrow> 'd \<times> u64 \<Rightarrow> 'd \<times> u64" where
  "mean_combine N a b =
     (case (a, b) of ((v, n), (w, k)) \<Rightarrow>
        if n + k > 0
        then (d_div N (d_add N (d_mul N v (d_of_size N n)) (d_mul N w (d_of_size N k))) (d_of_size N (n + k)), n + k)
        else (v, n))"

definition variance_combine :: "('d, 'z) arith_scheme \<Rightarrow> u64 \<times> 'd \<times> 'd \<Rightarrow> u64 \<times> 'd \<times> 'd \<Rightarrow> u64 \<times> 'd \<times> 'd" where
  "variance_combine N a b =
     (case (a, b) of ((n, m, M2), (k, m', M2')) \<Rightarrow>
        if k = 0 then (n, m, M2)
        else if n = 0 then (k, m', M2')
        else
          let delta = d_sub N m' m
          in (n + k,
              d_div N (d_add N (d_mul N m (d_of_size N n)) (d_mul N m' (d_of_size N k))) (d_of_size N (n + k)),
              d_add N M2 (d_add N M2' (d_div N
                (d_mul N (d_mul N (d_mul N delta delta) (d_of_size N k)) (d_of_size N n)) (d_of_size N (n + k))))))"

definition vector_average_combine :: "double_ops \<Rightarrow> flexible_type \<Rightarrow> u64 \<Rightarrow> flexible_type \<Rightarrow> u64 \<Rightarrow> flexible_type option" where
  "vector_average_combine F v n w k = do {
     v \<leftarrow> multiply_equal_operator F v (Flex_int n);
     w \<leftarrow> multiply_equal_operator F w (Flex_int k);
     s \<leftarrow> plus_equal_operator F v w;
     divide_equal_operator F s (Flex_int (n + k))
   }"

definition vector_sum_combine :: "flex_env \<Rightarrow> flexible_type \<Rightarrow> bool \<Rightarrow> bool \<Rightarrow> flexible_type \<Rightarrow> bool \<Rightarrow> bool \<Rightarrow> group_aggregate_value option" where
  "vector_sum_combine E v f i w g j =
     (if g \<or> f then Some (Agg_vector_sum v f i)
     else if \<not> i then Some (Agg_vector_sum w g j)
     else if \<not> j then Some (Agg_vector_sum v f i)
     else if flex_size v \<noteq> flex_size w then Some (Agg_vector_sum v True i)
     else map_option (\<lambda>v. Agg_vector_sum v f i) (plus_equal_operator (fe_ops E) v w))"

definition sum_combine :: "flex_env \<Rightarrow> flexible_type \<Rightarrow> flexible_type \<Rightarrow> group_aggregate_value option" where
  "sum_combine E v w = map_option Agg_sum (plus_equal_operator (fe_ops E) v w)"

definition min_combine :: "flex_env \<Rightarrow> flexible_type \<Rightarrow> bool \<Rightarrow> flexible_type \<Rightarrow> bool \<Rightarrow> group_aggregate_value option" where
  "min_combine E v i w j =
     (if \<not> j then Some (Agg_min v i)
     else if \<not> i then Some (Agg_min w True)
     else map_option (\<lambda>greater. Agg_min (if greater then w else v) i) (gt_operator (fe_ops E) v w))"

definition argmin_combine :: "flex_env \<Rightarrow> flexible_type list \<Rightarrow> bool \<Rightarrow> flexible_type list \<Rightarrow> bool \<Rightarrow> group_aggregate_value option" where
  "argmin_combine E vs i ws j =
     (if \<not> j then Some (Agg_argmin vs i)
     else if \<not> i then Some (Agg_argmin ws True)
     else if vs = [] \<or> ws = [] then None
     else map_option (\<lambda>greater. Agg_argmin (if greater then ws else vs) i)
            (gt_operator (fe_ops E) (hd vs) (hd ws)))"

definition argmax_combine :: "flex_env \<Rightarrow> flexible_type list \<Rightarrow> bool \<Rightarrow> flexible_type list \<Rightarrow> bool \<Rightarrow> group_aggregate_value option" where
  "argmax_combine E vs i ws j =
     (if \<not> j then Some (Agg_argmax vs i)
     else if \<not> i then Some (Agg_argmax ws True)
     else if vs = [] \<or> ws = [] then None
     else map_option (\<lambda>less. Agg_argmax (if less then ws else vs) i) (lt_operator (fe_ops E) (hd vs) (hd ws)))"

definition max_combine :: "flex_env \<Rightarrow> flexible_type \<Rightarrow> bool \<Rightarrow> flexible_type \<Rightarrow> bool \<Rightarrow> group_aggregate_value option" where
  "max_combine E v i w j =
     (if \<not> j then Some (Agg_max v i)
     else if \<not> i then Some (Agg_max w True)
     else map_option (\<lambda>less. Agg_max (if less then w else v) i) (lt_operator (fe_ops E) v w))"

definition count_combine :: "flex_env \<Rightarrow> u64 \<Rightarrow> u64 \<Rightarrow> group_aggregate_value option" where
  "count_combine E n k = Some (Agg_count (n + k))"

definition non_null_count_combine :: "flex_env \<Rightarrow> u64 \<Rightarrow> u64 \<Rightarrow> group_aggregate_value option" where
  "non_null_count_combine E n k = Some (Agg_non_null_count (n + k))"

definition vector_average_combine_values :: "flex_env \<Rightarrow> flexible_type \<Rightarrow> bool \<Rightarrow> bool \<Rightarrow> u64 \<Rightarrow> flexible_type \<Rightarrow> bool \<Rightarrow> bool \<Rightarrow> u64 \<Rightarrow> group_aggregate_value option" where
  "vector_average_combine_values E v i f n w j g k =
     (if g \<or> f then Some (Agg_vector_average v i f n)
     else if \<not> i then Some (Agg_vector_average w j g k)
     else if \<not> j then Some (Agg_vector_average v i f n)
     else if flex_size v \<noteq> flex_size w then Some (Agg_vector_average v i True n)
     else map_option (\<lambda>v. Agg_vector_average v i f (n + k)) (vector_average_combine (fe_ops E) v n w k))"

definition average_combine :: "flex_env \<Rightarrow> f64 \<Rightarrow> u64 \<Rightarrow> f64 \<Rightarrow> u64 \<Rightarrow> group_aggregate_value option" where
  "average_combine E v n w k =
    (case mean_combine (fe_ops E) (v, n) (w, k) of (v, n) \<Rightarrow> Some (Agg_average v n))"

definition variance_combine_values :: "flex_env \<Rightarrow> u64 \<Rightarrow> f64 \<Rightarrow> f64 \<Rightarrow> u64 \<Rightarrow> f64 \<Rightarrow> f64 \<Rightarrow> group_aggregate_value option" where
  "variance_combine_values E n m M2 k m' M2' =
    (case variance_combine (fe_ops E) (n, m, M2) (k, m', M2') of (n, m, M2) \<Rightarrow> Some (Agg_variance n m M2))"

definition stdv_combine :: "flex_env \<Rightarrow> u64 \<Rightarrow> f64 \<Rightarrow> f64 \<Rightarrow> u64 \<Rightarrow> f64 \<Rightarrow> f64 \<Rightarrow> group_aggregate_value option" where
  "stdv_combine E n m M2 k m' M2' =
    (case variance_combine (fe_ops E) (n, m, M2) (k, m', M2') of (n, m, M2) \<Rightarrow> Some (Agg_stdv n m M2))"

definition zip_dict_combine :: "flex_env \<Rightarrow> (flexible_type \<times> flexible_type) list \<Rightarrow> bool \<Rightarrow> (flexible_type \<times> flexible_type) list \<Rightarrow> bool \<Rightarrow> group_aggregate_value option" where
  "zip_dict_combine E v missing w missing' =
     (let missing = (missing \<or> missing')
     in if missing then Some (Agg_zip_dict v missing)
        else map_option (\<lambda>m. Agg_zip_dict m missing) (map_insert_all (fe_ops E) w v))"

definition zip_list_combine :: "flex_env \<Rightarrow> flexible_type list \<Rightarrow> bool \<Rightarrow> bool \<Rightarrow> flexible_type list \<Rightarrow> bool \<Rightarrow> bool \<Rightarrow> group_aggregate_value option" where
  "zip_list_combine E v missing is_float w missing' is_float' =
     (Some (Agg_zip_list (v @ w) (missing \<or> missing') is_float))"

definition count_distinct_combine :: "flex_env \<Rightarrow> flexible_type list \<Rightarrow> flexible_type list \<Rightarrow> group_aggregate_value option" where
  "count_distinct_combine E vs ws = Some (Agg_count_distinct (fold (set_insert E) ws vs))"

definition distinct_combine :: "flex_env \<Rightarrow> flexible_type list \<Rightarrow> flexible_type list \<Rightarrow> group_aggregate_value option" where
  "distinct_combine E vs ws = Some (Agg_distinct (fold (set_insert E) ws vs))"

definition frequency_count_combine :: "flex_env \<Rightarrow> (flexible_type \<times> u64) list \<Rightarrow> (flexible_type \<times> u64) list \<Rightarrow> group_aggregate_value option" where
  "frequency_count_combine E v w =
     (Some (Agg_frequency_count (fold (counts_insert_pair E) w v)))"

text \<open>The last argument is the other aggregate; its \<open>dynamic_cast\<close> fails if it is of another class.\<close>

definition combine :: "flex_env \<Rightarrow> group_aggregate_value \<Rightarrow> group_aggregate_value \<Rightarrow> group_aggregate_value option" where
  "combine E self other =
     (case (self, other) of
        (Agg_vector_sum v f i, Agg_vector_sum w g j) \<Rightarrow> vector_sum_combine E v f i w g j
      | (Agg_sum v, Agg_sum w) \<Rightarrow> sum_combine E v w
      | (Agg_min v i, Agg_min w j) \<Rightarrow> min_combine E v i w j
      | (Agg_argmin vs i, Agg_argmin ws j) \<Rightarrow> argmin_combine E vs i ws j
      | (Agg_argmax vs i, Agg_argmax ws j) \<Rightarrow> argmax_combine E vs i ws j
      | (Agg_max v i, Agg_max w j) \<Rightarrow> max_combine E v i w j
      | (Agg_count n, Agg_count k) \<Rightarrow> count_combine E n k
      | (Agg_non_null_count n, Agg_non_null_count k) \<Rightarrow> non_null_count_combine E n k
      | (Agg_vector_average v i f n, Agg_vector_average w j g k) \<Rightarrow> vector_average_combine_values E v i f n w j g k
      | (Agg_average v n, Agg_average w k) \<Rightarrow> average_combine E v n w k
      | (Agg_variance n m M2, Agg_variance k m' M2') \<Rightarrow> variance_combine_values E n m M2 k m' M2'
      | (Agg_stdv n m M2, Agg_stdv k m' M2') \<Rightarrow> stdv_combine E n m M2 k m' M2'
      | (Agg_zip_dict v missing, Agg_zip_dict w missing') \<Rightarrow> zip_dict_combine E v missing w missing'
      | (Agg_zip_list v missing is_float, Agg_zip_list w missing' is_float') \<Rightarrow> zip_list_combine E v missing is_float w missing' is_float'
      | (Agg_select_one v has_value, _) \<Rightarrow> Some (Agg_select_one v has_value)
      | (Agg_count_distinct vs, Agg_count_distinct ws) \<Rightarrow> count_distinct_combine E vs ws
      | (Agg_count_distinct vs, Agg_distinct ws) \<Rightarrow> Some (Agg_count_distinct (fold (set_insert E) ws vs))
      | (Agg_distinct vs, Agg_count_distinct ws) \<Rightarrow> Some (Agg_distinct (fold (set_insert E) ws vs))
      | (Agg_distinct vs, Agg_distinct ws) \<Rightarrow> distinct_combine E vs ws
      | (Agg_frequency_count v, Agg_frequency_count w) \<Rightarrow> frequency_count_combine E v w
      | _ \<Rightarrow> None)"

lemmas class_methods [simp] =
  vector_sum_add_def sum_add_def min_add_def max_add_def count_add_def
  non_null_count_add_def vector_average_add_value_def average_add_def variance_add_value_def stdv_add_def
  zip_list_add_def select_one_add_def count_distinct_add_def distinct_add_def frequency_count_add_def
  argmin_add_def argmax_add_def zip_dict_add_def vector_sum_combine_def sum_combine_def
  min_combine_def argmin_combine_def argmax_combine_def max_combine_def count_combine_def
  non_null_count_combine_def vector_average_combine_values_def average_combine_def variance_combine_values_def stdv_combine_def
  zip_dict_combine_def zip_list_combine_def count_distinct_combine_def distinct_combine_def frequency_count_combine_def

section \<open>The result\<close>

definition variance_result :: "double_ops \<Rightarrow> u64 \<Rightarrow> f64 \<Rightarrow> f64" where
  "variance_result F n M2 = (if n \<le> 1 then 0 else d_div F M2 (d_of_size F n))"

fun emit :: "flex_env \<Rightarrow> group_aggregate_value \<Rightarrow> flexible_type option" where
  "emit E (Agg_vector_sum v f _) = Some (if f then Flex_undefined else v)"
| "emit E (Agg_sum v) = Some v"
| "emit E (Agg_min v i) = Some (if i then v else Flex_undefined)"
| "emit E (Agg_argmin vs _) =
     (case vs of [] \<Rightarrow> Some Flex_undefined | x # y # _ \<Rightarrow> Some y | _ \<Rightarrow> None)"
| "emit E (Agg_argmax vs _) =
     (case vs of [] \<Rightarrow> Some Flex_undefined | x # y # _ \<Rightarrow> Some y | _ \<Rightarrow> None)"
| "emit E (Agg_max v i) = Some (if i then v else Flex_undefined)"
| "emit E (Agg_count n) = Some (Flex_int n)"
| "emit E (Agg_non_null_count n) = Some (Flex_int n)"
| "emit E (Agg_vector_average v _ f _) = Some (if f then Flex_undefined else v)"
| "emit E (Agg_average v n) = Some (if n = 0 then Flex_undefined else Flex_float v)"
| "emit E (Agg_variance n m M2) = Some (Flex_float (variance_result (fe_ops E) n M2))"
| "emit E (Agg_stdv n m M2) = Some (Flex_float (d_sqrt (fe_ops E) (variance_result (fe_ops E) n M2)))"
| "emit E (Agg_zip_dict m missing) = Some (Flex_dict m)"
| "emit E (Agg_zip_list v missing is_float) =
     (if is_float then map_option Flex_vec (those (map (get_float_visitor (fe_ops E)) v)) else Some (Flex_list v))"
| "emit E (Agg_select_one v has_value) = Some (if has_value then v else Flex_undefined)"
| "emit E (Agg_count_distinct vs) = Some (Flex_int (of_nat (length vs)))"
| "emit E (Agg_distinct vs) = Some (Flex_list vs)"
| "emit E (Agg_frequency_count m) = Some (Flex_dict (map (\<lambda>(k, n). (k, Flex_int n)) m))"

section \<open>Types\<close>

fun support_type :: "flex_type_enum \<Rightarrow> group_aggregate_value \<Rightarrow> bool" where
  "support_type type (Agg_vector_sum _ _ _) = (type = VECTOR)"
| "support_type type (Agg_sum _) = (type = INTEGER \<or> type = FLOAT)"
| "support_type type (Agg_min _ _) = (type = INTEGER \<or> type = FLOAT \<or> type = DATETIME)"
| "support_type type (Agg_argmin _ _) = (type = INTEGER \<or> type = FLOAT \<or> type = DATETIME)"
| "support_type type (Agg_argmax _ _) = (type = INTEGER \<or> type = FLOAT \<or> type = DATETIME)"
| "support_type type (Agg_max _ _) = (type = INTEGER \<or> type = FLOAT \<or> type = DATETIME)"
| "support_type type (Agg_vector_average _ _ _ _) = (type = VECTOR)"
| "support_type type (Agg_average _ _) = (type = INTEGER \<or> type = FLOAT)"
| "support_type type (Agg_variance _ _ _) = (type = INTEGER \<or> type = FLOAT)"
| "support_type type (Agg_stdv _ _ _) = (type = INTEGER \<or> type = FLOAT)"
| "support_type type (Agg_frequency_count _) = (type = INTEGER \<or> type = STRING)"
| "support_type type _ = True"

text \<open>\<open>set_input_type\<close> and \<open>set_input_types\<close>: the aggregate and the type of its result.\<close>

fun set_input_type :: "flex_type_enum \<Rightarrow> group_aggregate_value \<Rightarrow> (group_aggregate_value \<times> flex_type_enum) option" where
  "set_input_type type (Agg_vector_sum v f i) = Some (Agg_vector_sum v f i, type)"
| "set_input_type type (Agg_sum v) = Some (Agg_sum (flex_reset type), type)"
| "set_input_type type (Agg_min v i) = Some (Agg_min (flex_reset type) i, type)"
| "set_input_type type (Agg_argmin _ _) = None"
| "set_input_type type (Agg_argmax _ _) = None"
| "set_input_type type (Agg_max v i) = Some (Agg_max (flex_reset type) i, type)"
| "set_input_type type (Agg_count _) = None"
| "set_input_type type (Agg_non_null_count n) = Some (Agg_non_null_count n, INTEGER)"
| "set_input_type type (Agg_vector_average v i f n) = Some (Agg_vector_average v i f n, type)"
| "set_input_type type (Agg_average v n) = Some (Agg_average v n, FLOAT)"
| "set_input_type type (Agg_variance n m M2) = Some (Agg_variance n m M2, FLOAT)"
| "set_input_type type (Agg_stdv n m M2) = Some (Agg_stdv n m M2, FLOAT)"
| "set_input_type type (Agg_zip_dict _ _) = None"
| "set_input_type type (Agg_zip_list _ _ _) = None"
| "set_input_type type (Agg_select_one v has_value) = Some (Agg_select_one v has_value, type)"
| "set_input_type type (Agg_count_distinct vs) = Some (Agg_count_distinct vs, INTEGER)"
| "set_input_type type (Agg_distinct vs) = Some (Agg_distinct vs, LIST)"
| "set_input_type type (Agg_frequency_count m) = Some (Agg_frequency_count m, DICT)"

fun set_input_types :: "flex_type_enum list \<Rightarrow> group_aggregate_value \<Rightarrow> (group_aggregate_value \<times> flex_type_enum) option" where
  "set_input_types types (Agg_argmin vs i) =
     (case types of _ # t # _ \<Rightarrow> Some (Agg_argmin vs i, t) | _ \<Rightarrow> None)"
| "set_input_types types (Agg_argmax vs i) =
     (case types of _ # t # _ \<Rightarrow> Some (Agg_argmax vs i, t) | _ \<Rightarrow> None)"
| "set_input_types types (Agg_count n) = Some (Agg_count n, INTEGER)"
| "set_input_types types (Agg_non_null_count n) = Some (Agg_non_null_count n, INTEGER)"
| "set_input_types types (Agg_zip_dict m missing) = Some (Agg_zip_dict m missing, DICT)"
| "set_input_types types (Agg_zip_list v missing _) =
     (case types of [] \<Rightarrow> None
      | t # _ \<Rightarrow> if t = FLOAT then Some (Agg_zip_list v missing True, VECTOR)
                else Some (Agg_zip_list v missing False, LIST))"
| "set_input_types types a = (case types of [] \<Rightarrow> None | t # _ \<Rightarrow> set_input_type t a)"

end
