(* ===== verification/Running_Variance.thy ===== *)
theory Running_Variance
  imports Complex_Main Aggregators
begin

text \<open>
  The recurrences of the average and variance aggregators in exact arithmetic: with real numbers in place
  of doubles they compute the mean and the sum of the squared differences from it, and combining two
  partial results gives those of all the values. The rounding of doubles is not considered.
\<close>

definition exact_arith :: "real arith" where
  "exact_arith = \<lparr>d_add = (+), d_sub = (-), d_mul = (*), d_div = (/), d_of_size = (\<lambda>n. real (unat n)), d_zero = 0\<rparr>"

definition mean_of :: "real list \<Rightarrow> real" where
  "mean_of xs = sum_list xs / real (length xs)"

definition squared_differences :: "real list \<Rightarrow> real" where
  "squared_differences xs = sum_list (map (\<lambda>x. (x - mean_of xs)\<^sup>2) xs)"

definition statistics :: "real list \<Rightarrow> u64 \<times> real \<times> real" where
  "statistics xs = (of_nat (length xs), mean_of xs, squared_differences xs)"

lemma sum_squared_shift:
  "sum_list (map (\<lambda>x. (x - c)\<^sup>2) xs) = sum_list (map (\<lambda>x. x\<^sup>2) xs) - 2 * c * sum_list xs + real (length xs) * c\<^sup>2"
  for c :: real
  by (induction xs) (simp_all add: algebra_simps power2_eq_square)

lemma squared_differences_alt:
  "squared_differences xs = sum_list (map (\<lambda>x. x\<^sup>2) xs) - (sum_list xs)\<^sup>2 / real (length xs)"
proof (cases "xs = []")
  case False
  then show ?thesis
    unfolding squared_differences_def sum_squared_shift by (simp add: mean_of_def field_simps power2_eq_square)
qed (simp add: squared_differences_def)

lemma exact_arith_simps [simp]:
  "d_add exact_arith = (+)" "d_sub exact_arith = (-)" "d_mul exact_arith = (*)" "d_div exact_arith = (/)"
  "d_of_size exact_arith n = real (unat n)"
  by (simp_all add: exact_arith_def)

lemma unat_length: "n < 2 ^ 64 \<Longrightarrow> unat (of_nat n :: u64) = n"
  by (simp add: unsigned_of_nat take_bit_nat_eq_self)

lemma size_arith:
  assumes "m + n < 2 ^ 64"
  shows "unat (of_nat m :: u64) = m" and "unat (of_nat n :: u64) = n" and "unat (of_nat m + of_nat n :: u64) = m + n"
  using assms unat_length [of "m + n"] by (simp_all add: unat_length)

lemma variance_add_exact:
  assumes "length xs + 1 < 2 ^ 64"
  shows "variance_add exact_arith x (statistics xs) = statistics (xs @ [x])"
proof -
  define n S1 S2 where "n = real (length xs)" and "S1 = sum_list xs" and "S2 = sum_list (map (\<lambda>x. x\<^sup>2) xs)"
  have n: "n \<ge> 0" by (simp add: n_def)
  have "S1 / n + (x - S1 / n) / (n + 1) = (S1 + x) / (n + 1)"
  proof (cases "n = 0")
    case True
    then show ?thesis by (auto simp: n_def S1_def)
  next
    case False
    with n have "n > 0" "n + 1 > 0" by auto
    then show ?thesis by (simp add: divide_simps) (simp add: algebra_simps)
  qed
  moreover have "S2 - S1\<^sup>2 / n + (x - S1 / n) * (x - (S1 + x) / (n + 1)) = S2 + x\<^sup>2 - (S1 + x)\<^sup>2 / (n + 1)"
  proof (cases "n = 0")
    case True
    then show ?thesis by (auto simp: n_def S1_def)
  next
    case False
    with n have "n > 0" "n + 1 > 0" by auto
    then show ?thesis by (simp add: divide_simps) (simp add: algebra_simps power2_eq_square)
  qed
  moreover have "unat (of_nat (length xs) + 1 :: u64) = length xs + 1"
    using size_arith(3) [of "length xs" 1] assms by simp
  ultimately show ?thesis
    by (simp add: variance_add_def statistics_def Let_def squared_differences_alt mean_of_def
        n_def S1_def S2_def add.commute del: of_nat_unat)
qed

lemma variance_combine_exact:
  assumes "length xs + length ys < 2 ^ 64"
  shows "variance_combine exact_arith (statistics xs) (statistics ys) = statistics (xs @ ys)"
proof (cases "xs = [] \<or> ys = []")
  case True
  have "(of_nat n :: u64) = 0 \<longleftrightarrow> n = 0" if "n < 2 ^ 64" for n
    using unat_length [OF that] by (cases "n = 0") (auto simp: unat_eq_zero)
  then have "(of_nat (length xs) :: u64) = 0 \<longleftrightarrow> xs = []" "(of_nat (length ys) :: u64) = 0 \<longleftrightarrow> ys = []"
    using assms by simp_all
  with True show ?thesis by (elim disjE) (simp_all add: variance_combine_def statistics_def squared_differences_def mean_of_def)
next
  case False
  define n m S1 T1 S2 T2 where d: "n = real (length xs)" "m = real (length ys)" "S1 = sum_list xs" "T1 = sum_list ys"
    "S2 = sum_list (map (\<lambda>x. x\<^sup>2) xs)" "T2 = sum_list (map (\<lambda>x. x\<^sup>2) ys)"
  have "n > 0" "m > 0" using False by (auto simp: d)
  then have nm: "n > 0" "m > 0" "n + m > 0" by auto
  have "S2 - S1\<^sup>2 / n + (T2 - T1\<^sup>2 / m + (T1 / m - S1 / n) * (T1 / m - S1 / n) * m * n / (n + m))
      = S2 + T2 - (S1 + T1)\<^sup>2 / (n + m)"
    using nm by (simp add: divide_simps) (simp add: algebra_simps power2_eq_square)
  moreover have "S1 / n * n + T1 / m * m = S1 + T1" using nm by simp
  moreover have "(of_nat (length xs) :: u64) \<noteq> 0" "(of_nat (length ys) :: u64) \<noteq> 0"
    using size_arith [OF assms] False by (metis length_0_conv unat_0)+
  ultimately show ?thesis
    using size_arith [OF assms]
    by (simp add: variance_combine_def statistics_def Let_def squared_differences_alt mean_of_def d)
qed

lemma mean_exact:
  assumes "length xs + length ys < 2 ^ 64"
  shows "mean_combine exact_arith (mean_of xs, of_nat (length xs)) (mean_of ys, of_nat (length ys))
    = (mean_of (xs @ ys), of_nat (length (xs @ ys)))"
proof (cases "xs @ ys = []")
  case False
  then have "(of_nat (length xs) + of_nat (length ys) :: u64) \<noteq> 0"
    using size_arith(3) [OF assms] by (metis add_is_0 append_is_Nil_conv length_0_conv unat_0)
  then show ?thesis
    using size_arith [OF assms] by (simp add: mean_combine_def mean_of_def word_gt_0)
qed (simp add: mean_combine_def mean_of_def)

lemma mean_add_exact:
  assumes "length xs + 1 < 2 ^ 64"
  shows "mean_add exact_arith x (mean_of xs, of_nat (length xs)) = (mean_of (xs @ [x]), of_nat (length (xs @ [x])))"
  using variance_add_exact [OF assms, of x] by (simp add: variance_add_def statistics_def mean_add_def Let_def)

text \<open>
  C37. In exact arithmetic the one-pass recurrence of the variance aggregator yields, for every sequence of
  fewer than $2^{64}$ values, their number, their mean and the sum of the squared differences from the
  mean, whatever the split into two parts that are combined.
\<close>

theorem variance_one_pass:
  assumes "length xs + length ys < 2 ^ 64"
  shows "fold (variance_add exact_arith) xs (0, 0, 0) = statistics xs
    \<and> variance_combine exact_arith (fold (variance_add exact_arith) xs (0, 0, 0))
        (fold (variance_add exact_arith) ys (0, 0, 0)) = statistics (xs @ ys)"
proof -
  have fold: "fold (variance_add exact_arith) zs (0, 0, 0) = statistics zs" if "length zs < 2 ^ 64" for zs
    using that
  proof (induction zs rule: rev_induct)
    case (snoc z zs)
    then show ?case by (simp add: variance_add_exact)
  qed (simp add: statistics_def mean_of_def squared_differences_def)
  with assms variance_combine_exact [OF assms] show ?thesis by simp
qed

theorem variance_one_pass_witness:
  "fold (variance_add exact_arith) [1, 3] (0, 0, 0) = statistics [1, 3]
    \<and> variance_combine exact_arith (fold (variance_add exact_arith) [1, 3] (0, 0, 0))
        (fold (variance_add exact_arith) [5] (0, 0, 0)) = statistics ([1, 3] @ [5])"
  by (rule variance_one_pass) simp

text \<open>
  In exact arithmetic the average aggregator yields the mean of the values, whatever the split into two
  parts that are combined.
\<close>

theorem average_one_pass:
  assumes "length xs + length ys < 2 ^ 64"
  shows "mean_combine exact_arith (fold (mean_add exact_arith) xs (0, 0)) (fold (mean_add exact_arith) ys (0, 0))
    = (mean_of (xs @ ys), of_nat (length (xs @ ys)))"
proof -
  have fold: "fold (mean_add exact_arith) zs (0, 0) = (mean_of zs, of_nat (length zs))" if "length zs < 2 ^ 64" for zs
    using that
  proof (induction zs rule: rev_induct)
    case (snoc z zs)
    then show ?case by (simp add: mean_add_exact)
  qed (simp add: mean_of_def)
  with assms mean_exact [OF assms] show ?thesis by simp
qed

theorem average_one_pass_witness:
  "mean_combine exact_arith (fold (mean_add exact_arith) [1, 3] (0, 0)) (fold (mean_add exact_arith) [5] (0, 0))
    = (mean_of ([1, 3] @ [5]), of_nat (length ([1, 3] @ [5 :: real])))"
  using average_one_pass [of "[1, 3]" "[5]"] by simp

end
