(* ===== verification/Aggregator_Laws.thy ===== *)
theory Aggregator_Laws
  imports Aggregators "HOL-Library.Product_Lexorder"
begin

text \<open>
  What the group-by container relies on when it combines partial aggregates: the locale \<open>aggregator\<close>.
  The rows of a group are added to several instances, a part of the rows each, and the instances are
  combined in the order of the parts; the result has to be that of one instance with all the rows.
\<close>

section \<open>The contract of an aggregator\<close>

locale aggregator =
  fixes init :: 's
    and add :: "'x \<Rightarrow> 's \<Rightarrow> 's option"
    and comb :: "'s \<Rightarrow> 's \<Rightarrow> 's option"
    and valid :: "'x \<Rightarrow> bool"
    and filled :: "'s \<Rightarrow> bool"
  assumes init_add: "valid x \<Longrightarrow> \<exists>s. add x init = Some s \<and> filled s"
    and filled_add: "valid x \<Longrightarrow> filled s \<Longrightarrow> \<exists>s'. add x s = Some s' \<and> filled s'"
    and comb_one: "valid x \<Longrightarrow> filled s \<Longrightarrow> add x init = Some b \<Longrightarrow> comb s b = add x s"
    and comb_add: "valid x \<Longrightarrow> filled s \<Longrightarrow> filled b \<Longrightarrow> add x b = Some b' \<Longrightarrow>
      comb s b' = Option.bind (comb s b) (add x)"
begin

fun add_all :: "'x list \<Rightarrow> 's \<Rightarrow> 's option" where
  "add_all [] s = Some s"
| "add_all (x # xs) s = Option.bind (add x s) (add_all xs)"

definition aggregate :: "'x list \<Rightarrow> 's option" where
  "aggregate xs = add_all xs init"

lemma add_all_append: "add_all (xs @ ys) s = Option.bind (add_all xs s) (add_all ys)"
  by (induction xs arbitrary: s) (auto split: bind_splits)

lemma filled_add_all:
  "list_all valid xs \<Longrightarrow> filled s \<Longrightarrow> \<exists>s'. add_all xs s = Some s' \<and> filled s'"
  by (induction xs arbitrary: s) (auto dest: filled_add)

lemma aggregate_filled:
  assumes "list_all valid xs" and "xs \<noteq> []"
  obtains s where "aggregate xs = Some s" and "filled s"
proof -
  obtain x ys where xs: "xs = x # ys" using assms(2) by (cases xs) auto
  obtain s where s: "add x init = Some s" "filled s" using assms(1) init_add xs by auto
  then obtain s' where "add_all ys s = Some s'" "filled s'" using filled_add_all assms(1) xs by auto
  with s xs show thesis by (intro that [of s']) (auto simp: aggregate_def)
qed

lemma comb_aggregate:
  "list_all valid ys \<Longrightarrow> ys \<noteq> [] \<Longrightarrow> filled s \<Longrightarrow> aggregate ys = Some b \<Longrightarrow> comb s b = add_all ys s"
proof (induction ys arbitrary: b rule: rev_induct)
  case (snoc y ys)
  show ?case
  proof (cases "ys = []")
    case True
    with snoc.prems show ?thesis by (auto simp: aggregate_def comb_one split: bind_splits)
  next
    case False
    then obtain c where c: "aggregate ys = Some c" "filled c"
      using aggregate_filled snoc.prems(1) by (metis list_all_append)
    then have "add y c = Some b" using snoc.prems(4) by (auto simp: aggregate_def add_all_append split: bind_splits)
    then have "comb s b = Option.bind (comb s c) (add y)" using comb_add c(2) snoc.prems by simp
    moreover have "comb s c = add_all ys s" using snoc.IH snoc.prems False c(1) by simp
    ultimately show ?thesis by (auto simp: add_all_append split: bind_splits)
  qed
qed simp

text \<open>The parts, each in an instance of its own, are combined from the left.\<close>

fun comb_all :: "'s list \<Rightarrow> 's \<Rightarrow> 's option" where
  "comb_all [] s = Some s"
| "comb_all (b # bs) s = Option.bind (comb s b) (comb_all bs)"

lemma comb_all_parts:
  "list_all (\<lambda>ys. ys \<noteq> [] \<and> list_all valid ys) parts \<Longrightarrow> filled s \<Longrightarrow>
   list_all2 (\<lambda>ys b. aggregate ys = Some b) parts bs \<Longrightarrow> comb_all bs s = add_all (concat parts) s"
proof (induction bs arbitrary: parts s)
  case (Cons b bs)
  then obtain ys parts' where parts: "parts = ys # parts'" "aggregate ys = Some b"
    "list_all2 (\<lambda>ys b. aggregate ys = Some b) parts' bs"
    by (auto simp: list_all2_Cons2)
  have comb: "comb s b = add_all ys s" using comb_aggregate parts Cons.prems by simp
  obtain s' where s': "add_all ys s = Some s'" "filled s'" using filled_add_all parts Cons.prems by force
  then have "comb_all bs s' = add_all (concat parts') s'" using Cons.IH parts Cons.prems by simp
  with s' comb parts show ?case by (simp add: add_all_append)
qed auto

theorem combine_partition:
  assumes "list_all (\<lambda>ys. ys \<noteq> [] \<and> list_all valid ys) (xs # parts)"
    and "aggregate xs = Some s"
    and "list_all2 (\<lambda>ys b. aggregate ys = Some b) parts bs"
  shows "comb_all bs s = aggregate (xs @ concat parts)"
proof -
  have "filled s" using aggregate_filled [of xs] assms(1,2) by auto
  then have "comb_all bs s = add_all (concat parts) s" using comb_all_parts assms by simp
  then show ?thesis using assms(2) by (simp add: aggregate_def add_all_append)
qed

end

section \<open>The values that have an order\<close>

definition orderable :: "flex_type_enum \<Rightarrow> flexible_type \<Rightarrow> bool" where
  "orderable k x \<longleftrightarrow> get_type x = k \<and> k \<in> {INTEGER, FLOAT, DATETIME} \<and> (\<forall>d. x = Flex_float d \<longrightarrow> \<not> dbl_isnan d)"

fun flex_rank :: "flexible_type \<Rightarrow> int \<times> int" where
  "flex_rank (Flex_int n) = (sint n, 0)"
| "flex_rank (Flex_float d) = (dbl_order d, 0)"
| "flex_rank (Flex_date_time d) = (sint (posix_timestamp d), microsecond d)"
| "flex_rank _ = (0, 0)"

lemma lt_rank: "orderable k x \<Longrightarrow> orderable k y \<Longrightarrow> lt_operator F x y = Some (flex_rank x < flex_rank y)"
  by (cases x; cases y)
    (auto simp: orderable_def lt_operator.simps scalar_lt_def dbl_less_def date_time_less_def
      dest: signed_word_eqI)

lemma gt_rank: "orderable k x \<Longrightarrow> orderable k y \<Longrightarrow> gt_operator F x y = Some (flex_rank y < flex_rank x)"
  using converse_everywhere [of F x y] by (simp add: converse_at_def lt_rank)

lemma orderable_present [simp]: "orderable k x \<Longrightarrow> \<not> is_missing x"
  by (auto simp: orderable_def)

section \<open>The aggregators that combine\<close>

text \<open>The container feeds one value by \<open>add_element_simple\<close> and several by \<open>add_element\<close>.\<close>

fun feed :: "flex_env \<Rightarrow> flexible_type list \<Rightarrow> group_aggregate_value \<Rightarrow> group_aggregate_value option" where
  "feed E [x] a = add_element_simple E x a"
| "feed E xs a = add_element E xs a"

definition exact_type :: "flexible_type \<Rightarrow> bool" where
  "exact_type x \<longleftrightarrow> get_type x \<in> {INTEGER, STRING, UNDEFINED}"

text \<open>
  The inputs for which a partial aggregate can be combined exactly: \<open>k\<close> is the type of the first input
  column. Sums and means of doubles are left out, since their rounding depends on the grouping.
\<close>

fun valid_input :: "flex_type_enum \<Rightarrow> group_aggregate_value \<Rightarrow> flexible_type list \<Rightarrow> bool" where
  "valid_input k (Agg_sum v) xs =
     (get_type v = INTEGER \<and> (\<exists>x. xs = [x] \<and> get_type x \<in> {INTEGER, UNDEFINED}))"
| "valid_input k (Agg_min _ _) xs = (\<exists>x. xs = [x] \<and> (is_missing x \<or> orderable k x))"
| "valid_input k (Agg_max _ _) xs = (\<exists>x. xs = [x] \<and> (is_missing x \<or> orderable k x))"
| "valid_input k (Agg_argmin _ _) xs = (\<exists>x y. xs = [x, y] \<and> (is_missing x \<or> orderable k x))"
| "valid_input k (Agg_argmax _ _) xs = (\<exists>x y. xs = [x, y] \<and> (is_missing x \<or> orderable k x))"
| "valid_input k (Agg_count _) xs = (\<exists>x. xs = [x])"
| "valid_input k (Agg_non_null_count _) xs = (\<exists>x. xs = [x])"
| "valid_input k (Agg_zip_list _ _ is_float) xs = (\<exists>x. xs = [x] \<and> (is_float \<longrightarrow> get_type x \<in> {FLOAT, UNDEFINED}))"
| "valid_input k (Agg_select_one _ _) xs = (\<exists>x. xs = [x])"
| "valid_input k (Agg_count_distinct _) xs = (\<exists>x. xs = [x] \<and> exact_type x)"
| "valid_input k (Agg_distinct _) xs = (\<exists>x. xs = [x] \<and> exact_type x)"
| "valid_input k _ xs = False"

text \<open>The states that an instance has after one or more such inputs.\<close>

fun filled_state :: "flex_type_enum \<Rightarrow> group_aggregate_value \<Rightarrow> group_aggregate_value \<Rightarrow> bool" where
  "filled_state k (Agg_sum _) a = (\<exists>n. a = Agg_sum (Flex_int n))"
| "filled_state k (Agg_min _ _) a = (\<exists>v i. a = Agg_min v i \<and> (i \<longrightarrow> orderable k v))"
| "filled_state k (Agg_max _ _) a = (\<exists>v i. a = Agg_max v i \<and> (i \<longrightarrow> orderable k v))"
| "filled_state k (Agg_argmin _ _) a = (\<exists>vs i. a = Agg_argmin vs i \<and> (i \<longrightarrow> (\<exists>x y. vs = [x, y] \<and> orderable k x)))"
| "filled_state k (Agg_argmax _ _) a = (\<exists>vs i. a = Agg_argmax vs i \<and> (i \<longrightarrow> (\<exists>x y. vs = [x, y] \<and> orderable k x)))"
| "filled_state k (Agg_count _) a = (\<exists>n. a = Agg_count n)"
| "filled_state k (Agg_non_null_count _) a = (\<exists>n. a = Agg_non_null_count n)"
| "filled_state k (Agg_zip_list _ _ f) a = (\<exists>v missing. a = Agg_zip_list v missing f)"
| "filled_state k (Agg_select_one _ _) a = (\<exists>v. a = Agg_select_one v True)"
| "filled_state k (Agg_count_distinct _) a = (\<exists>vs. a = Agg_count_distinct vs \<and> list_all exact_type vs)"
| "filled_state k (Agg_distinct _) a = (\<exists>vs. a = Agg_distinct vs \<and> list_all exact_type vs)"
| "filled_state k _ a = False"

definition combines :: "flex_env \<Rightarrow> flex_type_enum \<Rightarrow> group_aggregate_value \<Rightarrow> bool" where
  "combines E k p \<longleftrightarrow> aggregator (new_instance p) (feed E) (combine E) (valid_input k p) (filled_state k p)"

lemma type_integer: "get_type x = INTEGER \<longleftrightarrow> (\<exists>n. x = Flex_int n)"
  by (cases x) auto

lemma type_undefined: "is_missing x \<longleftrightarrow> x = Flex_undefined"
  by (cases x) auto

lemma plus_integers [simp]: "plus_equal_operator F (Flex_int m) (Flex_int n) = Some (Flex_int (m + n))"
  by (simp add: plus_equal_operator_def)

lemma same_exact: "exact_type x \<Longrightarrow> exact_type y \<Longrightarrow> same_element E x y \<longleftrightarrow> x = y"
  by (cases x; cases y)
    (auto simp: exact_type_def same_element_def approx_equality_operator.simps scalar_equal_def)

lemma set_insert_exact:
  "exact_type x \<Longrightarrow> list_all exact_type xs \<Longrightarrow> set_insert E x xs = (if x \<in> set xs then xs else xs @ [x])"
  by (induction xs) (auto simp: set_insert_def same_exact list_all_iff list_ex_iff)

lemma fold_set_insert:
  "list_all exact_type ws \<Longrightarrow> list_all exact_type vs \<Longrightarrow>
   list_all exact_type (fold (set_insert E) ws vs) \<and> set (fold (set_insert E) ws vs) = set vs \<union> set ws"
  by (induction ws arbitrary: vs) (auto simp: set_insert_exact)

lemma count_combines: "combines E k (Agg_count n)"
  unfolding combines_def by unfold_locales (auto simp: combine_def)

lemma non_null_count_combines: "combines E k (Agg_non_null_count n)"
  unfolding combines_def by unfold_locales (auto simp: combine_def)

lemma zip_list_combines: "combines E k (Agg_zip_list v m f)"
  unfolding combines_def by unfold_locales (auto simp: combine_def)

lemma select_one_combines: "combines E k (Agg_select_one v h)"
  unfolding combines_def by unfold_locales (auto simp: combine_def)

lemma sum_combines: "combines E k (Agg_sum v)"
  unfolding combines_def
  by unfold_locales (auto simp: combine_def type_integer type_undefined algebra_simps)

lemma min_combines: "combines E k (Agg_min v i)"
  unfolding combines_def
  by unfold_locales (auto simp: combine_def gt_rank split: if_splits)

lemma max_combines: "combines E k (Agg_max v i)"
  unfolding combines_def
  by unfold_locales (auto simp: combine_def lt_rank split: if_splits)

lemma argmin_combines: "combines E k (Agg_argmin vs i)"
  unfolding combines_def
  by unfold_locales (auto simp: combine_def gt_rank split: if_splits)

lemma argmax_combines: "combines E k (Agg_argmax vs i)"
  unfolding combines_def
  by unfold_locales (auto simp: combine_def lt_rank split: if_splits)

lemma count_distinct_combines: "combines E k (Agg_count_distinct vs)"
  unfolding combines_def
  by unfold_locales (auto simp: combine_def set_insert_exact fold_set_insert split: if_splits)

lemma distinct_combines: "combines E k (Agg_distinct vs)"
  unfolding combines_def
  by unfold_locales (auto simp: combine_def set_insert_exact fold_set_insert split: if_splits)

lemmas class_combines =
  count_combines non_null_count_combines zip_list_combines select_one_combines sum_combines min_combines
  max_combines argmin_combines argmax_combines count_distinct_combines distinct_combines

lemma all_combine: "combines E k p"
  by (cases p) (simp_all add: class_combines, simp_all add: combines_def, (unfold_locales; simp)+)

interpretation agg: aggregator "new_instance p" "feed E" "combine E" "valid_input k p" "filled_state k p"
  for E k p
  using all_combine by (simp add: combines_def)

text \<open>The functions that the locale defines, as functions of this development.\<close>

fun feed_all :: "flex_env \<Rightarrow> flexible_type list list \<Rightarrow> group_aggregate_value \<Rightarrow> group_aggregate_value option" where
  "feed_all E [] a = Some a"
| "feed_all E (xs # xss) a = Option.bind (feed E xs a) (feed_all E xss)"

fun combine_all :: "flex_env \<Rightarrow> group_aggregate_value list \<Rightarrow> group_aggregate_value \<Rightarrow> group_aggregate_value option" where
  "combine_all E [] a = Some a"
| "combine_all E (b # bs) a = Option.bind (combine E a b) (combine_all E bs)"

lemma feed_all_locale: "agg.add_all E xss a = feed_all E xss a"
  by (induction xss arbitrary: a) (auto simp: agg.add_all.simps split: bind_splits)

end
