(* ===== verification/Aggregate_Results.thy ===== *)
theory Aggregate_Results
  imports Aggregator_Laws
begin

text \<open>
  What the aggregators of the group-by compute: combining partial aggregates, the reference results, and
  the aggregators whose result depends on how a group was split.
\<close>

section \<open>Combining partial aggregates\<close>



section \<open>What the aggregates are\<close>

text \<open>The first of the values of least rank.\<close>

definition first_least :: "('a \<Rightarrow> 'r::linorder) \<Rightarrow> 'a list \<Rightarrow> 'a" where
  "first_least r xs = hd (filter (\<lambda>x. list_all (\<lambda>y. r x \<le> r y) xs) xs)"

definition least_split :: "('a \<Rightarrow> 'r::linorder) \<Rightarrow> 'a list \<Rightarrow> 'a \<Rightarrow> bool" where
  "least_split r xs m \<longleftrightarrow>
     (\<exists>as bs. xs = as @ m # bs \<and> (\<forall>x\<in>set as. r m < r x) \<and> (\<forall>x\<in>set bs. r m \<le> r x))"

lemma first_least_split: "least_split r xs m \<Longrightarrow> first_least r xs = m"
proof -
  assume "least_split r xs m"
  then obtain as bs where xs: "xs = as @ m # bs" "\<forall>x\<in>set as. r m < r x" "\<forall>x\<in>set bs. r m \<le> r x"
    by (auto simp: least_split_def)
  then have "filter (\<lambda>x. list_all (\<lambda>y. r x \<le> r y) xs) as = []" by (fastforce simp: filter_empty_conv)
  moreover have "list_all (\<lambda>y. r m \<le> r y) xs" using xs by (auto simp: list_all_iff)
  ultimately show ?thesis unfolding first_least_def by (subst (2) xs(1)) simp
qed

lemma least_split_single [simp]: "least_split r [x] x"
  unfolding least_split_def by (rule exI [of _ "[]"]) simp

lemma least_split_less: "least_split r xs m \<Longrightarrow> r z < r m \<Longrightarrow> least_split r (xs @ [z]) z"
proof -
  assume split: "least_split r xs m" and less: "r z < r m"
  have "r z < r x" if "x \<in> set xs" for x
    using split less that by (force simp: least_split_def)
  then show ?thesis unfolding least_split_def by (intro exI [of _ xs] exI [of _ "[]"]) simp
qed

lemma least_split_keep: "least_split r xs m \<Longrightarrow> \<not> r z < r m \<Longrightarrow> least_split r (xs @ [z]) m"
proof -
  assume "least_split r xs m" and keep: "\<not> r z < r m"
  then obtain as bs where "xs = as @ m # bs" "\<forall>x\<in>set as. r m < r x" "\<forall>x\<in>set bs. r m \<le> r x"
    by (auto simp: least_split_def)
  with keep show ?thesis unfolding least_split_def by (intro exI [of _ as] exI [of _ "bs @ [z]"]) auto
qed

lemmas least_splits = least_split_less least_split_keep

definition high_rank :: "flexible_type \<Rightarrow> int \<times> int" where
  "high_rank x = (case flex_rank x of (a, b) \<Rightarrow> (- a, - b))"

lemma high_rank_less [simp]: "high_rank x < high_rank y \<longleftrightarrow> flex_rank y < flex_rank x"
  by (cases "flex_rank x"; cases "flex_rank y") (auto simp: high_rank_def)

definition present :: "flexible_type list list \<Rightarrow> flexible_type list list" where
  "present xss = filter (\<lambda>xs. \<not> is_missing (hd xs)) xss"

lemma present_Nil [simp]: "present [] = []"
  by (simp add: present_def)

lemma present_snoc: "present (xss @ [xs]) = (if is_missing (hd xs) then present xss else present xss @ [xs])"
  by (simp add: present_def)

fun int_of :: "flexible_type \<Rightarrow> u64" where
  "int_of (Flex_int n) = n"
| "int_of _ = 0"

text \<open>The reference: what the documentation of each aggregator says of a column.\<close>

fun reference_result :: "flex_env \<Rightarrow> group_aggregate_value \<Rightarrow> flexible_type list list \<Rightarrow> flexible_type option" where
  "reference_result E (Agg_sum _) xss = Some (Flex_int (sum_list (map (int_of \<circ> hd) (present xss))))"
| "reference_result E (Agg_min _ _) xss =
     Some (if present xss = [] then Flex_undefined else first_least flex_rank (map hd (present xss)))"
| "reference_result E (Agg_max _ _) xss =
     Some (if present xss = [] then Flex_undefined else first_least high_rank (map hd (present xss)))"
| "reference_result E (Agg_argmin _ _) xss =
     Some (if present xss = [] then Flex_undefined else first_least (flex_rank \<circ> hd) (present xss) ! 1)"
| "reference_result E (Agg_argmax _ _) xss =
     Some (if present xss = [] then Flex_undefined else first_least (high_rank \<circ> hd) (present xss) ! 1)"
| "reference_result E (Agg_count _) xss = Some (Flex_int (of_nat (length xss)))"
| "reference_result E (Agg_non_null_count _) xss = Some (Flex_int (of_nat (length (present xss))))"
| "reference_result E (Agg_zip_list _ _ is_float) xss =
     (if is_float then map_option Flex_vec (those (map (get_float_visitor (fe_ops E) \<circ> hd) (present xss)))
      else Some (Flex_list (map hd (present xss))))"
| "reference_result E (Agg_select_one _ _) xss = Some (hd (hd xss))"
| "reference_result E (Agg_count_distinct _) xss = Some (Flex_int (of_nat (card (hd ` set xss))))"
| "reference_result E (Agg_distinct _) xss = Some (Flex_list (rev (remdups (rev (map hd xss)))))"
| "reference_result E _ xss = None"

text \<open>The state after the inputs.\<close>

fun state_after :: "group_aggregate_value \<Rightarrow> flexible_type list list \<Rightarrow> group_aggregate_value \<Rightarrow> bool" where
  "state_after (Agg_sum _) xss a = (a = Agg_sum (Flex_int (sum_list (map (int_of \<circ> hd) (present xss)))))"
| "state_after (Agg_min _ _) xss a =
     (\<exists>v i. a = Agg_min v i \<and> (i \<longleftrightarrow> present xss \<noteq> []) \<and> (i \<longrightarrow> least_split flex_rank (map hd (present xss)) v))"
| "state_after (Agg_max _ _) xss a =
     (\<exists>v i. a = Agg_max v i \<and> (i \<longleftrightarrow> present xss \<noteq> []) \<and> (i \<longrightarrow> least_split high_rank (map hd (present xss)) v))"
| "state_after (Agg_argmin _ _) xss a =
     (\<exists>v i. a = Agg_argmin v i \<and> (i \<longleftrightarrow> present xss \<noteq> []) \<and> (i \<longrightarrow> least_split (flex_rank \<circ> hd) (present xss) v)
        \<and> (\<not> i \<longrightarrow> v = []))"
| "state_after (Agg_argmax _ _) xss a =
     (\<exists>v i. a = Agg_argmax v i \<and> (i \<longleftrightarrow> present xss \<noteq> []) \<and> (i \<longrightarrow> least_split (high_rank \<circ> hd) (present xss) v)
        \<and> (\<not> i \<longrightarrow> v = []))"
| "state_after (Agg_count _) xss a = (a = Agg_count (of_nat (length xss)))"
| "state_after (Agg_non_null_count _) xss a = (a = Agg_non_null_count (of_nat (length (present xss))))"
| "state_after (Agg_zip_list _ _ is_float) xss a = (\<exists>missing. a = Agg_zip_list (map hd (present xss)) missing is_float)"
| "state_after (Agg_select_one _ _) xss a =
     (if xss = [] then \<exists>v. a = Agg_select_one v False else a = Agg_select_one (hd (hd xss)) True)"
| "state_after (Agg_count_distinct _) xss a = (a = Agg_count_distinct (rev (remdups (rev (map hd xss)))))"
| "state_after (Agg_distinct _) xss a = (a = Agg_distinct (rev (remdups (rev (map hd xss)))))"
| "state_after _ xss a = False"

lemma feed_all_append: "feed_all E (xss @ yss) a = Option.bind (feed_all E xss a) (feed_all E yss)"
  by (induction xss arbitrary: a) (auto split: bind_splits)

lemma state_after_snoc:
  assumes "valid_input k p xs" and "xss = [] \<or> filled_state k p a" and "state_after p xss a" and "feed E xs a = Some a'"
    and "list_all (valid_input k p) xss"
  shows "state_after p (xss @ [xs]) a'"
proof (cases p)
  case (Agg_sum v)
  with assms show ?thesis by (auto simp: present_snoc type_integer split: if_splits)
next
  case (Agg_min v i)
  with assms show ?thesis
    by (auto simp: present_snoc gt_rank split: if_splits)
      (erule least_splits, simp)+
next
  case (Agg_max v i)
  with assms show ?thesis
    by (auto simp: present_snoc lt_rank split: if_splits)
      (erule least_splits, simp)+
next
  case (Agg_argmin v i)
  with assms show ?thesis
    by (auto simp: present_snoc gt_rank split: if_splits)
      (erule least_splits, simp)+
next
  case (Agg_argmax v i)
  with assms show ?thesis
    by (auto simp: present_snoc lt_rank split: if_splits)
      (erule least_splits, simp)+
next
  case (Agg_count_distinct vs)
  have "list_all exact_type (rev (remdups (rev (map hd xss))))"
    using assms(5) Agg_count_distinct by (auto simp: list_all_iff)
  with Agg_count_distinct assms show ?thesis by (auto simp: set_insert_exact image_iff split: if_splits)
next
  case (Agg_distinct vs)
  have "list_all exact_type (rev (remdups (rev (map hd xss))))"
    using assms(5) Agg_distinct by (auto simp: list_all_iff)
  with Agg_distinct assms show ?thesis by (auto simp: set_insert_exact image_iff split: if_splits)
qed (use assms in \<open>auto simp: present_snoc split: if_splits\<close>)

lemma feed_all_state:
  "list_all (valid_input k p) xss \<Longrightarrow> xss \<noteq> [] \<Longrightarrow>
   \<exists>a. feed_all E xss (new_instance p) = Some a \<and> state_after p xss a \<and> filled_state k p a"
proof (induction xss rule: rev_induct)
  case (snoc xs xss)
  have valid: "valid_input k p xs" "list_all (valid_input k p) xss" using snoc.prems by auto
  obtain a where a: "feed_all E xss (new_instance p) = Some a" "state_after p xss a" "xss = [] \<or> filled_state k p a"
  proof (cases "xss = []")
    case True
    have "state_after p [] (new_instance p)" using valid(1) by (cases p) auto
    with True that show thesis by simp
  next
    case False
    with snoc that show thesis by auto
  qed
  have "\<exists>a'. feed E xs a = Some a' \<and> filled_state k p a'"
    using a agg.init_add [OF valid(1)] agg.filled_add [OF valid(1)] by auto
  then obtain a' where "feed E xs a = Some a'" "filled_state k p a'" by blast
  with a valid show ?case by (auto simp: feed_all_append dest: state_after_snoc)
qed simp

lemma aggregate_reference:
  assumes "list_all (valid_input k p) xss" and "xss \<noteq> []"
  shows "\<exists>a. feed_all E xss (new_instance p) = Some a \<and> emit E a = reference_result E p xss"
proof -
  obtain a where a: "feed_all E xss (new_instance p) = Some a" "state_after p xss a" "filled_state k p a"
    using feed_all_state [OF assms] by blast
  have "length (remdups (rev (map hd xss))) = card (hd ` set xss)"
    by (simp add: length_remdups_card_conv)
  then have "emit E a = reference_result E p xss"
    using a(2,3) assms(2) by (cases p) (auto dest: first_least_split)
  with a(1) show ?thesis by blast
qed

lemma reference_exists:
  assumes "list_all (valid_input k p) xss" and "xss \<noteq> []"
  shows "\<exists>v. reference_result E p xss = Some v"
proof (cases p)
  case (Agg_zip_list v missing is_float)
  have "\<exists>ds. those (map (get_float_visitor (fe_ops E) \<circ> hd) yss) = Some ds"
    if "list_all (\<lambda>ys. get_type (hd ys) = FLOAT) yss" for yss
    using that
  proof (induction yss)
    case (Cons ys yss)
    then show ?case by (cases "hd ys") auto
  qed simp
  from this [of "present xss"] have "is_float \<Longrightarrow> ?thesis"
    using assms Agg_zip_list by (force simp: list_all_iff present_def)
  with Agg_zip_list show ?thesis by (cases is_float) simp_all
qed (use assms in \<open>cases xss; auto\<close>)+

lemma aggregate_result_exists:
  assumes "list_all (valid_input k p) xss" and "xss \<noteq> []"
  shows "\<exists>a v. feed_all E xss (new_instance p) = Some a \<and> emit E a = Some v \<and> reference_result E p xss = Some v"
  using aggregate_reference [OF assms] reference_exists [OF assms] by fastforce



section \<open>The aggregators that do not combine\<close>

definition nan_pattern :: f64 where "nan_pattern = 0x7ff8000000000000"
definition one_pattern :: f64 where "one_pattern = 0x3ff0000000000000"
definition two_pattern :: f64 where "two_pattern = 0x4000000000000000"

text \<open>The result of the rows in one instance, and in two instances that are combined.\<close>

definition whole_result :: "flex_env \<Rightarrow> group_aggregate_value \<Rightarrow> flexible_type list list \<Rightarrow> flexible_type option" where
  "whole_result E p xss = Option.bind (feed_all E xss (new_instance p)) (emit E)"

definition split_result :: "flex_env \<Rightarrow> group_aggregate_value \<Rightarrow> flexible_type list list \<Rightarrow>
    flexible_type list list \<Rightarrow> flexible_type option" where
  "split_result E p xss yss = do {
     a \<leftarrow> feed_all E xss (new_instance p);
     b \<leftarrow> feed_all E yss (new_instance p);
     c \<leftarrow> combine E a b;
     emit E c
   }"

lemmas aggregate_eval = whole_result_def split_result_def combine_def

lemma frequency_count_loses_counts:
  "whole_result E (Agg_frequency_count []) [[Flex_int 5], [Flex_int 5]] = Some (Flex_dict [(Flex_int 5, Flex_int 2)])
   \<and> split_result E (Agg_frequency_count []) [[Flex_int 5]] [[Flex_int 5]] = Some (Flex_dict [(Flex_int 5, Flex_int 1)])"
  by (simp add: aggregate_eval counts_insert_pair_def same_element_def approx_equality_operator.simps scalar_equal_def)

lemma vector_failure_ignored:
  "whole_result E (Agg_vector_sum (Flex_vec []) False False)
     [[Flex_vec [one_pattern]], [Flex_vec [one_pattern]], [Flex_vec []]] = Some Flex_undefined
   \<and> split_result E (Agg_vector_sum (Flex_vec []) False False)
     [[Flex_vec [one_pattern]]] [[Flex_vec [one_pattern]], [Flex_vec []]] = Some (Flex_vec [one_pattern])"
  by (simp add: aggregate_eval plus_equal_operator_def vec_op_def)

lemma zip_dict_drops_pairs:
  "whole_result E (Agg_zip_dict [] False) [[Flex_undefined, Flex_int 1], [Flex_int 1, Flex_int 2]]
     = Some (Flex_dict [(Flex_int 1, Flex_int 2)])
   \<and> split_result E (Agg_zip_dict [] False) [[Flex_undefined, Flex_int 1]] [[Flex_int 1, Flex_int 2]]
     = Some (Flex_dict [])"
  by (simp add: aggregate_eval)

lemma min_nan_depends_on_split:
  "whole_result E (Agg_min (Flex_float 0) False) [[Flex_float two_pattern], [Flex_float nan_pattern], [Flex_float one_pattern]]
     = Some (Flex_float one_pattern)
   \<and> split_result E (Agg_min (Flex_float 0) False) [[Flex_float two_pattern]] [[Flex_float nan_pattern], [Flex_float one_pattern]]
     = Some (Flex_float two_pattern)"
  by (simp add: aggregate_eval gt_operator.simps scalar_gt_def dbl_less_def dbl_isnan_def dbl_order_def
      dbl_exponent_def dbl_fraction_def nan_pattern_def one_pattern_def two_pattern_def)

text \<open>
  C36. Splitting a group changes the result of other aggregators. The frequency counts are wrong: a value
  counted in both parts keeps the count of the first, since \<open>combine\<close> inserts the pairs of the other map
  and insertion keeps the pair that is there. A vector sum over vectors of different lengths is missing
  when one instance sees the rows; when the instance that failed is the argument of \<open>combine\<close>, its failure
  and its rows are ignored. A dictionary over a group with a missing key keeps its other pairs when one
  instance sees the rows, and loses those of the second part otherwise. With NaN in a column the minimum
  depends on the split.
\<close>

theorem split_changes_results:
  "whole_result E (Agg_frequency_count []) [[Flex_int 5], [Flex_int 5]] = Some (Flex_dict [(Flex_int 5, Flex_int 2)])
   \<and> split_result E (Agg_frequency_count []) [[Flex_int 5]] [[Flex_int 5]] = Some (Flex_dict [(Flex_int 5, Flex_int 1)])
   \<and> whole_result E (Agg_vector_sum (Flex_vec []) False False)
       [[Flex_vec [one_pattern]], [Flex_vec [one_pattern]], [Flex_vec []]] = Some Flex_undefined
   \<and> split_result E (Agg_vector_sum (Flex_vec []) False False)
       [[Flex_vec [one_pattern]]] [[Flex_vec [one_pattern]], [Flex_vec []]] = Some (Flex_vec [one_pattern])
   \<and> whole_result E (Agg_zip_dict [] False) [[Flex_undefined, Flex_int 1], [Flex_int 1, Flex_int 2]]
       = Some (Flex_dict [(Flex_int 1, Flex_int 2)])
   \<and> split_result E (Agg_zip_dict [] False) [[Flex_undefined, Flex_int 1]] [[Flex_int 1, Flex_int 2]]
       = Some (Flex_dict [])
   \<and> whole_result E (Agg_min (Flex_float 0) False)
       [[Flex_float two_pattern], [Flex_float nan_pattern], [Flex_float one_pattern]] = Some (Flex_float one_pattern)
   \<and> split_result E (Agg_min (Flex_float 0) False)
       [[Flex_float two_pattern]] [[Flex_float nan_pattern], [Flex_float one_pattern]] = Some (Flex_float two_pattern)"
  by (intro conjI frequency_count_loses_counts [THEN conjunct1] frequency_count_loses_counts [THEN conjunct2]
      vector_failure_ignored [THEN conjunct1] vector_failure_ignored [THEN conjunct2]
      zip_dict_drops_pairs [THEN conjunct1] zip_dict_drops_pairs [THEN conjunct2]
      min_nan_depends_on_split [THEN conjunct1] min_nan_depends_on_split [THEN conjunct2])

end
