(* ===== verification/Aggregate_Types.thy ===== *)
theory Aggregate_Types
  imports Aggregate_Results
begin

text \<open>
  The types of the aggregates: an aggregator that is set to its input types accepts every value of these
  types, missing values included, can be combined, and emits a value of the type that it announced or a
  missing value.
\<close>

definition of_type :: "flex_type_enum \<Rightarrow> flexible_type \<Rightarrow> bool" where
  "of_type t x \<longleftrightarrow> get_type x = t \<or> is_missing x"

text \<open>The container feeds the integer 0 to an aggregator without input columns.\<close>

definition typed_row :: "flex_type_enum list \<Rightarrow> flexible_type list \<Rightarrow> bool" where
  "typed_row ts xs \<longleftrightarrow> (if ts = [] then xs = [Flex_int 0] else list_all2 of_type ts xs)"

definition ordered_types :: "flex_type_enum set" where
  "ordered_types = {INTEGER, FLOAT, DATETIME, STRING, VECTOR}"

fun arity :: "group_aggregate_value \<Rightarrow> nat" where
  "arity (Agg_count _) = 0"
| "arity (Agg_argmin _ _) = 2"
| "arity (Agg_argmax _ _) = 2"
| "arity (Agg_zip_dict _ _) = 2"
| "arity _ = 1"

text \<open>The columns that the group-by accepts; the keys of a dictionary have to have an order.\<close>

fun accepts :: "flex_type_enum list \<Rightarrow> group_aggregate_value \<Rightarrow> bool" where
  "accepts ts (Agg_zip_dict m missing) = (length ts = 2 \<and> hd ts \<in> ordered_types)"
| "accepts ts (Agg_argmin vs i) = (length ts = 2 \<and> support_type (hd ts) (Agg_argmin vs i))"
| "accepts ts (Agg_argmax vs i) = (length ts = 2 \<and> support_type (hd ts) (Agg_argmax vs i))"
| "accepts ts a = (length ts = arity a \<and> list_all (\<lambda>t. support_type t a) ts)"

fun typed_pair :: "flex_type_enum \<Rightarrow> flex_type_enum \<Rightarrow> bool \<Rightarrow> flexible_type list \<Rightarrow> bool" where
  "typed_pair k t i vs = (k \<in> {INTEGER, FLOAT, DATETIME}
     \<and> (if i then \<exists>x y. vs = [x, y] \<and> get_type x = k \<and> of_type t y else vs = []))"

declare typed_pair.simps [simp del]

fun typed_state :: "flex_type_enum list \<Rightarrow> flex_type_enum \<Rightarrow> group_aggregate_value \<Rightarrow> bool" where
  "typed_state ts t (Agg_vector_sum v f i) = (ts = [VECTOR] \<and> t = VECTOR \<and> get_type v = VECTOR)"
| "typed_state ts t (Agg_sum v) = (ts = [t] \<and> t \<in> {INTEGER, FLOAT} \<and> get_type v = t)"
| "typed_state ts t (Agg_min v i) = (ts = [t] \<and> t \<in> {INTEGER, FLOAT, DATETIME} \<and> get_type v = t)"
| "typed_state ts t (Agg_max v i) = (ts = [t] \<and> t \<in> {INTEGER, FLOAT, DATETIME} \<and> get_type v = t)"
| "typed_state ts t (Agg_argmin vs i) = (\<exists>k. ts = [k, t] \<and> typed_pair k t i vs)"
| "typed_state ts t (Agg_argmax vs i) = (\<exists>k. ts = [k, t] \<and> typed_pair k t i vs)"
| "typed_state ts t (Agg_count n) = (ts = [] \<and> t = INTEGER)"
| "typed_state ts t (Agg_non_null_count n) = (length ts = 1 \<and> t = INTEGER)"
| "typed_state ts t (Agg_vector_average v i f n) = (ts = [VECTOR] \<and> t = VECTOR \<and> get_type v = VECTOR)"
| "typed_state ts t (Agg_average v n) = (ts \<in> {[INTEGER], [FLOAT]} \<and> t = FLOAT)"
| "typed_state ts t (Agg_variance n m M2) = (ts \<in> {[INTEGER], [FLOAT]} \<and> t = FLOAT)"
| "typed_state ts t (Agg_stdv n m M2) = (ts \<in> {[INTEGER], [FLOAT]} \<and> t = FLOAT)"
| "typed_state ts t (Agg_zip_dict m missing) =
     (\<exists>k l. ts = [k, l] \<and> k \<in> ordered_types \<and> t = DICT \<and> list_all (\<lambda>kv. get_type (fst kv) = k) m)"
| "typed_state ts t (Agg_zip_list v missing is_float) =
     (length ts = 1 \<and> (is_float \<longleftrightarrow> hd ts = FLOAT) \<and> t = (if is_float then VECTOR else LIST)
        \<and> list_all (\<lambda>x. get_type x = hd ts) v)"
| "typed_state ts t (Agg_select_one v has_value) = (ts = [t] \<and> (has_value \<longrightarrow> of_type t v))"
| "typed_state ts t (Agg_count_distinct vs) = (length ts = 1 \<and> t = INTEGER)"
| "typed_state ts t (Agg_distinct vs) = (length ts = 1 \<and> t = LIST)"
| "typed_state ts t (Agg_frequency_count m) = (length ts = 1 \<and> t = DICT)"

lemma get_type_vector: "get_type x = VECTOR \<longleftrightarrow> (\<exists>v. x = Flex_vec v)"
  by (cases x) auto

lemma reset_type [simp]: "get_type (flex_reset t) = t"
  by (cases t) simp_all

lemma set_input_types_typed:
  "set_input_types ts (new_instance q) = Some (p, t) \<Longrightarrow> accepts ts p \<Longrightarrow> typed_state ts t (new_instance p)"
  by (cases q) (auto simp: typed_pair.simps of_type_def length_Suc_conv numeral_2_eq_2 split: list.splits if_splits)

lemma emit_typed: "typed_state ts t a \<Longrightarrow> \<exists>v. emit E a = Some v \<and> of_type t v"
proof (cases a)
  case (Agg_zip_list vs missing is_float)
  assume typed: "typed_state ts t a"
  have "\<exists>ds. those (map (get_float_visitor F) vs) = Some ds" if "list_all (\<lambda>x. get_type x = FLOAT) vs" for F
    using that
  proof (induction vs)
    case (Cons x vs)
    then show ?case by (cases x) auto
  qed simp
  from this [of "fe_ops E"] Agg_zip_list typed show ?thesis by (force simp: of_type_def)
qed (auto simp: of_type_def typed_pair.simps split: if_splits list.splits)

lemma ordered_lt: "get_type x = k \<Longrightarrow> get_type y = k \<Longrightarrow> k \<in> ordered_types \<Longrightarrow> lt_operator F x y = Some True \<or> lt_operator F x y = Some False"
  by (cases x; cases y) (auto simp: ordered_types_def lt_operator.simps scalar_lt_def)

lemma ordered_gt: "get_type x = k \<Longrightarrow> get_type y = k \<Longrightarrow> k \<in> ordered_types \<Longrightarrow> gt_operator F x y = Some True \<or> gt_operator F x y = Some False"
  using converse_everywhere [of F x y] ordered_lt [of y k x F] by (auto simp: converse_at_def)

lemma map_insert_typed:
  "list_all (\<lambda>kv. get_type (fst kv) = k) m \<Longrightarrow> get_type (fst kv) = k \<Longrightarrow> k \<in> ordered_types \<Longrightarrow>
   \<exists>m'. map_insert F kv m = Some m' \<and> list_all (\<lambda>kv. get_type (fst kv) = k) m'"
proof (induction m)
  case (Cons lw m)
  obtain b c where bc: "lt_operator F (fst kv) (fst lw) = Some b" "lt_operator F (fst lw) (fst kv) = Some c"
    using ordered_lt [of "fst kv" k "fst lw" F] ordered_lt [of "fst lw" k "fst kv" F] Cons.prems by auto
  obtain m' where "map_insert F kv m = Some m'" "list_all (\<lambda>kv. get_type (fst kv) = k) m'"
    using Cons by auto
  with bc Cons.prems show ?case by (cases b; cases c) simp_all
qed simp

lemma map_insert_all_typed:
  "list_all (\<lambda>kv. get_type (fst kv) = k) m \<Longrightarrow> list_all (\<lambda>kv. get_type (fst kv) = k) w \<Longrightarrow> k \<in> ordered_types \<Longrightarrow>
   \<exists>m'. map_insert_all F w m = Some m' \<and> list_all (\<lambda>kv. get_type (fst kv) = k) m'"
proof (induction w arbitrary: m)
  case (Cons kv w)
  then obtain m' where "map_insert F kv m = Some m'" "list_all (\<lambda>kv. get_type (fst kv) = k) m'"
    using map_insert_typed [of k m kv F] by auto
  with Cons.IH [of m'] Cons.prems show ?case by simp
qed simp

lemma float_of_number: "get_type x \<in> {INTEGER, FLOAT} \<Longrightarrow> \<exists>d. get_float_visitor F x = Some d"
  by (cases x) auto

lemma plus_typed:
  "get_type v = t \<Longrightarrow> get_type x = t \<Longrightarrow> t \<in> {INTEGER, FLOAT} \<Longrightarrow>
   \<exists>w. plus_equal_operator F v x = Some w \<and> get_type w = t"
  by (cases v; cases x) (auto simp: plus_equal_operator_def)

lemma vector_ops_typed:
  assumes "length v = length w"
  shows "\<exists>u. plus_equal_operator F (Flex_vec v) (Flex_vec w) = Some (Flex_vec u)"
    and "\<exists>u. vector_average_add F (Flex_vec v) (Flex_vec w) n = Some (Flex_vec u)"
    and "\<exists>u. vector_average_combine F (Flex_vec v) n (Flex_vec w) k = Some (Flex_vec u)"
  using assms
  by (simp_all add: plus_equal_operator_def vec_op_def vector_average_add_def vector_average_combine_def
      minus_equal_operator_def divide_equal_operator_def multiply_equal_operator_def)

lemmas total_ops = vector_ops_typed float_of_number

definition yields :: "('a \<Rightarrow> bool) \<Rightarrow> 'a option \<Rightarrow> bool" where
  "yields P r \<longleftrightarrow> (\<exists>a. r = Some a \<and> P a)"

lemma yields_simps [simp]:
  "yields P (Some a) = P a" "\<not> yields P None" "yields P (map_option f r) = yields (\<lambda>x. P (f x)) r"
  by (auto simp: yields_def)

lemma feed_typed:
  assumes "typed_state ts t a" and "typed_row ts xs"
  shows "yields (\<lambda>a'. typed_state ts t a' \<and> new_instance a' = new_instance a) (feed E xs a)"
proof (cases a)
  case (Agg_vector_sum v f i)
  then obtain x w where x: "xs = [x]" "of_type VECTOR x" "v = Flex_vec w" "ts = [VECTOR]" "t = VECTOR"
    using assms by (auto simp: typed_row_def list_all2_Cons1 get_type_vector)
  then consider "is_missing x" | y where "x = Flex_vec y"
    by (auto simp: of_type_def get_type_vector)
  then show ?thesis
  proof cases
    case (2 y)
    with x Agg_vector_sum show ?thesis
      using vector_ops_typed(1) [of w y "fe_ops E"] by (cases "length y = length w") auto
  qed (use x Agg_vector_sum in auto)
next
  case (Agg_vector_average v i f n)
  then obtain x w where x: "xs = [x]" "of_type VECTOR x" "v = Flex_vec w" "ts = [VECTOR]" "t = VECTOR"
    using assms by (auto simp: typed_row_def list_all2_Cons1 get_type_vector)
  then consider "is_missing x" | y where "x = Flex_vec y"
    by (auto simp: of_type_def get_type_vector)
  then show ?thesis
  proof cases
    case (2 y)
    with x Agg_vector_average show ?thesis
      using vector_ops_typed(2) [of y w "fe_ops E" "n + 1"] by (cases "length y = length w") auto
  qed (use x Agg_vector_average in auto)
next
  case (Agg_sum v)
  with assms show ?thesis
    using plus_typed [of v t "hd xs" "fe_ops E"] by (auto simp: typed_row_def list_all2_Cons1 of_type_def)
next
  case (Agg_min v i)
  with assms show ?thesis
    using ordered_gt [of v t "hd xs" "fe_ops E"]
    by (auto simp: typed_row_def list_all2_Cons1 of_type_def ordered_types_def)
next
  case (Agg_max v i)
  with assms show ?thesis
    using ordered_lt [of v t "hd xs" "fe_ops E"]
    by (auto simp: typed_row_def list_all2_Cons1 of_type_def ordered_types_def)
next
  case (Agg_argmin vs i)
  with assms show ?thesis
    using ordered_gt [of "hd vs" "hd ts" "hd xs" "fe_ops E"]
    by (auto simp: typed_row_def list_all2_Cons1 of_type_def ordered_types_def typed_pair.simps split: if_splits)
next
  case (Agg_argmax vs i)
  with assms show ?thesis
    using ordered_lt [of "hd vs" "hd ts" "hd xs" "fe_ops E"]
    by (auto simp: typed_row_def list_all2_Cons1 of_type_def ordered_types_def typed_pair.simps split: if_splits)
next
  case (Agg_zip_dict m missing)
  with assms show ?thesis
    using map_insert_typed [of "hd ts" m "(hd xs, hd (tl xs))" "fe_ops E"]
    by (auto simp: typed_row_def list_all2_Cons1 of_type_def)
qed (use assms float_of_number [of "hd xs" "fe_ops E"] in
     \<open>auto simp: typed_row_def list_all2_Cons1 of_type_def length_Suc_conv split: prod.splits\<close>)

lemma combine_same_class:
  "combine E (Agg_count n) (Agg_count k) = Some (Agg_count (n + k))"
  "combine E (Agg_non_null_count n) (Agg_non_null_count k) = Some (Agg_non_null_count (n + k))"
  "combine E (Agg_average v n) (Agg_average w k) =
     (case mean_combine (fe_ops E) (v, n) (w, k) of (v, n) \<Rightarrow> Some (Agg_average v n))"
  "combine E (Agg_variance n m M2) (Agg_variance k m' M2') =
     (case variance_combine (fe_ops E) (n, m, M2) (k, m', M2') of (n, m, M2) \<Rightarrow> Some (Agg_variance n m M2))"
  "combine E (Agg_stdv n m M2) (Agg_stdv k m' M2') =
     (case variance_combine (fe_ops E) (n, m, M2) (k, m', M2') of (n, m, M2) \<Rightarrow> Some (Agg_stdv n m M2))"
  "combine E (Agg_zip_list vs missing f) (Agg_zip_list ws missing' g) =
     Some (Agg_zip_list (vs @ ws) (missing \<or> missing') f)"
  "combine E (Agg_select_one x h) b = Some (Agg_select_one x h)"
  "combine E (Agg_count_distinct vs) (Agg_count_distinct ws) = Some (Agg_count_distinct (fold (set_insert E) ws vs))"
  "combine E (Agg_distinct vs) (Agg_distinct ws) = Some (Agg_distinct (fold (set_insert E) ws vs))"
  "combine E (Agg_frequency_count ps) (Agg_frequency_count qs) =
     Some (Agg_frequency_count (fold (counts_insert_pair E) qs ps))"
  by (simp_all add: combine_def)

lemma combine_typed:
  assumes "typed_state ts t a" and "typed_state ts t b" and "new_instance a = new_instance b"
  shows "yields (typed_state ts t) (combine E a b)"
proof (cases a)
  case (Agg_vector_sum v f i)
  obtain w g j where b: "b = Agg_vector_sum w g j" using assms(3) Agg_vector_sum by (cases b) simp_all
  then obtain x y where "v = Flex_vec x" "w = Flex_vec y"
    using assms(1,2) Agg_vector_sum by (auto simp: get_type_vector)
  with b Agg_vector_sum assms show ?thesis
    using vector_ops_typed(1) [of x y "fe_ops E"] by (cases "length x = length y") (auto simp: combine_def)
next
  case (Agg_vector_average v i f n)
  obtain w g j m where b: "b = Agg_vector_average w j g m" using assms(3) Agg_vector_average by (cases b) simp_all
  then obtain x y where "v = Flex_vec x" "w = Flex_vec y"
    using assms(1,2) Agg_vector_average by (auto simp: get_type_vector)
  with b Agg_vector_average assms show ?thesis
    using vector_ops_typed(3) [of x y "fe_ops E" n m] by (cases "length x = length y") (auto simp: combine_def)
next
  case (Agg_sum v)
  obtain w where "b = Agg_sum w" using assms(3) Agg_sum by (cases b) simp_all
  with Agg_sum assms show ?thesis using plus_typed [of v t w "fe_ops E"] by (auto simp: combine_def)
next
  case (Agg_min v i)
  obtain w j where "b = Agg_min w j" using assms(3) Agg_min by (cases b) simp_all
  with Agg_min assms show ?thesis
    using ordered_gt [of v t w "fe_ops E"] by (auto simp: combine_def ordered_types_def)
next
  case (Agg_max v i)
  obtain w j where "b = Agg_max w j" using assms(3) Agg_max by (cases b) simp_all
  with Agg_max assms show ?thesis
    using ordered_lt [of v t w "fe_ops E"] by (auto simp: combine_def ordered_types_def)
next
  case (Agg_argmin v i)
  obtain w j where "b = Agg_argmin w j" using assms(3) Agg_argmin by (cases b) simp_all
  with Agg_argmin assms show ?thesis
    using ordered_gt [of "hd v" "hd ts" "hd w" "fe_ops E"]
    by (auto simp: combine_def ordered_types_def typed_pair.simps split: if_splits)
next
  case (Agg_argmax v i)
  obtain w j where "b = Agg_argmax w j" using assms(3) Agg_argmax by (cases b) simp_all
  with Agg_argmax assms show ?thesis
    using ordered_lt [of "hd v" "hd ts" "hd w" "fe_ops E"]
    by (auto simp: combine_def ordered_types_def typed_pair.simps split: if_splits)
next
  case (Agg_zip_dict m missing)
  obtain w j where "b = Agg_zip_dict w j" using assms(3) Agg_zip_dict by (cases b) simp_all
  with Agg_zip_dict assms show ?thesis
    using map_insert_all_typed [of "hd ts" m w "fe_ops E"] by (auto simp: combine_def Let_def)
next
  case (Agg_count n)
  obtain k where "b = Agg_count k" using assms(3) Agg_count by (cases b) simp_all
  with Agg_count assms show ?thesis by (auto simp: combine_same_class split: prod.splits)
next
  case (Agg_non_null_count n)
  obtain k where "b = Agg_non_null_count k" using assms(3) Agg_non_null_count by (cases b) simp_all
  with Agg_non_null_count assms show ?thesis by (auto simp: combine_same_class split: prod.splits)
next
  case (Agg_average v n)
  obtain w k where "b = Agg_average w k" using assms(3) Agg_average by (cases b) simp_all
  with Agg_average assms show ?thesis by (auto simp: combine_same_class split: prod.splits)
next
  case (Agg_variance n m M2)
  obtain k m' M2' where "b = Agg_variance k m' M2'" using assms(3) Agg_variance by (cases b) simp_all
  with Agg_variance assms show ?thesis by (auto simp: combine_same_class split: prod.splits)
next
  case (Agg_stdv n m M2)
  obtain k m' M2' where "b = Agg_stdv k m' M2'" using assms(3) Agg_stdv by (cases b) simp_all
  with Agg_stdv assms show ?thesis by (auto simp: combine_same_class split: prod.splits)
next
  case (Agg_zip_list vs missing f)
  obtain ws missing' g where "b = Agg_zip_list ws missing' g" using assms(3) Agg_zip_list by (cases b) simp_all
  then have "combine E a b = Some (Agg_zip_list (vs @ ws) (missing \<or> missing') f)"
    using Agg_zip_list by (simp only: combine_same_class)
  moreover have "list_all (\<lambda>x. get_type x = hd ts) ws"
    using assms(2) \<open>b = Agg_zip_list ws missing' g\<close> by simp
  ultimately show ?thesis using assms(1) Agg_zip_list by simp
next
  case (Agg_count_distinct vs)
  obtain ws where "b = Agg_count_distinct ws" using assms(3) Agg_count_distinct by (cases b) simp_all
  with Agg_count_distinct assms show ?thesis by (auto simp: combine_same_class split: prod.splits)
next
  case (Agg_distinct vs)
  obtain ws where "b = Agg_distinct ws" using assms(3) Agg_distinct by (cases b) simp_all
  with Agg_distinct assms show ?thesis by (auto simp: combine_same_class split: prod.splits)
next
  case (Agg_frequency_count ps)
  obtain qs where "b = Agg_frequency_count qs" using assms(3) Agg_frequency_count by (cases b) simp_all
  with Agg_frequency_count assms show ?thesis by (auto simp: combine_same_class split: prod.splits)
qed (use assms in \<open>simp add: combine_same_class\<close>)

lemma feed_all_typed:
  "list_all (typed_row ts) xss \<Longrightarrow> typed_state ts t a \<Longrightarrow>
   yields (\<lambda>a'. typed_state ts t a' \<and> new_instance a' = new_instance a) (feed_all E xss a)"
proof (induction xss arbitrary: a)
  case (Cons xs xss)
  then obtain a' where "feed E xs a = Some a'" "typed_state ts t a'" "new_instance a' = new_instance a"
    using feed_typed [of ts t a xs E] by (auto simp: yields_def)
  with Cons.IH [of a'] Cons.prems show ?case by simp
qed simp



end
