(* ===== verification/Groupby.thy ===== *)
theory Groupby
  imports Aggregate_Results
begin

text \<open>
  The container of the group-by, \<open>sframe/groupby_aggregate_impl.cpp\<close>: the elements, which hold the key of
  a group and its partial aggregates; the segments, which collect elements in memory and write them as
  sorted chunks when there are too many; and the merge of the chunks of a segment. Calls of \<open>add\<close> run one
  after the other: the locks of the source make them atomic on the element. A chunk holds the elements
  themselves, in place of their serialized form. An exception is the value \<open>None\<close>.
\<close>

section \<open>Elements\<close>

record group_descriptor =
  gd_columns :: "nat list"
  gd_aggregator :: group_aggregate_value

record groupby_element =
  ge_key :: "flexible_type list"
  ge_values :: "group_aggregate_value list"
  ge_hash :: u64

definition hash_key :: "flex_env \<Rightarrow> flexible_type list \<Rightarrow> u64" where
  "hash_key E key = foldl (\<lambda>h x. fe_hash_combine E h (fe_hash E x)) 0 key"

definition element_init :: "flex_env \<Rightarrow> group_descriptor list \<Rightarrow> flexible_type list \<Rightarrow> groupby_element" where
  "element_init E desc key =
     \<lparr>ge_key = key, ge_values = map (\<lambda>d. new_instance (gd_aggregator d)) desc, ge_hash = hash_key E key\<rparr>"

fun flexible_type_vector_equality :: "flex_env \<Rightarrow> flexible_type list \<Rightarrow> flexible_type list \<Rightarrow> bool" where
  "flexible_type_vector_equality E [] [] = True"
| "flexible_type_vector_equality E (x # a) (y # b) =
     (if get_type x \<noteq> get_type y then False
      else if get_type x = UNDEFINED \<and> get_type y = UNDEFINED then flexible_type_vector_equality E a b
      else if \<not> approx_equality_operator (fe_ops E) (fe_dict_eq E) x y then False
      else flexible_type_vector_equality E a b)"
| "flexible_type_vector_equality E _ _ = False"

fun vector_lt_loop :: "double_ops \<Rightarrow> flexible_type list \<Rightarrow> flexible_type list \<Rightarrow> bool option" where
  "vector_lt_loop F [] b = Some False"
| "vector_lt_loop F (x # a) [] = None"
| "vector_lt_loop F (x # a) (y # b) =
     (if type_code (get_type x) < type_code (get_type y) then Some True
      else if type_code (get_type x) > type_code (get_type y) then Some False
      else if get_type x = UNDEFINED \<and> get_type y = UNDEFINED then vector_lt_loop F a b
      else do {
        less \<leftarrow> lt_operator F x y;
        if less then Some True
        else do { greater \<leftarrow> gt_operator F x y; if greater then Some False else vector_lt_loop F a b }
      })"

definition flexible_type_vector_lt :: "double_ops \<Rightarrow> flexible_type list \<Rightarrow> flexible_type list \<Rightarrow> bool option" where
  "flexible_type_vector_lt F a b = (if length a < length b then Some True else vector_lt_loop F a b)"

definition element_less :: "flex_env \<Rightarrow> groupby_element \<Rightarrow> groupby_element \<Rightarrow> bool option" where
  "element_less E e f =
     (if ge_hash e \<noteq> ge_hash f then Some (ge_hash e < ge_hash f)
      else flexible_type_vector_lt (fe_ops E) (ge_key e) (ge_key f))"

definition element_equal :: "flex_env \<Rightarrow> groupby_element \<Rightarrow> groupby_element \<Rightarrow> bool" where
  "element_equal E e f \<longleftrightarrow>
     (if ge_hash e \<noteq> ge_hash f then False else flexible_type_vector_equality E (ge_key e) (ge_key f))"

text \<open>\<open>operator+=\<close> and \<open>add_element\<close>: every value is combined with, or fed by, its counterpart.\<close>

fun combine_values :: "flex_env \<Rightarrow> group_aggregate_value list \<Rightarrow> group_aggregate_value list \<Rightarrow>
    group_aggregate_value list option" where
  "combine_values E [] _ = Some []"
| "combine_values E (a # as) [] = None"
| "combine_values E (a # as) (b # bs) = do { c \<leftarrow> combine E a b; cs \<leftarrow> combine_values E as bs; Some (c # cs) }"

definition element_plus :: "flex_env \<Rightarrow> groupby_element \<Rightarrow> groupby_element \<Rightarrow> groupby_element option" where
  "element_plus E e f =
     map_option (\<lambda>vs. e\<lparr>ge_values := vs\<rparr>) (combine_values E (ge_values e) (ge_values f))"

text \<open>Without input columns, the integer 0 is added; a column that the row does not have is missing.\<close>

definition column_values :: "group_descriptor \<Rightarrow> flexible_type list \<Rightarrow> flexible_type list" where
  "column_values d val =
     (if gd_columns d = [] then [Flex_int 0]
      else map (\<lambda>c. if c < length val then val ! c else Flex_undefined) (gd_columns d))"

fun feed_values :: "flex_env \<Rightarrow> flexible_type list \<Rightarrow> group_descriptor list \<Rightarrow> group_aggregate_value list \<Rightarrow>
    group_aggregate_value list option" where
  "feed_values E val [] _ = Some []"
| "feed_values E val (d # ds) [] = None"
| "feed_values E val (d # ds) (a # as) =
     do { b \<leftarrow> feed E (column_values d val) a; bs \<leftarrow> feed_values E val ds as; Some (b # bs) }"

definition element_add :: "flex_env \<Rightarrow> flexible_type list \<Rightarrow> group_descriptor list \<Rightarrow> groupby_element \<Rightarrow>
    groupby_element option" where
  "element_add E val desc e = map_option (\<lambda>vs. e\<lparr>ge_values := vs\<rparr>) (feed_values E val desc (ge_values e))"

section \<open>The container\<close>

record segment_information =
  elements :: "(u64 \<times> groupby_element list) list"
  written :: "groupby_element list"
  chunk_size :: "nat list"

record group_aggregate_container =
  group_descriptors :: "group_descriptor list"
  max_buffer_size :: nat
  segments :: "segment_information list"

definition container_new :: "nat \<Rightarrow> nat \<Rightarrow> group_aggregate_container" where
  "container_new max_buffer num_segments =
     \<lparr>group_descriptors = [], max_buffer_size = max_buffer,
      segments = replicate num_segments \<lparr>elements = [], written = [], chunk_size = []\<rparr>\<rparr>"

definition define_group :: "nat list \<Rightarrow> group_aggregate_value \<Rightarrow> group_aggregate_container \<Rightarrow> group_aggregate_container" where
  "define_group columns a c = c\<lparr>group_descriptors := group_descriptors c @ [\<lparr>gd_columns = columns, gd_aggregator = a\<rparr>]\<rparr>"

text \<open>The search of a bucket: the row is added to the element with its key, or to a new one.\<close>

fun bucket_add :: "flex_env \<Rightarrow> group_descriptor list \<Rightarrow> flexible_type list \<Rightarrow> nat \<Rightarrow> groupby_element list \<Rightarrow>
    groupby_element list option" where
  "bucket_add E desc val num_keys [] =
     map_option (\<lambda>e. [e]) (element_add E val desc (element_init E desc (take num_keys val)))"
| "bucket_add E desc val num_keys (e # es) =
     (if flexible_type_vector_equality E (ge_key e) (take num_keys val)
      then map_option (\<lambda>e. e # es) (element_add E val desc e)
      else map_option (Cons e) (bucket_add E desc val num_keys es))"

text \<open>The hash map from hashes to buckets; \<open>operator[]\<close> makes an empty bucket.\<close>

fun table_add :: "flex_env \<Rightarrow> group_descriptor list \<Rightarrow> flexible_type list \<Rightarrow> nat \<Rightarrow> u64 \<Rightarrow>
    (u64 \<times> groupby_element list) list \<Rightarrow> (u64 \<times> groupby_element list) list option" where
  "table_add E desc val num_keys h [] = map_option (\<lambda>b. [(h, b)]) (bucket_add E desc val num_keys [])"
| "table_add E desc val num_keys h ((k, b) # t) =
     (if k = h then map_option (\<lambda>b. (k, b) # t) (bucket_add E desc val num_keys b)
      else map_option (Cons (k, b)) (table_add E desc val num_keys h t))"

text \<open>\<open>std::sort\<close> of a bucket.\<close>

fun element_insort :: "flex_env \<Rightarrow> groupby_element \<Rightarrow> groupby_element list \<Rightarrow> groupby_element list option" where
  "element_insort E e [] = Some [e]"
| "element_insort E e (f # fs) = do {
     less \<leftarrow> element_less E e f;
     if less then Some (e # f # fs) else map_option (Cons f) (element_insort E e fs)
   }"

fun element_sort :: "flex_env \<Rightarrow> groupby_element list \<Rightarrow> groupby_element list option" where
  "element_sort E [] = Some []"
| "element_sort E (e # es) = Option.bind (element_sort E es) (element_insort E e)"

fun sort_buckets :: "flex_env \<Rightarrow> (u64 \<times> groupby_element list) list \<Rightarrow> groupby_element list option" where
  "sort_buckets E [] = Some []"
| "sort_buckets E ((h, b) # t) = do { b \<leftarrow> element_sort E b; es \<leftarrow> sort_buckets E t; Some (b @ es) }"

definition flush_segment :: "flex_env \<Rightarrow> segment_information \<Rightarrow> segment_information option" where
  "flush_segment E s =
     (if elements s = [] then Some s
      else map_option (\<lambda>es. \<lparr>elements = [], written = written s @ es, chunk_size = chunk_size s @ [length es]\<rparr>)
             (sort_buckets E (sort_key fst (elements s))))"

definition container_add :: "flex_env \<Rightarrow> flexible_type list \<Rightarrow> nat \<Rightarrow> group_aggregate_container \<Rightarrow>
    group_aggregate_container option" where
  "container_add E val num_keys c =
     (if num_keys > length val \<or> segments c = [] then None
      else do {
        let hash = hash_key E (take num_keys val);
        let target_segment = unat hash mod length (segments c);
        let s = segments c ! target_segment;
        t \<leftarrow> table_add E (group_descriptors c) val num_keys hash (elements s);
        let s = s\<lparr>elements := t\<rparr>;
        s \<leftarrow> (if length t \<ge> max_buffer_size c then flush_segment E s else Some s);
        Some (c\<lparr>segments := (segments c)[target_segment := s]\<rparr>)
      })"

fun container_add_all :: "flex_env \<Rightarrow> flexible_type list list \<Rightarrow> nat \<Rightarrow> group_aggregate_container \<Rightarrow>
    group_aggregate_container option" where
  "container_add_all E [] num_keys c = Some c"
| "container_add_all E (val # vals) num_keys c =
     Option.bind (container_add E val num_keys c) (container_add_all E vals num_keys)"

section \<open>Merging the chunks\<close>

text \<open>
  The priority queue holds one element per chunk that is not exhausted, with the number of the chunk. It
  is a list here; its front is the least pair, found by \<open>pq_min\<close> with the comparison of pairs.
\<close>

type_synonym pq_value_type = "groupby_element \<times> nat"

definition pq_less :: "flex_env \<Rightarrow> pq_value_type \<Rightarrow> pq_value_type \<Rightarrow> bool option" where
  "pq_less E p q = do {
     less \<leftarrow> element_less E (fst p) (fst q);
     if less then Some True
     else do { greater \<leftarrow> element_less E (fst q) (fst p); Some (\<not> greater \<and> snd p < snd q) }
   }"

fun pq_min :: "flex_env \<Rightarrow> pq_value_type \<Rightarrow> pq_value_type list \<Rightarrow> (pq_value_type \<times> pq_value_type list) option" where
  "pq_min E p [] = Some (p, [])"
| "pq_min E p (q # qs) = do {
     less \<leftarrow> pq_less E q p;
     if less then map_option (\<lambda>(m, rest). (m, p # rest)) (pq_min E q qs)
     else map_option (\<lambda>(m, rest). (m, q # rest)) (pq_min E p qs)
   }"

definition refill :: "nat \<Rightarrow> pq_value_type list \<Rightarrow> groupby_element list list \<Rightarrow>
    pq_value_type list \<times> groupby_element list list" where
  "refill i pq chunks =
     (if i < length chunks
      then case chunks ! i of [] \<Rightarrow> (pq, chunks) | e # es \<Rightarrow> (pq @ [(e, i)], chunks[i := es])
      else (pq, chunks))"

definition pending :: "pq_value_type list \<Rightarrow> groupby_element list list \<Rightarrow> nat" where
  "pending pq chunks = length pq + sum_list (map length chunks)"

lemma pq_min_length: "pq_min E p qs = Some (m, rest) \<Longrightarrow> length rest = length qs"
  by (induction E p qs arbitrary: m rest rule: pq_min.induct) (auto split: bind_splits if_splits)

lemma refill_pending: "refill i pq chunks = (pq', chunks') \<Longrightarrow> pending pq' chunks' = pending pq chunks"
proof -
  have "Suc (sum_list (map length chunks) - 1) = sum_list (map length chunks)" if "i < length chunks" "chunks ! i \<noteq> []"
    using that elem_le_sum_list [of i "map length chunks"] by (cases "chunks ! i") auto
  then show "refill i pq chunks = (pq', chunks') \<Longrightarrow> ?thesis"
    by (auto simp: refill_def pending_def map_update sum_list_update split: list.splits if_splits)
qed

lemma refill_measure: "(case refill i pq chunks of (pq, chunks) \<Rightarrow> pending pq chunks) = pending pq chunks"
  using refill_pending [of i pq chunks] by (auto split: prod.splits)

lemma pq_min_pending: "pq_min E p qs = Some (m, rest) \<Longrightarrow> pending rest chunks < pending (p # qs) chunks"
  using pq_min_length [of E p qs m rest] by (simp add: pending_def)

text \<open>The inner loop adds the elements with the key of the current one.\<close>

function absorb :: "flex_env \<Rightarrow> groupby_element \<Rightarrow> pq_value_type list \<Rightarrow> groupby_element list list \<Rightarrow>
    (groupby_element \<times> pq_value_type list \<times> groupby_element list list) option" where
  "absorb E cur pq chunks =
     (case pq of [] \<Rightarrow> Some (cur, pq, chunks)
      | p # ps \<Rightarrow>
        (case pq_min E p ps of None \<Rightarrow> None
         | Some (m, rest) \<Rightarrow>
           if \<not> element_equal E (fst m) cur then Some (cur, pq, chunks)
           else (case element_plus E cur (fst m) of None \<Rightarrow> None
                 | Some cur' \<Rightarrow> (case refill (snd m) rest chunks of (pq', chunks') \<Rightarrow> absorb E cur' pq' chunks'))))"
  by pat_completeness auto

termination
  by (relation "measure (\<lambda>(E, cur, pq, chunks). pending pq chunks)")
    (auto simp: refill_measure intro: pq_min_pending)

declare absorb.simps [simp del]

lemma absorb_pending: "absorb E cur pq chunks = Some (cur', pq', chunks') \<Longrightarrow> pending pq' chunks' \<le> pending pq chunks"
proof (induction "pending pq chunks" arbitrary: cur pq chunks rule: less_induct)
  case less
  show ?case
  proof (cases pq)
    case (Cons p ps)
    from less.prems consider "pq' = pq" "chunks' = chunks"
      | m rest cur1 pq1 chunks1 where "pq_min E p ps = Some (m, rest)" "refill (snd m) rest chunks = (pq1, chunks1)"
          "absorb E cur1 pq1 chunks1 = Some (cur', pq', chunks')"
      by (subst (asm) absorb.simps) (auto simp: Cons split: option.splits if_splits prod.splits)
    then show ?thesis
    proof cases
      case 2
      then have "pending pq1 chunks1 < pending pq chunks"
        using refill_pending [OF 2(2)] pq_min_pending [OF 2(1), of chunks] Cons by simp
      with less.hyps [OF this 2(3)] show ?thesis by simp
    qed simp
  qed (use less.prems in \<open>auto simp: absorb.simps\<close>)
qed

definition emission :: "flex_env \<Rightarrow> groupby_element \<Rightarrow> flexible_type list option" where
  "emission E cur = map_option ((@) (ge_key cur)) (those (map (emit E) (ge_values cur)))"

function merge_chunks :: "flex_env \<Rightarrow> pq_value_type list \<Rightarrow> groupby_element list list \<Rightarrow>
    flexible_type list list option" where
  "merge_chunks E pq chunks =
     (case pq of [] \<Rightarrow> Some []
      | p # ps \<Rightarrow>
        (case pq_min E p ps of None \<Rightarrow> None
         | Some (m, rest) \<Rightarrow>
           (case refill (snd m) rest chunks of (pq', chunks') \<Rightarrow>
             (case absorb E (fst m) pq' chunks' of None \<Rightarrow> None
              | Some (cur, pq'', chunks'') \<Rightarrow>
                (case emission E cur of None \<Rightarrow> None
                 | Some row \<Rightarrow> map_option (Cons row) (merge_chunks E pq'' chunks''))))))"
  by pat_completeness auto

termination
  by (relation "measure (\<lambda>(E, pq, chunks). pending pq chunks)")
    (auto dest!: absorb_pending refill_pending [OF sym] intro: order.strict_trans1 pq_min_pending)

declare merge_chunks.simps [simp del]

text \<open>The part of the file that each chunk is.\<close>

fun split_chunks :: "nat list \<Rightarrow> groupby_element list \<Rightarrow> groupby_element list list" where
  "split_chunks [] es = []"
| "split_chunks (n # ns) es = take n es # split_chunks ns (drop n es)"

fun first_elements :: "nat \<Rightarrow> groupby_element list list \<Rightarrow> pq_value_type list" where
  "first_elements i [] = []"
| "first_elements i ([] # chunks) = first_elements (Suc i) chunks"
| "first_elements i ((e # es) # chunks) = (e, i) # first_elements (Suc i) chunks"

definition group_and_write_segment :: "flex_env \<Rightarrow> segment_information \<Rightarrow> flexible_type list list option" where
  "group_and_write_segment E s =
     (let chunks = split_chunks (chunk_size s) (written s)
      in merge_chunks E (first_elements 0 chunks) (map tl chunks))"

definition group_and_write :: "flex_env \<Rightarrow> group_aggregate_container \<Rightarrow> flexible_type list list list option" where
  "group_and_write E c = do {
     ss \<leftarrow> those (map (flush_segment E) (segments c));
     those (map (group_and_write_segment E) ss)
   }"

end
