(* ===== verification/Groupby_Elements.thy ===== *)
theory Groupby_Elements
  imports Groupby "HOL-Library.List_Lexorder"
begin

text \<open>
  The elements of the group-by: the values of an element form an aggregator again, the product of those
  of the descriptors, and on keys of integers, strings and missing values the comparison of elements is
  a linear order.
\<close>

section \<open>The values of an element\<close>

text \<open>A descriptor with the type of its first input column.\<close>

type_synonym typed_descriptor = "group_descriptor \<times> flex_type_enum"

definition valid_values :: "typed_descriptor list \<Rightarrow> flexible_type list \<Rightarrow> bool" where
  "valid_values ds val \<longleftrightarrow> list_all (\<lambda>(d, k). valid_input k (gd_aggregator d) (column_values d val)) ds"

definition filled_values :: "typed_descriptor list \<Rightarrow> group_aggregate_value list \<Rightarrow> bool" where
  "filled_values ds as \<longleftrightarrow> list_all2 (\<lambda>(d, k). filled_state k (gd_aggregator d)) ds as"

abbreviation new_values :: "group_descriptor list \<Rightarrow> group_aggregate_value list" where
  "new_values desc \<equiv> map (\<lambda>d. new_instance (gd_aggregator d)) desc"

lemma values_simps [simp]:
  "valid_values [] val" "filled_values [] as \<longleftrightarrow> as = []"
  "valid_values ((d, k) # ds) val \<longleftrightarrow> valid_input k (gd_aggregator d) (column_values d val) \<and> valid_values ds val"
  "filled_values ((d, k) # ds) as \<longleftrightarrow>
     (\<exists>b bs. as = b # bs \<and> filled_state k (gd_aggregator d) b \<and> filled_values ds bs)"
  by (auto simp: valid_values_def filled_values_def list_all2_Cons1)

lemma values_init: "valid_values ds val \<Longrightarrow>
    \<exists>as. feed_values E val (map fst ds) (new_values (map fst ds)) = Some as \<and> filled_values ds as"
proof (induction ds)
  case (Cons dk ds)
  obtain d k where dk: "dk = (d, k)" by force
  obtain b where b: "feed E (column_values d val) (new_instance (gd_aggregator d)) = Some b"
      "filled_state k (gd_aggregator d) b"
    using agg.init_add [of k "gd_aggregator d" "column_values d val" E] Cons.prems dk by auto
  obtain bs where "feed_values E val (map fst ds) (new_values (map fst ds)) = Some bs" "filled_values ds bs"
    using Cons.IH Cons.prems dk by (auto simp only: values_simps)
  with b dk show ?case by simp
qed simp

lemma values_filled: "valid_values ds val \<Longrightarrow> filled_values ds as \<Longrightarrow>
    \<exists>bs. feed_values E val (map fst ds) as = Some bs \<and> filled_values ds bs"
proof (induction ds arbitrary: as)
  case (Cons dk ds)
  obtain d k where dk: "dk = (d, k)" by force
  obtain a as' where a: "as = a # as'" "filled_state k (gd_aggregator d) a" "filled_values ds as'"
    using Cons.prems dk by auto
  obtain b where b: "feed E (column_values d val) a = Some b" "filled_state k (gd_aggregator d) b"
    using agg.filled_add [of k "gd_aggregator d" "column_values d val" a E] Cons.prems dk a by auto
  obtain bs where "feed_values E val (map fst ds) as' = Some bs" "filled_values ds bs"
    using Cons.IH [of as'] Cons.prems dk a by auto
  with a b dk show ?case by simp
qed simp

lemma values_one: "valid_values ds val \<Longrightarrow> filled_values ds as \<Longrightarrow>
    feed_values E val (map fst ds) (new_values (map fst ds)) = Some bs \<Longrightarrow>
    combine_values E as bs = feed_values E val (map fst ds) as"
proof (induction ds arbitrary: as bs)
  case (Cons dk ds)
  then show ?case by (cases dk) (auto simp: agg.comb_one split: bind_splits)
qed simp

lemma values_add: "valid_values ds val \<Longrightarrow> filled_values ds as \<Longrightarrow> filled_values ds bs \<Longrightarrow>
    feed_values E val (map fst ds) bs = Some cs \<Longrightarrow>
    combine_values E as cs = Option.bind (combine_values E as bs) (feed_values E val (map fst ds))"
proof (induction ds arbitrary: as bs cs)
  case (Cons dk ds)
  obtain d k where dk: "dk = (d, k)" by force
  obtain a as' b bs' where ab: "as = a # as'" "bs = b # bs'" "filled_state k (gd_aggregator d) a"
      "filled_state k (gd_aggregator d) b" "filled_values ds as'" "filled_values ds bs'"
    using Cons.prems dk by auto
  obtain c cs' where c: "cs = c # cs'" "feed E (column_values d val) b = Some c"
      "feed_values E val (map fst ds) bs' = Some cs'"
    using Cons.prems dk ab by (auto split: bind_splits)
  have "combine E a c = Option.bind (combine E a b) (feed E (column_values d val))"
    using Cons.prems(1) dk ab c by (intro agg.comb_add [of k "gd_aggregator d"]) simp_all
  moreover have "combine_values E as' cs' = Option.bind (combine_values E as' bs') (feed_values E val (map fst ds))"
    using Cons dk ab c by simp
  ultimately show ?case using ab c dk
    by (cases "combine E a b"; cases "combine_values E as' bs'") (auto split: bind_splits)
qed simp

interpretation element: aggregator "new_values (map fst ds)" "\<lambda>val. feed_values E val (map fst ds)"
  "combine_values E" "valid_values ds" "filled_values ds" for E ds
  by unfold_locales (rule values_init values_filled values_one values_add; assumption)+

section \<open>The order of elements\<close>

type_synonym key_rank = "(nat \<times> int \<times> nat list) list"

fun value_rank :: "flexible_type \<Rightarrow> nat \<times> int \<times> nat list" where
  "value_rank (Flex_int n) = (type_code INTEGER, sint n, [])"
| "value_rank (Flex_string s) = (type_code STRING, 0, map unat s)"
| "value_rank _ = (type_code UNDEFINED, 0, [])"

definition element_rank :: "groupby_element \<Rightarrow> u64 \<times> key_rank" where
  "element_rank e = (ge_hash e, map value_rank (ge_key e))"

definition ranked_key :: "nat \<Rightarrow> flexible_type list \<Rightarrow> bool" where
  "ranked_key n key \<longleftrightarrow> length key = n \<and> list_all exact_type key"

lemma bytes_less_rank: "bytes_less s t \<longleftrightarrow> map unat s < map unat t"
proof (induction s t rule: bytes_less.induct)
  case (1 us)
  then show ?case by (cases us) simp_all
qed (auto simp: word_less_nat_alt)

lemma value_rank_inject: "exact_type x \<Longrightarrow> exact_type y \<Longrightarrow> value_rank x = value_rank y \<Longrightarrow> x = y"
  by (cases x; cases y) (auto simp: exact_type_def dest: signed_word_eqI map_injective)

lemma key_rank_inject:
  "list_all exact_type a \<Longrightarrow> list_all exact_type b \<Longrightarrow> map value_rank a = map value_rank b \<longleftrightarrow> a = b"
proof (induction a arbitrary: b)
  case (Cons x a)
  then show ?case by (cases b) (auto dest: value_rank_inject)
qed auto

lemma vector_equality_rank:
  "list_all exact_type a \<Longrightarrow> list_all exact_type b \<Longrightarrow> flexible_type_vector_equality E a b \<longleftrightarrow> a = b"
proof (induction E a b rule: flexible_type_vector_equality.induct)
  case (2 E x a y b)
  then have "approx_equality_operator (fe_ops E) (fe_dict_eq E) x y \<longleftrightarrow> x = y"
    by (cases x; cases y) (auto simp: exact_type_def approx_equality_operator.simps scalar_equal_def)
  with 2 show ?case by (auto simp: type_undefined)
qed auto

lemma value_lt_rank:
  assumes "exact_type x" and "exact_type y" and "get_type x = get_type y" and "\<not> is_missing x"
  shows "lt_operator F x y = Some (value_rank x < value_rank y)"
  using assms by (cases x; cases y) (auto simp: exact_type_def lt_operator.simps scalar_lt_def bytes_less_rank)

lemma vector_lt_rank:
  "length a = length b \<Longrightarrow> list_all exact_type a \<Longrightarrow> list_all exact_type b \<Longrightarrow>
   vector_lt_loop F a b = Some (map value_rank a < map value_rank b)"
proof (induction F a b rule: vector_lt_loop.induct)
  case (3 F x a y b)
  have gt: "gt_operator F x y = lt_operator F y x"
    using converse_everywhere [of F x y] by (simp add: converse_at_def)
  consider "get_type x \<noteq> get_type y" | "is_missing x" "is_missing y" | "get_type x = get_type y" "\<not> is_missing x"
    by (cases "get_type x = get_type y"; cases "is_missing x") simp_all
  then show ?case
  proof cases
    case 1
    with 3(4,5) show ?thesis by (cases x; cases y) (auto simp: exact_type_def)
  next
    case 2
    with 3 show ?thesis by (simp add: type_undefined)
  next
    case 3
    then have "lt_operator F x y = Some (value_rank x < value_rank y)"
        "lt_operator F y x = Some (value_rank y < value_rank x)"
      using value_lt_rank \<open>list_all exact_type (x # a)\<close> \<open>list_all exact_type (y # b)\<close> by auto
    with 3 "3.IH" "3.prems" gt value_rank_inject [of x y] show ?thesis by auto
  qed
qed auto

definition element_ok :: "flex_env \<Rightarrow> nat \<Rightarrow> groupby_element \<Rightarrow> bool" where
  "element_ok E n e \<longleftrightarrow> ranked_key n (ge_key e) \<and> ge_hash e = hash_key E (ge_key e)"

lemma element_less_rank:
  assumes "element_ok E n e" and "element_ok E n f"
  shows "element_less E e f = Some (element_rank e < element_rank f)"
proof -
  have "vector_lt_loop (fe_ops E) (ge_key e) (ge_key f) = Some (map value_rank (ge_key e) < map value_rank (ge_key f))"
    using assms by (intro vector_lt_rank) (simp_all add: element_ok_def ranked_key_def)
  moreover have "length (ge_key e) = length (ge_key f)" using assms by (simp add: element_ok_def ranked_key_def)
  ultimately show ?thesis
    by (simp add: element_less_def element_rank_def flexible_type_vector_lt_def less_prod_simp neq_iff) auto
qed

lemma element_okD:
  assumes "element_ok E n e"
  shows "length (ge_key e) = n" "list_all exact_type (ge_key e)" "ge_hash e = hash_key E (ge_key e)"
  using assms by (simp_all add: element_ok_def ranked_key_def)

lemma element_rank_eq:
  assumes "element_ok E n e" and "element_ok E n f"
  shows "element_rank e = element_rank f \<longleftrightarrow> ge_key e = ge_key f"
  unfolding element_rank_def element_okD(3) [OF assms(1)] element_okD(3) [OF assms(2)] prod.inject
    key_rank_inject [OF assms [THEN element_okD(2)]]
  by (cases "ge_key e = ge_key f") simp_all

lemma element_equal_key:
  assumes "element_ok E n e" and "element_ok E n f"
  shows "element_equal E e f \<longleftrightarrow> ge_key e = ge_key f"
  unfolding element_equal_def element_okD(3) [OF assms(1)] element_okD(3) [OF assms(2)]
    vector_equality_rank [OF assms [THEN element_okD(2)]]
  by (cases "ge_key e = ge_key f") simp_all

end
