(* ===== verification/Groupby_Merge.thy ===== *)
theory Groupby_Merge
  imports Groupby_Elements "HOL-Library.Multiset"
begin

text \<open>
  The merge of the sorted chunks of a segment. The elements leave the priority queue in the order of their
  keys and, for equal keys, of their chunks (\<open>pops\<close>); the loops group the adjacent elements with equal keys
  (\<open>merged\<close>); so each group is the aggregate of its rows in the order in which they were added.
\<close>

section \<open>The order in which elements leave the queue\<close>

inductive pops :: "flex_env \<Rightarrow> pq_value_type list \<Rightarrow> groupby_element list list \<Rightarrow> pq_value_type list \<Rightarrow> bool" for E where
  pops_Nil: "pops E [] chunks []"
| pops_Cons: "pq_min E p ps = Some (m, rest) \<Longrightarrow> refill (snd m) rest chunks = (pq', chunks') \<Longrightarrow>
    pops E pq' chunks' qs \<Longrightarrow> pops E (p # ps) chunks (m # qs)"

inductive_cases pops_ConsE: "pops E pq chunks (m # qs)"

definition pair_rank :: "pq_value_type \<Rightarrow> (u64 \<times> key_rank) \<times> nat" where
  "pair_rank p = (element_rank (fst p), snd p)"

definition rank_less :: "groupby_element \<Rightarrow> groupby_element \<Rightarrow> bool" where
  "rank_less e f \<longleftrightarrow> element_rank e < element_rank f"

definition queue_ok :: "flex_env \<Rightarrow> nat \<Rightarrow> pq_value_type list \<Rightarrow> groupby_element list list \<Rightarrow> bool" where
  "queue_ok E n pq chunks \<longleftrightarrow>
     (\<forall>p\<in>set pq. element_ok E n (fst p) \<and> snd p < length chunks \<and> sorted_wrt rank_less (fst p # chunks ! snd p))
     \<and> distinct (map snd pq)
     \<and> (\<forall>i<length chunks. (\<forall>e\<in>set (chunks ! i). element_ok E n e) \<and> (chunks ! i \<noteq> [] \<longrightarrow> i \<in> snd ` set pq))"

definition queue_content :: "pq_value_type list \<Rightarrow> groupby_element list list \<Rightarrow> pq_value_type set" where
  "queue_content pq chunks = set pq \<union> {p. snd p < length chunks \<and> fst p \<in> set (chunks ! snd p)}"

lemma pq_less_rank:
  assumes "element_ok E n (fst p)" and "element_ok E n (fst q)"
  shows "pq_less E p q = Some (pair_rank p < pair_rank q)"
  using element_less_rank [OF assms] element_less_rank [OF assms(2,1)]
  by (auto simp: pq_less_def pair_rank_def less_prod_simp)

lemma pq_min_least:
  "\<forall>q\<in>set (p # qs). element_ok E n (fst q) \<Longrightarrow>
   \<exists>m rest. pq_min E p qs = Some (m, rest) \<and> mset (m # rest) = mset (p # qs) \<and> (\<forall>q\<in>set (p # qs). pair_rank m \<le> pair_rank q)"
proof (induction qs arbitrary: p)
  case (Cons q qs)
  have less: "pq_less E q p = Some (pair_rank q < pair_rank p)"
    using Cons.prems by (intro pq_less_rank [of E n]) simp_all
  show ?case
  proof (cases "pair_rank q < pair_rank p")
    case True
    obtain m rest where m: "pq_min E q qs = Some (m, rest)" "mset (m # rest) = mset (q # qs)"
        "\<forall>x\<in>set (q # qs). pair_rank m \<le> pair_rank x"
      using Cons.IH [of q] Cons.prems by auto
    with True less show ?thesis by (intro exI [of _ m] exI [of _ "p # rest"]) (auto simp: add_mset_commute)
  next
    case False
    obtain m rest where m: "pq_min E p qs = Some (m, rest)" "mset (m # rest) = mset (p # qs)"
        "\<forall>x\<in>set (p # qs). pair_rank m \<le> pair_rank x"
      using Cons.IH [of p] Cons.prems by auto
    then have "pair_rank m \<le> pair_rank q" using False by (meson list.set_intros(1) not_less order_trans)
    with m False less show ?thesis by (intro exI [of _ m] exI [of _ "q # rest"]) (auto simp: add_mset_commute)
  qed
qed simp

lemma refill_queue_ok:
  assumes ok: "queue_ok E n pq chunks" and pq: "mset pq = mset (m # rest)" and refill: "refill (snd m) rest chunks = (pq', chunks')"
  shows "queue_ok E n pq' chunks'" and "queue_content pq chunks = insert m (queue_content pq' chunks')"
proof -
  have set: "set pq = insert m (set rest)" using mset_eq_setD [OF pq] by simp
  have "mset (map snd pq) = mset (map snd (m # rest))" using pq by (metis mset_map)
  then have d: "snd m \<notin> snd ` set rest" "distinct (map snd rest)"
    using ok mset_eq_imp_distinct_iff [of "map snd pq" "map snd (m # rest)"] by (auto simp: queue_ok_def)
  have m: "element_ok E n (fst m)" "snd m < length chunks" "sorted_wrt rank_less (fst m # chunks ! snd m)"
    using ok set by (auto simp: queue_ok_def)
  have ne: "snd p \<noteq> snd m" if "p \<in> set rest" for p using d(1) that by (metis imageI)
  show "queue_ok E n pq' chunks'"
  proof (cases "chunks ! snd m")
    case Nil
    with refill m have "pq' = rest" "chunks' = chunks" by (auto simp: refill_def)
    with ok set d Nil show ?thesis by (auto simp: queue_ok_def)
  next
    case (Cons e es)
    with refill m have c: "pq' = rest @ [(e, snd m)]" "chunks' = chunks[snd m := es]" by (auto simp: refill_def)
    have "element_ok E n x" if "x \<in> set (e # es)" for x using ok m Cons that by (auto simp: queue_ok_def)
    moreover have "sorted_wrt rank_less (e # es)" using m Cons by simp
    ultimately show ?thesis
      unfolding queue_ok_def c using ok set d m(2) ne
      by (auto simp: queue_ok_def nth_list_update image_iff)
  qed
  show "queue_content pq chunks = insert m (queue_content pq' chunks')"
    using refill m set
    by (auto simp: refill_def queue_content_def nth_list_update split: list.splits if_splits)
qed

lemma queue_content_least:
  assumes ok: "queue_ok E n pq chunks" and pq: "mset pq = mset (m # rest)" and least: "\<forall>q\<in>set pq. pair_rank m \<le> pair_rank q"
    and refill: "refill (snd m) rest chunks = (pq', chunks')" and q: "q \<in> queue_content pq' chunks'"
  shows "pair_rank m < pair_rank q"
proof -
  have set: "set pq = insert m (set rest)" using mset_eq_setD [OF pq] by simp
  have "mset (map snd pq) = mset (map snd (m # rest))" using pq by (metis mset_map)
  then have d: "snd m \<notin> snd ` set rest"
    using ok mset_eq_imp_distinct_iff [of "map snd pq" "map snd (m # rest)"] by (auto simp: queue_ok_def)
  have m: "snd m < length chunks" "\<And>e. e \<in> set (chunks ! snd m) \<Longrightarrow> rank_less (fst m) e"
    using ok set by (auto simp: queue_ok_def)
  consider "q \<in> set rest" | "snd q < length chunks" "fst q \<in> set (chunks ! snd q)"
    using refill q by (auto simp: refill_def queue_content_def nth_list_update split: list.splits if_splits)
  then show ?thesis
  proof cases
    case 1
    then have "snd q \<noteq> snd m" using d by (metis imageI)
    then have "pair_rank q \<noteq> pair_rank m" by (auto simp: pair_rank_def)
    with 1 least set show ?thesis by (simp add: order.strict_iff_order)
  next
    case 2
    then have "snd q \<in> snd ` set pq" using ok unfolding queue_ok_def by (metis empty_iff empty_set)
    then obtain h where h: "(h, snd q) \<in> set pq" by (metis imageE prod.collapse)
    then have "sorted_wrt rank_less (h # chunks ! snd q)" using ok unfolding queue_ok_def by (metis fst_conv snd_conv)
    then have "rank_less h (fst q)" using 2 by simp
    then have "pair_rank (h, snd q) < pair_rank q" by (simp add: pair_rank_def rank_less_def less_prod_simp)
    with h least show ?thesis by (meson order.strict_trans1)
  qed
qed

lemma pops_sorted:
  "queue_ok E n pq chunks \<Longrightarrow>
   \<exists>ps. pops E pq chunks ps \<and> set ps = queue_content pq chunks \<and> sorted_wrt (\<lambda>p q. pair_rank p < pair_rank q) ps"
proof (induction "pending pq chunks" arbitrary: pq chunks rule: less_induct)
  case less
  show ?case
  proof (cases pq)
    case Nil
    then have "queue_content pq chunks = {}" using less.prems by (auto simp: queue_ok_def queue_content_def)
    with Nil show ?thesis by (auto intro: pops_Nil)
  next
    case (Cons p ps)
    obtain m rest where m: "pq_min E p ps = Some (m, rest)" "mset (m # rest) = mset pq" "\<forall>q\<in>set pq. pair_rank m \<le> pair_rank q"
      using pq_min_least [of p ps E n] less.prems Cons by (auto simp: queue_ok_def)
    obtain pq' chunks' where r: "refill (snd m) rest chunks = (pq', chunks')" by force
    note next_ok = refill_queue_ok [OF less.prems m(2) [symmetric] r]
    have "pending pq' chunks' < pending pq chunks"
      using refill_pending [OF r] pq_min_pending [OF m(1), of chunks] Cons by simp
    from less.hyps [OF this next_ok(1)] obtain qs where qs: "pops E pq' chunks' qs" "set qs = queue_content pq' chunks'"
        "sorted_wrt (\<lambda>p q. pair_rank p < pair_rank q) qs" by auto
    moreover have "\<forall>q\<in>set qs. pair_rank m < pair_rank q"
      using queue_content_least [OF less.prems m(2) [symmetric] m(3) r] qs(2) by simp
    ultimately show ?thesis
      using pops_Cons [OF m(1) r qs(1)] next_ok(2) Cons by (intro exI [of _ "m # qs"]) simp
  qed
qed

section \<open>Grouping adjacent elements\<close>

fun absorb_list :: "flex_env \<Rightarrow> groupby_element \<Rightarrow> pq_value_type list \<Rightarrow> (groupby_element \<times> pq_value_type list) option" where
  "absorb_list E cur [] = Some (cur, [])"
| "absorb_list E cur (m # ps) =
     (if \<not> element_equal E (fst m) cur then Some (cur, m # ps)
      else Option.bind (element_plus E cur (fst m)) (\<lambda>cur. absorb_list E cur ps))"

inductive merged :: "flex_env \<Rightarrow> pq_value_type list \<Rightarrow> groupby_element list \<Rightarrow> bool" for E where
  merged_Nil: "merged E [] []"
| merged_Cons: "absorb_list E (fst m) ps = Some (cur, rest) \<Longrightarrow> merged E rest es \<Longrightarrow> merged E (m # ps) (cur # es)"

lemma absorb_pops:
  "pops E pq chunks ps \<Longrightarrow> absorb_list E cur ps = Some (cur', ps') \<Longrightarrow>
   \<exists>pq' chunks'. absorb E cur pq chunks = Some (cur', pq', chunks') \<and> pops E pq' chunks' ps'"
proof (induction arbitrary: cur rule: pops.induct)
  case (pops_Nil chunks)
  then show ?case by (auto simp: absorb.simps intro: pops.pops_Nil)
next
  case (pops_Cons p ps m rest chunks pq' chunks' qs)
  show ?case
  proof (cases "element_equal E (fst m) cur")
    case False
    with pops_Cons.hyps(1) have "absorb E cur (p # ps) chunks = Some (cur, p # ps, chunks)"
      by (simp add: absorb.simps [of E cur "p # ps"])
    moreover have "pops E (p # ps) chunks (m # qs)" using pops_Cons.hyps by (rule pops.pops_Cons)
    ultimately show ?thesis using False pops_Cons.prems by auto
  next
    case True
    with pops_Cons.prems obtain c where "element_plus E cur (fst m) = Some c" "absorb_list E c qs = Some (cur', ps')"
      by (auto split: bind_splits)
    with True pops_Cons show ?thesis by (simp add: absorb.simps [of E cur "p # ps"])
  qed
qed

lemma merge_pops:
  "merged E ps es \<Longrightarrow> pops E pq chunks ps \<Longrightarrow> those (map (emission E) es) = Some rows \<Longrightarrow> merge_chunks E pq chunks = Some rows"
proof (induction arbitrary: pq chunks rows rule: merged.induct)
  case merged_Nil
  then show ?case by (auto simp: merge_chunks.simps elim: pops.cases)
next
  case (merged_Cons m ps cur rest es)
  obtain p ps' r pq1 chunks1 where p: "pq = p # ps'" "pq_min E p ps' = Some (m, r)"
      "refill (snd m) r chunks = (pq1, chunks1)" "pops E pq1 chunks1 ps"
    using merged_Cons.prems(1) by (elim pops_ConsE) auto
  obtain pq2 chunks2 where a: "absorb E (fst m) pq1 chunks1 = Some (cur, pq2, chunks2)" "pops E pq2 chunks2 rest"
    using absorb_pops [OF p(4) merged_Cons.hyps(1)] by blast
  obtain row rows' where rows: "emission E cur = Some row" "those (map (emission E) es) = Some rows'" "rows = row # rows'"
    using merged_Cons.prems(2) by (auto split: option.splits)
  with p a merged_Cons.IH [OF a(2) rows(2)] show ?case by (simp add: merge_chunks.simps [of E "p # ps'"])
qed

section \<open>The groups\<close>

text \<open>The element of a group: its key and its rows in order.\<close>

fun feed_rows :: "flex_env \<Rightarrow> group_descriptor list \<Rightarrow> flexible_type list list \<Rightarrow> group_aggregate_value list \<Rightarrow>
    group_aggregate_value list option" where
  "feed_rows E desc [] vs = Some vs"
| "feed_rows E desc (r # rs) vs = Option.bind (feed_values E r desc vs) (feed_rows E desc rs)"

definition group_element :: "flex_env \<Rightarrow> group_descriptor list \<Rightarrow> flexible_type list \<Rightarrow> flexible_type list list \<Rightarrow>
    groupby_element option" where
  "group_element E desc key rs =
     map_option (\<lambda>vs. \<lparr>ge_key = key, ge_values = vs, ge_hash = hash_key E key\<rparr>)
       (feed_rows E desc rs (new_values desc))"

lemma feed_rows_locale: "element.add_all E ds rs vs = feed_rows E (map fst ds) rs vs"
  by (induction rs arbitrary: vs) (auto split: bind_splits)

lemma element_aggregate: "element.aggregate ds E rs = feed_rows E (map fst ds) rs (new_values (map fst ds))"
  by (simp only: element.aggregate_def feed_rows_locale)

lemma aggregate_rows:
  assumes "list_all (valid_values ds) rs" and "rs \<noteq> []"
  obtains vs where "feed_rows E (map fst ds) rs (new_values (map fst ds)) = Some vs" and "filled_values ds vs"
proof -
  obtain vs where "element.aggregate ds E rs = Some vs" "filled_values ds vs"
    by (rule element.aggregate_filled [OF assms]) (rule that)
  then show thesis unfolding element_aggregate by (rule that)
qed

lemma feed_rows_append: "feed_rows E desc (rs @ ss) vs = Option.bind (feed_rows E desc rs vs) (feed_rows E desc ss)"
  by (induction rs arbitrary: vs) (auto split: bind_splits)

lemma group_element_key: "group_element E desc key rs = Some e \<Longrightarrow> ge_key e = key \<and> ge_hash e = hash_key E key"
  by (auto simp: group_element_def)

lemma group_element_exists:
  assumes "list_all (valid_values ds) rs" and "rs \<noteq> []"
  obtains e where "group_element E (map fst ds) key rs = Some e"
proof -
  obtain vs where "feed_rows E (map fst ds) rs (new_values (map fst ds)) = Some vs"
    by (rule aggregate_rows [OF assms]) (rule that)
  then show thesis by (intro that) (simp add: group_element_def)
qed

lemma group_element_add:
  "group_element E desc key rs = Some e \<Longrightarrow> element_add E r desc e = group_element E desc key (rs @ [r])"
  by (auto simp: group_element_def element_add_def feed_rows_append option.map_comp o_def split: bind_splits)

lemma group_element_plus:
  assumes "list_all (valid_values ds) (rs @ ss)" and "rs \<noteq> []" and "ss \<noteq> []"
    and "group_element E (map fst ds) key rs = Some e" and "group_element E (map fst ds) key ss = Some f"
  shows "element_plus E e f = group_element E (map fst ds) key (rs @ ss)"
proof -
  have valid: "list_all (valid_values ds) rs" "list_all (valid_values ds) ss" using assms(1) by auto
  obtain vs where vs: "feed_rows E (map fst ds) rs (new_values (map fst ds)) = Some vs" "filled_values ds vs"
    by (rule aggregate_rows [OF valid(1) assms(2)]) (rule that)
  obtain ws where ws: "feed_rows E (map fst ds) ss (new_values (map fst ds)) = Some ws"
    using assms(5) by (auto simp: group_element_def)
  have "combine_values E vs ws = feed_rows E (map fst ds) ss vs"
    using element.comb_aggregate [OF valid(2) assms(3) vs(2), of E ws, unfolded element_aggregate feed_rows_locale] ws
    by simp
  with assms(4,5) vs ws show ?thesis
    by (auto simp: element_plus_def group_element_def feed_rows_append option.map_comp o_def)
qed

text \<open>A popped element is that of the rows \<open>R p\<close>, and merging keeps this.\<close>

definition part_ok :: "flex_env \<Rightarrow> typed_descriptor list \<Rightarrow> nat \<Rightarrow> groupby_element \<Rightarrow> flexible_type list list \<Rightarrow> bool" where
  "part_ok E ds n e rs \<longleftrightarrow> element_ok E n e \<and> rs \<noteq> [] \<and> list_all (valid_values ds) rs
     \<and> group_element E (map fst ds) (ge_key e) rs = Some e"

lemma part_ok_plus:
  assumes "part_ok E ds n e rs" and "part_ok E ds n f ss" and "ge_key f = ge_key e"
  obtains g where "element_plus E e f = Some g" and "part_ok E ds n g (rs @ ss)" and "ge_key g = ge_key e"
proof -
  have valid: "list_all (valid_values ds) (rs @ ss)" "rs \<noteq> []" "ss \<noteq> []" "rs @ ss \<noteq> []"
    using assms(1,2) by (auto simp: part_ok_def)
  obtain g where g: "group_element E (map fst ds) (ge_key e) (rs @ ss) = Some g"
    by (rule group_element_exists [OF valid(1,4)]) (rule that)
  have "element_plus E e f = Some g"
    using group_element_plus [OF valid(1-3), of E "ge_key e" e f] assms g by (simp add: part_ok_def)
  moreover have "part_ok E ds n g (rs @ ss)"
    using g valid group_element_key [OF g] assms(1) by (simp add: part_ok_def element_ok_def)
  ultimately show thesis using group_element_key [OF g] that [of g] by blast
qed

lemma absorb_list_parts:
  "\<forall>p\<in>set ps. part_ok E ds n (fst p) (R p) \<Longrightarrow> part_ok E ds n cur rs \<Longrightarrow>
   \<exists>g. absorb_list E cur ps = Some (g, dropWhile (\<lambda>p. ge_key (fst p) = ge_key cur) ps)
     \<and> part_ok E ds n g (rs @ concat (map R (takeWhile (\<lambda>p. ge_key (fst p) = ge_key cur) ps))) \<and> ge_key g = ge_key cur"
proof (induction ps arbitrary: cur rs)
  case (Cons p ps)
  have p: "part_ok E ds n (fst p) (R p)" using Cons.prems by simp
  have eq: "element_equal E (fst p) cur \<longleftrightarrow> ge_key (fst p) = ge_key cur"
    using p Cons.prems(2) by (intro element_equal_key [of E n]) (simp_all add: part_ok_def)
  show ?case
  proof (cases "ge_key (fst p) = ge_key cur")
    case True
    obtain g where g: "element_plus E cur (fst p) = Some g" "part_ok E ds n g (rs @ R p)" "ge_key g = ge_key cur"
      by (rule part_ok_plus [OF Cons.prems(2) p True]) (rule that)
    show ?thesis using Cons.IH [OF _ g(2)] Cons.prems(1) True eq g by simp
  qed (use eq Cons.prems in simp)
qed simp

lemma dropWhile_above:
  assumes sorted: "sorted_wrt (\<lambda>p q. pair_rank p < pair_rank q) (m # ps)"
    and ok: "\<forall>p\<in>set (m # ps). element_ok E n (fst p)"
    and q: "q \<in> set (dropWhile (\<lambda>p. ge_key (fst p) = ge_key (fst m)) ps)"
  shows "rank_less (fst m) (fst q)"
proof -
  let ?D = "dropWhile (\<lambda>p. ge_key (fst p) = ge_key (fst m)) ps"
  obtain d D where D: "?D = d # D" using q by (cases ?D) auto
  have sub: "set ?D \<subseteq> set ps" using set_dropWhileD by fast
  have "ge_key (fst d) \<noteq> ge_key (fst m)" using hd_dropWhile [of "\<lambda>p. ge_key (fst p) = ge_key (fst m)" ps] D by simp
  moreover have "pair_rank m < pair_rank d" "d \<in> set ps" using sorted sub D by auto
  ultimately have "element_rank (fst m) < element_rank (fst d)"
    using element_rank_eq [of E n "fst m" "fst d"] ok by (auto simp: pair_rank_def less_prod_simp order.strict_iff_order)
  moreover have "sorted_wrt (\<lambda>p q. pair_rank p < pair_rank q) (d # D)"
    using sorted D by (metis sorted_wrt.simps(2) sorted_wrt_dropWhile)
  then have "element_rank (fst d) \<le> element_rank (fst q)"
    using q D by (auto simp: pair_rank_def less_prod_simp)
  ultimately show ?thesis by (simp add: rank_less_def)
qed

lemma filter_while: "filter Q xs = filter Q (takeWhile P xs) @ filter Q (dropWhile P xs)"
  by (metis filter_append takeWhile_dropWhile_id)

lemma filter_key_takeWhile:
  assumes "sorted_wrt (\<lambda>p q. pair_rank p < pair_rank q) (m # ps)" and "\<forall>p\<in>set (m # ps). element_ok E n (fst p)"
  shows "filter (\<lambda>p. ge_key (fst p) = ge_key (fst m)) ps = takeWhile (\<lambda>p. ge_key (fst p) = ge_key (fst m)) ps"
proof -
  let ?P = "\<lambda>p. ge_key (fst p) = ge_key (fst m)"
  have "\<not> ?P q" if "q \<in> set (dropWhile ?P ps)" for q
  proof -
    have "rank_less (fst m) (fst q)" by (rule dropWhile_above [OF assms that])
    moreover have "q \<in> set ps" using that by (rule set_dropWhileD)
    ultimately show ?thesis using element_rank_eq [of E n "fst m" "fst q"] assms(2) by (auto simp: rank_less_def)
  qed
  then have "filter ?P (dropWhile ?P ps) = []" by (intro filter_False) blast
  moreover have "filter ?P (takeWhile ?P ps) = takeWhile ?P ps" by (rule filter_True) (blast dest: set_takeWhileD)
  ultimately show ?thesis unfolding filter_while [of ?P ps ?P] by (simp only: append_Nil2)
qed

definition rows_with_key :: "(pq_value_type \<Rightarrow> flexible_type list list) \<Rightarrow> flexible_type list \<Rightarrow> pq_value_type list \<Rightarrow>
    flexible_type list list" where
  "rows_with_key R key ps = concat (map R (filter (\<lambda>p. ge_key (fst p) = key) ps))"

lemma merged_parts:
  "sorted_wrt (\<lambda>p q. pair_rank p < pair_rank q) ps \<Longrightarrow> \<forall>p\<in>set ps. part_ok E ds n (fst p) (R p) \<Longrightarrow>
   \<exists>es. merged E ps es \<and> sorted_wrt rank_less es \<and> ge_key ` set es = (\<lambda>p. ge_key (fst p)) ` set ps
     \<and> (\<forall>e\<in>set es. part_ok E ds n e (rows_with_key R (ge_key e) ps))"
proof (induction "length ps" arbitrary: ps rule: less_induct)
  case less
  show ?case
  proof (cases ps)
    case Nil
    then show ?thesis by (auto intro: merged_Nil)
  next
    case (Cons m qs)
    let ?P = "\<lambda>p. ge_key (fst p) = ge_key (fst m)"
    let ?D = "dropWhile ?P qs"
    have sorted: "sorted_wrt (\<lambda>p q. pair_rank p < pair_rank q) (m # qs)" using less.prems(1) Cons by simp
    have ok: "\<forall>p\<in>set (m # qs). element_ok E n (fst p)" using less.prems(2) Cons by (auto simp: part_ok_def)
    obtain g where g: "absorb_list E (fst m) qs = Some (g, ?D)" "ge_key g = ge_key (fst m)"
        "part_ok E ds n g (R m @ concat (map R (takeWhile ?P qs)))"
      using absorb_list_parts [of qs E ds n R "fst m" "R m"] less.prems(2) Cons by auto
    have "length ?D < length ps" using Cons by (simp add: le_imp_less_Suc length_dropWhile_le)
    moreover have "sorted_wrt (\<lambda>p q. pair_rank p < pair_rank q) ?D"
      using sorted by (metis sorted_wrt.simps(2) sorted_wrt_dropWhile)
    moreover have "\<forall>p\<in>set ?D. part_ok E ds n (fst p) (R p)" using less.prems(2) Cons by (auto dest: set_dropWhileD)
    ultimately obtain es where es: "merged E ?D es" "sorted_wrt rank_less es" "ge_key ` set es = (\<lambda>p. ge_key (fst p)) ` set ?D"
        "\<forall>e\<in>set es. part_ok E ds n e (rows_with_key R (ge_key e) ?D)"
      using less.hyps [of ?D] by auto
    have above: "rank_less g e" "ge_key e \<noteq> ge_key (fst m)" if "e \<in> set es" for e
    proof -
      have "ge_key e \<in> (\<lambda>p. ge_key (fst p)) ` set ?D" unfolding es(3) [symmetric] using that by (rule imageI)
      then obtain q where q: "q \<in> set ?D" "ge_key e = ge_key (fst q)" by blast
      have "element_ok E n e" "element_ok E n (fst q)" "element_ok E n g"
        using es(4) g(3) that q ok by (auto simp: part_ok_def dest: set_dropWhileD)
      moreover have "rank_less (fst m) (fst q)" by (rule dropWhile_above [OF sorted ok q(1)])
      ultimately show "rank_less g e" "ge_key e \<noteq> ge_key (fst m)"
        using element_rank_eq [of E n e "fst q"] element_rank_eq [of E n g "fst m"] element_rank_eq [of E n e "fst m"] ok q(2) g(2)
        by (auto simp: rank_less_def)
    qed
    have first: "rows_with_key R (ge_key g) ps = R m @ concat (map R (takeWhile ?P qs))"
      using filter_key_takeWhile [OF sorted ok] Cons g(2) by (simp add: rows_with_key_def)
    have rest: "rows_with_key R (ge_key e) ps = rows_with_key R (ge_key e) ?D" if "e \<in> set es" for e
    proof -
      have "filter (\<lambda>p. ge_key (fst p) = ge_key e) (takeWhile ?P qs) = []"
        using above(2) [OF that] by (auto simp: filter_empty_conv dest: set_takeWhileD)
      then have "filter (\<lambda>p. ge_key (fst p) = ge_key e) qs = filter (\<lambda>p. ge_key (fst p) = ge_key e) ?D"
        using filter_while [of "\<lambda>p. ge_key (fst p) = ge_key e" qs ?P] by simp
      then show ?thesis using above(2) [OF that] Cons by (simp add: rows_with_key_def)
    qed
    have keys: "(\<lambda>p. ge_key (fst p)) ` set ps = insert (ge_key (fst m)) ((\<lambda>p. ge_key (fst p)) ` set ?D)"
    proof -
      have "set qs = set (takeWhile ?P qs) \<union> set ?D" by (metis set_append takeWhile_dropWhile_id)
      then show ?thesis using Cons by (auto dest: set_takeWhileD)
    qed
    have "merged E ps (g # es)" using merged_Cons [OF g(1) es(1)] Cons by simp
    moreover have "sorted_wrt rank_less (g # es)" using es(2) above(1) by simp
    moreover have "ge_key ` set (g # es) = (\<lambda>p. ge_key (fst p)) ` set ps" using keys es(3) g(2) by simp
    moreover have "\<forall>e\<in>set (g # es). part_ok E ds n e (rows_with_key R (ge_key e) ps)" using es(4) g(3) first rest by simp
    ultimately show ?thesis by blast
  qed
qed

end
