(* ===== verification/Groupby_Chunks.thy ===== *)
theory Groupby_Chunks
  imports Groupby_Merge
begin

text \<open>
  What the parts of a segment stand for: a list of elements \<open>represents\<close> rows if it has one element for
  each key, the aggregate of the rows with that key. The buckets, the table, the sorted chunks and the
  merged groups of a segment each represent the rows that went into them.
\<close>

section \<open>Rows and groups\<close>

definition row_ok :: "typed_descriptor list \<Rightarrow> nat \<Rightarrow> flexible_type list \<Rightarrow> bool" where
  "row_ok ds n r \<longleftrightarrow> n \<le> length r \<and> list_all exact_type (take n r) \<and> valid_values ds r"

definition group_rows :: "nat \<Rightarrow> flexible_type list \<Rightarrow> flexible_type list list \<Rightarrow> flexible_type list list" where
  "group_rows n key rows = filter (\<lambda>r. take n r = key) rows"

definition represents :: "flex_env \<Rightarrow> typed_descriptor list \<Rightarrow> nat \<Rightarrow> groupby_element list \<Rightarrow> flexible_type list list \<Rightarrow> bool" where
  "represents E ds n es rows \<longleftrightarrow>
     distinct (map ge_key es) \<and> ge_key ` set es = take n ` set rows
     \<and> (\<forall>e\<in>set es. part_ok E ds n e (group_rows n (ge_key e) rows))"

lemma group_rows_append [simp]: "group_rows n key (rows @ rows') = group_rows n key rows @ group_rows n key rows'"
  by (simp add: group_rows_def)

lemma group_rows_empty: "key \<notin> take n ` set rows \<Longrightarrow> group_rows n key rows = []"
  by (auto simp: group_rows_def filter_empty_conv)

section \<open>Merging chunks\<close>

definition chunk_ok :: "flex_env \<Rightarrow> typed_descriptor list \<Rightarrow> nat \<Rightarrow> groupby_element list \<Rightarrow> flexible_type list list \<Rightarrow> bool" where
  "chunk_ok E ds n es rows \<longleftrightarrow> sorted_wrt rank_less es \<and> represents E ds n es rows"

lemma chunk_okD:
  assumes "chunk_ok E ds n es rows"
  shows "sorted_wrt rank_less es" and "\<And>e. e \<in> set es \<Longrightarrow> element_ok E n e"
    and "ge_key ` set es = take n ` set rows" and "\<And>e. e \<in> set es \<Longrightarrow> part_ok E ds n e (group_rows n (ge_key e) rows)"
  using assms by (simp_all add: chunk_ok_def represents_def part_ok_def)

lemma sorted_distinct_keys:
  "sorted_wrt rank_less es \<Longrightarrow> (\<And>e. e \<in> set es \<Longrightarrow> element_ok E n e) \<Longrightarrow> distinct (map ge_key es)"
proof (induction es)
  case (Cons e es)
  have "ge_key e \<noteq> ge_key f" if "f \<in> set es" for f
    using Cons.prems that element_rank_eq [of E n e f] by (auto simp: rank_less_def)
  then have "ge_key e \<notin> ge_key ` set es" by blast
  with Cons show ?case by simp
qed simp

lemma first_elements_mem:
  "p \<in> set (first_elements i chunks) \<longleftrightarrow>
     i \<le> snd p \<and> snd p < i + length chunks \<and> (\<exists>es. chunks ! (snd p - i) = fst p # es)"
proof (induction i chunks rule: first_elements.induct)
  case (2 i chunks)
  then show ?case by (auto simp: nth_Cons' Suc_le_eq less_Suc_eq_le)
next
  case (3 i e es chunks)
  then show ?case by (cases p) (auto simp: nth_Cons' Suc_le_eq less_Suc_eq_le)
qed simp

lemma first_elements_distinct: "distinct (map snd (first_elements i chunks))"
proof (induction i chunks rule: first_elements.induct)
  case (3 i e es chunks)
  have "i \<notin> snd ` set (first_elements (Suc i) chunks)" by (auto simp: first_elements_mem)
  with 3 show ?case by simp
qed simp_all

lemma first_queue_ok:
  assumes "\<forall>es\<in>set chunks. sorted_wrt rank_less es \<and> (\<forall>e\<in>set es. element_ok E n e)"
  shows "queue_ok E n (first_elements 0 chunks) (map tl chunks)"
proof -
  have head: "element_ok E n (fst p) \<and> snd p < length (map tl chunks) \<and> sorted_wrt rank_less (fst p # map tl chunks ! snd p)"
    if p: "p \<in> set (first_elements 0 chunks)" for p
  proof -
    obtain es where es: "snd p < length chunks" "chunks ! snd p = fst p # es" using p by (auto simp: first_elements_mem)
    then have "fst p # es \<in> set chunks" by (metis nth_mem)
    with assms es show ?thesis by auto
  qed
  have rest: "element_ok E n e" if "i < length chunks" "e \<in> set (map tl chunks ! i)" for i e
    using assms that nth_mem [of i chunks] by (cases "chunks ! i") force+
  have "i \<in> snd ` set (first_elements 0 chunks)" if i: "i < length chunks" "map tl chunks ! i \<noteq> []" for i
  proof -
    obtain e es where "chunks ! i = e # es" using i by (cases "chunks ! i") auto
    then have "(e, i) \<in> set (first_elements 0 chunks)" using i by (simp add: first_elements_mem)
    then show ?thesis by force
  qed
  with head rest show ?thesis
    unfolding queue_ok_def by (simp add: first_elements_distinct del: sorted_wrt.simps nth_map)
qed

lemma first_queue_content:
  "queue_content (first_elements 0 chunks) (map tl chunks) = {p. snd p < length chunks \<and> fst p \<in> set (chunks ! snd p)}"
proof -
  have "p \<in> queue_content (first_elements 0 chunks) (map tl chunks) \<longleftrightarrow> snd p < length chunks \<and> fst p \<in> set (chunks ! snd p)" for p
    by (cases "snd p < length chunks"; cases "chunks ! snd p") (auto simp: queue_content_def first_elements_mem)
  then show ?thesis by blast
qed

lemma concat_filter_nonempty: "(\<And>x. x \<in> set xs \<Longrightarrow> \<not> P x \<Longrightarrow> f x = []) \<Longrightarrow> concat (map f (filter P xs)) = concat (map f xs)"
  by (induction xs) auto

lemma concat_sparse:
  assumes "sorted_wrt (<) ids" and "set ids \<subseteq> {..<n}" and "\<And>i. i < n \<Longrightarrow> i \<notin> set ids \<Longrightarrow> f i = []"
  shows "concat (map f ids) = concat (map f [0..<n])"
proof -
  have "ids = filter (\<lambda>i. i \<in> set ids) [0..<n]"
    by (rule strict_sorted_equal) (use assms(1,2) in \<open>auto intro: sorted_wrt_filter\<close>)
  moreover have "concat (map f (filter (\<lambda>i. i \<in> set ids) [0..<n])) = concat (map f [0..<n])"
    by (rule concat_filter_nonempty) (use assms(3) in auto)
  ultimately show ?thesis by simp
qed

lemma rows_with_key_group:
  assumes chunks: "list_all2 (chunk_ok E ds n) chunks batches"
    and ps: "set ps = {p. snd p < length chunks \<and> fst p \<in> set (chunks ! snd p)}"
      "sorted_wrt (\<lambda>p q. pair_rank p < pair_rank q) ps"
  shows "rows_with_key (\<lambda>p. group_rows n (ge_key (fst p)) (batches ! snd p)) key ps = group_rows n key (concat batches)"
proof -
  let ?qs = "filter (\<lambda>p. ge_key (fst p) = key) ps"
  let ?f = "\<lambda>i. group_rows n key (batches ! i)"
  have len: "length chunks = length batches" using chunks by (rule list_all2_lengthD)
  have chunk: "chunk_ok E ds n (chunks ! i) (batches ! i)" if "i < length chunks" for i
    using list_all2_nthD [OF chunks that] .
  have ok: "element_ok E n (fst p)" if p: "p \<in> set ps" for p
    using chunk [of "snd p"] p ps(1) by (auto simp: chunk_ok_def represents_def part_ok_def)
  have less: "snd p < snd q" if "p \<in> set ?qs" "q \<in> set ?qs" "pair_rank p < pair_rank q" for p q
    using that element_rank_eq [of E n "fst p" "fst q"] ok by (auto simp: pair_rank_def less_prod_simp)
  have "sorted_wrt (\<lambda>p q. snd p < snd q) ?qs"
    using sorted_wrt_filter [OF ps(2)] by (rule sorted_wrt_mono_rel [rotated]) (rule less)
  then have "sorted_wrt (<) (map snd ?qs)" by (simp add: sorted_wrt_map)
  moreover have "set (map snd ?qs) \<subseteq> {..<length batches}" using ps(1) len by auto
  moreover have "?f i = []" if i: "i < length batches" "i \<notin> set (map snd ?qs)" for i
  proof (rule group_rows_empty)
    have "key \<notin> ge_key ` set (chunks ! i)"
    proof
      assume "key \<in> ge_key ` set (chunks ! i)"
      then obtain e where "e \<in> set (chunks ! i)" "key = ge_key e" by blast
      then have "(e, i) \<in> set ?qs" using ps(1) i(1) len by simp
      then have "i \<in> set (map snd ?qs)" by force
      with i(2) show False by simp
    qed
    then show "key \<notin> take n ` set (batches ! i)" using chunk [of i] i len by (simp add: chunk_ok_def represents_def)
  qed
  ultimately have "concat (map ?f (map snd ?qs)) = concat (map ?f [0..<length batches])" by (rule concat_sparse)
  moreover have "map (\<lambda>p. group_rows n (ge_key (fst p)) (batches ! snd p)) ?qs = map ?f (map snd ?qs)" by simp
  moreover have "map ?f [0..<length batches] = map (group_rows n key) batches"
    by (rule nth_equalityI) simp_all
  moreover have "concat (map (group_rows n key) batches) = group_rows n key (concat batches)"
    by (induction batches) (simp_all add: group_rows_def)
  ultimately show ?thesis unfolding rows_with_key_def by (simp only:)
qed

lemma chunks_merge:
  assumes chunks: "list_all2 (chunk_ok E ds n) chunks batches"
  shows "\<exists>es. represents E ds n es (concat batches)
    \<and> (\<forall>rows. those (map (emission E) es) = Some rows \<longrightarrow> merge_chunks E (first_elements 0 chunks) (map tl chunks) = Some rows)"
proof -
  let ?R = "\<lambda>p. group_rows n (ge_key (fst p)) (batches ! snd p)"
  have len: "length chunks = length batches" using chunks by (rule list_all2_lengthD)
  have chunk: "chunk_ok E ds n (chunks ! i) (batches ! i)" if "i < length chunks" for i
    using list_all2_nthD [OF chunks that] .
  have "\<forall>es\<in>set chunks. sorted_wrt rank_less es \<and> (\<forall>e\<in>set es. element_ok E n e)"
    using chunks by (induction rule: list_all2_induct) (auto dest: chunk_okD)
  from pops_sorted [OF first_queue_ok [OF this]] obtain ps where ps:
      "pops E (first_elements 0 chunks) (map tl chunks) ps"
      "set ps = {p. snd p < length chunks \<and> fst p \<in> set (chunks ! snd p)}"
      "sorted_wrt (\<lambda>p q. pair_rank p < pair_rank q) ps"
    unfolding first_queue_content by blast
  have "\<forall>p\<in>set ps. part_ok E ds n (fst p) (?R p)"
    using ps(2) chunk by (auto simp: chunk_ok_def represents_def)
  from merged_parts [OF ps(3) this] obtain es where es: "merged E ps es" "sorted_wrt rank_less es"
      "ge_key ` set es = (\<lambda>p. ge_key (fst p)) ` set ps" "\<forall>e\<in>set es. part_ok E ds n e (rows_with_key ?R (ge_key e) ps)"
    by blast
  have "distinct (map ge_key es)"
    using es(2,4) by (intro sorted_distinct_keys) (auto simp: part_ok_def)
  moreover have "ge_key ` set es = take n ` set (concat batches)"
  proof -
    have "set ps = (\<Union>i\<in>{..<length chunks}. (\<lambda>e. (e, i)) ` set (chunks ! i))" unfolding ps(2) by auto
    then have "(\<lambda>p. ge_key (fst p)) ` set ps = (\<Union>i\<in>{..<length chunks}. ge_key ` set (chunks ! i))"
      by (simp add: image_UN image_image)
    also have "\<dots> = (\<Union>i\<in>{..<length batches}. take n ` set (batches ! i))"
      using chunk_okD(3) [OF chunk] len by simp
    also have "\<dots> = (\<Union>b\<in>set batches. take n ` set b)" by (simp add: set_conv_nth [of batches] Union_eq image_iff) blast
    also have "\<dots> = take n ` set (concat batches)" by (simp add: image_UN)
    finally show ?thesis using es(3) by simp
  qed
  ultimately have "represents E ds n es (concat batches)"
    using es(4) rows_with_key_group [OF chunks ps(2,3)] by (simp add: represents_def)
  with merge_pops [OF es(1) ps(1)] show ?thesis by blast
qed

section \<open>Buckets and tables\<close>

lemma bucket_add_missing:
  assumes "\<forall>e\<in>set b. list_all exact_type (ge_key e) \<and> ge_key e \<noteq> take n r" and "list_all exact_type (take n r)"
  shows "bucket_add E desc r n b = map_option (\<lambda>e. b @ [e]) (element_add E r desc (element_init E desc (take n r)))"
  using assms by (induction b) (auto simp: vector_equality_rank option.map_comp o_def)

lemma bucket_add_found:
  assumes "\<forall>f\<in>set b1. list_all exact_type (ge_key f) \<and> ge_key f \<noteq> take n r" and "list_all exact_type (take n r)"
    and "ge_key e = take n r"
  shows "bucket_add E desc r n (b1 @ e # b2) = map_option (\<lambda>e. b1 @ e # b2) (element_add E r desc e)"
  using assms by (induction b1) (auto simp: vector_equality_rank option.map_comp o_def)

lemma part_ok_exact: "part_ok E ds n e rs \<Longrightarrow> list_all exact_type (ge_key e)"
  by (simp add: part_ok_def element_ok_def ranked_key_def)

lemma row_ok_key: "row_ok ds n r \<Longrightarrow> list_all exact_type (take n r) \<and> ranked_key n (take n r) \<and> valid_values ds r"
  by (simp add: row_ok_def ranked_key_def)

lemma part_ok_add:
  assumes "part_ok E ds n e rs" and "row_ok ds n r"
  obtains f where "element_add E r (map fst ds) e = Some f" and "part_ok E ds n f (rs @ [r])" and "ge_key f = ge_key e"
proof -
  have valid: "list_all (valid_values ds) (rs @ [r])" "rs @ [r] \<noteq> []"
    using assms by (auto simp: part_ok_def row_ok_def)
  obtain f where f: "group_element E (map fst ds) (ge_key e) (rs @ [r]) = Some f"
    by (rule group_element_exists [OF valid]) (rule that)
  then have "element_add E r (map fst ds) e = Some f"
    using group_element_add [of E "map fst ds" "ge_key e" rs e r] assms(1) by (simp add: part_ok_def)
  moreover have "part_ok E ds n f (rs @ [r])"
    using f valid group_element_key [OF f] assms(1) by (simp add: part_ok_def element_ok_def)
  ultimately show thesis using group_element_key [OF f] that [of f] by blast
qed

lemma part_ok_new:
  assumes "row_ok ds n r"
  obtains f where "element_add E r (map fst ds) (element_init E (map fst ds) (take n r)) = Some f"
    and "part_ok E ds n f [r]" and "ge_key f = take n r"
proof -
  have valid: "list_all (valid_values ds) [r]" "[r] \<noteq> []" using assms by (auto simp: row_ok_def)
  obtain f where f: "group_element E (map fst ds) (take n r) [r] = Some f"
    by (rule group_element_exists [OF valid]) (rule that)
  have "group_element E (map fst ds) (take n r) [] = Some (element_init E (map fst ds) (take n r))"
    by (simp add: group_element_def element_init_def)
  from group_element_add [OF this, of r] f
  have "element_add E r (map fst ds) (element_init E (map fst ds) (take n r)) = Some f" by simp
  moreover have "part_ok E ds n f [r]"
    using f valid group_element_key [OF f] row_ok_key [OF assms] by (simp add: part_ok_def element_ok_def)
  ultimately show thesis using group_element_key [OF f] that [of f] by blast
qed

lemma bucket_add_represents:
  assumes b: "represents E ds n b rows" and r: "row_ok ds n r"
  shows "\<exists>b'. bucket_add E (map fst ds) r n b = Some b' \<and> represents E ds n b' (rows @ [r])"
proof (cases "take n r \<in> ge_key ` set b")
  case False
  obtain f where f: "element_add E r (map fst ds) (element_init E (map fst ds) (take n r)) = Some f"
      "part_ok E ds n f [r]" "ge_key f = take n r"
    by (rule part_ok_new [OF r]) (rule that)
  have add: "bucket_add E (map fst ds) r n b = Some (b @ [f])"
  proof -
    have "\<forall>e\<in>set b. ge_key e \<noteq> take n r" using False by (metis imageI)
    moreover have "\<forall>e\<in>set b. list_all exact_type (ge_key e)" using b part_ok_exact by (auto simp: represents_def)
    ultimately show ?thesis using r f(1) by (subst bucket_add_missing) (simp_all add: row_ok_def)
  qed
  have new: "group_rows n (take n r) rows = []" using False b by (intro group_rows_empty) (simp add: represents_def)
  have old: "group_rows n (ge_key e) [r] = []" if "e \<in> set b" for e
    using that False by (simp add: group_rows_def) (metis imageI)
  have "represents E ds n (b @ [f]) (rows @ [r])"
    using b f(2,3) False new old by (auto simp: represents_def) (simp_all add: group_rows_def)
  with add show ?thesis by blast
next
  case True
  then obtain e b1 b2 where e: "b = b1 @ e # b2" "ge_key e = take n r" by (metis imageE split_list)
  then have pe: "part_ok E ds n e (group_rows n (take n r) rows)" and
    others: "\<forall>g\<in>set b1 \<union> set b2. ge_key g \<noteq> take n r \<and> part_ok E ds n g (group_rows n (ge_key g) rows)"
    using b by (auto simp: represents_def) (metis imageI)+
  obtain f where f: "element_add E r (map fst ds) e = Some f" "part_ok E ds n f (group_rows n (take n r) rows @ [r])"
      "ge_key f = take n r"
    using part_ok_add [OF pe r] e(2) by metis
  have add: "bucket_add E (map fst ds) r n b = Some (b1 @ f # b2)"
    unfolding e(1) using others r e(2) f(1)
    by (subst bucket_add_found) (auto simp: row_ok_def dest: part_ok_exact)
  have old: "group_rows n (ge_key g) [r] = []" if "g \<in> set b1 \<union> set b2" for g
    using others that by (auto simp: group_rows_def)
  have self: "group_rows n (take n r) [r] = [r]" by (simp add: group_rows_def)
  have "represents E ds n (b1 @ f # b2) (rows @ [r])"
    unfolding represents_def
  proof (intro conjI ballI)
    show "distinct (map ge_key (b1 @ f # b2))" using b e f(3) by (simp add: represents_def)
    have "ge_key ` set (b1 @ f # b2) = ge_key ` set b" using e f(3) by auto
    then show "ge_key ` set (b1 @ f # b2) = take n ` set (rows @ [r])" using b True by (auto simp: represents_def)
    fix g assume "g \<in> set (b1 @ f # b2)"
    then consider "g = f" | "g \<in> set b1 \<union> set b2" by auto
    then show "part_ok E ds n g (group_rows n (ge_key g) (rows @ [r]))"
      by cases (use f self others old in auto)
  qed
  with add show ?thesis by blast
qed

text \<open>The bucket of a hash represents the rows whose key has that hash.\<close>

definition hash_rows :: "flex_env \<Rightarrow> nat \<Rightarrow> u64 \<Rightarrow> flexible_type list list \<Rightarrow> flexible_type list list" where
  "hash_rows E n h rows = filter (\<lambda>r. hash_key E (take n r) = h) rows"

definition table_ok :: "flex_env \<Rightarrow> typed_descriptor list \<Rightarrow> nat \<Rightarrow> (u64 \<times> groupby_element list) list \<Rightarrow>
    flexible_type list list \<Rightarrow> bool" where
  "table_ok E ds n t rows \<longleftrightarrow> distinct (map fst t)
     \<and> (\<forall>(h, b)\<in>set t. represents E ds n b (hash_rows E n h rows))
     \<and> (\<forall>r\<in>set rows. hash_key E (take n r) \<in> fst ` set t)"

lemma represents_Nil [simp]: "represents E ds n [] []"
  by (simp add: represents_def)

lemma table_add_buckets:
  assumes "row_ok ds n r"
  shows "distinct (map fst t) \<Longrightarrow> (\<forall>(k, b)\<in>set t. represents E ds n b (R k)) \<Longrightarrow> (h \<notin> fst ` set t \<Longrightarrow> R h = []) \<Longrightarrow>
    \<exists>t'. table_add E (map fst ds) r n h t = Some t' \<and> fst ` set t' = insert h (fst ` set t) \<and> distinct (map fst t')
      \<and> (\<forall>(k, b)\<in>set t'. represents E ds n b (if k = h then R k @ [r] else R k))"
proof (induction t)
  case Nil
  then show ?case using bucket_add_represents [OF represents_Nil assms, of E] by auto
next
  case (Cons kb t)
  obtain k b where kb: "kb = (k, b)" by force
  show ?case
  proof (cases "k = h")
    case True
    obtain b' where "bucket_add E (map fst ds) r n b = Some b'" "represents E ds n b' (R k @ [r])"
      using bucket_add_represents [of E ds n b "R k" r] Cons.prems(2) assms kb by auto
    moreover have "fst x \<noteq> h" if "x \<in> set t" for x using Cons.prems(1) kb True that by force
    then have "\<forall>(k, b)\<in>set t. represents E ds n b (if k = h then R k @ [r] else R k)"
      using Cons.prems(2) by (auto split: prod.splits) force
    ultimately show ?thesis using Cons.prems(1) kb True by auto
  next
    case False
    obtain t' where t': "table_add E (map fst ds) r n h t = Some t'" "fst ` set t' = insert h (fst ` set t)"
        "distinct (map fst t')" "\<forall>(k, b)\<in>set t'. represents E ds n b (if k = h then R k @ [r] else R k)"
      using Cons.IH Cons.prems kb False by auto
    then have "k \<notin> fst ` set t'" using Cons.prems(1) kb False by auto
    with t' Cons.prems kb False show ?thesis by auto
  qed
qed

lemma table_add_ok:
  assumes "row_ok ds n r" and "table_ok E ds n t rows" and "h = hash_key E (take n r)"
  shows "\<exists>t'. table_add E (map fst ds) r n h t = Some t' \<and> table_ok E ds n t' (rows @ [r]) \<and> t' \<noteq> []"
proof -
  have "hash_rows E n h rows = []" if "h \<notin> fst ` set t"
    using assms(2) that unfolding table_ok_def hash_rows_def by (auto simp: filter_empty_conv)
  then obtain t' where t': "table_add E (map fst ds) r n h t = Some t'" "fst ` set t' = insert h (fst ` set t)"
      "distinct (map fst t')"
      "\<forall>(k, b)\<in>set t'. represents E ds n b (if k = h then hash_rows E n k rows @ [r] else hash_rows E n k rows)"
    using table_add_buckets [OF assms(1), of t E "\<lambda>k. hash_rows E n k rows" h] assms(2) by (auto simp: table_ok_def)
  have "hash_rows E n k (rows @ [r]) = (if k = h then hash_rows E n k rows @ [r] else hash_rows E n k rows)" for k
    using assms(3) by (auto simp: hash_rows_def)
  with t' assms(2,3) show ?thesis by (auto simp: table_ok_def)
qed

lemma element_insort_sorted:
  "element_ok E n e \<Longrightarrow> \<forall>f\<in>set fs. element_ok E n f \<and> ge_key f \<noteq> ge_key e \<Longrightarrow> sorted_wrt rank_less fs \<Longrightarrow>
   \<exists>gs. element_insort E e fs = Some gs \<and> sorted_wrt rank_less gs \<and> set gs = insert e (set fs)"
proof (induction fs)
  case (Cons f fs)
  have less: "element_less E e f = Some (element_rank e < element_rank f)"
    using Cons.prems by (intro element_less_rank [of E n]) simp_all
  show ?case
  proof (cases "element_rank e < element_rank f")
    case True
    with less Cons.prems show ?thesis by (auto simp: rank_less_def)
  next
    case False
    then have "rank_less f e" using Cons.prems element_rank_eq [of E n e f] by (auto simp: rank_less_def)
    moreover obtain gs where "element_insort E e fs = Some gs" "sorted_wrt rank_less gs" "set gs = insert e (set fs)"
      using Cons by auto
    ultimately show ?thesis using False less Cons.prems by auto
  qed
qed simp

lemma element_sort_sorted:
  "\<forall>e\<in>set es. element_ok E n e \<Longrightarrow> distinct (map ge_key es) \<Longrightarrow>
   \<exists>gs. element_sort E es = Some gs \<and> sorted_wrt rank_less gs \<and> set gs = set es"
proof (induction es)
  case (Cons e es)
  then obtain gs where gs: "element_sort E es = Some gs" "sorted_wrt rank_less gs" "set gs = set es" by auto
  have "\<forall>f\<in>set gs. element_ok E n f \<and> ge_key f \<noteq> ge_key e" using Cons.prems gs(3) by (auto simp: image_iff)
  with element_insort_sorted [of E n e gs] gs Cons.prems(1) show ?case by simp
qed simp

lemma sort_buckets_sorted:
  "sorted_wrt (\<lambda>x y. fst x < fst y) t \<Longrightarrow>
   \<forall>x\<in>set t. distinct (map ge_key (snd x)) \<and> (\<forall>e\<in>set (snd x). element_ok E n e \<and> ge_hash e = fst x) \<Longrightarrow>
   \<exists>es. sort_buckets E t = Some es \<and> sorted_wrt rank_less es \<and> set es = (\<Union>x\<in>set t. set (snd x))"
proof (induction t)
  case (Cons x t)
  obtain h b where x: "x = (h, b)" by force
  obtain gs where gs: "element_sort E b = Some gs" "sorted_wrt rank_less gs" "set gs = set b"
    using element_sort_sorted [of b E n] Cons.prems(2) x by auto
  obtain es where es: "sort_buckets E t = Some es" "sorted_wrt rank_less es" "set es = (\<Union>x\<in>set t. set (snd x))"
    using Cons.IH Cons.prems by auto
  have "rank_less e f" if e: "e \<in> set gs" and f: "f \<in> set es" for e f
  proof -
    obtain y where y: "y \<in> set t" "f \<in> set (snd y)" using f es(3) by blast
    then have "ge_hash f = fst y" "h < fst y" using Cons.prems x by auto
    moreover have "ge_hash e = h" using e gs(3) Cons.prems(2) x by auto
    ultimately show ?thesis by (simp add: rank_less_def element_rank_def less_prod_simp)
  qed
  with gs es x show ?case by (auto simp: sorted_wrt_append)
qed simp

lemma group_hash_rows: "hash_key E key = h \<Longrightarrow> group_rows n key (hash_rows E n h rows) = group_rows n key rows"
  by (auto simp: group_rows_def hash_rows_def filter_filter intro: filter_cong)

lemma bucket_hash:
  assumes "represents E ds n b (hash_rows E n h rows)" and "e \<in> set b"
  shows "hash_key E (ge_key e) = h" and "element_ok E n e" and "ge_hash e = h"
    and "part_ok E ds n e (group_rows n (ge_key e) rows)"
proof -
  have "ge_key e \<in> take n ` set (hash_rows E n h rows)" using assms by (auto simp: represents_def)
  then show h: "hash_key E (ge_key e) = h" by (auto simp: hash_rows_def)
  have part: "part_ok E ds n e (group_rows n (ge_key e) (hash_rows E n h rows))" using assms by (simp add: represents_def)
  then show "element_ok E n e" by (simp add: part_ok_def)
  then show "ge_hash e = h" using h by (simp add: element_ok_def)
  show "part_ok E ds n e (group_rows n (ge_key e) rows)" using part group_hash_rows [OF h] by simp
qed

lemma table_flush:
  assumes t: "table_ok E ds n t rows"
  shows "\<exists>es. sort_buckets E (sort_key fst t) = Some es \<and> chunk_ok E ds n es rows"
proof -
  have rep: "represents E ds n (snd x) (hash_rows E n (fst x) rows)" if "x \<in> set t" for x
    using t that by (auto simp: table_ok_def)
  have "distinct (map fst (sort_key fst t))"
    using t by (simp add: table_ok_def distinct_map)
  then have "sorted_wrt (<) (map fst (sort_key fst t))" by (simp add: strict_sorted_iff)
  then have "sorted_wrt (\<lambda>x y. fst x < fst y) (sort_key fst t)" by (simp add: sorted_wrt_map)
  moreover have "\<forall>x\<in>set (sort_key fst t). distinct (map ge_key (snd x)) \<and> (\<forall>e\<in>set (snd x). element_ok E n e \<and> ge_hash e = fst x)"
  proof -
    have "\<forall>x\<in>set t. distinct (map ge_key (snd x))" using rep by (simp add: represents_def)
    moreover have "\<forall>x\<in>set t. \<forall>e\<in>set (snd x). element_ok E n e \<and> ge_hash e = fst x"
      using rep bucket_hash(2,3) by blast
    ultimately show ?thesis by simp
  qed
  ultimately obtain es where es: "sort_buckets E (sort_key fst t) = Some es" "sorted_wrt rank_less es"
      "set es = (\<Union>x\<in>set t. set (snd x))"
    using sort_buckets_sorted [of "sort_key fst t" E n] by auto
  have part: "part_ok E ds n e (group_rows n (ge_key e) rows)" if e: "e \<in> set es" for e
    using e es(3) rep bucket_hash(4) by blast
  have "ge_key ` set es = (\<Union>x\<in>set t. take n ` set (hash_rows E n (fst x) rows))"
    using rep by (simp add: es(3) image_UN represents_def)
  also have "\<dots> = take n ` set rows"
  proof
    show "(\<Union>x\<in>set t. take n ` set (hash_rows E n (fst x) rows)) \<subseteq> take n ` set rows" by (auto simp: hash_rows_def)
    show "take n ` set rows \<subseteq> (\<Union>x\<in>set t. take n ` set (hash_rows E n (fst x) rows))"
    proof
      fix key assume "key \<in> take n ` set rows"
      then obtain r where r: "r \<in> set rows" "key = take n r" by blast
      then obtain x where "x \<in> set t" "hash_key E (take n r) = fst x" using t unfolding table_ok_def by (metis imageE)
      with r show "key \<in> (\<Union>x\<in>set t. take n ` set (hash_rows E n (fst x) rows))" by (force simp: hash_rows_def)
    qed
  qed
  finally have "ge_key ` set es = take n ` set rows" .
  moreover have "distinct (map ge_key es)" by (rule sorted_distinct_keys [OF es(2)]) (use part in \<open>auto simp: part_ok_def\<close>)
  ultimately have "represents E ds n es rows" using part by (simp add: represents_def)
  with es show ?thesis by (auto simp: chunk_ok_def)
qed

section \<open>Segments\<close>

definition segment_ok :: "flex_env \<Rightarrow> typed_descriptor list \<Rightarrow> nat \<Rightarrow> segment_information \<Rightarrow> flexible_type list list \<Rightarrow> bool" where
  "segment_ok E ds n s rows \<longleftrightarrow>
     (\<exists>batches cur. rows = concat batches @ cur \<and> sum_list (chunk_size s) = length (written s)
       \<and> list_all2 (chunk_ok E ds n) (split_chunks (chunk_size s) (written s)) batches \<and> table_ok E ds n (elements s) cur)"

lemma split_chunks_append:
  "sum_list ns = length es \<Longrightarrow> split_chunks (ns @ [length fs]) (es @ fs) = split_chunks ns es @ [fs]"
  by (induction ns arbitrary: es) auto

lemma table_ok_Nil [simp]: "table_ok E ds n [] rows \<longleftrightarrow> rows = []"
  by (auto simp: table_ok_def)

lemma segment_new: "segment_ok E ds n \<lparr>elements = [], written = [], chunk_size = []\<rparr> []"
  unfolding segment_ok_def by (intro exI [of _ "[]"]) simp

lemma segment_add:
  assumes "segment_ok E ds n s rows" and "row_ok ds n r"
  shows "\<exists>t. table_add E (map fst ds) r n (hash_key E (take n r)) (elements s) = Some t
    \<and> segment_ok E ds n (s\<lparr>elements := t\<rparr>) (rows @ [r])"
proof -
  obtain batches cur where s: "rows = concat batches @ cur" "sum_list (chunk_size s) = length (written s)"
      "list_all2 (chunk_ok E ds n) (split_chunks (chunk_size s) (written s)) batches" "table_ok E ds n (elements s) cur"
    using assms(1) by (auto simp: segment_ok_def)
  obtain t where "table_add E (map fst ds) r n (hash_key E (take n r)) (elements s) = Some t" "table_ok E ds n t (cur @ [r])"
    using table_add_ok [OF assms(2) s(4) refl] by blast
  with s show ?thesis unfolding segment_ok_def by (intro exI [of _ t] conjI exI [of _ batches] exI [of _ "cur @ [r]"]) simp_all
qed

lemma segment_flush:
  assumes "segment_ok E ds n s rows"
  shows "\<exists>s'. flush_segment E s = Some s' \<and> segment_ok E ds n s' rows \<and> elements s' = []"
proof (cases "elements s = []")
  case True
  then show ?thesis using assms by (simp add: flush_segment_def)
next
  case False
  obtain batches cur where s: "rows = concat batches @ cur" "sum_list (chunk_size s) = length (written s)"
      "list_all2 (chunk_ok E ds n) (split_chunks (chunk_size s) (written s)) batches" "table_ok E ds n (elements s) cur"
    using assms by (auto simp: segment_ok_def)
  obtain es where es: "sort_buckets E (sort_key fst (elements s)) = Some es" "chunk_ok E ds n es cur"
    using table_flush [OF s(4)] by blast
  let ?s = "\<lparr>elements = [], written = written s @ es, chunk_size = chunk_size s @ [length es]\<rparr>"
  have "segment_ok E ds n ?s rows"
    unfolding segment_ok_def using s es(2)
    by (intro exI [of _ "batches @ [cur]"] exI [of _ "[]"]) (simp add: split_chunks_append list_all2_appendI)
  moreover have "flush_segment E s = Some ?s" using False es(1) by (simp add: flush_segment_def)
  ultimately show ?thesis by simp
qed

lemma segment_write:
  assumes "segment_ok E ds n s rows" and "elements s = []"
  shows "\<exists>es. represents E ds n es rows
    \<and> (\<forall>out. those (map (emission E) es) = Some out \<longrightarrow> group_and_write_segment E s = Some out)"
proof -
  obtain batches where s: "rows = concat batches"
      "list_all2 (chunk_ok E ds n) (split_chunks (chunk_size s) (written s)) batches"
    using assms by (auto simp: segment_ok_def)
  show ?thesis using chunks_merge [OF s(2)] s(1) by (simp add: group_and_write_segment_def Let_def)
qed

end
