(* ===== verification/Groupby_Correct.thy ===== *)
theory Groupby_Correct
  imports Groupby_Chunks
begin

text \<open>
  The group-by as a whole: whatever the size of the buffer, the number of segments and the hash function,
  the output has one row for each distinct key, with the results of the aggregators on the rows that have
  the key, in the order in which they were added.
\<close>

section \<open>The row of a group\<close>

definition group_result :: "flex_env \<Rightarrow> group_descriptor list \<Rightarrow> flexible_type list \<Rightarrow> flexible_type list list \<Rightarrow>
    flexible_type list option" where
  "group_result E desc key rs =
     map_option ((@) key) (those (map (\<lambda>d. reference_result E (gd_aggregator d) (map (column_values d) rs)) desc))"

lemma feed_values_nth:
  "feed_values E r desc as = Some bs \<Longrightarrow> length as = length desc \<Longrightarrow>
   length bs = length desc \<and> (\<forall>i<length desc. feed E (column_values (desc ! i) r) (as ! i) = Some (bs ! i))"
proof (induction E r desc as arbitrary: bs rule: feed_values.induct)
  case (3 E r d ds a as)
  then obtain b bs' where "feed E (column_values d r) a = Some b" "feed_values E r ds as = Some bs'" "bs = b # bs'"
    by (auto split: bind_splits)
  with 3 show ?case by (auto simp: nth_Cons split: nat.splits)
qed auto

lemma feed_rows_nth:
  "feed_rows E desc rs as = Some bs \<Longrightarrow> length as = length desc \<Longrightarrow>
   length bs = length desc \<and> (\<forall>i<length desc. feed_all E (map (column_values (desc ! i)) rs) (as ! i) = Some (bs ! i))"
proof (induction rs arbitrary: as)
  case (Cons r rs)
  then obtain cs where "feed_values E r desc as = Some cs" "feed_rows E desc rs cs = Some bs" by (auto split: bind_splits)
  with Cons.IH [of cs] feed_values_nth [of E r desc as cs] Cons.prems show ?case by simp
qed simp

lemma those_nth:
  "length xs = length ys \<Longrightarrow> (\<forall>i<length xs. xs ! i = Some (ys ! i)) \<Longrightarrow> those xs = Some ys"
proof (induction xs arbitrary: ys)
  case (Cons x xs)
  then show ?case by (cases ys) (fastforce simp: nth_Cons split: nat.splits)+
qed simp

lemma valid_values_nth:
  "valid_values ds r \<Longrightarrow> i < length ds \<Longrightarrow> valid_input (snd (ds ! i)) (gd_aggregator (fst (ds ! i))) (column_values (fst (ds ! i)) r)"
  by (auto simp: valid_values_def list_all_length split: prod.splits)

lemma group_emission:
  assumes "part_ok E ds n e rs"
  shows "\<exists>row. emission E e = Some row \<and> group_result E (map fst ds) (ge_key e) rs = Some row \<and> take n row = ge_key e"
proof -
  let ?p = "\<lambda>i. gd_aggregator (fst (ds ! i))"
  let ?xs = "\<lambda>i. map (column_values (fst (ds ! i))) rs"
  have feed: "feed_rows E (map fst ds) rs (new_values (map fst ds)) = Some (ge_values e)"
    using assms by (auto simp: part_ok_def group_element_def) (metis groupby_element.select_convs(2))
  have len: "length (ge_values e) = length ds" using feed_rows_nth [OF feed] by simp
  have "\<exists>v. emit E (ge_values e ! i) = Some v \<and> reference_result E (?p i) (?xs i) = Some v" if i: "i < length ds" for i
  proof -
    have "list_all (valid_input (snd (ds ! i)) (?p i)) (?xs i)" "?xs i \<noteq> []"
      using assms i by (auto simp: part_ok_def list_all_iff valid_values_nth)
    from aggregate_result_exists [OF this, of E] feed_rows_nth [OF feed] i show ?thesis by auto
  qed
  then obtain v where v: "\<And>i. i < length ds \<Longrightarrow> emit E (ge_values e ! i) = Some (v i) \<and> reference_result E (?p i) (?xs i) = Some (v i)"
    by metis
  have "those (map (emit E) (ge_values e)) = Some (map v [0..<length ds])" by (rule those_nth) (use v len in auto)
  moreover have "those (map (\<lambda>d. reference_result E (gd_aggregator d) (map (column_values d) rs)) (map fst ds))
      = Some (map v [0..<length ds])" by (rule those_nth) (use v in auto)
  moreover have "length (ge_key e) = n" using assms by (simp add: part_ok_def element_ok_def ranked_key_def)
  ultimately show ?thesis by (simp add: emission_def group_result_def)
qed

lemma represents_emission:
  assumes "represents E ds n es rows"
  shows "\<exists>out. those (map (emission E) es) = Some out \<and> map (take n) out = map ge_key es
    \<and> (\<forall>row\<in>set out. group_result E (map fst ds) (take n row) (group_rows n (take n row) rows) = Some row)"
proof -
  have "\<exists>row. emission E e = Some row \<and> group_result E (map fst ds) (ge_key e) (group_rows n (ge_key e) rows) = Some row
      \<and> take n row = ge_key e" if "e \<in> set es" for e
    using assms that by (intro group_emission) (simp add: represents_def)
  then show ?thesis
  proof (induction es)
    case (Cons e es)
    then obtain row where row: "emission E e = Some row" "take n row = ge_key e"
        "group_result E (map fst ds) (ge_key e) (group_rows n (ge_key e) rows) = Some row" by force
    obtain out where "those (map (emission E) es) = Some out" "map (take n) out = map ge_key es"
        "\<forall>row\<in>set out. group_result E (map fst ds) (take n row) (group_rows n (take n row) rows) = Some row"
      using Cons by force
    with row show ?case by simp
  qed simp
qed

section \<open>The container\<close>

definition segment_rows :: "flex_env \<Rightarrow> nat \<Rightarrow> nat \<Rightarrow> nat \<Rightarrow> flexible_type list list \<Rightarrow> flexible_type list list" where
  "segment_rows E n m i rows = filter (\<lambda>r. unat (hash_key E (take n r)) mod m = i) rows"

definition container_ok :: "flex_env \<Rightarrow> typed_descriptor list \<Rightarrow> nat \<Rightarrow> nat \<Rightarrow> group_aggregate_container \<Rightarrow>
    flexible_type list list \<Rightarrow> bool" where
  "container_ok E ds n m c rows \<longleftrightarrow> group_descriptors c = map fst ds \<and> length (segments c) = m
     \<and> (\<forall>i<m. segment_ok E ds n (segments c ! i) (segment_rows E n m i rows))"

lemma segment_rows_append:
  "segment_rows E n m i (rows @ [r]) =
     (if unat (hash_key E (take n r)) mod m = i then segment_rows E n m i rows @ [r] else segment_rows E n m i rows)"
  by (simp add: segment_rows_def)

lemma container_add_ok:
  assumes c: "container_ok E ds n m c rows" and r: "row_ok ds n r" and m: "m > 0"
  shows "\<exists>c'. container_add E r n c = Some c' \<and> container_ok E ds n m c' (rows @ [r])"
proof -
  let ?h = "hash_key E (take n r)"
  let ?i = "unat ?h mod m"
  have i: "?i < m" using m by simp
  have len: "length (segments c) = m" using c by (simp add: container_ok_def)
  obtain t where t: "table_add E (map fst ds) r n ?h (elements (segments c ! ?i)) = Some t"
      "segment_ok E ds n ((segments c ! ?i)\<lparr>elements := t\<rparr>) (segment_rows E n m ?i rows @ [r])"
    using segment_add [OF _ r, of E "segments c ! ?i" "segment_rows E n m ?i rows"] c i by (auto simp: container_ok_def)
  obtain s where s: "(if length t \<ge> max_buffer_size c then flush_segment E ((segments c ! ?i)\<lparr>elements := t\<rparr>)
        else Some ((segments c ! ?i)\<lparr>elements := t\<rparr>)) = Some s"
      "segment_ok E ds n s (segment_rows E n m ?i rows @ [r])"
    using segment_flush [OF t(2)] t(2) by (cases "max_buffer_size c \<le> length t") auto
  let ?c = "c\<lparr>segments := (segments c)[?i := s]\<rparr>"
  have "container_add E r n c = Some ?c"
    using r len m t(1) s(1) c by (auto simp: container_add_def Let_def row_ok_def container_ok_def)
  moreover have "container_ok E ds n m ?c (rows @ [r])"
    using c s(2) len by (auto simp: container_ok_def segment_rows_append nth_list_update)
  ultimately show ?thesis by blast
qed

lemma container_add_all_ok:
  "container_ok E ds n m c rows \<Longrightarrow> list_all (row_ok ds n) rs \<Longrightarrow> m > 0 \<Longrightarrow>
   \<exists>c'. container_add_all E rs n c = Some c' \<and> container_ok E ds n m c' (rows @ rs)"
proof (induction rs arbitrary: c rows)
  case (Cons r rs)
  obtain c' where c': "container_add E r n c = Some c'" "container_ok E ds n m c' (rows @ [r])"
    using container_add_ok [OF Cons.prems(1) _ Cons.prems(3), of r] Cons.prems(2) by auto
  with Cons.IH [OF c'(2)] Cons.prems show ?case by simp
qed simp

lemma segment_output:
  assumes "segment_ok E ds n s rows"
  shows "\<exists>s' out. flush_segment E s = Some s' \<and> group_and_write_segment E s' = Some out \<and> distinct (map (take n) out)
    \<and> take n ` set out = take n ` set rows
    \<and> (\<forall>row\<in>set out. group_result E (map fst ds) (take n row) (group_rows n (take n row) rows) = Some row)"
proof -
  obtain s' where s': "flush_segment E s = Some s'" "segment_ok E ds n s' rows" "elements s' = []"
    using segment_flush [OF assms] by blast
  obtain es where es: "represents E ds n es rows"
      "\<And>out. those (map (emission E) es) = Some out \<Longrightarrow> group_and_write_segment E s' = Some out"
    using segment_write [OF s'(2,3)] by blast
  obtain out where out: "those (map (emission E) es) = Some out" "map (take n) out = map ge_key es"
      "\<forall>row\<in>set out. group_result E (map fst ds) (take n row) (group_rows n (take n row) rows) = Some row"
    using represents_emission [OF es(1)] by blast
  have "take n ` set out = set (map (take n) out)" by simp
  also have "\<dots> = take n ` set rows" using out(2) es(1) by (simp add: represents_def)
  finally have "take n ` set out = take n ` set rows" .
  moreover have "distinct (map (take n) out)" using out(2) es(1) by (simp add: represents_def)
  ultimately show ?thesis using s'(1) es(2) [OF out(1)] out(3) by blast
qed

lemma group_segment_rows:
  "unat (hash_key E key) mod m = i \<Longrightarrow> group_rows n key (segment_rows E n m i rows) = group_rows n key rows"
  by (auto simp: group_rows_def segment_rows_def filter_filter intro: filter_cong)

lemma distinct_concat_blocks:
  "(\<And>i. i < m \<Longrightarrow> distinct (f i)) \<Longrightarrow> (\<And>i k. i < m \<Longrightarrow> k \<in> set (f i) \<Longrightarrow> g k = i) \<Longrightarrow> distinct (concat (map f [0..<m]))"
proof (induction m)
  case (Suc m)
  have "k \<notin> set (f i)" if "i < m" "k \<in> set (f m)" for i k
    using Suc.prems(2) [of i k] Suc.prems(2) [of m k] that by auto
  then have "set (concat (map f [0..<m])) \<inter> set (f m) = {}" by auto
  moreover have "distinct (concat (map f [0..<m]))" using Suc by simp
  ultimately show ?case using Suc.prems(1) [of m] by simp
qed simp

lemma container_output:
  assumes c: "container_ok E ds n m c rows" and m: "m > 0"
  shows "\<exists>out. group_and_write E c = Some out \<and> distinct (map (take n) (concat out))
    \<and> take n ` set (concat out) = take n ` set rows
    \<and> (\<forall>row\<in>set (concat out). group_result E (map fst ds) (take n row) (group_rows n (take n row) rows) = Some row)"
proof -
  have "\<exists>s out. flush_segment E (segments c ! i) = Some s \<and> group_and_write_segment E s = Some out \<and> distinct (map (take n) out)
    \<and> take n ` set out = take n ` set (segment_rows E n m i rows)
    \<and> (\<forall>row\<in>set out. group_result E (map fst ds) (take n row) (group_rows n (take n row) (segment_rows E n m i rows)) = Some row)"
    if "i < m" for i
    using c that by (intro segment_output) (simp add: container_ok_def)
  then obtain S out where o: "\<And>i. i < m \<Longrightarrow> flush_segment E (segments c ! i) = Some (S i)"
      "\<And>i. i < m \<Longrightarrow> group_and_write_segment E (S i) = Some (out i)" "\<And>i. i < m \<Longrightarrow> distinct (map (take n) (out i))"
      "\<And>i. i < m \<Longrightarrow> take n ` set (out i) = take n ` set (segment_rows E n m i rows)"
      "\<And>i row. i < m \<Longrightarrow> row \<in> set (out i) \<Longrightarrow>
         group_result E (map fst ds) (take n row) (group_rows n (take n row) (segment_rows E n m i rows)) = Some row"
    by metis
  let ?out = "map out [0..<m]"
  have len: "length (segments c) = m" using c by (simp add: container_ok_def)
  have hash: "unat (hash_key E (take n row)) mod m = i" if "i < m" "row \<in> set (out i)" for i row
  proof -
    have "take n row \<in> take n ` set (segment_rows E n m i rows)" using o(4) that by blast
    then show ?thesis by (auto simp: segment_rows_def)
  qed
  have "those (map (flush_segment E) (segments c)) = Some (map S [0..<m])"
    by (rule those_nth) (use o(1) len in auto)
  moreover have "those (map (group_and_write_segment E) (map S [0..<m])) = Some ?out"
    by (rule those_nth) (use o(2) in auto)
  ultimately have "group_and_write E c = Some ?out" by (simp add: group_and_write_def)
  moreover have "distinct (concat (map (\<lambda>i. map (take n) (out i)) [0..<m]))"
    by (rule distinct_concat_blocks [where g = "\<lambda>key. unat (hash_key E key) mod m"]) (use o(3) hash in auto)
  then have "distinct (map (take n) (concat ?out))" by (simp add: map_concat o_def)
  moreover have "take n ` set (concat ?out) = take n ` set rows"
  proof -
    have "take n ` set (concat ?out) = (\<Union>i\<in>{0..<m}. take n ` set (segment_rows E n m i rows))"
      using o(4) by (simp add: image_UN)
    also have "\<dots> = take n ` set rows" using m by (fastforce simp: segment_rows_def)
    finally show ?thesis .
  qed
  moreover have "group_result E (map fst ds) (take n row) (group_rows n (take n row) rows) = Some row" if row: "row \<in> set (concat ?out)" for row
  proof -
    obtain i where i: "i < m" "row \<in> set (out i)" using row by auto
    show ?thesis using o(5) [OF i] group_segment_rows [OF hash [OF i]] by simp
  qed
  ultimately show ?thesis by blast
qed

lemma container_new_ok:
  "container_ok E ds n m ((container_new max_buffer m)\<lparr>group_descriptors := map fst ds\<rparr>) []"
  by (simp add: container_ok_def container_new_def segment_rows_def segment_new)


definition sample_descriptors :: "typed_descriptor list" where
  "sample_descriptors =
     [(\<lparr>gd_columns = [1], gd_aggregator = Agg_sum (Flex_int 0)\<rparr>, INTEGER), (\<lparr>gd_columns = [], gd_aggregator = Agg_count 0\<rparr>, INTEGER)]"

definition sample_rows :: "flexible_type list list" where
  "sample_rows = [[Flex_string [97], Flex_int 5], [Flex_undefined, Flex_int 7], [Flex_string [97], Flex_undefined]]"


end
