(* ===== verification/Reader_Buffer.thy ===== *)
theory Reader_Buffer
  imports Flexible_Type
begin

text \<open>
  \<open>sarray_reader_buffer\<close> of \<open>sframe/sarray_reader_buffer.hpp\<close>: rows of a column between two positions, read
  through a buffer. The column is the list of its values; sizes are far from $2^{64}$ and are natural
  numbers. What a client needs of it is the locale \<open>row_source\<close>.
\<close>

record 'a sarray_reader_buffer =
  m_reader :: "'a list"
  m_buffer :: "'a list"
  m_buffer_pos :: nat
  m_original_row_start :: nat
  m_row_start :: nat
  m_row_end :: nat
  m_buffer_size :: nat
  m_iter :: nat

definition reader_init :: "'a list \<Rightarrow> nat \<Rightarrow> nat \<Rightarrow> nat \<Rightarrow> 'a sarray_reader_buffer" where
  "reader_init reader row_start row_end buffer_size =
     \<lparr>m_reader = reader, m_buffer = [], m_buffer_pos = 0, m_original_row_start = row_start, m_row_start = row_start,
      m_row_end = min row_end (length reader), m_buffer_size = buffer_size, m_iter = row_start\<rparr>"

definition reader_has_next :: "'a sarray_reader_buffer \<Rightarrow> bool" where
  "reader_has_next r \<longleftrightarrow> m_iter r < m_row_end r"

definition read_rows :: "nat \<Rightarrow> nat \<Rightarrow> 'a list \<Rightarrow> 'a list" where
  "read_rows row_start row_end xs = take (row_end - row_start) (drop row_start xs)"

definition reader_refill :: "'a sarray_reader_buffer \<Rightarrow> 'a sarray_reader_buffer" where
  "reader_refill r =
     (let size_of_refill = min (m_row_end r - m_row_start r) (m_buffer_size r)
      in r\<lparr>m_buffer := read_rows (m_row_start r) (m_row_start r + size_of_refill) (m_reader r),
           m_row_start := m_row_start r + size_of_refill\<rparr>)"

text \<open>Without a value left, the code reads behind the buffer: \<open>None\<close>.\<close>

definition reader_next :: "'a sarray_reader_buffer \<Rightarrow> ('a \<times> 'a sarray_reader_buffer) option" where
  "reader_next r =
     (let r = (if m_buffer_pos r = length (m_buffer r) then (reader_refill r)\<lparr>m_buffer_pos := 0\<rparr> else r)
      in if m_buffer_pos r < length (m_buffer r)
         then Some (m_buffer r ! m_buffer_pos r, r\<lparr>m_iter := m_iter r + 1, m_buffer_pos := m_buffer_pos r + 1\<rparr>)
         else None)"

definition reader_clear :: "'a sarray_reader_buffer \<Rightarrow> 'a sarray_reader_buffer" where
  "reader_clear r =
     r\<lparr>m_buffer := [], m_row_start := m_original_row_start r, m_iter := m_original_row_start r, m_buffer_pos := 0\<rparr>"

section \<open>What a client needs\<close>

text \<open>The loop of the class comment, \<open>while (reader.has_next()) { ... reader.next(); ... }\<close>, with a bound on
  the number of its rounds.\<close>

fun drain :: "('r \<Rightarrow> bool) \<Rightarrow> ('r \<Rightarrow> ('a \<times> 'r) option) \<Rightarrow> nat \<Rightarrow> 'r \<Rightarrow> 'a list option" where
  "drain has_next next_row 0 r = None"
| "drain has_next next_row (Suc n) r =
     (if has_next r
      then case next_row r of None \<Rightarrow> None | Some (x, r') \<Rightarrow> map_option (Cons x) (drain has_next next_row n r')
      else Some [])"

locale row_source =
  fixes has_next :: "'r \<Rightarrow> bool"
    and next_row :: "'r \<Rightarrow> ('a \<times> 'r) option"
    and rest :: "'r \<Rightarrow> 'a list"
    and ok :: "'r \<Rightarrow> bool"
  assumes has_next_rest: "ok r \<Longrightarrow> has_next r \<longleftrightarrow> rest r \<noteq> []"
    and next_rest: "ok r \<Longrightarrow> rest r = x # xs \<Longrightarrow> \<exists>r'. next_row r = Some (x, r') \<and> ok r' \<and> rest r' = xs"
begin

lemma drain_rest: "ok r \<Longrightarrow> length (rest r) < n \<Longrightarrow> drain has_next next_row n r = Some (rest r)"
proof (induction n arbitrary: r)
  case (Suc n)
  show ?case
  proof (cases "rest r")
    case (Cons x xs)
    then obtain r' where "next_row r = Some (x, r')" "ok r'" "rest r' = xs" using next_rest Suc.prems(1) by blast
    with Suc Cons show ?thesis by (simp add: has_next_rest)
  qed (use Suc.prems in \<open>simp add: has_next_rest\<close>)
qed simp

end

section \<open>The buffer\<close>

definition reader_rest :: "'a sarray_reader_buffer \<Rightarrow> 'a list" where
  "reader_rest r = drop (m_iter r) (take (m_row_end r) (m_reader r))"

text \<open>The buffer holds the rows from \<open>m_iter\<close> to \<open>m_row_start\<close>.\<close>

definition reader_ok :: "'a sarray_reader_buffer \<Rightarrow> bool" where
  "reader_ok r \<longleftrightarrow> m_row_end r \<le> length (m_reader r) \<and> 0 < m_buffer_size r \<and> m_buffer_pos r \<le> length (m_buffer r)
     \<and> m_iter r \<le> m_row_start r \<and> (m_row_start r \<le> m_row_end r \<or> m_row_end r \<le> m_iter r)
     \<and> drop (m_buffer_pos r) (m_buffer r) = read_rows (m_iter r) (m_row_start r) (m_reader r)
     \<and> (m_row_end r \<le> m_iter r \<longrightarrow> m_buffer_pos r = length (m_buffer r))"

lemma reader_init_ok: "0 < buffer_size \<Longrightarrow> reader_ok (reader_init reader row_start row_end buffer_size)"
  by (auto simp: reader_ok_def reader_init_def read_rows_def)

lemma reader_clear_ok: "reader_ok r \<Longrightarrow> reader_ok (reader_clear r)"
  by (auto simp: reader_ok_def reader_clear_def read_rows_def)

lemma reader_rest_init: "reader_rest (reader_init reader row_start row_end buffer_size) = drop row_start (take row_end reader)"
  by (simp add: reader_rest_def reader_init_def min_def)

lemma reader_has_next_rest: "reader_ok r \<Longrightarrow> reader_has_next r \<longleftrightarrow> reader_rest r \<noteq> []"
  by (auto simp: reader_ok_def reader_has_next_def reader_rest_def)

lemma refill_ok:
  assumes "reader_ok r" and "reader_has_next r" and "m_buffer_pos r = length (m_buffer r)"
  shows "reader_ok ((reader_refill r)\<lparr>m_buffer_pos := 0\<rparr>)" and "m_buffer (reader_refill r) \<noteq> []"
    and "reader_rest ((reader_refill r)\<lparr>m_buffer_pos := 0\<rparr>) = reader_rest r"
    and "m_iter (reader_refill r) = m_iter r" and "reader_has_next ((reader_refill r)\<lparr>m_buffer_pos := 0\<rparr>)"
proof -
  have r: "m_row_end r \<le> length (m_reader r)" "0 < m_buffer_size r" "m_iter r \<le> m_row_start r" "m_row_start r \<le> m_row_end r"
      "m_iter r < m_row_end r"
    using assms(1,2) by (auto simp: reader_ok_def reader_has_next_def)
  have "read_rows (m_iter r) (m_row_start r) (m_reader r) = []" using assms(1,3) by (simp add: reader_ok_def)
  then have iter: "m_row_start r = m_iter r" using r by (simp add: read_rows_def)
  with r show "reader_ok ((reader_refill r)\<lparr>m_buffer_pos := 0\<rparr>)" "m_buffer (reader_refill r) \<noteq> []"
      "reader_rest ((reader_refill r)\<lparr>m_buffer_pos := 0\<rparr>) = reader_rest r"
      "m_iter (reader_refill r) = m_iter r" "reader_has_next ((reader_refill r)\<lparr>m_buffer_pos := 0\<rparr>)"
    by (auto simp: reader_ok_def reader_refill_def Let_def read_rows_def reader_rest_def reader_has_next_def)
qed

lemma reader_next_buffered:
  assumes "reader_ok r" and "reader_has_next r" and "m_buffer_pos r < length (m_buffer r)"
  shows "\<exists>r'. reader_next r = Some (hd (reader_rest r), r') \<and> reader_ok r' \<and> reader_rest r' = tl (reader_rest r)"
proof -
  let ?r = "r\<lparr>m_iter := m_iter r + 1, m_buffer_pos := m_buffer_pos r + 1\<rparr>"
  have r: "m_row_end r \<le> length (m_reader r)" "m_iter r \<le> m_row_start r" "m_row_start r \<le> m_row_end r" "m_iter r < m_row_end r"
      "drop (m_buffer_pos r) (m_buffer r) = read_rows (m_iter r) (m_row_start r) (m_reader r)"
    using assms(1,2) by (auto simp: reader_ok_def reader_has_next_def)
  have lt: "m_iter r < m_row_start r"
  proof (rule ccontr)
    assume "\<not> m_iter r < m_row_start r"
    then have "drop (m_buffer_pos r) (m_buffer r) = []" unfolding r(5) by (simp add: read_rows_def)
    with assms(3) show False by simp
  qed
  have "m_buffer r ! m_buffer_pos r = hd (drop (m_buffer_pos r) (m_buffer r))" using assms(3) by (simp add: hd_drop_conv_nth)
  also have "\<dots> = hd (reader_rest r)"
    unfolding r(5) using lt r by (simp add: read_rows_def reader_rest_def hd_drop_conv_nth hd_take)
  finally have "reader_next r = Some (hd (reader_rest r), ?r)" using assms(3) by (simp add: reader_next_def)
  moreover have "drop (Suc (m_buffer_pos r)) (m_buffer r) = read_rows (Suc (m_iter r)) (m_row_start r) (m_reader r)"
  proof -
    have "drop (Suc (m_buffer_pos r)) (m_buffer r) = tl (read_rows (m_iter r) (m_row_start r) (m_reader r))"
      using r(5) by (metis drop_Suc tl_drop)
    also have "\<dots> = read_rows (Suc (m_iter r)) (m_row_start r) (m_reader r)"
      using lt by (simp add: read_rows_def tl_take tl_drop drop_Suc)
    finally show ?thesis .
  qed
  then have "reader_ok ?r" using assms lt r by (auto simp: reader_ok_def read_rows_def)
  moreover have "reader_rest ?r = tl (reader_rest r)" by (simp add: reader_rest_def drop_Suc tl_drop)
  ultimately show ?thesis by blast
qed

lemma reader_next_rest:
  assumes "reader_ok r" and "reader_rest r = x # xs"
  shows "\<exists>r'. reader_next r = Some (x, r') \<and> reader_ok r' \<and> reader_rest r' = xs"
proof -
  have nxt: "reader_has_next r" using assms reader_has_next_rest by fastforce
  show ?thesis
  proof (cases "m_buffer_pos r = length (m_buffer r)")
    case True
    let ?r = "(reader_refill r)\<lparr>m_buffer_pos := 0\<rparr>"
    note r = refill_ok [OF assms(1) nxt True]
    have "reader_next r = reader_next ?r" using True r(2) by (simp add: reader_next_def)
    with reader_next_buffered [OF r(1,5)] r(2,3) assms(2) show ?thesis by simp
  next
    case False
    with assms(1) have "m_buffer_pos r < length (m_buffer r)" by (simp add: reader_ok_def)
    with reader_next_buffered [OF assms(1) nxt] assms(2) show ?thesis by simp
  qed
qed

interpretation reader: row_source reader_has_next reader_next reader_rest reader_ok
  by unfold_locales (rule reader_has_next_rest reader_next_rest; assumption)+

text \<open>
  Whatever the size of its buffer, the reader hands out exactly the rows from \<open>row_start\<close> to \<open>row_end\<close>, or
  to the end of the column when \<open>row_end\<close> lies behind it, in their order, and then says that it has no next row;
  one round more than there are rows suffices.
\<close>
theorem buffered_rows:
  assumes "0 < buffer_size" and "length xs < n"
  shows "drain reader_has_next reader_next n (reader_init xs row_start row_end buffer_size)
    = Some (read_rows row_start (min row_end (length xs)) xs)"
proof -
  have "drop row_start (take row_end xs) = read_rows row_start (min row_end (length xs)) xs"
    by (auto simp: read_rows_def min_def drop_take)
  moreover have "length (read_rows row_start (min row_end (length xs)) xs) < n"
    using assms(2) by (auto simp: read_rows_def)
  ultimately show ?thesis
    using reader.drain_rest [OF reader_init_ok [OF assms(1)], of xs row_start row_end n]
    by (simp add: reader_rest_init)
qed

theorem buffered_rows_witness:
  "drain reader_has_next reader_next 6 (reader_init [10, 20, 30, 40, 50 :: int] 1 9 2) = Some [20, 30, 40, 50]"
  using buffered_rows [of 2 "[10, 20, 30, 40, 50 :: int]" 6 1 9] by (simp add: read_rows_def)

end
