(* ===== verification/Rolling.thy ===== *)
theory Rolling
  imports Reader_Buffer Aggregate_Types
begin

text \<open>
  \<open>rolling_apply\<close> of \<open>sframe/rolling_aggregate.cpp\<close> with the templates of \<open>rolling_aggregate.hpp\<close>: an
  aggregator over a window that moves along a column. The column is cut into segments, which are
  computed independently and written one behind the other; a segment reads its rows through
  \<open>sarray_reader_buffer\<close>. Row numbers are far from $2^{63}$ and are integers.

  The window is a \<open>boost::circular_buffer\<close>, which is not part of the sources: it is the argument \<open>B\<close> of
  the definitions, and \<open>documented_buffer\<close> says what its documentation promises.
\<close>

section \<open>The window\<close>

record 'w circular_buffer =
  cb_new :: "nat \<Rightarrow> flexible_type \<Rightarrow> 'w"
  cb_push_back :: "flexible_type \<Rightarrow> 'w \<Rightarrow> 'w"
  cb_capacity :: "'w \<Rightarrow> nat"
  cb_list :: "'w \<Rightarrow> flexible_type list"

definition documented_buffer :: "'w circular_buffer \<Rightarrow> bool" where
  "documented_buffer B \<longleftrightarrow>
     (\<forall>n x. cb_capacity B (cb_new B n x) = n \<and> cb_list B (cb_new B n x) = replicate n x)
     \<and> (\<forall>x w. cb_capacity B (cb_push_back B x w) = cb_capacity B w)
     \<and> (\<forall>x w. 0 < cb_capacity B w \<longrightarrow> length (cb_list B w) = cb_capacity B w \<longrightarrow>
          cb_list B (cb_push_back B x w) = tl (cb_list B w) @ [x])"

definition clip :: "int \<Rightarrow> int \<Rightarrow> int \<Rightarrow> int" where
  "clip val lower upper = min upper (max lower val)"

definition calculate_window_size :: "int \<Rightarrow> int \<Rightarrow> int" where
  "calculate_window_size start end_pos =
     (if start < 0 \<and> 0 \<le> end_pos then \<bar>start\<bar> + end_pos + 1 else \<bar>end_pos - start\<bar> + 1)"

fun add_each :: "flex_env \<Rightarrow> flexible_type list \<Rightarrow> group_aggregate_value \<Rightarrow> group_aggregate_value option" where
  "add_each E [] agg = Some agg"
| "add_each E (x # xs) agg = Option.bind (add_element_simple E x agg) (add_each E xs)"

definition full_window_aggregate :: "flex_env \<Rightarrow> group_aggregate_value \<Rightarrow> flexible_type list \<Rightarrow> flexible_type option" where
  "full_window_aggregate E agg_op xs = Option.bind (add_each E xs (new_instance agg_op)) (emit E)"

text \<open>The loop of \<open>has_min_observations\<close>; $2^{64} - 1$ stands for all the cells of the window.\<close>

fun observe :: "u64 \<Rightarrow> bool \<Rightarrow> nat \<Rightarrow> nat \<Rightarrow> flexible_type list \<Rightarrow> bool" where
  "observe min_observations need_all observations count [] = (need_all \<and> observations = count)"
| "observe min_observations need_all observations count (x # xs) =
     (if is_missing x then observe min_observations need_all observations (count + 1) xs
      else if \<not> need_all \<and> unat min_observations \<le> observations + 1 then True
      else observe min_observations need_all (observations + 1) (count + 1) xs)"

definition has_min_observations :: "u64 \<Rightarrow> flexible_type list \<Rightarrow> bool" where
  "has_min_observations min_observations xs = observe min_observations (min_observations = - 1) 0 0 xs"

section \<open>A segment\<close>

text \<open>The initial fill: \<open>n\<close> rounds of the loop are left, \<open>i\<close> is the row of the round.\<close>

fun fill :: "'w circular_buffer \<Rightarrow> nat \<Rightarrow> int \<Rightarrow> 'w \<Rightarrow> flexible_type sarray_reader_buffer \<Rightarrow>
    ('w \<times> flexible_type sarray_reader_buffer) option" where
  "fill B 0 i w r = Some (w, r)"
| "fill B (Suc n) i w r =
     (if 0 \<le> i \<and> reader_has_next r
      then Option.bind (reader_next r) (\<lambda>(x, r). fill B n (i + 1) (cb_push_back B x w) r)
      else fill B n (i + 1) w r)"

definition next_window :: "'w circular_buffer \<Rightarrow> int \<Rightarrow> 'w \<Rightarrow> flexible_type sarray_reader_buffer \<Rightarrow>
    ('w \<times> flexible_type sarray_reader_buffer) option" where
  "next_window B i w r =
     (if 0 \<le> i \<and> reader_has_next r
      then map_option (\<lambda>(x, r). (cb_push_back B x w, r)) (reader_next r)
      else Some (cb_push_back B Flex_undefined w, r))"

definition window_result :: "flex_env \<Rightarrow> group_aggregate_value \<Rightarrow> bool \<Rightarrow> u64 \<Rightarrow> flexible_type list \<Rightarrow> flexible_type option" where
  "window_result E agg_op check_num_observations min_observations xs =
     (if check_num_observations \<and> \<not> has_min_observations min_observations xs then Some Flex_undefined
      else full_window_aggregate E agg_op xs)"

text \<open>The first type that is not that of the missing value; a missing value that is written for lack of
  observations does not count, as it has no other type either.\<close>

definition record_type :: "flex_type_enum \<Rightarrow> flexible_type \<Rightarrow> flex_type_enum" where
  "record_type ty v = (if ty = UNDEFINED \<and> get_type v \<noteq> UNDEFINED then get_type v else ty)"

text \<open>The loop over the rows of a segment: \<open>n\<close> rows are left, \<open>second\<close> is the last row of the window.\<close>

fun roll :: "'w circular_buffer \<Rightarrow> (flexible_type list \<Rightarrow> flexible_type option) \<Rightarrow> nat \<Rightarrow> int \<Rightarrow> 'w \<Rightarrow>
    flexible_type sarray_reader_buffer \<Rightarrow> flex_type_enum \<Rightarrow> (flexible_type list \<times> flex_type_enum) option" where
  "roll B f 0 second w r ty = Some ([], ty)"
| "roll B f (Suc n) second w r ty = do {
     v \<leftarrow> f (cb_list B w);
     (w, r) \<leftarrow> next_window B (second + 1) w r;
     (vs, ty) \<leftarrow> roll B f n (second + 1) w r (record_type ty v);
     Some (v # vs, ty)
   }"

record seg_range =
  seg_start :: nat
  seg_length :: nat
  seg_beg :: nat
  seg_end :: nat

fun seg_ranges :: "int \<Rightarrow> int \<Rightarrow> nat \<Rightarrow> nat \<Rightarrow> nat list \<Rightarrow> seg_range list" where
  "seg_ranges window_start window_end rows running_length [] = []"
| "seg_ranges window_start window_end rows running_length (n # ns) =
     \<lparr>seg_start = running_length, seg_length = n,
      seg_beg = nat (clip (window_start + int running_length) 0 (int rows)),
      seg_end = nat (clip (window_end + (int (running_length + n) - 1)) 0 (int rows))\<rparr>
     # seg_ranges window_start window_end rows (running_length + n) ns"

definition DEFAULT_SARRAY_READER_BUFFER_SIZE :: nat where
  "DEFAULT_SARRAY_READER_BUFFER_SIZE = 1024"

definition roll_segment :: "'w circular_buffer \<Rightarrow> (flexible_type list \<Rightarrow> flexible_type option) \<Rightarrow> flexible_type list \<Rightarrow>
    int \<Rightarrow> int \<Rightarrow> int \<Rightarrow> seg_range \<Rightarrow> (flexible_type list \<times> flex_type_enum) option" where
  "roll_segment B f xs window_start window_end total_window_size s =
     (let buf_reader = reader_init xs (seg_beg s) (seg_end s + 1) DEFAULT_SARRAY_READER_BUFFER_SIZE;
          window_buf = cb_new B (nat total_window_size) Flex_undefined;
          first = window_start + int (seg_start s);
          second = window_end + int (seg_start s)
      in do {
        (window_buf, buf_reader) \<leftarrow> fill B (nat (second - first + 1)) first window_buf buf_reader;
        roll B f (seg_length s) second window_buf buf_reader UNDEFINED
      })"

section \<open>The column\<close>

datatype rolling_error = Window_start_after_end | Input_type_not_supported | Window_too_large
  | Aggregator_failed | Two_types

text \<open>The type of the result: that of every segment that has one.\<close>

fun array_type :: "flex_type_enum \<Rightarrow> flex_type_enum list \<Rightarrow> flex_type_enum option" where
  "array_type ty [] = Some ty"
| "array_type ty (t # ts) =
     (if t \<noteq> ty \<and> ty \<noteq> UNDEFINED \<and> t \<noteq> UNDEFINED then None
      else array_type (if t \<noteq> UNDEFINED then t else ty) ts)"

text \<open>
  \<open>xs\<close> is the input column, \<open>type\<close> its type and \<open>segment_lengths\<close> are the lengths of the parts into which
  its reader cuts it. The result is the type and the rows of the output column.
\<close>

definition rolling_apply :: "'w circular_buffer \<Rightarrow> flex_env \<Rightarrow> flexible_type list \<Rightarrow> flex_type_enum \<Rightarrow> nat list \<Rightarrow>
    group_aggregate_value \<Rightarrow> int \<Rightarrow> int \<Rightarrow> u64 \<Rightarrow> rolling_error + flex_type_enum \<times> flexible_type list" where
  "rolling_apply B E xs type segment_lengths agg_op window_start window_end min_observations =
     (if window_end < window_start then Inl Window_start_after_end
      else if \<not> support_type type agg_op then Inl Input_type_not_supported
      else case set_input_type type agg_op of
        None \<Rightarrow> Inl Aggregator_failed
      | Some (agg_op, _) \<Rightarrow>
        let total_window_size = calculate_window_size window_start window_end
        in if 2 ^ 32 - 1 < total_window_size then Inl Window_too_large
        else
          let check_num_observations = (min_observations \<noteq> 0);
              min_observations =
                (if total_window_size < uint min_observations then word_of_int total_window_size else min_observations);
              f = window_result E agg_op check_num_observations min_observations
          in case those (map (roll_segment B f xs window_start window_end total_window_size)
                     (seg_ranges window_start window_end (length xs) 0 segment_lengths)) of
               None \<Rightarrow> Inl Aggregator_failed
             | Some segments \<Rightarrow>
               (case array_type UNDEFINED (map snd segments) of
                  None \<Rightarrow> Inl Two_types
                | Some ty \<Rightarrow> Inr (ty, concat (map fst segments))))"

end
