(* ===== verification/Rolling_Correct.thy ===== *)
theory Rolling_Correct
  imports Rolling
begin

text \<open>
  The rows that \<open>rolling_apply\<close> writes: at every position the aggregate of the cells of its window, a cell
  before the first row or behind the last one being missing. It holds as long as the window of the
  first row of each segment ends inside the column; without that, the initial fill shifts the window.
\<close>

section \<open>The reference\<close>

definition cell :: "flexible_type list \<Rightarrow> int \<Rightarrow> flexible_type" where
  "cell xs i = (if 0 \<le> i \<and> i < int (length xs) then xs ! nat i else Flex_undefined)"

definition window_cells :: "flexible_type list \<Rightarrow> int \<Rightarrow> int \<Rightarrow> nat \<Rightarrow> flexible_type list" where
  "window_cells xs window_start window_end p = map (cell xs) [int p + window_start..int p + window_end]"

definition rolling_reference :: "flex_env \<Rightarrow> group_aggregate_value \<Rightarrow> u64 \<Rightarrow> flexible_type list \<Rightarrow> flexible_type option" where
  "rolling_reference E agg_op min_observations c =
     (if length (filter (\<lambda>x. \<not> is_missing x) c) < min (unat min_observations) (length c) then Some Flex_undefined
      else full_window_aggregate E agg_op c)"

lemma cell_outside: "i < 0 \<or> int (length xs) \<le> i \<Longrightarrow> cell xs i = Flex_undefined"
  by (auto simp: cell_def)

lemma length_window_cells [simp]:
  "length (window_cells xs window_start window_end p) = nat (window_end - window_start + 1)"
  by (simp add: window_cells_def algebra_simps)

lemma window_cells_Suc:
  "window_start \<le> window_end \<Longrightarrow>
   window_cells xs window_start window_end (Suc p) =
     tl (window_cells xs window_start window_end p) @ [cell xs (int p + window_end + 1)]"
  using upto_rec1 [of "int p + window_start" "int p + window_end"]
    upto_rec2 [of "int p + window_start + 1" "int p + window_end + 1"]
  by (simp add: window_cells_def ac_simps)

section \<open>The window and the reader\<close>

definition holds :: "'w circular_buffer \<Rightarrow> 'w \<Rightarrow> flexible_type list \<Rightarrow> bool" where
  "holds B w xs \<longleftrightarrow> xs \<noteq> [] \<and> cb_capacity B w = length xs \<and> cb_list B w = xs"

lemma holds_new: "documented_buffer B \<Longrightarrow> 0 < n \<Longrightarrow> holds B (cb_new B n x) (replicate n x)"
  by (simp add: documented_buffer_def holds_def)

lemma holds_push: "documented_buffer B \<Longrightarrow> holds B w xs \<Longrightarrow> holds B (cb_push_back B x w) (tl xs @ [x])"
  by (cases xs) (simp_all add: documented_buffer_def holds_def)

lemma fill_before: "fill B n i w r = fill B (n - nat (- i)) (max i 0) w r"
proof (induction n arbitrary: i)
  case (Suc n)
  show ?case
  proof (cases "i < 0")
    case True
    then have "fill B (Suc n) i w r = fill B (n - nat (- (i + 1))) (max (i + 1) 0) w r"
      using Suc.IH [of "i + 1"] by simp
    moreover have "Suc n - nat (- i) = n - nat (- (i + 1))" using True by linarith
    ultimately show ?thesis using True by (simp del: fill.simps)
  qed (simp add: max_def del: fill.simps)
qed simp

lemma fill_rows:
  assumes "documented_buffer B"
  shows "0 \<le> i \<Longrightarrow> holds B w xs \<Longrightarrow> reader_ok r \<Longrightarrow>
   \<exists>w' r'. fill B n i w r = Some (w', r') \<and> reader_ok r' \<and> reader_rest r' = drop n (reader_rest r)
     \<and> holds B w' (drop (length (take n (reader_rest r))) (xs @ take n (reader_rest r)))"
proof (induction n arbitrary: i w xs r)
  case (Suc n)
  show ?case
  proof (cases "reader_rest r")
    case Nil
    then have "\<not> reader_has_next r" using reader.has_next_rest [OF Suc.prems(3)] by simp
    with Suc.IH [of "i + 1" w xs r] Suc.prems Nil show ?thesis by simp
  next
    case (Cons x rs)
    then obtain r' where r': "reader_next r = Some (x, r')" "reader_ok r'" "reader_rest r' = rs"
      using reader.next_rest [OF Suc.prems(3) Cons] by auto
    have "reader_has_next r" using reader.has_next_rest [OF Suc.prems(3)] Cons by simp
    then have "fill B (Suc n) i w r = fill B n (i + 1) (cb_push_back B x w) r'" using Suc.prems r' by simp
    moreover have "holds B (cb_push_back B x w) (tl xs @ [x])" by (rule holds_push [OF assms Suc.prems(2)])
    moreover have "drop k (tl xs @ x # ys) = drop (Suc k) (xs @ x # ys)" for k ys
      using Suc.prems by (cases xs) (simp_all add: holds_def)
    ultimately show ?thesis
      using Suc.IH [of "i + 1" "cb_push_back B x w" "tl xs @ [x]" r'] Suc.prems(1) r' Cons by simp
  qed
qed simp

lemma next_window_cell:
  assumes "documented_buffer B" and "holds B w xs" and "reader_ok r"
  shows "\<exists>w' r'. next_window B i w r = Some (w', r') \<and> reader_ok r'
    \<and> holds B w' (tl xs @ [if 0 \<le> i \<and> reader_rest r \<noteq> [] then hd (reader_rest r) else Flex_undefined])
    \<and> reader_rest r' = (if 0 \<le> i then tl (reader_rest r) else reader_rest r)"
proof (cases "0 \<le> i \<and> reader_rest r \<noteq> []")
  case True
  then obtain x rs where rs: "reader_rest r = x # rs" by (cases "reader_rest r") auto
  then obtain r' where r': "reader_next r = Some (x, r')" "reader_ok r'" "reader_rest r' = rs"
    using reader.next_rest [OF assms(3)] by auto
  then have "next_window B i w r = Some (cb_push_back B x w, r')"
    using True reader.has_next_rest [OF assms(3)] by (simp add: next_window_def)
  then show ?thesis using True rs r' holds_push [OF assms(1,2)] by simp
next
  case False
  with holds_push [OF assms(1,2)] reader.has_next_rest [OF assms(3)] assms(3) show ?thesis
    by (auto simp: next_window_def)
qed

section \<open>A segment\<close>

text \<open>At the row \<open>p\<close> the window holds its cells, and the reader stands behind the last of them.\<close>

definition at_row :: "'w circular_buffer \<Rightarrow> flexible_type list \<Rightarrow> int \<Rightarrow> int \<Rightarrow> nat \<Rightarrow> nat \<Rightarrow> 'w \<Rightarrow>
    flexible_type sarray_reader_buffer \<Rightarrow> bool" where
  "at_row B xs window_start window_end row_end p w r \<longleftrightarrow>
     holds B w (window_cells xs window_start window_end p) \<and> reader_ok r
     \<and> reader_rest r = drop (nat (int p + window_end + 1)) (take row_end xs)"

text \<open>The rows that a segment from \<open>start\<close> to \<open>stop\<close> asks for.\<close>

definition row_end_of :: "flexible_type list \<Rightarrow> int \<Rightarrow> nat \<Rightarrow> nat" where
  "row_end_of xs window_end stop = nat (clip (window_end + (int stop - 1)) 0 (int (length xs))) + 1"

lemma next_cell:
  assumes "i \<le> window_end + int stop - 1" and "0 \<le> i"
  shows "cell xs i = (case drop (nat i) (take (row_end_of xs window_end stop) xs) of [] \<Rightarrow> Flex_undefined | x # _ \<Rightarrow> x)"
proof (cases "nat i < length xs")
  case True
  then have "nat i < row_end_of xs window_end stop" using assms by (simp add: row_end_of_def clip_def)
  with True assms Cons_nth_drop_Suc [of "nat i" "take (row_end_of xs window_end stop) xs"] show ?thesis
    by (auto simp: cell_def split: list.splits)
next
  case False
  with assms show ?thesis by (simp add: cell_def nat_less_iff)
qed

lemma next_row:
  assumes "documented_buffer B" and "window_start \<le> window_end" and "Suc p < stop"
    and "at_row B xs window_start window_end (row_end_of xs window_end stop) p w r"
  shows "\<exists>w' r'. next_window B (window_end + int p + 1) w r = Some (w', r')
    \<and> at_row B xs window_start window_end (row_end_of xs window_end stop) (Suc p) w' r'"
proof -
  let ?i = "window_end + int p + 1"
  let ?c = "if 0 \<le> ?i \<and> reader_rest r \<noteq> [] then hd (reader_rest r) else Flex_undefined"
  have r: "holds B w (window_cells xs window_start window_end p)" "reader_ok r"
      "reader_rest r = drop (nat ?i) (take (row_end_of xs window_end stop) xs)"
    using assms(4) by (simp_all add: at_row_def ac_simps)
  obtain w' r' where w': "next_window B ?i w r = Some (w', r')" "reader_ok r'"
      "holds B w' (tl (window_cells xs window_start window_end p) @ [?c])"
      "reader_rest r' = (if 0 \<le> ?i then tl (reader_rest r) else reader_rest r)"
    using next_window_cell [OF assms(1) r(1,2), of ?i] by auto
  have "?c = cell xs ?i"
  proof (cases "0 \<le> ?i")
    case True
    with next_cell [of ?i window_end stop xs] assms(3) show ?thesis unfolding r(3) by (auto split: list.splits)
  qed (simp add: cell_def)
  then have "holds B w' (window_cells xs window_start window_end (Suc p))"
    using w'(3) window_cells_Suc [OF assms(2), of xs p] by (simp add: ac_simps)
  moreover have "reader_rest r' = drop (nat (int (Suc p) + window_end + 1)) (take (row_end_of xs window_end stop) xs)"
  proof (cases "0 \<le> ?i")
    case True
    then have "nat (int (Suc p) + window_end + 1) = Suc (nat ?i)" by linarith
    then show ?thesis using True w'(4) r(3) by (simp add: tl_drop drop_Suc)
  next
    case False
    then have "nat (int (Suc p) + window_end + 1) = 0" "nat ?i = 0" by linarith+
    then show ?thesis using False w'(4) r(3) by simp
  qed
  ultimately show ?thesis using w'(1,2) by (simp add: at_row_def)
qed

lemma roll_rows:
  assumes "documented_buffer B" and "window_start \<le> window_end"
  shows "p + n = stop \<Longrightarrow> at_row B xs window_start window_end (row_end_of xs window_end stop) p w r \<Longrightarrow>
   (\<And>q. p \<le> q \<Longrightarrow> q < stop \<Longrightarrow> f (window_cells xs window_start window_end q) = Some (g q)) \<Longrightarrow>
   roll B f n (window_end + int p) w r ty = Some (map g [p..<stop], foldl record_type ty (map g [p..<stop]))"
proof (induction n arbitrary: p w r ty)
  case (Suc n)
  let ?i = "window_end + int p + 1"
  have v: "f (cb_list B w) = Some (g p)" using Suc.prems by (simp add: at_row_def holds_def)
  have rows: "map g [p..<stop] = g p # map g [Suc p..<stop]" using Suc.prems(1) by (simp add: upt_conv_Cons)
  show ?case
  proof (cases n)
    case 0
    have "\<exists>w' r'. next_window B ?i w r = Some (w', r')"
      using next_window_cell [OF assms(1), of w _ r ?i] Suc.prems(2) unfolding at_row_def by metis
    with 0 v rows Suc.prems(1) show ?thesis by auto
  next
    case (Suc k)
    then have "Suc p < stop" using Suc.prems(1) by simp
    then obtain w' r' where w': "next_window B ?i w r = Some (w', r')"
        "at_row B xs window_start window_end (row_end_of xs window_end stop) (Suc p) w' r'"
      using next_row [OF assms _ Suc.prems(2)] by blast
    then have "roll B f n (window_end + int (Suc p)) w' r' (record_type ty (g p)) =
        Some (map g [Suc p..<stop], foldl record_type (record_type ty (g p)) (map g [Suc p..<stop]))"
      using Suc.IH [of "Suc p" w' r'] Suc.prems by simp
    then show ?thesis using v w'(1) unfolding rows by (simp add: ac_simps)
  qed
qed simp

lemma padded_cells:
  assumes "first \<le> second" and "second < int (length xs)" and "b = nat first" and "e = nat (second + 1)"
    and "n = nat (second - first + 1) - (e - b)"
  shows "replicate n Flex_undefined @ drop b (take e xs) = map (cell xs) [first..second]"
proof (rule nth_equalityI)
  have e: "e \<le> length xs" using assms(2,4) by linarith
  have sum: "n + (e - b) = nat (second - first + 1)" using assms by linarith
  with e show "length (replicate n Flex_undefined @ drop b (take e xs)) = length (map (cell xs) [first..second])" by simp
  fix k
  assume "k < length (replicate n Flex_undefined @ drop b (take e xs))"
  with e sum have k: "k < nat (second - first + 1)" by simp
  show "(replicate n Flex_undefined @ drop b (take e xs)) ! k = map (cell xs) [first..second] ! k"
  proof (cases "k < n")
    case True
    then have "first + int k < 0" using k assms by linarith
    with True k show ?thesis by (simp add: nth_append cell_outside)
  next
    case False
    have pos: "0 \<le> first + int k" "b + (k - n) = nat (first + int k)" "nat (first + int k) < e"
      using k False assms by linarith+
    have "(replicate n Flex_undefined @ drop b (take e xs)) ! k = xs ! nat (first + int k)"
      using False pos e by (simp add: nth_append)
    moreover have "first + int k < int (length xs)" using pos e by linarith
    ultimately show ?thesis using pos k by (simp add: cell_def)
  qed
qed

text \<open>The initial fill, where the window of the first row ends before the column does.\<close>

lemma filled_window:
  assumes "window_start \<le> window_end" and "window_end + int p < int (length xs)" and "p < stop"
    and "m = nat (window_end - window_start + 1) - nat (- (window_start + int p))"
    and "rest = drop (nat (clip (window_start + int p) 0 (int (length xs)))) (take (row_end_of xs window_end stop) xs)"
  shows "drop (length (take m rest)) (replicate (nat (window_end - window_start + 1)) Flex_undefined @ take m rest)
      = window_cells xs window_start window_end p"
    and "drop m rest = drop (nat (int p + window_end + 1)) (take (row_end_of xs window_end stop) xs)"
proof -
  define b where "b = nat (window_start + int p)"
  define e where "e = nat (window_end + int p + 1)"
  define n where "n = nat (window_end - window_start + 1)"
  have rest: "rest = drop b (take (row_end_of xs window_end stop) xs)"
    using assms(1,2) unfolding assms(5) b_def by (simp add: clip_def max_def)
  have m: "m + b = max b e" using assms(1,4) unfolding b_def e_def by linarith
  then show "drop m rest = drop (nat (int p + window_end + 1)) (take (row_end_of xs window_end stop) xs)"
    using assms(1) unfolding rest by (simp add: b_def e_def ac_simps max_def)
  have stop: "e \<le> row_end_of xs window_end stop" "e \<le> length xs"
    using assms(2,3) by (simp_all add: e_def row_end_of_def clip_def)
  have rows: "take m rest = drop b (take e xs)"
    unfolding rest using m stop by (auto simp: take_drop min_def max_def split: if_splits)
  have len: "length (take m rest) = e - b" unfolding rows using stop by simp
  moreover have "e - b \<le> n" using assms(1) unfolding e_def b_def n_def by linarith
  ultimately have "drop (length (take m rest)) (replicate n Flex_undefined @ take m rest)
      = replicate (n - (e - b)) Flex_undefined @ drop b (take e xs)"
    by (simp add: rows)
  also have "\<dots> = window_cells xs window_start window_end p"
    unfolding window_cells_def
    using assms(1,2) by (intro padded_cells) (simp_all add: b_def e_def n_def ac_simps)
  finally show "drop (length (take m rest)) (replicate (nat (window_end - window_start + 1)) Flex_undefined @ take m rest)
      = window_cells xs window_start window_end p"
    by (simp add: n_def)
qed

lemma window_size: "window_start \<le> window_end \<Longrightarrow> calculate_window_size window_start window_end = window_end - window_start + 1"
  by (simp add: calculate_window_size_def)

lemma roll_segment_rows:
  assumes "documented_buffer B" and "window_start \<le> window_end" and "0 < n" and "window_end + int p < int (length xs)"
    and "\<And>q. p \<le> q \<Longrightarrow> q < p + n \<Longrightarrow> f (window_cells xs window_start window_end q) = Some (g q)"
    and "s = \<lparr>seg_start = p, seg_length = n, seg_beg = nat (clip (window_start + int p) 0 (int (length xs))),
      seg_end = nat (clip (window_end + (int (p + n) - 1)) 0 (int (length xs)))\<rparr>"
  shows "roll_segment B f xs window_start window_end (calculate_window_size window_start window_end) s
    = Some (map g [p..<p + n], foldl record_type UNDEFINED (map g [p..<p + n]))"
proof -
  let ?size = "nat (window_end - window_start + 1)"
  define first where "first = window_start + int p"
  define w where "w = cb_new B ?size Flex_undefined"
  define r where "r = reader_init xs (nat (clip first 0 (int (length xs)))) (row_end_of xs window_end (p + n)) DEFAULT_SARRAY_READER_BUFFER_SIZE"
  define m where "m = ?size - nat (- first)"
  have w: "holds B w (replicate ?size Flex_undefined)" unfolding w_def using assms(1,2) by (intro holds_new) auto
  have r: "reader_ok r" "reader_rest r = drop (nat (clip first 0 (int (length xs)))) (take (row_end_of xs window_end (p + n)) xs)"
    by (simp_all add: r_def reader_init_ok reader_rest_init DEFAULT_SARRAY_READER_BUFFER_SIZE_def)
  note filled = filled_window [OF assms(2,4) _ m_def [unfolded first_def] r(2) [unfolded first_def], simplified assms(3)]
  obtain w' r' where w': "fill B m (max first 0) w r = Some (w', r')" "reader_ok r'"
      "reader_rest r' = drop m (reader_rest r)"
      "holds B w' (drop (length (take m (reader_rest r))) (replicate ?size Flex_undefined @ take m (reader_rest r)))"
    using fill_rows [OF assms(1) _ w r(1), of "max first 0" m] by auto
  then have "at_row B xs window_start window_end (row_end_of xs window_end (p + n)) p w' r'"
    using filled assms(3) by (simp add: at_row_def)
  then have "roll B f n (window_end + int p) w' r' UNDEFINED
      = Some (map g [p..<p + n], foldl record_type UNDEFINED (map g [p..<p + n]))"
    using assms(5) by (intro roll_rows [OF assms(1,2)]) simp_all
  moreover have "fill B ?size first w r = Some (w', r')"
    using fill_before [of B ?size first w r] w'(1) by (simp add: m_def)
  moreover have "window_end + int p - first + 1 = window_end - window_start + 1" by (simp add: first_def)
  ultimately show ?thesis
    unfolding roll_segment_def assms(6) Let_def
    by (simp add: window_size [OF assms(2)] first_def w_def r_def row_end_of_def)
qed

section \<open>The segments\<close>

lemma record_type_fold:
  "list_all (of_type t) vs \<Longrightarrow> ty \<in> {UNDEFINED, t} \<Longrightarrow>
   foldl record_type ty vs = (if ty = UNDEFINED \<and> list_all is_missing vs then UNDEFINED else t)"
  by (induction vs arbitrary: ty) (auto simp: record_type_def of_type_def)

lemma array_type_same:
  "list_all (\<lambda>s. s \<in> {UNDEFINED, t}) tys \<Longrightarrow> ty \<in> {UNDEFINED, t} \<Longrightarrow>
   array_type ty tys = Some (if ty = UNDEFINED \<and> list_all ((=) UNDEFINED) tys then UNDEFINED else t)"
  by (induction tys arbitrary: ty) auto

definition windows_start_inside :: "int \<Rightarrow> int \<Rightarrow> nat \<Rightarrow> nat \<Rightarrow> nat list \<Rightarrow> bool" where
  "windows_start_inside window_start window_end rows p ns \<longleftrightarrow>
     list_all (\<lambda>s. 0 < seg_length s \<longrightarrow> window_end + int (seg_start s) < int rows)
       (seg_ranges window_start window_end rows p ns)"

lemma empty_segment:
  assumes "documented_buffer B" and "window_start \<le> window_end" and "seg_length s = 0"
  shows "roll_segment B f xs window_start window_end (calculate_window_size window_start window_end) s = Some ([], UNDEFINED)"
proof -
  have "reader_ok (reader_init xs (seg_beg s) (seg_end s + 1) DEFAULT_SARRAY_READER_BUFFER_SIZE)"
    by (simp add: reader_init_ok DEFAULT_SARRAY_READER_BUFFER_SIZE_def)
  moreover have "holds B (cb_new B (nat (window_end - window_start + 1)) Flex_undefined)
      (replicate (nat (window_end - window_start + 1)) Flex_undefined)"
    using assms(1,2) by (intro holds_new) auto
  ultimately have "\<exists>w r. fill B n i (cb_new B (nat (window_end - window_start + 1)) Flex_undefined)
      (reader_init xs (seg_beg s) (seg_end s + 1) DEFAULT_SARRAY_READER_BUFFER_SIZE) = Some (w, r)" for n i
    using fill_rows [OF assms(1), of "max i 0" _ _ _ "n - nat (- i)"] unfolding fill_before [of B n i] by (metis max.cobounded2)
  then show ?thesis
    unfolding roll_segment_def Let_def window_size [OF assms(2)] using assms(3) by (metis bind.bind_lunit roll.simps(1) case_prod_conv)
qed

lemma all_segments:
  assumes "documented_buffer B" and "window_start \<le> window_end"
    and "\<And>q. q < length xs \<Longrightarrow> f (window_cells xs window_start window_end q) = Some (g q)"
  shows "p + sum_list ns \<le> length xs \<Longrightarrow> windows_start_inside window_start window_end (length xs) p ns \<Longrightarrow>
   \<exists>parts. those (map (roll_segment B f xs window_start window_end (calculate_window_size window_start window_end))
       (seg_ranges window_start window_end (length xs) p ns))
     = Some (map (\<lambda>vs. (vs, foldl record_type UNDEFINED vs)) parts)
     \<and> concat parts = map g [p..<p + sum_list ns]"
proof (induction ns arbitrary: p)
  case (Cons n ns)
  let ?f = "roll_segment B f xs window_start window_end (calculate_window_size window_start window_end)"
  obtain parts where parts: "those (map ?f (seg_ranges window_start window_end (length xs) (p + n) ns))
      = Some (map (\<lambda>vs. (vs, foldl record_type UNDEFINED vs)) parts)"
      "concat parts = map g [p + n..<p + n + sum_list ns]"
    using Cons.IH [of "p + n"] Cons.prems by (auto simp: windows_start_inside_def)
  let ?s = "hd (seg_ranges window_start window_end (length xs) p (n # ns))"
  have "?f ?s = Some (map g [p..<p + n], foldl record_type UNDEFINED (map g [p..<p + n]))"
  proof (cases "n = 0")
    case True
    then show ?thesis using empty_segment [OF assms(1,2), of ?s f xs] by simp
  next
    case False
    then show ?thesis
      using Cons.prems assms(3)
      by (intro roll_segment_rows [OF assms(1,2)]) (simp_all add: windows_start_inside_def)
  qed
  then have "those (map ?f (seg_ranges window_start window_end (length xs) p (n # ns)))
      = Some (map (\<lambda>vs. (vs, foldl record_type UNDEFINED vs)) (map g [p..<p + n] # parts))"
    using parts(1) by simp
  moreover have "concat (map g [p..<p + n] # parts) = map g [p..<p + sum_list (n # ns)]"
    using parts(2) upt_add_eq_append [of p "p + n" "sum_list ns"] by (simp add: add.assoc)
  ultimately show ?case by blast
qed simp

section \<open>The results\<close>

lemma observe_counts:
  "observations < unat k \<Longrightarrow>
   observe k False observations count xs \<longleftrightarrow> unat k \<le> observations + length (filter (\<lambda>x. \<not> is_missing x) xs)"
  by (induction xs arbitrary: observations count) auto

lemma clipped_observations:
  assumes "n < 2 ^ 32"
  shows "unat (if int n < uint m then word_of_int (int n) else m :: u64) = min (unat m) n"
proof -
  have "unat (word_of_nat n :: u64) = n" using assms by (simp add: unat_of_nat)
  moreover have "int n < uint m \<longleftrightarrow> n < unat m" unfolding uint_nat [of m] of_nat_less_iff ..
  ultimately show ?thesis by (simp add: min_def)
qed

lemma window_result_reference:
  assumes "length c < 2 ^ 32" and "c \<noteq> []"
  shows "window_result E agg_op (min_observations \<noteq> 0)
      (if int (length c) < uint min_observations then word_of_int (int (length c)) else min_observations) c
    = rolling_reference E agg_op min_observations c"
proof -
  define k :: u64 where "k = (if int (length c) < uint min_observations then word_of_int (int (length c)) else min_observations)"
  have k: "unat k = min (unat min_observations) (length c)"
    unfolding k_def by (rule clipped_observations [OF assms(1)])
  have "unat k \<noteq> unat (- 1 :: u64)" using k assms(1) by (simp add: unsigned_minus_1_eq_mask mask_eq_exp_minus_1)
  then have all: "k \<noteq> - 1" by auto
  have pos: "min_observations \<noteq> 0 \<longleftrightarrow> 0 < unat k" using k assms(2) by (simp add: unat_gt_0)
  have "has_min_observations k c \<longleftrightarrow> unat k \<le> length (filter (\<lambda>x. \<not> is_missing x) c)" if "0 < unat k"
    using observe_counts [of 0 k 0 c] all that by (simp add: has_min_observations_def)
  then show ?thesis
    unfolding k_def [symmetric] window_result_def rolling_reference_def k [symmetric] pos by auto
qed

lemma add_each_feed: "add_each E xs a = feed_all E (map (\<lambda>x. [x]) xs) a"
  by (induction xs arbitrary: a) (auto split: bind_splits)

lemma rolling_types:
  "support_type t (new_instance q) \<Longrightarrow> set_input_type t (new_instance q) = Some (p, t') \<Longrightarrow>
   set_input_types [t] (new_instance q) = Some (p, t') \<and> accepts [t] p"
  by (cases q) auto

lemma reference_typed:
  assumes "typed_state [t] t' (new_instance p)" and "list_all (of_type t) c"
  shows "\<exists>v. rolling_reference E p k c = Some v \<and> of_type t' v"
proof -
  have "list_all (typed_row [t]) (map (\<lambda>x. [x]) c)" using assms(2) by (simp add: list_all_iff typed_row_def)
  then obtain a where "feed_all E (map (\<lambda>x. [x]) c) (new_instance p) = Some a" "typed_state [t] t' a"
    using feed_all_typed [OF _ assms(1)] unfolding yields_def by metis
  with emit_typed [of "[t]" t' a E] show ?thesis
    by (auto simp: rolling_reference_def full_window_aggregate_def add_each_feed of_type_def)
qed

lemma window_cells_typed: "list_all (of_type t) xs \<Longrightarrow> list_all (of_type t) (window_cells xs window_start window_end p)"
  by (auto simp: list_all_iff window_cells_def cell_def of_type_def)

lemma those_map_Some: "those (map (\<lambda>i. Some (g i)) xs) = Some (map g xs)"
  by (induction xs) simp_all

lemma result_type:
  assumes "list_all (of_type t) (concat parts)"
  shows "array_type UNDEFINED (map (foldl record_type UNDEFINED) parts)
    = Some (if list_all is_missing (concat parts) then UNDEFINED else t)"
proof -
  have types: "foldl record_type UNDEFINED vs = (if list_all is_missing vs then UNDEFINED else t)" if "vs \<in> set parts" for vs
    using record_type_fold [of t vs UNDEFINED] that assms by (auto simp: list_all_iff)
  have "array_type UNDEFINED (map (foldl record_type UNDEFINED) parts) = Some (if
      list_all ((=) UNDEFINED) (map (foldl record_type UNDEFINED) parts) then UNDEFINED else t)"
  proof -
    have "list_all (\<lambda>s. s \<in> {UNDEFINED, t}) (map (foldl record_type UNDEFINED) parts)"
      using types by (auto simp: list_all_iff)
    from array_type_same [OF this, of UNDEFINED] show ?thesis by simp
  qed
  moreover have "t = UNDEFINED \<or> (list_all ((=) UNDEFINED) (map (foldl record_type UNDEFINED) parts) \<longleftrightarrow> list_all is_missing (concat parts))"
    using types by (induction parts) auto
  ultimately show ?thesis by auto
qed


text \<open>A window that does not look ahead always ends inside the column.\<close>

lemma trailing_windows:
  "window_end \<le> 0 \<Longrightarrow> p + sum_list ns \<le> rows \<Longrightarrow> windows_start_inside window_start window_end rows p ns"
proof (induction ns arbitrary: p)
  case (Cons n ns)
  from Cons.IH [of "p + n"] Cons.prems show ?case by (simp add: windows_start_inside_def)
qed (simp add: windows_start_inside_def)

section \<open>A concrete buffer\<close>

definition list_buffer :: "(nat \<times> flexible_type list) circular_buffer" where
  "list_buffer = \<lparr>cb_new = (\<lambda>n x. (n, replicate n x)),
     cb_push_back = (\<lambda>x (n, xs). (n, drop (Suc (length xs) - n) (xs @ [x]))), cb_capacity = fst, cb_list = snd\<rparr>"

lemma list_buffer_documented: "documented_buffer list_buffer"
  by (auto simp: documented_buffer_def list_buffer_def drop_Suc split: prod.splits)



end
