(* ===== verification/Counting_Sketches.thy ===== *)
theory Counting_Sketches
  imports Aggregator_Laws Serialization "HOL-Library.Multiset"
begin

text \<open>
  The sketches of \<open>sketches/countmin.hpp\<close>, \<open>sketches/countsketch.hpp\<close> and \<open>sketches/hyperloglog.hpp\<close>:
  tables of counters that summarise a stream. The hash functions (\<open>std::hash\<close> of the element type and
  \<open>hash64\<close>, which is CityHash) and the random numbers that seed them are parameters. A failed assertion
  is \<open>None\<close>. The number of bins is \<open>1 << bits\<close> in an \<open>int\<close>, which is defined for fewer than 31 bits.
\<close>

section \<open>Tables of counters\<close>

text \<open>The loop over the rows of a table, which the sketches share: row \<open>j\<close> gets \<open>f j\<close> of its old contents.\<close>

definition for_rows :: "nat \<Rightarrow> (nat \<Rightarrow> 'r \<Rightarrow> 'r) \<Rightarrow> 'r list \<Rightarrow> 'r list" where
  "for_rows n f rows = fold (\<lambda>j rows. rows[j := f j (rows ! j)]) [0..<n] rows"

lemma for_rows_prefix:
  "n \<le> length rows \<Longrightarrow> for_rows n f rows = map (\<lambda>j. f j (rows ! j)) [0..<n] @ drop n rows"
proof (induction n)
  case (Suc n)
  then have "for_rows (Suc n) f rows = (map (\<lambda>j. f j (rows ! j)) [0..<n] @ drop n rows)[n := f n (rows ! n)]"
    by (simp add: for_rows_def nth_append)
  also have "drop n rows = rows ! n # drop (Suc n) rows" using Suc.prems by (simp add: Cons_nth_drop_Suc)
  finally show ?case by (simp add: list_update_append)
qed (simp add: for_rows_def)

lemma for_rows_map: "length rows = n \<Longrightarrow> for_rows n f rows = map (\<lambda>j. f j (rows ! j)) [0..<n]"
  by (simp add: for_rows_prefix)

lemma for_rows_nth [simp]: "length rows = n \<Longrightarrow> j < n \<Longrightarrow> for_rows n f rows ! j = f j (rows ! j)"
  by (simp add: for_rows_map)

lemma length_for_rows [simp]: "length rows = n \<Longrightarrow> length (for_rows n f rows) = n"
  by (simp add: for_rows_map)

lemma for_rows_eqI:
  "length rows = n \<Longrightarrow> length rows' = n \<Longrightarrow> (\<And>j. j < n \<Longrightarrow> f j (rows ! j) = g j (rows' ! j)) \<Longrightarrow>
   for_rows n f rows = for_rows n g rows'"
  by (simp add: for_rows_map)

definition table_ok :: "nat \<Rightarrow> nat \<Rightarrow> 'c list list \<Rightarrow> bool" where
  "table_ok depth bins rows \<longleftrightarrow> length rows = depth \<and> (\<forall>j < depth. length (rows ! j) = bins)"

text \<open>Adding a number to one counter of each row, and adding two tables.\<close>

definition add_cells :: "nat \<Rightarrow> (nat \<Rightarrow> nat) \<Rightarrow> (nat \<Rightarrow> 'c::plus) \<Rightarrow> 'c list list \<Rightarrow> 'c list list" where
  "add_cells depth bin delta = for_rows depth (\<lambda>j row. row[bin j := row ! bin j + delta j])"

definition add_tables :: "nat \<Rightarrow> nat \<Rightarrow> 'c::plus list list \<Rightarrow> 'c list list \<Rightarrow> 'c list list" where
  "add_tables depth bins other = for_rows depth (\<lambda>j. for_rows bins (\<lambda>b c. c + other ! j ! b))"

lemma table_ok_add_cells [simp]: "table_ok depth bins rows \<Longrightarrow> table_ok depth bins (add_cells depth bin delta rows)"
  by (simp add: table_ok_def add_cells_def)

lemma table_eqI:
  assumes "table_ok depth bins rows" and "table_ok depth bins rows'"
    and "\<And>j b. j < depth \<Longrightarrow> b < bins \<Longrightarrow> rows ! j ! b = rows' ! j ! b"
  shows "rows = rows'"
  using assms by (auto simp: table_ok_def intro!: nth_equalityI)

lemma add_cells_nth:
  "table_ok depth bins rows \<Longrightarrow> j < depth \<Longrightarrow> b < bins \<Longrightarrow>
   add_cells depth bin delta rows ! j ! b = (if b = bin j then rows ! j ! b + delta j else rows ! j ! b)"
  by (simp add: table_ok_def add_cells_def nth_list_update)

lemma table_ok_add_tables [simp]: "table_ok depth bins rows \<Longrightarrow> table_ok depth bins (add_tables depth bins other rows)"
  by (simp add: table_ok_def add_tables_def)

lemma add_tables_nth:
  "table_ok depth bins rows \<Longrightarrow> j < depth \<Longrightarrow> b < bins \<Longrightarrow>
   add_tables depth bins other rows ! j ! b = rows ! j ! b + other ! j ! b"
  by (simp add: table_ok_def add_tables_def)

text \<open>Both are additions of integers modulo a power of two, so they commute.\<close>

lemma add_cells_commute:
  fixes rows :: "'c::ab_semigroup_add list list"
  assumes "table_ok depth bins rows"
  shows "add_cells depth bin delta (add_cells depth bin' delta' rows) = add_cells depth bin' delta' (add_cells depth bin delta rows)"
  using assms by (intro table_eqI [of depth bins]) (auto simp: add_cells_nth [of depth bins] ac_simps)

lemma add_tables_cells:
  fixes rows :: "'c::ab_semigroup_add list list"
  assumes "table_ok depth bins rows" and "table_ok depth bins other"
  shows "add_tables depth bins (add_cells depth bin delta other) rows = add_cells depth bin delta (add_tables depth bins other rows)"
  using assms by (intro table_eqI [of depth bins]) (auto simp: add_cells_nth [of depth bins] add_tables_nth [of depth bins] ac_simps)

definition zero_table :: "nat \<Rightarrow> nat \<Rightarrow> 'c::zero list list" where
  "zero_table depth bins = replicate depth (replicate bins 0)"

lemma zero_table_ok [simp]: "table_ok depth bins (zero_table depth bins)"
  by (simp add: table_ok_def zero_table_def)

lemma zero_table_nth [simp]: "j < depth \<Longrightarrow> b < bins \<Longrightarrow> zero_table depth bins ! j ! b = 0"
  by (simp add: zero_table_def)

lemma add_zero_table:
  fixes rows :: "'c::monoid_add list list"
  shows "table_ok depth bins rows \<Longrightarrow> add_tables depth bins (zero_table depth bins) rows = rows"
  by (intro table_eqI [of depth bins]) (auto simp: add_tables_nth)

section \<open>Count-min\<close>

record countmin =
  cm_num_hash :: nat
  cm_num_bits :: nat
  cm_num_bins :: nat
  cm_seeds :: "u64 list"
  cm_counts :: "u64 list list"

text \<open>The members of a sketch with the given random numbers; \<open>depth\<close> is how many there are.\<close>

definition countmin_members :: "nat \<Rightarrow> u64 list \<Rightarrow> countmin" where
  "countmin_members bits seeds =
     \<lparr>cm_num_hash = length seeds, cm_num_bits = bits, cm_num_bins = 2 ^ bits, cm_seeds = seeds,
      cm_counts = zero_table (length seeds) (2 ^ bits)\<rparr>"

definition countmin_new :: "(u64 \<Rightarrow> nat \<Rightarrow> u64) \<Rightarrow> nat \<Rightarrow> nat \<Rightarrow> u64 \<Rightarrow> countmin option" where
  "countmin_new fast_uniform bits depth seed =
     (if bits < 31 \<and> 16 \<le> (2::nat) ^ bits then Some (countmin_members bits (map (fast_uniform seed) [0..<depth])) else None)"

definition hash_bin :: "(u64 \<Rightarrow> u64) \<Rightarrow> u64 list \<Rightarrow> nat \<Rightarrow> u64 \<Rightarrow> nat \<Rightarrow> nat" where
  "hash_bin hash64 seeds num_bins i j = unat (hash64 (seeds ! j XOR i)) mod num_bins"

definition countmin_add :: "('x \<Rightarrow> u64) \<Rightarrow> (u64 \<Rightarrow> u64) \<Rightarrow> 'x \<times> u64 \<Rightarrow> countmin \<Rightarrow> countmin" where
  "countmin_add std_hash hash64 tc s =
     (case tc of (t, n) \<Rightarrow>
        let i = hash64 (std_hash t)
        in s\<lparr>cm_counts := add_cells (cm_num_hash s) (hash_bin hash64 (cm_seeds s) (cm_num_bins s) i) (\<lambda>j. n) (cm_counts s)\<rparr>)"

fun least_count :: "u64 \<Rightarrow> u64 list \<Rightarrow> u64" where
  "least_count E [] = E"
| "least_count E (c # cs) = least_count (if c < E then c else E) cs"

definition countmin_estimate :: "('x \<Rightarrow> u64) \<Rightarrow> (u64 \<Rightarrow> u64) \<Rightarrow> 'x \<Rightarrow> countmin \<Rightarrow> u64" where
  "countmin_estimate std_hash hash64 t s =
     (let i = hash64 (std_hash t)
      in least_count (- 1)
           (map (\<lambda>j. cm_counts s ! j ! hash_bin hash64 (cm_seeds s) (cm_num_bins s) i j) [0..<cm_num_hash s]))"

definition countmin_combine :: "countmin \<Rightarrow> countmin \<Rightarrow> countmin option" where
  "countmin_combine s other =
     (if cm_num_bins s \<noteq> cm_num_bins other \<or> cm_num_hash s \<noteq> cm_num_hash other then None
      else Some (s\<lparr>cm_counts := add_tables (cm_num_hash s) (cm_num_bins s) (cm_counts other) (cm_counts s)\<rparr>))"

definition nonzero_cells :: "'c::zero list list \<Rightarrow> nat" where
  "nonzero_cells rows = sum_list (map (\<lambda>row. length (filter (\<lambda>c. c \<noteq> 0) row)) rows)"

definition countmin_density :: "('d, 'z) arith_scheme \<Rightarrow> countmin \<Rightarrow> 'd" where
  "countmin_density F s =
     d_div F (d_of_size F (of_nat (nonzero_cells (cm_counts s)))) (d_of_size F (of_nat (cm_num_hash s * cm_num_bins s)))"

definition countmin_save :: "countmin \<Rightarrow> oarchive \<Rightarrow> oarchive" where
  "countmin_save s oarc =
     save_vector (save_pod_vector 8) (cm_counts s)
       (save_pod_vector 8 (cm_seeds s)
         (save_size (cm_num_bins s) (save_size (cm_num_bits s) (save_size (cm_num_hash s) oarc))))"

definition countmin_load :: "iarchive \<Rightarrow> (countmin \<times> iarchive) option" where
  "countmin_load iarc = do {
     (num_hash, iarc) \<leftarrow> load_pod 8 iarc;
     (num_bits, iarc) \<leftarrow> load_pod 8 iarc;
     (num_bins, iarc) \<leftarrow> load_pod 8 iarc;
     (seeds, iarc) \<leftarrow> load_pod_vector 8 iarc;
     (counts, iarc) \<leftarrow> load_vector (load_pod_vector 8) iarc;
     Some (\<lparr>cm_num_hash = unat (num_hash :: u64), cm_num_bits = unat (num_bits :: u64),
       cm_num_bins = unat (num_bins :: u64), cm_seeds = seeds, cm_counts = counts\<rparr>, iarc)
   }"

text \<open>The sketches that the constructor makes from the same arguments.\<close>

definition countmin_ok :: "nat \<Rightarrow> u64 list \<Rightarrow> countmin \<Rightarrow> bool" where
  "countmin_ok bits seeds s \<longleftrightarrow> cm_num_hash s = length seeds \<and> cm_num_bits s = bits \<and> cm_num_bins s = 2 ^ bits
     \<and> cm_seeds s = seeds \<and> table_ok (length seeds) (2 ^ bits) (cm_counts s)"

lemma countmin_members_ok [simp]: "countmin_ok bits seeds (countmin_members bits seeds)"
  by (simp add: countmin_ok_def countmin_members_def)

lemma countmin_add_ok [simp]: "countmin_ok bits seeds s \<Longrightarrow> countmin_ok bits seeds (countmin_add std_hash hash64 tc s)"
  by (cases tc) (auto simp: countmin_ok_def countmin_add_def Let_def)

lemma countmin_combine_members: "countmin_ok bits seeds s \<Longrightarrow> countmin_combine s (countmin_members bits seeds) = Some s"
  by (simp add: countmin_combine_def countmin_members_def countmin_ok_def add_zero_table)

lemma countmin_combine_add:
  "countmin_ok bits seeds s \<Longrightarrow> countmin_ok bits seeds other \<Longrightarrow>
   countmin_combine s (countmin_add std_hash hash64 tc other) = map_option (countmin_add std_hash hash64 tc) (countmin_combine s other)"
  by (cases tc) (simp add: countmin_combine_def countmin_add_def countmin_ok_def Let_def add_tables_cells)

lemma countmin_add_commute:
  "countmin_ok bits seeds s \<Longrightarrow>
   countmin_add std_hash hash64 tc (countmin_add std_hash hash64 uc s) = countmin_add std_hash hash64 uc (countmin_add std_hash hash64 tc s)"
  by (cases tc; cases uc)
    (simp add: countmin_add_def countmin_ok_def Let_def add_cells_commute [of "length seeds" "2 ^ bits" "cm_counts s"])

section \<open>The contract of a sketch\<close>

text \<open>
  A sketch is an aggregator for which the empty state is a state like any other and the order of the
  elements does not matter.
\<close>

locale stream_sketch = aggregator +
  assumes filled_init: "filled init"
    and add_add: "valid x \<Longrightarrow> valid y \<Longrightarrow> filled s \<Longrightarrow> Option.bind (add x s) (add y) = Option.bind (add y s) (add x)"
begin

lemma aggregate_ok: "list_all valid xs \<Longrightarrow> \<exists>s. aggregate xs = Some s \<and> filled s"
  using filled_add_all filled_init by (simp add: aggregate_def)

lemma add_all_move:
  "valid x \<Longrightarrow> list_all valid xs \<Longrightarrow> filled s \<Longrightarrow> Option.bind (add x s) (add_all xs) = Option.bind (add_all xs s) (add x)"
proof (induction xs arbitrary: s)
  case (Cons y ys)
  obtain t where t: "add y s = Some t" "filled t" using filled_add Cons.prems by auto
  have "Option.bind (add x s) (add_all (y # ys)) = Option.bind (Option.bind (add x s) (add y)) (add_all ys)"
    by (cases "add x s") simp_all
  also have "Option.bind (add x s) (add y) = add x t" using add_add [of x y s] Cons.prems t by simp
  also have "Option.bind (add x t) (add_all ys) = Option.bind (add_all ys t) (add x)" using Cons t by simp
  finally show ?case using t by simp
next
  case Nil
  show ?case by (cases "add x s") simp_all
qed

lemma aggregate_permute:
  assumes "list_all valid xs" and "mset xs = mset ys"
  shows "aggregate xs = aggregate ys"
  using assms
proof (induction xs arbitrary: ys)
  case (Cons x xs)
  from Cons.prems(2) obtain us vs where ys: "ys = us @ x # vs" "mset xs = mset (us @ vs)"
    by (metis add_mset_remove_trivial in_set_conv_decomp list.set_intros(1) mset.simps(2) mset_append
        mset_eq_setD union_mset_add_mset_right)
  have set: "set (us @ vs) = set xs" using ys(2) mset_eq_setD by metis
  then have valid: "valid x" "list_all valid us" "list_all valid vs" using Cons.prems(1) by (auto simp: list_all_iff)
  have "aggregate (x # xs) = aggregate (us @ vs @ [x])"
  proof -
    have "aggregate (x # xs) = Option.bind (aggregate xs) (add x)"
      using add_all_move Cons.prems(1) filled_init by (simp add: aggregate_def)
    also have "aggregate xs = aggregate (us @ vs)" using Cons.IH Cons.prems(1) ys(2) by simp
    finally show ?thesis by (auto simp: aggregate_def add_all_append split: bind_splits)
  qed
  also have "\<dots> = aggregate ys"
  proof -
    obtain s where s: "aggregate us = Some s" "filled s" using aggregate_ok valid by blast
    then show ?thesis using add_all_move [OF valid(1,3) s(2)]
      by (auto simp: aggregate_def add_all_append ys(1) split: bind_splits)
  qed
  finally show ?case .
qed (simp add: aggregate_def)

lemma comb_aggregates:
  assumes "list_all valid xs" and "list_all valid ys" and "ys \<noteq> []"
    and "aggregate xs = Some s" and "aggregate ys = Some t"
  shows "comb s t = aggregate (xs @ ys)"
proof -
  have "filled s" using aggregate_ok assms(1,4) by fastforce
  then have "comb s t = add_all ys s" using comb_aggregate assms by blast
  then show ?thesis using assms(4) by (simp add: aggregate_def add_all_append)
qed

end

text \<open>A sketch that does not see an element a second time stands for the set of the elements.\<close>

locale set_sketch = stream_sketch +
  assumes add_twice: "valid x \<Longrightarrow> filled s \<Longrightarrow> Option.bind (add x s) (add x) = add x s"
begin

lemma aggregate_again:
  assumes "list_all valid xs" and "x \<in> set xs"
  shows "aggregate (x # xs) = aggregate xs"
proof -
  let ?rest = "remove1 x xs"
  have rest: "mset xs = mset (x # ?rest)" using assms(2) by simp
  have valid: "valid x" "list_all valid (x # xs)" using assms by (auto simp: list_all_iff)
  have "aggregate (x # xs) = aggregate (x # x # ?rest)" using aggregate_permute valid(2) rest by simp
  also have "\<dots> = Option.bind (Option.bind (add x init) (add x)) (add_all ?rest)"
    by (cases "add x init") (simp_all add: aggregate_def)
  also have "\<dots> = aggregate (x # ?rest)" using add_twice [OF valid(1) filled_init] by (simp add: aggregate_def)
  also have "\<dots> = aggregate xs" using aggregate_permute [OF assms(1) rest] by simp
  finally show ?thesis .
qed

lemma aggregate_remdups: "list_all valid xs \<Longrightarrow> aggregate (remdups xs) = aggregate xs"
proof (induction xs)
  case (Cons x xs)
  show ?case
  proof (cases "x \<in> set xs")
    case True
    with Cons aggregate_again [of xs x] show ?thesis by simp
  next
    case False
    have valid: "valid x" "list_all valid xs" "list_all valid (remdups xs)" using Cons.prems by (simp_all add: list_all_iff)
    then have "aggregate (x # remdups xs) = Option.bind (aggregate (remdups xs)) (add x)"
      using add_all_move filled_init by (simp add: aggregate_def)
    also have "\<dots> = Option.bind (aggregate xs) (add x)" using Cons by simp
    also have "\<dots> = aggregate (x # xs)" using add_all_move valid filled_init by (simp add: aggregate_def)
    finally show ?thesis using False by simp
  qed
qed simp

lemma aggregate_set:
  assumes "list_all valid xs" and "set xs = set ys"
  shows "aggregate xs = aggregate ys"
proof -
  have "mset (remdups xs) = mset (remdups ys)" using assms(2) by (simp add: set_eq_iff_mset_remdups_eq)
  moreover have "list_all valid (remdups xs)" "list_all valid ys" using assms by (auto simp: list_all_iff)
  ultimately show ?thesis using aggregate_permute aggregate_remdups assms(1) by metis
qed

end

section \<open>Count-min streams\<close>

interpretation cm: stream_sketch "countmin_members bits seeds" "\<lambda>tc s. Some (countmin_add std_hash hash64 tc s)"
    countmin_combine "\<lambda>tc. True" "countmin_ok bits seeds"
  by unfold_locales
    (auto simp: countmin_combine_members countmin_combine_add countmin_add_commute split: option.splits bind_splits)

lemma cm_add_all: "cm.add_all std_hash hash64 xs s = Some (fold (countmin_add std_hash hash64) xs s)"
  by (induction xs arbitrary: s) simp_all

lemma countmin_fold_ok: "countmin_ok bits seeds s \<Longrightarrow> countmin_ok bits seeds (fold (countmin_add std_hash hash64) xs s)"
  by (induction xs arbitrary: s) simp_all

lemma countmin_newE:
  assumes "countmin_new fast_uniform bits depth seed = Some s"
  obtains seeds where "s = countmin_members bits seeds" and "length seeds = depth"
  using assms by (auto simp: countmin_new_def split: if_splits)

text \<open>
  Combining two count-min sketches that were made with the same arguments gives the sketch of all the
  elements of both streams, in whatever order one sketch would have seen them.
\<close>

theorem countmin_combine_streams:
  assumes "countmin_new fast_uniform bits depth seed = Some s" and "mset zs = mset xs + mset ys"
  shows "countmin_combine (fold (countmin_add std_hash hash64) xs s) (fold (countmin_add std_hash hash64) ys s)
    = Some (fold (countmin_add std_hash hash64) zs s)"
proof -
  obtain seeds where s: "s = countmin_members bits seeds" using countmin_newE [OF assms(1)] .
  have "countmin_combine (fold (countmin_add std_hash hash64) xs s) (fold (countmin_add std_hash hash64) ys s)
      = Some (fold (countmin_add std_hash hash64) (xs @ ys) s)"
  proof (cases "ys = []")
    case True
    then show ?thesis unfolding s by (simp add: countmin_combine_members [OF countmin_fold_ok [OF countmin_members_ok]])
  next
    case False
    then show ?thesis
      using cm.comb_aggregates [of xs ys bits seeds std_hash hash64] unfolding s by (simp add: cm.aggregate_def cm_add_all list_all_iff)
  qed
  moreover have "fold (countmin_add std_hash hash64) (xs @ ys) s = fold (countmin_add std_hash hash64) zs s"
    using cm.aggregate_permute [of "xs @ ys" zs bits seeds std_hash hash64] assms(2)
    unfolding s by (simp add: cm.aggregate_def cm_add_all list_all_iff)
  ultimately show ?thesis by simp
qed

theorem countmin_combine_streams_witness:
  "let s = the (countmin_new (\<lambda>seed j. seed * of_nat j) 4 2 7); add = countmin_add (\<lambda>t :: u64. t) (\<lambda>w. 5 * w + 1)
   in countmin_combine (fold add [(1, 2), (9, 1)] s) (fold add [(3, 4)] s) = Some (fold add [(3, 4), (9, 1), (1, 2)] s)"
  using countmin_combine_streams [of "\<lambda>seed j. seed * of_nat j" 4 2 7 "the (countmin_new (\<lambda>seed j. seed * of_nat j) 4 2 7)"
      "[(3, 4), (9, 1), (1, 2)]" "[(1, 2), (9, 1)]" "[(3, 4)]" "\<lambda>t :: u64. t" "\<lambda>w. 5 * w + 1"]
  by (simp add: countmin_new_def Let_def)

section \<open>What the counters count\<close>

definition count_where :: "('x \<Rightarrow> bool) \<Rightarrow> ('x \<times> u64) list \<Rightarrow> nat" where
  "count_where P xs = sum_list (map (\<lambda>(t, n). if P t then unat n else 0) xs)"

lemma count_where_mono: "(\<And>t. P t \<Longrightarrow> Q t) \<Longrightarrow> count_where P xs \<le> count_where Q xs"
  unfolding count_where_def by (intro sum_list_mono) auto

lemma count_where_le: "count_where P xs \<le> count_where (\<lambda>t. True) xs"
  by (rule count_where_mono) simp

lemma count_where_simps [simp]:
  "count_where P [] = 0" "count_where P (xs @ ys) = count_where P xs + count_where P ys"
  "count_where P [(t, n)] = (if P t then unat n else 0)"
  by (simp_all add: count_where_def)

lemma countmin_add_cell:
  "countmin_ok bits seeds s \<Longrightarrow> j < length seeds \<Longrightarrow> b < 2 ^ bits \<Longrightarrow>
   cm_counts (countmin_add std_hash hash64 (t, n) s) ! j ! b = cm_counts s ! j ! b
     + (if hash_bin hash64 seeds (2 ^ bits) (hash64 (std_hash t)) j = b then n else 0)"
  by (auto simp: countmin_ok_def countmin_add_def Let_def add_cells_nth [of "length seeds" "2 ^ bits"])

lemma countmin_cells:
  assumes "j < length seeds" and "b < 2 ^ bits"
  shows "cm_counts (fold (countmin_add std_hash hash64) xs (countmin_members bits seeds)) ! j ! b
    = of_nat (count_where (\<lambda>t. hash_bin hash64 seeds (2 ^ bits) (hash64 (std_hash t)) j = b) xs)"
proof (induction xs rule: rev_induct)
  case Nil
  with assms show ?case by (simp add: countmin_members_def)
next
  case (snoc tc xs)
  obtain t n where tc: "tc = (t, n)" by (cases tc)
  have "countmin_ok bits seeds (fold (countmin_add std_hash hash64) xs (countmin_members bits seeds))"
    by (rule countmin_fold_ok) simp
  from countmin_add_cell [OF this assms, of std_hash hash64 t n] show ?case by (simp add: snoc tc)
qed

lemma least_count_Min: "least_count E cs = Min (insert E (set cs))"
proof (induction cs arbitrary: E)
  case (Cons c cs)
  have "(if c < E then c else E) = min c E" by (auto simp: min_def)
  then have "least_count E (c # cs) = Min (insert (min c E) (set cs))" using Cons [of "min c E"] by (simp del: Min_insert)
  also have "\<dots> = Min (insert E (insert c (set cs)))" by (cases "set cs = {}") (simp_all add: ac_simps)
  finally show ?case by simp
qed simp

text \<open>
  C15. As long as the total of the counts fits into 64 bits, the estimate is never below the frequency of the
  element. It is the frequency of all the elements that share its bin in some row, and no row has fewer.
\<close>

theorem countmin_estimate_bounds:
  assumes "countmin_new fast_uniform bits depth seed = Some s" and "0 < depth"
    and "count_where (\<lambda>u. True) xs < 2 ^ 64"
  shows "let s' = fold (countmin_add std_hash hash64) xs s;
       bin = (\<lambda>u. hash_bin hash64 (cm_seeds s) (2 ^ bits) (hash64 (std_hash u)));
       estimate = unat (countmin_estimate std_hash hash64 t s')
     in count_where (\<lambda>u. u = t) xs \<le> estimate
       \<and> (\<forall>j < depth. estimate \<le> count_where (\<lambda>u. bin u j = bin t j) xs)
       \<and> (\<exists>j < depth. estimate = count_where (\<lambda>u. bin u j = bin t j) xs)"
proof -
  obtain seeds where s: "s = countmin_members bits seeds" "length seeds = depth" using countmin_newE [OF assms(1)] .
  define s' where "s' = fold (countmin_add std_hash hash64) xs s"
  define bin where "bin u = hash_bin hash64 seeds (2 ^ bits) (hash64 (std_hash u))" for u
  define total where "total j = count_where (\<lambda>u. bin u j = bin t j) xs" for j
  have ok: "countmin_ok bits seeds s'" unfolding s'_def s(1) by (rule countmin_fold_ok) simp
  have cell: "cm_counts s' ! j ! bin t j = of_nat (total j)" if "j < depth" for j
    unfolding s'_def s(1) bin_def total_def using that s(2) by (intro countmin_cells) (simp_all add: hash_bin_def)
  have small: "unat (of_nat (total j) :: u64) = total j" for j
    using count_where_le [of "\<lambda>u. bin u j = bin t j" xs] assms(3) by (simp add: unat_of_nat total_def)
  have est: "countmin_estimate std_hash hash64 t s' = Min (insert (- 1) ((\<lambda>j. of_nat (total j)) ` {0..<depth}))"
    using ok s(2) cell unfolding countmin_estimate_def Let_def least_count_Min countmin_ok_def bin_def by simp
  let ?T = "(\<lambda>j. of_nat (total j) :: u64) ` {0..<depth}"
  have "Min (insert (- 1) ?T) = min (- 1) (Min ?T)" using assms(2) by (intro Min_insert) auto
  also have "\<dots> = Min ?T" by (rule min_absorb2) simp
  finally have "Min (insert (- 1) ?T) = Min ?T" .
  with est have est: "countmin_estimate std_hash hash64 t s' = Min ?T" by simp
  have "Min ?T \<in> ?T" using assms(2) by (intro Min_in) auto
  then obtain j where j: "j < depth" "Min ?T = of_nat (total j)" by auto
  have least: "total j \<le> total k" if "k < depth" for k
  proof -
    have "Min ?T \<le> of_nat (total k)" using that by (intro Min_le) auto
    then show ?thesis using j(2) small by (metis word_le_nat_alt)
  qed
  have "count_where (\<lambda>u. u = t) xs \<le> total j" unfolding total_def by (rule count_where_mono) simp
  moreover have "unat (countmin_estimate std_hash hash64 t s') = total j" using est j(2) small by simp
  ultimately show ?thesis
    using least j(1) s(1) unfolding Let_def total_def bin_def s'_def by (auto simp: countmin_members_def)
qed

theorem countmin_estimate_bounds_witness:
  "let s = the (countmin_new (\<lambda>seed j. seed * of_nat j) 4 2 7); xs = [(1, 2), (9, 1), (1, 3)] :: (u64 \<times> u64) list
   in 5 \<le> unat (countmin_estimate (\<lambda>t. t) (\<lambda>w. 5 * w + 1) 1 (fold (countmin_add (\<lambda>t. t) (\<lambda>w. 5 * w + 1)) xs s))"
proof -
  have "count_where (\<lambda>u :: u64. u = 1) [(1, 2), (9, 1), (1, 3)] = 5" "count_where (\<lambda>u :: u64. True) [(1, 2), (9, 1), (1, 3)] = 6"
    by (simp_all add: count_where_def)
  then show ?thesis
    using countmin_estimate_bounds [of "\<lambda>seed j. seed * of_nat j" 4 2 7 "the (countmin_new (\<lambda>seed j. seed * of_nat j) 4 2 7)"
      "[(1, 2), (9, 1), (1, 3)]" "\<lambda>t :: u64. t" "\<lambda>w. 5 * w + 1" 1]
    by (simp add: countmin_new_def Let_def del: fold_simps)
qed

section \<open>Concurrent additions\<close>

text \<open>\<open>atomic_add\<close> adds to one counter after the other by \<open>__sync_add_and_fetch\<close>, so that the steps of several threads may interleave.\<close>

definition sync_add :: "nat \<times> nat \<times> u64 \<Rightarrow> countmin \<Rightarrow> countmin" where
  "sync_add step s = (case step of (j, b, n) \<Rightarrow>
     s\<lparr>cm_counts := (cm_counts s)[j := (cm_counts s ! j)[b := cm_counts s ! j ! b + n]]\<rparr>)"

definition atomic_add_steps :: "('x \<Rightarrow> u64) \<Rightarrow> (u64 \<Rightarrow> u64) \<Rightarrow> countmin \<Rightarrow> 'x \<times> u64 \<Rightarrow> (nat \<times> nat \<times> u64) list" where
  "atomic_add_steps std_hash hash64 s tc =
     (case tc of (t, n) \<Rightarrow>
        let i = hash64 (std_hash t)
        in map (\<lambda>j. (j, hash_bin hash64 (cm_seeds s) (cm_num_bins s) i j, n)) [0..<cm_num_hash s])"

lemma sync_add_commute: "sync_add p \<circ> sync_add q = sync_add q \<circ> sync_add p"
proof
  fix s
  obtain j b n k c m where "p = (j, b, n)" "q = (k, c, m)" by (cases p; cases q)
  moreover have "(row[c := row ! c + m])[b := (row[c := row ! c + m]) ! b + n] = (row[b := row ! b + n])[c := (row[b := row ! b + n]) ! c + m]"
    for row :: "u64 list"
    by (cases "b = c"; cases "c < length row") (simp_all add: list_update_swap ac_simps list_update_beyond not_less)
  ultimately show "(sync_add p \<circ> sync_add q) s = (sync_add q \<circ> sync_add p) s"
    by (cases "j = k"; cases "k < length (cm_counts s)") (simp_all add: sync_add_def list_update_swap list_update_beyond)
qed

lemma sync_adds: "fold sync_add (atomic_add_steps std_hash hash64 s tc) s = countmin_add std_hash hash64 tc s"
proof (cases tc)
  case (Pair t n)
  have "fold sync_add (map (\<lambda>j. (j, bin j, n)) js) s = s\<lparr>cm_counts := fold (\<lambda>j rows. rows[j := (rows ! j)[bin j := rows ! j ! bin j + n]]) js (cm_counts s)\<rparr>"
    for js bin
    by (induction js arbitrary: s) (simp_all add: sync_add_def)
  with Pair show ?thesis
    by (simp add: atomic_add_steps_def countmin_add_def Let_def add_cells_def for_rows_def)
qed

text \<open>
  C39. However the atomic steps of concurrent calls of \<open>atomic_add\<close> interleave, the sketch at the end is that of
  the calls one after the other.
\<close>

theorem atomic_adds_linearise:
  assumes "mset steps = mset (concat (map (atomic_add_steps std_hash hash64 s) xs))"
  shows "fold sync_add steps s = fold (countmin_add std_hash hash64) xs s"
proof -
  have same: "atomic_add_steps std_hash hash64 (countmin_add std_hash hash64 tc u) = atomic_add_steps std_hash hash64 u" for tc u
    by (auto simp: atomic_add_steps_def countmin_add_def Let_def fun_eq_iff split: prod.splits)
  have "fold sync_add (concat (map (atomic_add_steps std_hash hash64 s) xs)) s = fold (countmin_add std_hash hash64) xs s"
  proof (induction xs arbitrary: s)
    case (Cons tc xs)
    from Cons.IH [of "countmin_add std_hash hash64 tc s"] show ?case by (simp add: sync_adds same)
  qed simp
  moreover have "fold sync_add steps = fold sync_add (concat (map (atomic_add_steps std_hash hash64 s) xs))"
    by (rule fold_multiset_equiv [OF sync_add_commute assms])
  ultimately show ?thesis by simp
qed

theorem atomic_adds_linearise_witness:
  "let s = countmin_members 4 [3, 8]; xs = [(1, 2), (6, 1)] :: (u64 \<times> u64) list;
       p = atomic_add_steps (\<lambda>t. t) (\<lambda>w. w) s (1, 2); q = atomic_add_steps (\<lambda>t. t) (\<lambda>w. w) s (6, 1)
   in fold sync_add [q ! 0, p ! 0, p ! 1, q ! 1] s = fold (countmin_add (\<lambda>t. t) (\<lambda>w. w)) xs s"
proof -
  let ?s = "countmin_members 4 [3, 8]"
  let ?step = "atomic_add_steps (\<lambda>t. t) (\<lambda>w. w) ?s"
  have "atomic_add_steps (\<lambda>t. t) (\<lambda>w. w) ?s (t, n) =
      [(0, hash_bin (\<lambda>w. w) [3, 8] 16 t 0, n), (1, hash_bin (\<lambda>w. w) [3, 8] 16 t 1, n)]" for t n
    by (simp add: atomic_add_steps_def countmin_members_def Let_def upt_rec)
  then show ?thesis
    using atomic_adds_linearise [of "[?step (6, 1) ! 0, ?step (1, 2) ! 0, ?step (1, 2) ! 1, ?step (6, 1) ! 1]"
      "\<lambda>t. t" "\<lambda>w. w" ?s "[(1, 2), (6, 1)]"] by (simp add: Let_def)
qed

section \<open>Saving and loading\<close>

interpretation counts_ser: serializable "save_vector (save_pod_vector 8)"
  "load_vector (load_pod_vector 8) :: iarchive \<Rightarrow> (u64 list list \<times> iarchive) option"
  "vector_img (vector_img (le_bytes 8))" "\<lambda>xs. length xs < 2 ^ 64 \<and> (\<forall>x \<in> set xs. length x < 2 ^ 64)"
  by (rule pod_vector_ser.vector_serializable)

definition countmin_img :: "countmin \<Rightarrow> bytes" where
  "countmin_img s = le_bytes 8 (of_nat (cm_num_hash s) :: u64) @ le_bytes 8 (of_nat (cm_num_bits s) :: u64)
     @ le_bytes 8 (of_nat (cm_num_bins s) :: u64) @ vector_img (le_bytes 8) (cm_seeds s)
     @ vector_img (vector_img (le_bytes 8)) (cm_counts s)"

definition countmin_fits :: "countmin \<Rightarrow> bool" where
  "countmin_fits s \<longleftrightarrow> cm_num_hash s < 2 ^ 64 \<and> cm_num_bits s < 2 ^ 64 \<and> cm_num_bins s < 2 ^ 64
     \<and> length (cm_seeds s) < 2 ^ 64 \<and> length (cm_counts s) < 2 ^ 64 \<and> (\<forall>row \<in> set (cm_counts s). length row < 2 ^ 64)"

interpretation cm_ser: serializable countmin_save countmin_load countmin_img countmin_fits
proof unfold_locales
  fix s :: countmin and b :: iarchive and r :: bytes
  assume fits: "countmin_fits s" and rest: "iarc_rest b = countmin_img s @ r"
  note fit = fits [unfolded countmin_fits_def]
  let ?c = "iarc_skip 8 b" and ?d = "iarc_skip 8 (iarc_skip 8 b)"
  let ?e = "iarc_skip 8 ?d"
  let ?f = "iarc_skip (length (vector_img (le_bytes 8) (cm_seeds s))) ?e"
  have "load_pod 8 b = Some (of_nat (cm_num_hash s) :: u64, ?c)" "load_pod 8 ?c = Some (of_nat (cm_num_bits s) :: u64, ?d)"
    "load_pod 8 ?d = Some (of_nat (cm_num_bins s) :: u64, ?e)"
    using fit rest by (intro load_size; simp add: countmin_img_def)+
  moreover have "load_pod_vector 8 ?e = Some (cm_seeds s, ?f)"
    using fit rest
    by (intro pod_vector_ser.load_img [where r = "vector_img (vector_img (le_bytes 8)) (cm_counts s) @ r"])
      (simp_all add: countmin_img_def)
  moreover have "load_vector (load_pod_vector 8) ?f
      = Some (cm_counts s, iarc_skip (length (vector_img (vector_img (le_bytes 8)) (cm_counts s))) ?f)"
    using fit rest by (intro counts_ser.load_img [where r = r]) (simp_all add: countmin_img_def)
  ultimately show "countmin_load b = Some (s, iarc_skip (length (countmin_img s)) b)"
    using fit by (simp add: countmin_load_def countmin_img_def unat_of_size add.assoc)
qed (simp_all add: countmin_save_def countmin_img_def u64_pod.save_contents u64_pod.save_ok pod_vector_ser.save_contents
      pod_vector_ser.save_ok counts_ser.save_contents counts_ser.save_ok)

end
