(* ===== verification/Count_Sketch.thy ===== *)
theory Count_Sketch
  imports Counting_Sketches
begin

text \<open>
  \<open>countsketch\<close> of \<open>sketches/countsketch.hpp\<close>: as count-min, but each row adds or subtracts the count,
  and the estimate is the median of the rows. The counters are \<open>int64_t\<close>, words read by \<open>sint\<close>; where the
  code would overflow them, its behaviour is undefined and the model wraps.
\<close>

record countsketch =
  cs_num_hash :: nat
  cs_num_bits :: nat
  cs_num_bins :: nat
  cs_seeds :: "u64 list"
  cs_seeds_binary :: "u64 list"
  cs_counts :: "u64 list list"

definition countsketch_members :: "nat \<Rightarrow> u64 list \<Rightarrow> u64 list \<Rightarrow> countsketch" where
  "countsketch_members bits seeds seeds_binary =
     \<lparr>cs_num_hash = length seeds, cs_num_bits = bits, cs_num_bins = 2 ^ bits, cs_seeds = seeds,
      cs_seeds_binary = seeds_binary, cs_counts = zero_table (length seeds) (2 ^ bits)\<rparr>"

text \<open>The random numbers are drawn for the two lists in turn.\<close>

definition countsketch_new :: "(u64 \<Rightarrow> nat \<Rightarrow> u64) \<Rightarrow> nat \<Rightarrow> nat \<Rightarrow> u64 \<Rightarrow> countsketch option" where
  "countsketch_new fast_uniform bits depth seed =
     (if bits < 31 \<and> 16 \<le> (2::nat) ^ bits
      then Some (countsketch_members bits (map (\<lambda>j. fast_uniform seed (2 * j)) [0..<depth])
             (map (\<lambda>j. fast_uniform seed (2 * j + 1)) [0..<depth]))
      else None)"

definition hash_sign :: "(u64 \<Rightarrow> u64) \<Rightarrow> u64 list \<Rightarrow> u64 \<Rightarrow> nat \<Rightarrow> u64" where
  "hash_sign hash64 seeds_binary i j = 2 * (hash64 (seeds_binary ! j XOR i) AND 1) - 1"

definition countsketch_add :: "('x \<Rightarrow> u64) \<Rightarrow> (u64 \<Rightarrow> u64) \<Rightarrow> 'x \<times> u64 \<Rightarrow> countsketch \<Rightarrow> countsketch" where
  "countsketch_add std_hash hash64 tc s =
     (case tc of (t, n) \<Rightarrow>
        let i = hash64 (std_hash t)
        in s\<lparr>cs_counts := add_cells (cs_num_hash s) (hash_bin hash64 (cs_seeds s) (cs_num_bins s) i)
               (\<lambda>j. hash_sign hash64 (cs_seeds_binary s) i j * n) (cs_counts s)\<rparr>)"

text \<open>\<open>std::nth_element\<close> puts the element there that a sorted vector has; without rows the code reads behind the vector.\<close>

definition countsketch_estimate :: "('x \<Rightarrow> u64) \<Rightarrow> (u64 \<Rightarrow> u64) \<Rightarrow> 'x \<Rightarrow> countsketch \<Rightarrow> int option" where
  "countsketch_estimate std_hash hash64 t s =
     (let i = hash64 (std_hash t);
          estimates = map (\<lambda>j. sint (hash_sign hash64 (cs_seeds_binary s) i j
            * cs_counts s ! j ! hash_bin hash64 (cs_seeds s) (cs_num_bins s) i j)) [0..<cs_num_hash s]
      in if length estimates div 2 < length estimates then Some (sort estimates ! (length estimates div 2)) else None)"

definition countsketch_combine :: "countsketch \<Rightarrow> countsketch \<Rightarrow> countsketch option" where
  "countsketch_combine s other =
     (if cs_num_bins s \<noteq> cs_num_bins other \<or> cs_num_hash s \<noteq> cs_num_hash other then None
      else Some (s\<lparr>cs_counts := add_tables (cs_num_hash s) (cs_num_bins s) (cs_counts other) (cs_counts s)\<rparr>))"

definition countsketch_density :: "('d, 'z) arith_scheme \<Rightarrow> countsketch \<Rightarrow> 'd" where
  "countsketch_density F s =
     d_div F (d_of_size F (of_nat (nonzero_cells (cs_counts s)))) (d_of_size F (of_nat (cs_num_hash s * cs_num_bins s)))"

section \<open>Combining\<close>

definition countsketch_ok :: "nat \<Rightarrow> u64 list \<Rightarrow> u64 list \<Rightarrow> countsketch \<Rightarrow> bool" where
  "countsketch_ok bits seeds seeds_binary s \<longleftrightarrow> cs_num_hash s = length seeds \<and> cs_num_bits s = bits
     \<and> cs_num_bins s = 2 ^ bits \<and> cs_seeds s = seeds \<and> cs_seeds_binary s = seeds_binary
     \<and> table_ok (length seeds) (2 ^ bits) (cs_counts s)"

lemma countsketch_members_ok [simp]: "countsketch_ok bits seeds sb (countsketch_members bits seeds sb)"
  by (simp add: countsketch_ok_def countsketch_members_def)

lemma countsketch_add_ok [simp]:
  "countsketch_ok bits seeds sb s \<Longrightarrow> countsketch_ok bits seeds sb (countsketch_add std_hash hash64 tc s)"
  by (cases tc) (auto simp: countsketch_ok_def countsketch_add_def Let_def)

lemma countsketch_combine_members:
  "countsketch_ok bits seeds sb s \<Longrightarrow> countsketch_combine s (countsketch_members bits seeds sb) = Some s"
  by (simp add: countsketch_combine_def countsketch_members_def countsketch_ok_def add_zero_table)

lemma countsketch_combine_add:
  "countsketch_ok bits seeds sb s \<Longrightarrow> countsketch_ok bits seeds sb other \<Longrightarrow>
   countsketch_combine s (countsketch_add std_hash hash64 tc other)
     = map_option (countsketch_add std_hash hash64 tc) (countsketch_combine s other)"
  by (cases tc) (simp add: countsketch_combine_def countsketch_add_def countsketch_ok_def Let_def add_tables_cells)

lemma countsketch_add_commute:
  "countsketch_ok bits seeds sb s \<Longrightarrow>
   countsketch_add std_hash hash64 tc (countsketch_add std_hash hash64 uc s)
     = countsketch_add std_hash hash64 uc (countsketch_add std_hash hash64 tc s)"
  by (cases tc; cases uc)
    (simp add: countsketch_add_def countsketch_ok_def Let_def add_cells_commute [of "length seeds" "2 ^ bits" "cs_counts s"])

interpretation cs: stream_sketch "countsketch_members bits seeds sb" "\<lambda>tc s. Some (countsketch_add std_hash hash64 tc s)"
    countsketch_combine "\<lambda>tc. True" "countsketch_ok bits seeds sb"
  by unfold_locales
    (auto simp: countsketch_combine_members countsketch_combine_add countsketch_add_commute split: option.splits bind_splits)

lemma cs_add_all: "cs.add_all std_hash hash64 xs s = Some (fold (countsketch_add std_hash hash64) xs s)"
  by (induction xs arbitrary: s) simp_all

lemma countsketch_fold_ok:
  "countsketch_ok bits seeds sb s \<Longrightarrow> countsketch_ok bits seeds sb (fold (countsketch_add std_hash hash64) xs s)"
  by (induction xs arbitrary: s) simp_all

lemma countsketch_combine_streams:
  "ys \<noteq> [] \<Longrightarrow> countsketch_combine (fold (countsketch_add std_hash hash64) xs (countsketch_members bits seeds sb))
      (fold (countsketch_add std_hash hash64) ys (countsketch_members bits seeds sb))
    = Some (fold (countsketch_add std_hash hash64) (xs @ ys) (countsketch_members bits seeds sb))"
  using cs.comb_aggregates [of xs ys bits seeds sb std_hash hash64] by (simp add: cs.aggregate_def cs_add_all list_all_iff)

section \<open>The median\<close>

text \<open>The element in the middle of a sorted list is the one that more than half of the list consists of.\<close>

lemma sorted_majority:
  fixes v :: "'a::linorder"
  assumes "sorted xs" and "length xs < 2 * length (filter (\<lambda>x. x = v) xs)"
  shows "xs ! (length xs div 2) = v"
proof -
  define l where "l = filter (\<lambda>x. x < v) xs"
  define e where "e = filter (\<lambda>x. x = v) xs"
  define g where "g = filter (\<lambda>x. v < x) xs"
  have "mset xs = mset (l @ e @ g)"
    unfolding l_def e_def g_def by (induction xs) auto
  moreover have "sorted (l @ e @ g)"
    using sorted_wrt_filter [OF assms(1)] by (auto simp: l_def e_def g_def sorted_append)
  ultimately have xs: "xs = l @ e @ g" using assms(1) by (metis properties_for_sort sorted_sort_id)
  have "length l + length e + length g = length xs" using xs by (metis length_append add.assoc)
  then have "length l \<le> length xs div 2" "length xs div 2 < length l + length e" using assms(2) unfolding e_def by auto
  then have "(l @ e @ g) ! (length xs div 2) = e ! (length xs div 2 - length l)" by (auto simp: nth_append)
  moreover have "e ! k = v" if "k < length e" for k using that nth_mem [OF that] by (auto simp: e_def)
  moreover have "length xs div 2 - length l < length e"
    using \<open>length l \<le> length xs div 2\<close> \<open>length xs div 2 < length l + length e\<close> by linarith
  ultimately show ?thesis using xs by metis
qed

lemma hash_sign_square: "hash_sign hash64 sb i j * hash_sign hash64 sb i j = 1"
proof -
  have "hash64 (sb ! j XOR i) AND 1 = 0 \<or> hash64 (sb ! j XOR i) AND 1 = 1" by (simp add: and_one_eq mod2_eq_if)
  then show ?thesis by (auto simp: hash_sign_def)
qed

text \<open>The rows in which an element shares its bin with no other element of the stream.\<close>

definition free_rows :: "('x \<Rightarrow> u64) \<Rightarrow> (u64 \<Rightarrow> u64) \<Rightarrow> countsketch \<Rightarrow> 'x \<Rightarrow> ('x \<times> u64) list \<Rightarrow> nat list" where
  "free_rows std_hash hash64 s t xs =
     (let bin = (\<lambda>u. hash_bin hash64 (cs_seeds s) (cs_num_bins s) (hash64 (std_hash u)))
      in filter (\<lambda>j. list_all (\<lambda>(u, n). bin u j = bin t j \<longrightarrow> u = t) xs) [0..<cs_num_hash s])"

lemma length_filter_mono: "(\<And>x. x \<in> set xs \<Longrightarrow> P x \<Longrightarrow> Q x) \<Longrightarrow> length (filter P xs) \<le> length (filter Q xs)"
  by (induction xs) auto

lemma countsketch_add_cell:
  "countsketch_ok bits seeds sb s \<Longrightarrow> j < length seeds \<Longrightarrow> b < 2 ^ bits \<Longrightarrow>
   cs_counts (countsketch_add std_hash hash64 (t, n) s) ! j ! b = cs_counts s ! j ! b
     + (if hash_bin hash64 seeds (2 ^ bits) (hash64 (std_hash t)) j = b then hash_sign hash64 sb (hash64 (std_hash t)) j * n else 0)"
  by (auto simp: countsketch_ok_def countsketch_add_def Let_def add_cells_nth [of "length seeds" "2 ^ bits"])

lemma free_row_cell:
  fixes bits seeds std_hash hash64 t j
  defines "bin u \<equiv> hash_bin hash64 seeds (2 ^ bits) (hash64 (std_hash u)) j"
  assumes "j < length seeds" and "list_all (\<lambda>(u, n). bin u = bin t \<longrightarrow> u = t) xs"
  shows "cs_counts (fold (countsketch_add std_hash hash64) xs (countsketch_members bits seeds sb)) ! j ! bin t
    = hash_sign hash64 sb (hash64 (std_hash t)) j * of_nat (count_where (\<lambda>u. u = t) xs)"
  using assms(3)
proof (induction xs rule: rev_induct)
  case Nil
  have "bin t < 2 ^ bits" by (simp add: bin_def hash_bin_def)
  with assms(2) show ?case by (simp add: countsketch_members_def)
next
  case (snoc tc xs)
  obtain u n where tc: "tc = (u, n)" by (cases tc)
  have bin: "bin u = bin t \<longleftrightarrow> u = t" using snoc.prems tc by auto
  have ok: "countsketch_ok bits seeds sb (fold (countsketch_add std_hash hash64) xs (countsketch_members bits seeds sb))"
    by (rule countsketch_fold_ok) simp
  have "bin t < 2 ^ bits" by (simp add: bin_def hash_bin_def)
  from countsketch_add_cell [OF ok assms(2) this, of std_hash hash64 u n] snoc.IH snoc.prems bin show ?case
    by (simp add: tc bin_def algebra_simps)
qed

text \<open>
  C17. If an element shares its bin with no other element of the stream in more than half of the rows,
  the estimate is its exact frequency.
\<close>

theorem countsketch_majority_exact:
  assumes "countsketch_new fast_uniform bits depth seed = Some s"
    and "depth < 2 * length (free_rows std_hash hash64 s t xs)" and "count_where (\<lambda>u. u = t) xs < 2 ^ 63"
  shows "countsketch_estimate std_hash hash64 t (fold (countsketch_add std_hash hash64) xs s)
    = Some (int (count_where (\<lambda>u. u = t) xs))"
proof -
  obtain seeds sb where s: "s = countsketch_members bits seeds sb" "length seeds = depth"
    using assms(1) by (auto simp: countsketch_new_def split: if_splits)
  define s' where "s' = fold (countsketch_add std_hash hash64) xs s"
  define k where "k = count_where (\<lambda>u. u = t) xs"
  define est where "est j = sint (hash_sign hash64 sb (hash64 (std_hash t)) j
    * cs_counts s' ! j ! hash_bin hash64 seeds (2 ^ bits) (hash64 (std_hash t)) j)" for j
  have ok: "countsketch_ok bits seeds sb s'" unfolding s'_def s(1) by (rule countsketch_fold_ok) simp
  have free: "est j = int k" if "j \<in> set (free_rows std_hash hash64 s t xs)" for j
  proof -
    have j: "j < length seeds" "list_all (\<lambda>(u, n). hash_bin hash64 seeds (2 ^ bits) (hash64 (std_hash u)) j
        = hash_bin hash64 seeds (2 ^ bits) (hash64 (std_hash t)) j \<longrightarrow> u = t) xs"
      using that unfolding s(1) by (auto simp: free_rows_def Let_def countsketch_members_def)
    have "est j = sint (of_nat k :: u64)"
      unfolding est_def s'_def s(1) free_row_cell [OF j] k_def
      using hash_sign_square [of hash64 sb] by (simp add: mult.assoc [symmetric])
    also have "\<dots> = int k" using assms(3) unfolding k_def [symmetric] by (simp add: signed_of_nat signed_take_bit_int_eq_self)
    finally show ?thesis .
  qed
  let ?es = "map est [0..<depth]"
  have most: "depth < 2 * length (filter (\<lambda>j. est j = int k) [0..<depth])"
  proof -
    have rows: "cs_num_hash s = depth" by (simp add: s countsketch_members_def)
    have "length (free_rows std_hash hash64 s t xs) \<le> length (filter (\<lambda>j. est j = int k) [0..<depth])"
      using free unfolding free_rows_def Let_def rows by (intro length_filter_mono) auto
    with assms(2) show ?thesis by linarith
  qed
  then have "length (sort ?es) < 2 * length (filter (\<lambda>x. x = int k) (sort ?es))"
    by (simp add: filter_sort filter_map comp_def)
  then have "sort ?es ! (length (sort ?es) div 2) = int k" by (intro sorted_majority) simp_all
  moreover have "0 < depth" using most by (cases depth) simp_all
  ultimately show ?thesis
    using ok s(2) unfolding s'_def [symmetric] k_def [symmetric] est_def
    by (simp add: countsketch_estimate_def Let_def countsketch_ok_def)
qed

theorem countsketch_majority_exact_witness:
  "let s = the (countsketch_new (\<lambda>seed j. seed * of_nat j) 4 3 7); add = countsketch_add (\<lambda>t :: u64. t) (\<lambda>w. w)
   in countsketch_estimate (\<lambda>t. t) (\<lambda>w. w) 1 (fold add [(1, 2), (9, 4), (1, 3)] s) = Some 5"
proof -
  let ?s = "the (countsketch_new (\<lambda>seed j. seed * of_nat j) 4 3 7)" and ?xs = "[(1, 2), (9, 4), (1, 3)] :: (u64 \<times> u64) list"
  have "free_rows (\<lambda>t. t) (\<lambda>w. w) ?s 1 ?xs = [0, 1, 2]" "count_where (\<lambda>u. u = 1) ?xs = 5"
    by code_simp+
  then show ?thesis
    using countsketch_majority_exact [of "\<lambda>seed j. seed * of_nat j" 4 3 7 ?s "\<lambda>t. t" "\<lambda>w. w" 1 ?xs]
    by (simp add: countsketch_new_def Let_def del: fold_simps)
qed

end
