(* ===== verification/Hyperloglog.thy ===== *)
theory Hyperloglog
  imports Complex_Main Counting_Sketches Bitops
begin

text \<open>
  \<open>hyperloglog\<close> of \<open>sketches/hyperloglog.hpp\<close>: the number of distinct elements of a stream, from the
  largest number of leading zeros among the hashes in each bucket. The arithmetic of doubles and the
  hash functions are parameters.

  \<open>__builtin_clz\<close> takes an \<open>unsigned int\<close>, so that the upper half of the 64-bit hash is cut off; it is
  undefined for 0, which is \<open>None\<close> here.
\<close>

record 'd hll_arith = "'d arith" +
  d_literal :: "rat \<Rightarrow> 'd"
  d_pow2_minus :: "u8 \<Rightarrow> 'd"
  d_log :: "'d \<Rightarrow> 'd"
  d_root :: "'d \<Rightarrow> 'd"
  d_le :: "'d \<Rightarrow> 'd \<Rightarrow> bool"

record 'd hyperloglog =
  m_b :: nat
  m_m :: nat
  m_alpha :: 'd
  m_buckets :: "u8 list"

definition hll_alpha :: "'d hll_arith \<Rightarrow> nat \<Rightarrow> 'd" where
  "hll_alpha F m =
     (if m = 16 then d_literal F 0.673
      else if m = 32 then d_literal F 0.697
      else if m = 64 then d_literal F 0.709
      else d_div F (d_literal F 0.7213) (d_add F (d_literal F 1) (d_div F (d_literal F 1.079) (d_of_size F (of_nat m)))))"

definition hll_members :: "'d hll_arith \<Rightarrow> nat \<Rightarrow> 'd hyperloglog" where
  "hll_members F b = \<lparr>m_b = b, m_m = 2 ^ b, m_alpha = hll_alpha F (2 ^ b), m_buckets = replicate (2 ^ b) 0\<rparr>"

definition hll_new :: "'d hll_arith \<Rightarrow> nat \<Rightarrow> 'd hyperloglog option" where
  "hll_new F b = (if b < 31 \<and> 16 \<le> (2::nat) ^ b then Some (hll_members F b) else None)"

definition hll_pos :: "u64 \<Rightarrow> nat option" where
  "hll_pos h =
     (if h \<noteq> 0 then let low = (ucast h :: u32) in if low = 0 then None else Some (1 + n_leading_zeros low)
      else Some 8)"

definition hll_add :: "('x \<Rightarrow> u64) \<Rightarrow> (u64 \<Rightarrow> u64) \<Rightarrow> 'x \<Rightarrow> 'd hyperloglog \<Rightarrow> 'd hyperloglog option" where
  "hll_add std_hash hash64 t s =
     (let h = hash64 (hash64 (std_hash t));
          index = unat (drop_bit (64 - m_b s) h)
      in map_option (\<lambda>pos. s\<lparr>m_buckets := (m_buckets s)[index := max (m_buckets s ! index) (of_nat pos)]\<rparr>) (hll_pos h))"

definition hll_combine :: "'d hyperloglog \<Rightarrow> 'd hyperloglog \<Rightarrow> 'd hyperloglog option" where
  "hll_combine s other =
     (if length (m_buckets s) \<noteq> length (m_buckets other) then None
      else Some (s\<lparr>m_buckets := for_rows (length (m_buckets s)) (\<lambda>i c. max c (m_buckets other ! i)) (m_buckets s)\<rparr>))"

definition hll_estimate :: "'d hll_arith \<Rightarrow> 'd hyperloglog \<Rightarrow> 'd" where
  "hll_estimate F s =
     (let m = d_of_size F (of_nat (m_m s));
          E = fold (\<lambda>b E. d_add F E (d_pow2_minus F b)) (m_buckets s) (d_zero F);
          E = d_div F (d_mul F (d_mul F (m_alpha s) m) m) E
      in if d_le F E (d_mul F (d_literal F 2.5) m)
         then let zero_count = length (filter (\<lambda>b. b = 0) (m_buckets s))
              in if zero_count \<noteq> 0 then d_mul F m (d_log F (d_div F m (d_of_size F (of_nat zero_count)))) else E
         else E)"

definition hll_error_bound :: "'d hll_arith \<Rightarrow> 'd hyperloglog \<Rightarrow> 'd" where
  "hll_error_bound F s = d_div F (d_mul F (hll_estimate F s) (d_literal F 1.04)) (d_root F (d_of_size F (of_nat (m_m s))))"

section \<open>The set of the elements\<close>

definition hll_valid :: "('x \<Rightarrow> u64) \<Rightarrow> (u64 \<Rightarrow> u64) \<Rightarrow> 'x \<Rightarrow> bool" where
  "hll_valid std_hash hash64 t \<longleftrightarrow> hll_pos (hash64 (hash64 (std_hash t))) \<noteq> None"

definition hll_ok :: "nat \<Rightarrow> 'd \<Rightarrow> 'd hyperloglog \<Rightarrow> bool" where
  "hll_ok b alpha s \<longleftrightarrow> m_b s = b \<and> m_m s = 2 ^ b \<and> m_alpha s = alpha \<and> length (m_buckets s) = 2 ^ b"

lemma update_max_commute:
  fixes xs :: "'a::linorder list"
  shows "xs[i := max (xs ! i) a, j := max (xs[i := max (xs ! i) a] ! j) c] = xs[j := max (xs ! j) c, i := max (xs[j := max (xs ! j) c] ! i) a]"
  by (cases "i = j"; cases "j < length xs") (simp_all add: list_update_swap ac_simps list_update_beyond not_less)

lemma hll_add_ok: "hll_valid std_hash hash64 t \<Longrightarrow> hll_ok b alpha s \<Longrightarrow> \<exists>s'. hll_add std_hash hash64 t s = Some s' \<and> hll_ok b alpha s'"
  by (auto simp: hll_valid_def hll_add_def Let_def hll_ok_def)

lemma hll_add_commute:
  "Option.bind (hll_add std_hash hash64 t s) (hll_add std_hash hash64 u) = Option.bind (hll_add std_hash hash64 u s) (hll_add std_hash hash64 t)"
  by (cases "hll_pos (hash64 (hash64 (std_hash t)))"; cases "hll_pos (hash64 (hash64 (std_hash u)))")
    (simp_all add: hll_add_def Let_def update_max_commute)

lemma hll_add_twice: "Option.bind (hll_add std_hash hash64 t s) (hll_add std_hash hash64 t) = hll_add std_hash hash64 t s"
proof (cases "hll_pos (hash64 (hash64 (std_hash t)))")
  case (Some pos)
  have "xs[i := max (xs ! i) c, i := max (xs[i := max (xs ! i) c] ! i) c] = xs[i := max (xs ! i) c]" for xs :: "u8 list" and i c
    by (cases "i < length xs") (simp_all add: list_update_beyond not_less)
  with Some show ?thesis by (simp add: hll_add_def Let_def)
qed (simp add: hll_add_def Let_def)

lemma hll_combine_members: "hll_ok b alpha s \<Longrightarrow> hll_combine s (hll_members F b) = Some s"
  by (auto simp: hll_ok_def hll_combine_def hll_members_def intro!: hyperloglog.equality nth_equalityI)

lemma for_rows_max_update:
  fixes xs ys :: "'a::linorder list"
  assumes "length xs = n" and "length ys = n"
  shows "for_rows n (\<lambda>k c. max c (ys[i := max (ys ! i) v] ! k)) xs
    = (for_rows n (\<lambda>k c. max c (ys ! k)) xs)[i := max (for_rows n (\<lambda>k c. max c (ys ! k)) xs ! i) v]"
proof (rule nth_equalityI)
  fix k
  assume "k < length (for_rows n (\<lambda>k c. max c (ys[i := max (ys ! i) v] ! k)) xs)"
  then have "k < n" using assms by simp
  then show "for_rows n (\<lambda>k c. max c (ys[i := max (ys ! i) v] ! k)) xs ! k
      = (for_rows n (\<lambda>k c. max c (ys ! k)) xs)[i := max (for_rows n (\<lambda>k c. max c (ys ! k)) xs ! i) v] ! k"
    using assms by (cases "k = i") (simp_all add: max.assoc)
qed (use assms in simp)

lemma hll_combine_add:
  assumes "hll_ok b alpha s" and "hll_ok b alpha other" and "hll_add std_hash hash64 t other = Some other'"
  shows "hll_combine s other' = Option.bind (hll_combine s other) (hll_add std_hash hash64 t)"
proof -
  obtain pos where pos: "hll_pos (hash64 (hash64 (std_hash t))) = Some pos"
    using assms(3) by (auto simp: hll_add_def Let_def)
  define i where "i = unat (drop_bit (64 - b) (hash64 (hash64 (std_hash t))))"
  have other': "other' = other\<lparr>m_buckets := (m_buckets other)[i := max (m_buckets other ! i) (of_nat pos)]\<rparr>"
    using assms(2,3) pos by (simp add: hll_add_def Let_def hll_ok_def i_def)
  let ?n = "2 ^ b"
  have "for_rows ?n (\<lambda>k c. max c ((m_buckets other)[i := max (m_buckets other ! i) (of_nat pos)] ! k)) (m_buckets s)
      = (for_rows ?n (\<lambda>k c. max c (m_buckets other ! k)) (m_buckets s))
          [i := max (for_rows ?n (\<lambda>k c. max c (m_buckets other ! k)) (m_buckets s) ! i) (of_nat pos)]"
    using assms(1,2) by (intro for_rows_max_update) (simp_all add: hll_ok_def)
  then show ?thesis using assms(1,2) pos by (simp add: other' hll_combine_def hll_add_def Let_def hll_ok_def i_def)
qed

interpretation hll: set_sketch "hll_members F b" "hll_add std_hash hash64" hll_combine "hll_valid std_hash hash64"
    "hll_ok b (hll_alpha F (2 ^ b))"
proof unfold_locales
  show init: "hll_ok b (hll_alpha F (2 ^ b)) (hll_members F b)" by (simp add: hll_ok_def hll_members_def)
  show "\<exists>s. hll_add std_hash hash64 x (hll_members F b) = Some s \<and> hll_ok b (hll_alpha F (2 ^ b)) s"
    if "hll_valid std_hash hash64 x" for x
    using hll_add_ok [OF that init] .
  show "hll_combine s t = hll_add std_hash hash64 x s"
    if "hll_ok b (hll_alpha F (2 ^ b)) s" and "hll_add std_hash hash64 x (hll_members F b) = Some t" for x s t
    using hll_combine_add [OF that(1) init that(2)] hll_combine_members [OF that(1)] by simp
qed (auto intro: hll_add_ok hll_combine_add hll_add_commute hll_add_twice)

section \<open>Streams\<close>

fun hll_add_all :: "('x \<Rightarrow> u64) \<Rightarrow> (u64 \<Rightarrow> u64) \<Rightarrow> 'x list \<Rightarrow> 'd hyperloglog \<Rightarrow> 'd hyperloglog option" where
  "hll_add_all std_hash hash64 [] s = Some s"
| "hll_add_all std_hash hash64 (t # ts) s = Option.bind (hll_add std_hash hash64 t s) (hll_add_all std_hash hash64 ts)"

lemma hll_aggregate: "hll.aggregate F b std_hash hash64 ts = hll_add_all std_hash hash64 ts (hll_members F b)"
proof -
  have "hll.add_all std_hash hash64 ts s = hll_add_all std_hash hash64 ts s" for s
    by (induction ts arbitrary: s) (auto split: bind_splits)
  then show ?thesis by (simp add: hll.aggregate_def)
qed

text \<open>
  C16. A hyperloglog sketch depends only on the set of the elements, and combining two sketches of the same
  size gives that of the union, if no hash is a multiple of $2^{32}$ other than 0.
\<close>

theorem hyperloglog_of_union:
  assumes "hll_new F b = Some s" and "list_all (hll_valid std_hash hash64) (xs @ ys)"
  shows "\<exists>u v w. hll_add_all std_hash hash64 xs s = Some u \<and> hll_add_all std_hash hash64 ys s = Some v
    \<and> hll_combine u v = Some w \<and> (\<forall>zs. set zs = set xs \<union> set ys \<longrightarrow> hll_add_all std_hash hash64 zs s = Some w)"
proof -
  have s: "s = hll_members F b" using assms(1) by (simp add: hll_new_def split: if_splits)
  have valid: "list_all (hll_valid std_hash hash64) xs" "list_all (hll_valid std_hash hash64) ys" using assms(2) by simp_all
  obtain u where u: "hll_add_all std_hash hash64 xs s = Some u" "hll_ok b (hll_alpha F (2 ^ b)) u"
    using hll.aggregate_ok [OF valid(1)] unfolding hll_aggregate s by blast
  obtain v where v: "hll_add_all std_hash hash64 ys s = Some v"
    using hll.aggregate_ok [OF valid(2)] unfolding hll_aggregate s by blast
  obtain w where w: "hll_add_all std_hash hash64 (xs @ ys) s = Some w"
    using hll.aggregate_ok [OF assms(2)] unfolding hll_aggregate s by blast
  have "hll_combine u v = Some w"
  proof (cases "ys = []")
    case True
    then have "v = hll_members F b" and "w = u" using u(1) v w s by simp_all
    then show ?thesis using hll_combine_members [OF u(2)] by simp
  next
    case False
    from hll.comb_aggregates [OF valid False, of F b u v] u v w show ?thesis unfolding hll_aggregate s by simp
  qed
  moreover have "hll_add_all std_hash hash64 zs s = Some w" if "set zs = set xs \<union> set ys" for zs
    using hll.aggregate_set [OF assms(2), of zs F b] w that unfolding hll_aggregate s by simp
  ultimately show ?thesis using u(1) v by blast
qed

lemma hll_pos_bounds: "hll_pos h = Some pos \<Longrightarrow> 1 \<le> pos \<and> pos \<le> 32"
  using n_leading_zeros_bits(1) [of "ucast h :: u32"] by (auto simp: hll_pos_def Let_def split: if_splits)

text \<open>A hash that is a multiple of $2^{32}$ reaches \<open>__builtin_clz(0)\<close>.\<close>

lemma hll_clz_undefined: "hll_add (\<lambda>t :: u64. t) (\<lambda>h. h) 0x100000000 s = None"
  by (simp add: hll_add_def hll_pos_def Let_def)

definition real_arith :: "real hll_arith" where
  "real_arith = \<lparr>d_add = (+), d_sub = (-), d_mul = (*), d_div = (/), d_of_size = real \<circ> unat, d_zero = 0,
     d_literal = of_rat, d_pow2_minus = (\<lambda>b. 1 / 2 ^ unat b), d_log = ln, d_root = sqrt, d_le = (\<le>)\<rparr>"

theorem hyperloglog_of_union_witness:
  "\<exists>u v w. hll_add_all (\<lambda>t :: u64. t) (\<lambda>h. h) [1, 5] (hll_members real_arith 4) = Some u
    \<and> hll_add_all (\<lambda>t. t) (\<lambda>h. h) [5, 9] (hll_members real_arith 4) = Some v
    \<and> hll_combine u v = Some w \<and> hll_add_all (\<lambda>t. t) (\<lambda>h. h) [9, 1, 5, 1] (hll_members real_arith 4) = Some w"
proof -
  have "hll_new real_arith 4 = Some (hll_members real_arith 4)"
    "list_all (hll_valid (\<lambda>t :: u64. t) (\<lambda>h. h)) ([1, 5] @ [5, 9])"
    by (simp_all add: hll_new_def hll_valid_def hll_pos_def)
  moreover have "set [9, 1, 5, 1] = set [1, 5] \<union> set [5, 9 :: u64]" by auto
  ultimately show ?thesis using hyperloglog_of_union [of real_arith 4 "hll_members real_arith 4"] by blast
qed

end
