(* ===== verification/Blocking_Queue.thy ===== *)
theory Blocking_Queue
  imports Prelude
begin

text \<open>
  \<open>blocking_queue\<close> of \<open>util/blocking_queue.hpp\<close>: a queue between threads, with a mutex and two condition
  variables, as a state machine.

  Every operation holds the mutex from its start to its end, or to a \<open>wait\<close>, which gives it up. So an
  action is what one thread does between taking and giving up the mutex, and an execution is a
  sequence of actions. Between a wait and the next action of the thread, the thread is \<open>Asleep\<close> until a
  signal or a broadcast makes it \<open>Awake\<close>. The condition variables behave as POSIX says: a signal wakes one
  of the threads that sleep on the variable, if there is one, and a thread may wake up for no reason.
  Which thread a signal wakes is part of the action.

  \<open>wait_until_empty\<close> reads \<open>m_alive\<close> for its result just after giving up the mutex, here just before. The
  operations that leave the mutex locked for the caller, and those that wait for a limited time, are
  left out.
\<close>

section \<open>State\<close>

datatype waiting_for = For_dequeue | For_data | For_empty

datatype thread_state = Running | Asleep waiting_for | Awake waiting_for

record 'a blocking_queue =
  m_alive :: bool
  m_queue :: "'a list"
  sleeping :: u16
  sleeping_on_empty :: u16
  threads :: "thread_state list"

definition blocking_queue_new :: "nat \<Rightarrow> 'a blocking_queue" where
  "blocking_queue_new n =
     \<lparr>m_alive = True, m_queue = [], sleeping = 0, sleeping_on_empty = 0, threads = replicate n Running\<rparr>"

definition set_thread :: "nat \<Rightarrow> thread_state \<Rightarrow> 'a blocking_queue \<Rightarrow> 'a blocking_queue" where
  "set_thread t p q = q\<lparr>threads := (threads q)[t := p]\<rparr>"

definition thread_in :: "'a blocking_queue \<Rightarrow> nat \<Rightarrow> thread_state list \<Rightarrow> bool" where
  "thread_in q t ps \<longleftrightarrow> t < length (threads q) \<and> threads q ! t \<in> set ps"

section \<open>Condition variables\<close>

fun on_data :: "thread_state \<Rightarrow> bool" where
  "on_data (Asleep k) = (k \<noteq> For_empty)"
| "on_data _ = False"

fun on_empty :: "thread_state \<Rightarrow> bool" where
  "on_empty (Asleep k) = (k = For_empty)"
| "on_empty _ = False"

fun woken :: "thread_state \<Rightarrow> thread_state" where
  "woken (Asleep k) = Awake k"
| "woken p = p"

text \<open>A signal to the threads that satisfy \<open>P\<close>, and the thread that wakes up.\<close>

definition signal :: "(thread_state \<Rightarrow> bool) \<Rightarrow> nat option \<Rightarrow> 'a blocking_queue \<Rightarrow> 'a blocking_queue option" where
  "signal P choice q =
     (if list_ex P (threads q)
      then case choice of
        None \<Rightarrow> None
      | Some t \<Rightarrow> if t < length (threads q) \<and> P (threads q ! t) then Some (set_thread t (woken (threads q ! t)) q) else None
      else if choice = None then Some q else None)"

definition broadcast_to :: "(thread_state \<Rightarrow> bool) \<Rightarrow> 'a blocking_queue \<Rightarrow> 'a blocking_queue" where
  "broadcast_to P q = q\<lparr>threads := map (\<lambda>p. if P p then woken p else p) (threads q)\<rparr>"

section \<open>Actions\<close>

datatype 'a action =
    Enqueue nat 'a "nat option"
  | Enqueue_to_head nat 'a "nat option"
  | Enqueue_conditional_signal nat 'a nat "nat option"
  | Swap nat "'a list" "nat option"
  | Dequeue nat "nat option"
  | Try_dequeue nat "nat option"
  | Wait_for_data nat
  | Wait_until_empty nat
  | Stop_blocking nat
  | Start_blocking nat
  | Broadcast nat
  | Broadcast_blocking_empty nat
  | Spurious_wakeup nat

datatype 'a returned = Blocks | Done | Element "'a option" | Success bool | Contents "'a list"

definition signal_if :: "bool \<Rightarrow> (thread_state \<Rightarrow> bool) \<Rightarrow> nat option \<Rightarrow> 'a blocking_queue \<Rightarrow> 'a blocking_queue option" where
  "signal_if b P choice q = (if b then signal P choice q else if choice = None then Some q else None)"

text \<open>The end of the operations that take elements out: tell a thread that waits for the queue to be empty.\<close>

definition signal_empty :: "nat option \<Rightarrow> 'a blocking_queue \<Rightarrow> 'a blocking_queue option" where
  "signal_empty choice q = signal_if (m_queue q = [] \<and> sleeping_on_empty q \<noteq> 0) on_empty choice q"

text \<open>A thread that enters an operation, or comes back from its wait and counts down.\<close>

definition enter :: "nat \<Rightarrow> waiting_for \<Rightarrow> 'a blocking_queue \<Rightarrow> 'a blocking_queue option" where
  "enter t k q =
     (if \<not> thread_in q t [Running, Awake k] then None
      else if threads q ! t = Running then Some q
      else let q = set_thread t Running q
           in Some (if k = For_empty then q\<lparr>sleeping_on_empty := sleeping_on_empty q - 1\<rparr> else q\<lparr>sleeping := sleeping q - 1\<rparr>))"

definition fall_asleep :: "nat \<Rightarrow> waiting_for \<Rightarrow> 'a blocking_queue \<Rightarrow> 'a blocking_queue" where
  "fall_asleep t k q =
     (let q = set_thread t (Asleep k) q
      in if k = For_empty then q\<lparr>sleeping_on_empty := sleeping_on_empty q + 1\<rparr> else q\<lparr>sleeping := sleeping q + 1\<rparr>)"

definition pop_front :: "nat option \<Rightarrow> 'a blocking_queue \<Rightarrow> ('a returned \<times> 'a blocking_queue) option" where
  "pop_front choice q =
     map_option (Pair (Element (Some (hd (m_queue q))))) (signal_empty choice (q\<lparr>m_queue := tl (m_queue q)\<rparr>))"

definition dequeue :: "nat \<Rightarrow> nat option \<Rightarrow> 'a blocking_queue \<Rightarrow> ('a returned \<times> 'a blocking_queue) option" where
  "dequeue t choice q = do {
     q \<leftarrow> enter t For_dequeue q;
     if m_queue q \<noteq> [] then pop_front choice q
     else if choice \<noteq> None then None
     else if m_alive q then Some (Blocks, fall_asleep t For_dequeue q)
     else Some (Element None, q)
   }"

definition wait_for_data :: "nat \<Rightarrow> 'a blocking_queue \<Rightarrow> ('a returned \<times> 'a blocking_queue) option" where
  "wait_for_data t q = do {
     q \<leftarrow> enter t For_data q;
     if m_queue q = [] \<and> m_alive q then Some (Blocks, fall_asleep t For_data q)
     else Some (Success (m_queue q \<noteq> []), q)
   }"

definition wait_until_empty :: "nat \<Rightarrow> 'a blocking_queue \<Rightarrow> ('a returned \<times> 'a blocking_queue) option" where
  "wait_until_empty t q = do {
     q \<leftarrow> enter t For_empty q;
     if m_queue q \<noteq> [] \<and> m_alive q then Some (Blocks, fall_asleep t For_empty q)
     else Some (Success (m_alive q), q)
   }"

definition try_dequeue :: "nat option \<Rightarrow> 'a blocking_queue \<Rightarrow> ('a returned \<times> 'a blocking_queue) option" where
  "try_dequeue choice q =
     (if m_queue q = [] \<or> \<not> m_alive q then if choice = None then Some (Element None, q) else None
      else pop_front choice q)"

definition stop_blocking :: "'a blocking_queue \<Rightarrow> 'a blocking_queue" where
  "stop_blocking q = broadcast_to on_empty (broadcast_to on_data (q\<lparr>m_alive := False\<rparr>))"

text \<open>An action, if the threads are where it says; the other operations are called by a running thread.\<close>

fun bq_step :: "'a action \<Rightarrow> 'a blocking_queue \<Rightarrow> ('a returned \<times> 'a blocking_queue) option" where
  "bq_step (Enqueue t x choice) q =
     (if thread_in q t [Running]
      then map_option (Pair Done) (signal_if (sleeping q \<noteq> 0) on_data choice (q\<lparr>m_queue := m_queue q @ [x]\<rparr>)) else None)"
| "bq_step (Enqueue_to_head t x choice) q =
     (if thread_in q t [Running]
      then map_option (Pair Done) (signal_if (sleeping q \<noteq> 0) on_data choice (q\<lparr>m_queue := x # m_queue q\<rparr>)) else None)"
| "bq_step (Enqueue_conditional_signal t x signal_at_size choice) q =
     (if thread_in q t [Running]
      then map_option (Pair Done) (signal_if (sleeping q \<noteq> 0 \<and> signal_at_size \<le> length (m_queue q @ [x])) on_data choice
             (q\<lparr>m_queue := m_queue q @ [x]\<rparr>)) else None)"
| "bq_step (Swap t xs choice) q =
     (if thread_in q t [Running] then map_option (Pair (Contents (m_queue q))) (signal_empty choice (q\<lparr>m_queue := xs\<rparr>)) else None)"
| "bq_step (Dequeue t choice) q = dequeue t choice q"
| "bq_step (Try_dequeue t choice) q = (if thread_in q t [Running] then try_dequeue choice q else None)"
| "bq_step (Wait_for_data t) q = wait_for_data t q"
| "bq_step (Wait_until_empty t) q = wait_until_empty t q"
| "bq_step (Stop_blocking t) q = (if thread_in q t [Running] then Some (Done, stop_blocking q) else None)"
| "bq_step (Start_blocking t) q = (if thread_in q t [Running] then Some (Done, q\<lparr>m_alive := True\<rparr>) else None)"
| "bq_step (Broadcast t) q = (if thread_in q t [Running] then Some (Done, broadcast_to on_data q) else None)"
| "bq_step (Broadcast_blocking_empty t) q =
     (if thread_in q t [Running] then Some (Done, broadcast_to on_empty q) else None)"
| "bq_step (Spurious_wakeup t) q =
     (if t < length (threads q) then Some (Done, set_thread t (woken (threads q ! t)) q) else None)"

text \<open>The states that \<open>n\<close> threads reach from a new queue by actions that satisfy \<open>A\<close>.\<close>

inductive bq_reachable :: "('a action \<Rightarrow> bool) \<Rightarrow> nat \<Rightarrow> 'a blocking_queue \<Rightarrow> bool" for A n where
  new: "bq_reachable A n (blocking_queue_new n)"
| action: "bq_reachable A n q \<Longrightarrow> A a \<Longrightarrow> bq_step a q = Some (r, q') \<Longrightarrow> bq_reachable A n q'"

inductive_cases bq_reachableE: "bq_reachable A n q"

fun bq_run :: "'a action list \<Rightarrow> 'a blocking_queue \<Rightarrow> ('a returned list \<times> 'a blocking_queue) option" where
  "bq_run [] q = Some ([], q)"
| "bq_run (a # as) q = do { (r, q) \<leftarrow> bq_step a q; (rs, q) \<leftarrow> bq_run as q; Some (r # rs, q) }"

lemma run_reachable: "bq_run as q = Some (rs, q') \<Longrightarrow> bq_reachable A n q \<Longrightarrow> list_all A as \<Longrightarrow> bq_reachable A n q'"
  by (induction as arbitrary: q rs) (fastforce intro: bq_reachable.action split: bind_splits)+

section \<open>How many threads are where\<close>

abbreviation threads_at :: "'a blocking_queue \<Rightarrow> thread_state \<Rightarrow> nat" where
  "threads_at q p \<equiv> count_list (threads q) p"

lemma count_list_update:
  "t < length xs \<Longrightarrow> count_list (xs[t := p]) c + (if xs ! t = c then 1 else 0) = count_list xs c + (if p = c then 1 else 0)"
proof (induction xs arbitrary: t)
  case (Cons x xs)
  show ?case
  proof (cases t)
    case (Suc k)
    with Cons.IH [of k] Cons.prems show ?thesis by auto
  qed auto
qed simp

lemma set_thread_simps [simp]:
  "m_alive (set_thread t p q) = m_alive q" "m_queue (set_thread t p q) = m_queue q"
  "sleeping (set_thread t p q) = sleeping q" "sleeping_on_empty (set_thread t p q) = sleeping_on_empty q"
  "length (threads (set_thread t p q)) = length (threads q)"
  by (simp_all add: set_thread_def)

text \<open>Moving a thread from one state to another.\<close>

lemma threads_at_move:
  assumes "t < length (threads q)" and "threads q ! t = p" and "p \<noteq> p'"
  shows "threads_at (set_thread t p' q) p' = threads_at q p' + 1"
    and "threads_at q p = threads_at (set_thread t p' q) p + 1"
    and "c \<noteq> p \<Longrightarrow> c \<noteq> p' \<Longrightarrow> threads_at (set_thread t p' q) c = threads_at q c"
  using assms count_list_update [of t "threads q" p' p] count_list_update [of t "threads q" p' p']
    count_list_update [of t "threads q" p' c]
  by (auto simp: set_thread_def split: if_splits)

lemma some_asleep:
  "list_ex on_data xs \<longleftrightarrow> count_list xs (Asleep For_dequeue) + count_list xs (Asleep For_data) \<noteq> 0"
  "list_ex on_empty xs \<longleftrightarrow> count_list xs (Asleep For_empty) \<noteq> 0"
proof (induction xs)
  case (Cons p xs)
  have p: "on_data p \<longleftrightarrow> p = Asleep For_dequeue \<or> p = Asleep For_data" "on_empty p \<longleftrightarrow> p = Asleep For_empty"
    by (cases p; simp; rename_tac k; case_tac k; simp)+
  { case 1 from Cons(1) p(1) show ?case by auto }
  { case 2 from Cons(2) p(2) show ?case by auto }
qed simp_all

lemma broadcast_counts:
  "count_list (map (\<lambda>p. if P p then woken p else p) xs) (Asleep k) = (if P (Asleep k) then 0 else count_list xs (Asleep k))"
  "count_list (map (\<lambda>p. if P p then woken p else p) xs) (Awake k)
     = count_list xs (Awake k) + (if P (Asleep k) then count_list xs (Asleep k) else 0)"
proof (induction xs)
  case (Cons p xs)
  { case 1 from Cons show ?case by (cases p) auto }
  { case 2 from Cons show ?case by (cases p) auto }
qed simp_all

section \<open>The counters\<close>

text \<open>What a change of thread states leaves alone.\<close>

definition same_data :: "'a blocking_queue \<Rightarrow> 'a blocking_queue \<Rightarrow> bool" where
  "same_data q q' \<longleftrightarrow> m_alive q' = m_alive q \<and> m_queue q' = m_queue q \<and> sleeping q' = sleeping q
     \<and> sleeping_on_empty q' = sleeping_on_empty q \<and> length (threads q') = length (threads q)"

text \<open>Some threads may have woken up, but no thread went to sleep or came back.\<close>

definition wakes :: "'a blocking_queue \<Rightarrow> 'a blocking_queue \<Rightarrow> bool" where
  "wakes q q' \<longleftrightarrow> same_data q q' \<and> (\<forall>k. threads_at q' (Asleep k) \<le> threads_at q (Asleep k)
     \<and> threads_at q' (Asleep k) + threads_at q' (Awake k) = threads_at q (Asleep k) + threads_at q (Awake k))"

lemma wakes_refl [simp]: "wakes q q"
  by (simp add: wakes_def same_data_def)

lemma set_thread_same: "threads q ! t = p \<Longrightarrow> set_thread t p q = q"
  by (auto simp: set_thread_def)

lemma wakes_set_thread: "t < length (threads q) \<Longrightarrow> wakes q (set_thread t (woken (threads q ! t)) q)"
proof (cases "threads q ! t")
  case (Asleep k)
  assume t: "t < length (threads q)"
  note move = threads_at_move [OF t Asleep, of "Awake k"]
  have "threads_at (set_thread t (Awake k) q) (Asleep j) \<le> threads_at q (Asleep j)
     \<and> threads_at (set_thread t (Awake k) q) (Asleep j) + threads_at (set_thread t (Awake k) q) (Awake j)
       = threads_at q (Asleep j) + threads_at q (Awake j)" for j
    using move(1,2) move(3) [of "Asleep j"] move(3) [of "Awake j"] by (cases "j = k") auto
  with Asleep show ?thesis by (simp add: wakes_def same_data_def)
qed (simp_all add: set_thread_same)

lemma signal_wakes:
  assumes "signal P choice q = Some q'"
  shows "wakes q q'"
  using assms by (auto simp: signal_def wakes_set_thread split: if_splits option.splits)

lemma signal_if_wakes: "signal_if b P choice q = Some q' \<Longrightarrow> wakes q q'"
  by (auto simp: signal_if_def signal_wakes split: if_splits)

lemma broadcast_wakes: "wakes q (broadcast_to P q)"
  by (auto simp: wakes_def same_data_def broadcast_to_def broadcast_counts)

text \<open>A signal to the threads that wait for data wakes one of them.\<close>

lemma signal_data_one:
  assumes "signal on_data choice q = Some q'" and "threads_at q (Asleep For_data) = 0" and "threads_at q (Asleep For_dequeue) \<noteq> 0"
  shows "threads_at q' (Awake For_dequeue) = threads_at q (Awake For_dequeue) + 1"
proof -
  obtain t where t: "t < length (threads q)" "on_data (threads q ! t)" "q' = set_thread t (woken (threads q ! t)) q"
    using assms by (auto simp: signal_def some_asleep split: if_splits option.splits)
  then obtain k where k: "threads q ! t = Asleep k" "k \<noteq> For_empty" by (cases "threads q ! t") auto
  have "k \<noteq> For_data"
  proof
    assume "k = For_data"
    then have "threads q ! t = Asleep For_data" using k by simp
    then show False using assms(2) t(1) by (metis count_list_0_iff nth_mem)
  qed
  with k have "threads q ! t = Asleep For_dequeue" by (cases k) auto
  from threads_at_move(1) [OF t(1) this, of "Awake For_dequeue"] show ?thesis by (simp add: t(3) \<open>threads q ! t = Asleep For_dequeue\<close>)
qed

definition bq_counted :: "'a blocking_queue \<Rightarrow> bool" where
  "bq_counted q \<longleftrightarrow>
     sleeping q = of_nat (threads_at q (Asleep For_dequeue) + threads_at q (Awake For_dequeue)
       + (threads_at q (Asleep For_data) + threads_at q (Awake For_data)))
     \<and> sleeping_on_empty q = of_nat (threads_at q (Asleep For_empty) + threads_at q (Awake For_empty))"

lemma wakes_counted: "wakes q q' \<Longrightarrow> bq_counted q \<Longrightarrow> bq_counted q'"
  by (simp add: wakes_def same_data_def bq_counted_def)

lemma counted_data [simp]:
  "bq_counted (q\<lparr>m_queue := xs\<rparr>) = bq_counted q" "bq_counted (q\<lparr>m_alive := b\<rparr>) = bq_counted q"
  by (simp_all add: bq_counted_def)

text \<open>The two ends of a wait.\<close>

lemma enter_cases:
  assumes "enter t k q = Some q'"
  obtains "q' = q" and "thread_in q t [Running]"
  | "q' = (if k = For_empty then (set_thread t Running q)\<lparr>sleeping_on_empty := sleeping_on_empty q - 1\<rparr>
       else (set_thread t Running q)\<lparr>sleeping := sleeping q - 1\<rparr>)" and "thread_in q t [Awake k]"
  using assms by (auto simp: enter_def Let_def thread_in_def split: if_splits)

lemma enter_data:
  assumes "enter t k q = Some q'"
  shows "m_alive q' = m_alive q \<and> m_queue q' = m_queue q \<and> length (threads q') = length (threads q) \<and> thread_in q' t [Running]
     \<and> (\<forall>j. threads_at q' (Asleep j) = threads_at q (Asleep j))
     \<and> (\<forall>j. threads_at q' (Awake j) \<le> threads_at q (Awake j) \<and> (j \<noteq> k \<longrightarrow> threads_at q' (Awake j) = threads_at q (Awake j))
         \<and> threads_at q (Awake j) \<le> threads_at q' (Awake j) + 1)"
  using assms
proof (cases rule: enter_cases)
  case 2
  note move = threads_at_move [of t q "Awake k" Running]
  have "threads_at (set_thread t Running q) (Awake j) \<le> threads_at q (Awake j)
      \<and> (j \<noteq> k \<longrightarrow> threads_at (set_thread t Running q) (Awake j) = threads_at q (Awake j))
      \<and> threads_at q (Awake j) \<le> threads_at (set_thread t Running q) (Awake j) + 1" for j
    using 2(2) move(2) move(3) [of "Awake j"] by (cases "j = k") (auto simp: thread_in_def)
  with 2 move(3) show ?thesis by (auto simp: thread_in_def set_thread_def)
qed (simp add: thread_in_def)

lemma enter_awake:
  assumes "enter t k q = Some q'" and "threads q ! t = Awake k"
  shows "threads_at q (Awake k) = threads_at q' (Awake k) + 1"
  using assms threads_at_move(2) [of t q "Awake k" Running] by (auto simp: enter_def Let_def thread_in_def split: if_splits)

lemma enter_counted:
  assumes "enter t k q = Some q'" and "bq_counted q"
  shows "bq_counted q'"
  using assms(1)
proof (cases rule: enter_cases)
  case 2
  then have t: "t < length (threads q)" "threads q ! t = Awake k" by (simp_all add: thread_in_def)
  note move = threads_at_move [OF t, of Running]
  from 2 assms(2) move(2) move(3) [of "Awake For_dequeue"] move(3) [of "Awake For_data"] move(3) [of "Awake For_empty"]
    move(3) [of "Asleep For_dequeue"] move(3) [of "Asleep For_data"] move(3) [of "Asleep For_empty"]
  show ?thesis by (cases k) (simp_all add: bq_counted_def)
qed (use assms in simp)

lemma fall_asleep_counted:
  assumes "thread_in q t [Running]" and "bq_counted q"
  shows "bq_counted (fall_asleep t k q)"
proof -
  from assms(1) have t: "t < length (threads q)" "threads q ! t = Running" by (simp_all add: thread_in_def)
  note move = threads_at_move [OF t, of "Asleep k"]
  from assms(2) move(1) move(3) [of "Awake For_dequeue"] move(3) [of "Awake For_data"] move(3) [of "Awake For_empty"]
    move(3) [of "Asleep For_dequeue"] move(3) [of "Asleep For_data"] move(3) [of "Asleep For_empty"]
  show ?thesis by (cases k) (simp_all add: bq_counted_def fall_asleep_def Let_def)
qed

lemma pop_front_wakes:
  "pop_front choice q = Some (r, q') \<Longrightarrow> r = Element (Some (hd (m_queue q))) \<and> wakes (q\<lparr>m_queue := tl (m_queue q)\<rparr>) q'"
  by (auto simp: pop_front_def signal_empty_def signal_if_wakes)

definition bq_ok :: "'a blocking_queue \<Rightarrow> bool" where
  "bq_ok q \<longleftrightarrow> bq_counted q \<and> (m_alive q \<or> (\<forall>k. threads_at q (Asleep k) = 0))"

lemma wakes_ok: "wakes q q' \<Longrightarrow> bq_ok q \<Longrightarrow> bq_ok q'"
  using wakes_counted [of q q'] by (auto simp: bq_ok_def wakes_def same_data_def)

lemma queue_ok [simp]: "bq_ok (q\<lparr>m_queue := xs\<rparr>) = bq_ok q"
  by (simp add: bq_ok_def)

lemma enter_ok: "enter t k q = Some q' \<Longrightarrow> bq_ok q \<Longrightarrow> bq_ok q' \<and> thread_in q' t [Running]"
  using enter_counted [of t k q q'] enter_data [of t k q q'] by (auto simp: bq_ok_def)

lemma fall_asleep_ok: "thread_in q t [Running] \<Longrightarrow> m_alive q \<Longrightarrow> bq_ok q \<Longrightarrow> bq_ok (fall_asleep t k q)"
  using fall_asleep_counted [of q t k] by (simp add: bq_ok_def) (simp add: fall_asleep_def Let_def)

lemma pop_front_ok: "pop_front choice q = Some (r, q') \<Longrightarrow> bq_ok q \<Longrightarrow> bq_ok q'"
  using pop_front_wakes [of choice q r q'] wakes_ok [of "q\<lparr>m_queue := tl (m_queue q)\<rparr>" q'] by simp

lemma stop_ok: "bq_ok q \<Longrightarrow> bq_ok (stop_blocking q)"
proof -
  assume ok: "bq_ok q"
  have "bq_counted (stop_blocking q)"
    unfolding stop_blocking_def using ok by (intro wakes_counted [OF broadcast_wakes]) (simp add: bq_ok_def)
  moreover have "threads_at (stop_blocking q) (Asleep k) = 0" for k
    by (cases k) (simp_all add: stop_blocking_def broadcast_to_def broadcast_counts del: map_map)
  ultimately show ?thesis by (simp add: bq_ok_def)
qed

lemmas wakings = signal_if_wakes broadcast_wakes wakes_set_thread

lemma step_ok:
  assumes "bq_step a q = Some (r, q')" and "bq_ok q"
  shows "bq_ok q'"
proof (cases a)
  case (Dequeue t choice)
  then obtain q1 where q1: "enter t For_dequeue q = Some q1" using assms(1) by (auto simp: dequeue_def split: bind_splits)
  from Dequeue q1 assms(1) enter_ok [OF q1 assms(2)] show ?thesis
    by (auto simp: dequeue_def fall_asleep_ok pop_front_ok split: if_splits)
next
  case (Wait_for_data t)
  then obtain q1 where q1: "enter t For_data q = Some q1" using assms(1) by (auto simp: wait_for_data_def split: bind_splits)
  from Wait_for_data q1 assms(1) enter_ok [OF q1 assms(2)] show ?thesis
    by (auto simp: wait_for_data_def fall_asleep_ok split: if_splits)
next
  case (Wait_until_empty t)
  then obtain q1 where q1: "enter t For_empty q = Some q1" using assms(1) by (auto simp: wait_until_empty_def split: bind_splits)
  from Wait_until_empty q1 assms(1) enter_ok [OF q1 assms(2)] show ?thesis
    by (auto simp: wait_until_empty_def fall_asleep_ok split: if_splits)
next
  case (Try_dequeue t choice)
  with assms show ?thesis by (auto simp: try_dequeue_def pop_front_ok split: if_splits)
next
  case (Start_blocking t)
  with assms show ?thesis by (auto simp: bq_ok_def split: if_splits)
qed (use assms in \<open>auto simp: signal_empty_def stop_ok intro: wakings [THEN wakes_ok] split: if_splits\<close>)

lemma step_threads: "bq_step a q = Some (r, q') \<Longrightarrow> length (threads q') = length (threads q)"
proof -
  assume step: "bq_step a q = Some (r, q')"
  have enter: "length (threads q2) = length (threads q1)" if "enter t k q1 = Some q2" for t k and q1 q2 :: "'a blocking_queue"
    using enter_data [OF that] by simp
  have wake: "length (threads q2) = length (threads q1)" if "wakes q1 q2" for q1 q2 :: "'a blocking_queue"
    using that by (simp add: wakes_def same_data_def)
  have pop: "length (threads q2) = length (threads q1)" if "pop_front choice q1 = Some (r, q2)" for choice r and q1 q2 :: "'a blocking_queue"
    using wake [OF conjunct2 [OF pop_front_wakes [OF that]]] by simp
  have sleep: "length (threads (fall_asleep t k q1)) = length (threads q1)" for t k and q1 :: "'a blocking_queue"
    by (simp add: fall_asleep_def Let_def)
  from step show ?thesis
    by (cases a) (auto simp: dequeue_def wait_for_data_def wait_until_empty_def try_dequeue_def signal_empty_def
      stop_blocking_def broadcast_to_def sleep split: if_splits bind_splits dest!: enter pop wake [OF signal_if_wakes])
qed

lemma reachable_ok: "bq_reachable A n q \<Longrightarrow> bq_ok q \<and> length (threads q) = n"
proof (induction rule: bq_reachable.induct)
  case new
  have "count_list (replicate n Running) p = (if p = Running then n else 0)" for p by (induction n) auto
  then show ?case by (simp add: bq_ok_def bq_counted_def blocking_queue_new_def)
next
  case (action q a r q')
  with step_ok [OF action.hyps(3)] step_threads [OF action.hyps(3)] show ?case by simp
qed

end
