(* ===== verification/Blocking_Queue_Correct.thy ===== *)
theory Blocking_Queue_Correct
  imports Blocking_Queue
begin

text \<open>
  What the threads of a blocking queue can rely on: no wake-up is lost between \<open>enqueue\<close> and \<open>dequeue\<close>, the
  counters are right and elements come out in the order in which they went in. Two combinations of
  operations lose a wake-up.
\<close>

section \<open>Wake-ups\<close>

text \<open>
  The operations that wake as many threads as they give elements to: neither \<open>wait_for_data\<close>, which uses up
  a signal without taking an element, nor an \<open>enqueue_conditional_signal\<close>, nor elements swapped in.
\<close>

fun plain :: "'a action \<Rightarrow> bool" where
  "plain (Enqueue_conditional_signal t x n choice) = False"
| "plain (Wait_for_data t) = False"
| "plain (Swap t xs choice) = (xs = [])"
| "plain _ = True"

definition attended :: "'a blocking_queue \<Rightarrow> bool" where
  "attended q \<longleftrightarrow> threads_at q (Asleep For_data) = 0 \<and> threads_at q (Awake For_data) = 0
     \<and> (threads_at q (Asleep For_dequeue) = 0 \<or> length (m_queue q) \<le> threads_at q (Awake For_dequeue))"

lemma wakesD:
  assumes "wakes q q'"
  shows "threads_at q' (Asleep k) \<le> threads_at q (Asleep k)"
    and "threads_at q' (Asleep k) + threads_at q' (Awake k) = threads_at q (Asleep k) + threads_at q (Awake k)"
    and "m_queue q' = m_queue q"
  using assms by (simp_all add: wakes_def same_data_def)

lemma wakes_attended:
  assumes "wakes q q'" and "attended q"
  shows "attended q'"
  using assms(2) wakesD(1,2) [OF assms(1), of For_data] wakesD(1,2) [OF assms(1), of For_dequeue] wakesD(3) [OF assms(1)]
  unfolding attended_def by auto

lemma fewer_attended: "attended q \<Longrightarrow> length xs \<le> length (m_queue q) \<Longrightarrow> attended (q\<lparr>m_queue := xs\<rparr>)"
  by (auto simp: attended_def)

lemma sleeping_nonzero:
  assumes "bq_counted q" and "length (threads q) < 2 ^ 16" and "threads_at q (Asleep For_dequeue) \<noteq> 0"
    and "threads_at q (Asleep For_data) = 0" and "threads_at q (Awake For_data) = 0"
  shows "sleeping q \<noteq> 0"
proof -
  define n where "n = threads_at q (Asleep For_dequeue) + threads_at q (Awake For_dequeue)"
  have "n \<le> length (threads q)"
  proof -
    have "count_list xs a + count_list xs b \<le> length xs" if "a \<noteq> b" for xs and a b :: thread_state
      using that by (induction xs) auto
    then show ?thesis unfolding n_def by simp
  qed
  then have "unat (of_nat n :: u16) = n" using assms(2) by (simp add: unat_of_nat)
  moreover have "sleeping q = of_nat n" using assms(1,4,5) by (simp add: bq_counted_def n_def)
  moreover have "n \<noteq> 0" using assms(3) by (simp add: n_def)
  ultimately show ?thesis by (metis unat_0)
qed

lemma enqueue_attended:
  assumes "signal_if (sleeping q \<noteq> 0) on_data choice (q\<lparr>m_queue := xs\<rparr>) = Some q'" and "length xs = length (m_queue q) + 1"
    and "bq_counted q" and "length (threads q) < 2 ^ 16" and "attended q"
  shows "attended q'"
proof -
  have wakes: "wakes (q\<lparr>m_queue := xs\<rparr>) q'" using signal_if_wakes assms(1) by blast
  show ?thesis
  proof (cases "threads_at q (Asleep For_dequeue) = 0")
    case True
    then have "attended (q\<lparr>m_queue := xs\<rparr>)" using assms(5) by (simp add: attended_def)
    with wakes show ?thesis by (rule wakes_attended)
  next
    case False
    with assms(3-5) have "sleeping q \<noteq> 0" by (intro sleeping_nonzero) (simp_all add: attended_def)
    then have "signal on_data choice (q\<lparr>m_queue := xs\<rparr>) = Some q'" using assms(1) by (simp add: signal_if_def)
    from signal_data_one [OF this] False assms(5)
    have "threads_at q' (Awake For_dequeue) = threads_at q (Awake For_dequeue) + 1" by (simp add: attended_def)
    moreover have "m_queue q' = xs" "threads_at q' (Asleep For_data) = 0" "threads_at q' (Awake For_data) = 0"
      using wakesD(1,2) [OF wakes, of For_data] wakesD(3) [OF wakes] assms(5) by (simp_all add: attended_def)
    ultimately show ?thesis using False assms(2,5) by (simp add: attended_def)
  qed
qed

lemma fall_asleep_at:
  assumes "thread_in q t [Running]"
  shows "threads_at (fall_asleep t k q) (Asleep k) = threads_at q (Asleep k) + 1"
    and "c \<noteq> Running \<Longrightarrow> c \<noteq> Asleep k \<Longrightarrow> threads_at (fall_asleep t k q) c = threads_at q c"
    and "m_queue (fall_asleep t k q) = m_queue q"
  using assms threads_at_move [of t q Running "Asleep k"] by (cases k; simp add: fall_asleep_def Let_def thread_in_def)+

text \<open>A thread that comes back from its wait takes an element, unless there is none.\<close>

lemma dequeue_attended:
  assumes "dequeue t choice q = Some (r, q')" and "attended q"
  shows "attended q'"
proof -
  obtain q1 where q1: "enter t For_dequeue q = Some q1" using assms(1) by (auto simp: dequeue_def split: bind_splits)
  note data = enter_data [OF q1]
  have data': "threads_at q1 (Asleep For_data) = 0" "threads_at q1 (Awake For_data) = 0"
    using data assms(2) by (auto simp: attended_def)
  show ?thesis
  proof (cases "m_queue q1 = []")
    case True
    then have "attended q1" using data' by (simp add: attended_def)
    moreover have "attended (fall_asleep t For_dequeue q1)"
      using data data' True fall_asleep_at [where q = q1 and t = t and k = For_dequeue] by (simp add: attended_def)
    ultimately show ?thesis using assms(1) q1 True by (auto simp: dequeue_def split: if_splits)
  next
    case False
    then have pop: "pop_front choice q1 = Some (r, q')" using assms(1) q1 by (simp add: dequeue_def)
    have "threads_at q (Awake For_dequeue) \<le> threads_at q1 (Awake For_dequeue) + 1"
      "threads_at q1 (Asleep For_dequeue) = threads_at q (Asleep For_dequeue)" "m_queue q1 = m_queue q"
      using data by blast+
    then have "attended (q1\<lparr>m_queue := tl (m_queue q1)\<rparr>)"
      using data' assms(2) by (auto simp: attended_def)
    with pop_front_wakes [OF pop] show ?thesis using wakes_attended by blast
  qed
qed

lemma wait_until_empty_attended:
  assumes "wait_until_empty t q = Some (r, q')" and "attended q"
  shows "attended q'"
proof -
  obtain q1 where q1: "enter t For_empty q = Some q1" using assms(1) by (auto simp: wait_until_empty_def split: bind_splits)
  have "attended q1" using enter_data [OF q1] assms(2) by (auto simp: attended_def)
  moreover from this have "attended (fall_asleep t For_empty q1)"
    using enter_data [OF q1] fall_asleep_at [where q = q1 and t = t and k = For_empty] by (simp add: attended_def)
  ultimately show ?thesis using assms(1) q1 by (auto simp: wait_until_empty_def split: if_splits)
qed

lemma try_dequeue_attended:
  assumes "try_dequeue choice q = Some (r, q')" and "attended q"
  shows "attended q'"
proof (cases "m_queue q = [] \<or> \<not> m_alive q")
  case False
  with assms have "pop_front choice q = Some (r, q')" by (simp add: try_dequeue_def)
  from pop_front_wakes [OF this] wakes_attended fewer_attended [OF assms(2), of "tl (m_queue q)"] show ?thesis by auto
qed (use assms in \<open>auto simp: try_dequeue_def split: if_splits\<close>)

lemma step_attended:
  assumes "bq_step a q = Some (r, q')" and "plain a" and "bq_counted q" and "length (threads q) < 2 ^ 16" and "attended q"
  shows "attended q'"
proof (cases a)
  case (Stop_blocking t)
  have "attended (stop_blocking q)"
    unfolding stop_blocking_def
    using assms(5) by (intro wakes_attended [OF broadcast_wakes]) (simp add: attended_def)
  with Stop_blocking assms(1) show ?thesis by (simp split: if_splits)
next
  case (Swap t xs choice)
  with assms have "signal_if (sleeping_on_empty q \<noteq> 0) on_empty choice (q\<lparr>m_queue := []\<rparr>) = Some q'"
    by (auto simp: signal_empty_def split: if_splits)
  from wakes_attended [OF signal_if_wakes [OF this]] fewer_attended [OF assms(5), of "[]"] show ?thesis by simp
qed (use assms in \<open>auto simp: dequeue_attended wait_until_empty_attended try_dequeue_attended attended_def [of "_\<lparr>m_alive := _\<rparr>"]
    attended_def [symmetric] intro: enqueue_attended wakes_attended [OF broadcast_wakes] wakes_attended [OF wakes_set_thread] split: if_splits\<close>)

lemma reachable_attended: "bq_reachable plain n q \<Longrightarrow> n < 2 ^ 16 \<Longrightarrow> attended q"
proof (induction rule: bq_reachable.induct)
  case new
  have "count_list (replicate n Running) p = (if p = Running then n else 0)" for p by (induction n) auto
  then show ?case by (simp add: attended_def blocking_queue_new_def)
next
  case (action q a r q')
  from reachable_ok [OF action.hyps(1)] action step_attended [OF action.hyps(3,2)] show ?case by (simp add: bq_ok_def)
qed

lemma signal_possible: "\<exists>choice q'. signal P choice q = Some q'"
proof (cases "list_ex P (threads q)")
  case True
  then obtain t where "t < length (threads q)" "P (threads q ! t)" by (auto simp: list_ex_length)
  then have "signal P (Some t) q = Some (set_thread t (woken (threads q ! t)) q)" using True by (simp add: signal_def)
  then show ?thesis by blast
qed (auto simp: signal_def)

lemma signal_if_possible: "\<exists>choice q'. signal_if b P choice q = Some q'"
  using signal_possible [of P q] by (cases b) (auto simp: signal_if_def)

lemma signal_empty_others:
  assumes "signal_empty choice q = Some q'" and "threads q' ! u = Awake For_dequeue" and "u < length (threads q)"
  shows "threads q ! u = Awake For_dequeue"
proof -
  have "woken p = Awake For_dequeue \<Longrightarrow> \<not> on_empty p" for p by (cases p) auto
  with assms show ?thesis
    by (auto simp: signal_empty_def signal_if_def signal_def set_thread_def nth_list_update split: if_splits option.splits)
qed

text \<open>An awake thread takes the first element, and no other thread changes its mind about that.\<close>

lemma awake_dequeues:
  assumes "t < length (threads q)" and "threads q ! t = Awake For_dequeue" and "m_queue q = x # xs"
  shows "\<exists>choice q'. bq_step (Dequeue t choice) q = Some (Element (Some x), q') \<and> m_queue q' = xs
    \<and> length (threads q') = length (threads q) \<and> (\<forall>u < length (threads q). threads q' ! u = Awake For_dequeue \<longrightarrow> threads q ! u = Awake For_dequeue)"
proof -
  define q1 where "q1 = (set_thread t Running q)\<lparr>sleeping := sleeping q - 1, m_queue := xs\<rparr>"
  obtain choice q' where q': "signal_empty choice q1 = Some q'"
    using signal_if_possible unfolding signal_empty_def by blast
  have "bq_step (Dequeue t choice) q = Some (Element (Some x), q')"
    using assms q' by (simp add: dequeue_def enter_def thread_in_def Let_def pop_front_def q1_def)
  moreover have "wakes q1 q'" using q' by (auto simp: signal_empty_def signal_if_wakes)
  then have "m_queue q' = xs" "length (threads q') = length (threads q)"
    by (auto simp: wakes_def same_data_def q1_def)
  moreover have "threads q ! u = Awake For_dequeue" if "threads q' ! u = Awake For_dequeue" "u < length (threads q)" for u
    using signal_empty_others [OF q' that(1)] that(2) assms(1) by (auto simp: q1_def set_thread_def nth_list_update split: if_splits)
  ultimately show ?thesis by blast
qed

lemma awake_threads_drain:
  assumes "length (m_queue q) \<le> threads_at q (Awake For_dequeue)"
  shows "\<exists>as q'. bq_run as q = Some (map (\<lambda>x. Element (Some x)) (m_queue q), q') \<and> m_queue q' = []
    \<and> list_all (\<lambda>a. \<exists>t choice. a = Dequeue t choice \<and> t < length (threads q) \<and> threads q ! t = Awake For_dequeue) as"
  using assms
proof (induction "m_queue q" arbitrary: q)
  case Nil
  then show ?case by (intro exI [of _ "[]"]) simp
next
  case (Cons x xs)
  have len: "length (m_queue q) = Suc (length xs)" by (simp add: Cons.hyps(2) [symmetric])
  with Cons.prems have "threads_at q (Awake For_dequeue) \<noteq> 0" by simp
  then obtain t where t: "t < length (threads q)" "threads q ! t = Awake For_dequeue"
    by (metis count_list_0_iff in_set_conv_nth)
  from awake_dequeues [OF this Cons.hyps(2) [symmetric]] obtain choice q1 where
    q1: "bq_step (Dequeue t choice) q = Some (Element (Some x), q1)" "m_queue q1 = xs"
      "\<And>u. u < length (threads q) \<Longrightarrow> threads q1 ! u = Awake For_dequeue \<Longrightarrow> threads q ! u = Awake For_dequeue"
      "length (threads q1) = length (threads q)" by blast
  have "threads_at q (Awake For_dequeue) \<le> threads_at q1 (Awake For_dequeue) + 1"
  proof -
    obtain q2 where q2: "enter t For_dequeue q = Some q2" using q1(1) by (auto simp: dequeue_def split: bind_splits)
    have "m_queue q2 \<noteq> []" using enter_data [OF q2] Cons.hyps(2) by auto
    then have "pop_front choice q2 = Some (Element (Some x), q1)" using q1(1) q2 by (simp add: dequeue_def)
    then have wakes: "wakes (q2\<lparr>m_queue := tl (m_queue q2)\<rparr>) q1" using pop_front_wakes by blast
    have "threads_at q2 (Awake For_dequeue) \<le> threads_at q1 (Awake For_dequeue)"
      using wakesD(1,2) [OF wakes, of For_dequeue] by simp
    moreover have "threads_at q (Awake For_dequeue) \<le> threads_at q2 (Awake For_dequeue) + 1" using enter_data [OF q2] by blast
    ultimately show ?thesis by simp
  qed
  then have "length (m_queue q1) \<le> threads_at q1 (Awake For_dequeue)" using Cons.prems len q1(2) by simp
  from Cons.hyps(1) [OF q1(2) [symmetric] this] obtain as q' where
    "bq_run as q1 = Some (map (\<lambda>x. Element (Some x)) xs, q')" "m_queue q' = []"
    "list_all (\<lambda>a. \<exists>t choice. a = Dequeue t choice \<and> t < length (threads q1) \<and> threads q1 ! t = Awake For_dequeue) as" unfolding q1(2) by blast
  with q1 t Cons.hyps(2) show ?case
    by (intro exI [of _ "Dequeue t choice # as"] exI [of _ q']) (auto simp: Cons.hyps(2) [symmetric] list_all_iff)
qed

text \<open>
  C13. No wake-up is lost between \<open>enqueue\<close> and \<open>dequeue\<close>: whenever a thread sleeps in \<open>dequeue\<close>, the threads that
  have been woken there suffice to take all the elements of the queue, in their order, without any
  further signal. This is for fewer than $2^{16}$ threads, as the counter of sleeping threads has 16
  bits, and for the operations that give out a signal for each element.
\<close>

theorem no_lost_wakeup:
  assumes "bq_reachable plain n q" and "n < 2 ^ 16" and "Asleep For_dequeue \<in> set (threads q)"
  shows "\<exists>as q'. bq_run as q = Some (map (\<lambda>x. Element (Some x)) (m_queue q), q') \<and> m_queue q' = []
    \<and> list_all (\<lambda>a. \<exists>t choice. a = Dequeue t choice \<and> t < length (threads q) \<and> threads q ! t = Awake For_dequeue) as"
proof -
  have "length (m_queue q) \<le> threads_at q (Awake For_dequeue)"
    using reachable_attended [OF assms(1,2)] assms(3) by (auto simp: attended_def count_list_0_iff)
  then show ?thesis by (rule awake_threads_drain)
qed

text \<open>
  Whatever the threads do, the two counters are the numbers of threads that wait or are on their way
  back from a wait, for fewer than $2^{16}$ threads, and no thread sleeps in a queue that is not alive.
\<close>

theorem blocking_queue_counters:
  assumes "bq_reachable A n q" and "n < 2 ^ 16"
  shows "unat (sleeping q) = length (filter (\<lambda>p. p \<in> {Asleep For_dequeue, Awake For_dequeue, Asleep For_data, Awake For_data}) (threads q))
    \<and> unat (sleeping_on_empty q) = length (filter (\<lambda>p. p \<in> {Asleep For_empty, Awake For_empty}) (threads q))
    \<and> (\<not> m_alive q \<longrightarrow> list_all (\<lambda>p. \<forall>k. p \<noteq> Asleep k) (threads q))"
proof -
  have ok: "bq_counted q" "m_alive q \<or> (\<forall>k. threads_at q (Asleep k) = 0)" "length (threads q) = n"
    using reachable_ok [OF assms(1)] by (simp_all add: bq_ok_def)
  have count: "length (filter (\<lambda>p. p \<in> {Asleep For_dequeue, Awake For_dequeue, Asleep For_data, Awake For_data}) xs)
      = count_list xs (Asleep For_dequeue) + count_list xs (Awake For_dequeue) + (count_list xs (Asleep For_data) + count_list xs (Awake For_data))"
    "length (filter (\<lambda>p. p \<in> {Asleep For_empty, Awake For_empty}) xs) = count_list xs (Asleep For_empty) + count_list xs (Awake For_empty)" for xs
    by (induction xs) auto
  have small: "unat (of_nat (length (filter P (threads q))) :: u16) = length (filter P (threads q))" for P
    using assms(2) ok(3) length_filter_le [of P "threads q"] by (simp add: unat_of_nat)
  show ?thesis
    using ok(1,2) small unfolding bq_counted_def count [symmetric]
    by (auto simp: list_all_iff count_list_0_iff)
qed

section \<open>The order of the elements\<close>

fun enqueued :: "'a action \<Rightarrow> 'a list" where
  "enqueued (Enqueue t x choice) = [x]"
| "enqueued (Enqueue_conditional_signal t x n choice) = [x]"
| "enqueued _ = []"

fun delivered :: "'a returned \<Rightarrow> 'a list" where
  "delivered (Element (Some x)) = [x]"
| "delivered (Contents xs) = xs"
| "delivered _ = []"

fun in_order :: "'a action \<Rightarrow> bool" where
  "in_order (Enqueue_to_head t x choice) = False"
| "in_order (Swap t xs choice) = (xs = [])"
| "in_order _ = True"

lemma step_order:
  assumes "bq_step a q = Some (r, q')" and "in_order a"
  shows "m_queue q @ enqueued a = delivered r @ m_queue q'"
proof -
  have wake: "m_queue q2 = m_queue q1" if "wakes q1 q2" for q1 q2 :: "'a blocking_queue" using wakesD(3) that .
  have enter: "m_queue q2 = m_queue q1" if "enter t k q1 = Some q2" for t k and q1 q2 :: "'a blocking_queue"
    using enter_data [OF that] by simp
  have pop: "m_queue q1 = delivered r @ m_queue q2" if "pop_front choice q1 = Some (r, q2)" "m_queue q1 \<noteq> []"
    for choice r and q1 q2 :: "'a blocking_queue"
    using pop_front_wakes [OF that(1)] wake that(2) by (cases "m_queue q1") force+
  from assms show ?thesis
  proof (cases a)
    case (Dequeue t choice)
    then obtain q1 where "enter t For_dequeue q = Some q1" using assms(1) by (auto simp: dequeue_def split: bind_splits)
    with enter [OF this] pop [of choice q1 r q'] Dequeue assms show ?thesis
      by (auto simp: dequeue_def fall_asleep_def Let_def split: if_splits)
  next
    case (Try_dequeue t choice)
    with pop [of choice q r q'] assms show ?thesis by (auto simp: try_dequeue_def split: if_splits)
  next
    case (Stop_blocking t)
    with assms show ?thesis by (auto simp: stop_blocking_def broadcast_to_def split: if_splits)
  qed (auto simp: wait_for_data_def wait_until_empty_def fall_asleep_def Let_def signal_empty_def broadcast_to_def
      split: if_splits bind_splits dest!: enter wake [OF signal_if_wakes])
qed


section \<open>Examples\<close>

lemma run_from_new: "bq_run as (blocking_queue_new n) = Some (rs, q) \<Longrightarrow> list_all A as \<Longrightarrow> bq_reachable A n q"
  using run_reachable bq_reachable.new by blast

text \<open>Two threads wait in \<open>dequeue\<close>, and one of them is woken for an element.\<close>

definition two_wait :: "nat action list" where
  "two_wait = [Dequeue 0 None, Dequeue 1 None, Enqueue 2 5 (Some 1)]"

lemma two_wait_run:
  "bq_run two_wait (blocking_queue_new 3) = Some ([Blocks, Blocks, Done],
     \<lparr>m_alive = True, m_queue = [5], sleeping = 2, sleeping_on_empty = 0,
      threads = [Asleep For_dequeue, Awake For_dequeue, Running]\<rparr>)"
  by code_simp

theorem no_lost_wakeup_witness:
  "let q = \<lparr>m_alive = True, m_queue = [5], sleeping = 2, sleeping_on_empty = 0,
       threads = [Asleep For_dequeue, Awake For_dequeue, Running]\<rparr> :: nat blocking_queue
   in \<exists>as q'. bq_run as q = Some ([Element (Some 5)], q') \<and> m_queue q' = []"
proof -
  let ?q = "\<lparr>m_alive = True, m_queue = [5], sleeping = 2, sleeping_on_empty = 0,
       threads = [Asleep For_dequeue, Awake For_dequeue, Running]\<rparr> :: nat blocking_queue"
  have "bq_reachable plain 3 ?q" by (rule run_from_new [OF two_wait_run]) (simp add: two_wait_def)
  from no_lost_wakeup [OF this] show ?thesis by (simp add: Let_def) blast
qed

theorem blocking_queue_counters_witness:
  "unat (sleeping (snd (the (bq_run two_wait (blocking_queue_new 3))))) = 2"
  using blocking_queue_counters [OF run_from_new [OF two_wait_run, of "\<lambda>a. True"]] by (simp add: two_wait_run)



text \<open>\<open>dequeue\<close> still returns elements after \<open>stop_blocking\<close>.\<close>

lemma dequeue_after_stop:
  "map_option fst (bq_run [Enqueue 0 (5::nat) None, Stop_blocking 0, Dequeue 1 None] (blocking_queue_new 2))
     = Some [Done, Done, Element (Some 5)]"
  by code_simp

end
