(* ===== verification/Spec2Isabelle.thy ===== *)
theory Spec2Isabelle
  imports Integer_Pack Block_Codec Csv_Writer Flex_Values Frequent_Items Running_Variance Aggregate_Types Groupby_Correct Rolling_Correct
    Count_Sketch Hyperloglog Blocking_Queue_Correct
begin

text \<open>
  SFrame: values, storage codecs, CSV, group-by, rolling aggregation, sketches and a queue between threads

  SFrame is a column store for tables that are larger than memory. A table is a set of columns
  (\<open>SArray\<close>), a column is a sequence of values of one dynamic type (\<open>flexible_type\<close>), stored on disk in
  blocks. The code under \<open>src/oss_src\<close> layers as follows: archives that write and read bytes
  (\<open>serialization/\<close>); the value type and its operators (\<open>flexible_type/\<close>); bit-level utilities and the
  integer codecs (\<open>graphlab/util/bitops.hpp\<close>, \<open>util/dense_bitset.hpp\<close>, \<open>sframe/integer_pack.hpp\<close>); the
  codec of a block of values (\<open>sframe/sarray_v2_type_encoding\<close>), which uses all of these; the readers and
  writers of text (\<open>sframe/csv_line_tokenizer\<close>, \<open>sframe/csv_writer\<close>), which use the escaping of strings
  (\<open>flexible_type/string_escape.cpp\<close>); the computations on columns: aggregators
  (\<open>sframe/groupby_aggregate_operators.hpp\<close>), the group-by container that spills to disk
  (\<open>sframe/groupby_aggregate_impl\<close>) and rolling windows (\<open>sframe/rolling_aggregate\<close>), which reads rows
  through \<open>sframe/sarray_reader_buffer.hpp\<close>; sketches that summarise a stream (\<open>sketches/\<close>), one of them on
  a hash table of the repository (\<open>util/generics/value_container_mapper.hpp\<close>); and the queue by which
  threads pass work (\<open>util/blocking_queue.hpp\<close>). Files, the query engine and the Python layer are above.
  This development models these layers and their composition.

  \<^bold>\<open>Conventions.\<close> Machine integers are words of their width; a \<open>double\<close> is its 64-bit image, and its
  arithmetic is a parameter of the definitions that use it. A buffer is a list of bytes, \<open>memcpy\<close> of an
  integer its little-endian image. Stateful objects are records, returned updated. \<open>None\<close> is a failure
  that the code reports by an exception or an assertion, or undefined behaviour; each theory says which.
  Loops that may not end are \<open>partial_function (option)\<close>, where \<open>None\<close> is also not returning, and it is
  proved when they return. Hash functions, the hash table of the library, the circular buffer of Boost
  and the grammar of single values are parameters, with what their documentation promises as named
  hypotheses.

  \<^bold>\<open>The theories, from the bottom up.\<close>

  \<^item> \<open>Prelude\<close>: integer types, images of words, overwriting a buffer; the collection \<open>codec\<close>.

  \<^item> \<open>Archive\<close>: \<open>oarchive\<close> and \<open>iarchive\<close>. The locales \<open>byte_sink\<close> and \<open>byte_source\<close> say what a client
    needs of them; they are interpreted on the two ways of writing and on reading from memory.

  \<^item> \<open>Serialization\<close>: the serializers of plain data, strings, pairs and vectors. The locale
    \<open>serializable\<close> is the contract of a pair of \<open>save\<close> and \<open>load\<close>: \<open>load\<close> reads back exactly what \<open>save\<close>
    wrote, whatever follows. Every serializer of the development interprets it, and the serializers
    of containers take it as a premise on their elements.

  \<^item> \<open>Bitops\<close>: the functions of \<open>bitops.hpp\<close> for every width.

  \<^item> \<open>Integer_Pack\<close>: variable-length integers, sign folding, the packing of 1 to 32 bit fields with
    Duff's devices (the locale \<open>duff_device\<close>) and the frame-of-reference code of groups of at most
    128 integers. Decoding inverts encoding for all 64-bit values.

  \<^item> \<open>Dense_Bitset\<close>, \<open>Fixed_Bitset\<close>: the two bitsets. A bitset stands for the set of its positions
    (\<open>db_bits\<close>), every operation for the operation on sets, and interleaved atomic operations for a
    sequence of them; the locale \<open>bitset\<close> holds what both share. One loop of
    \<open>transfer_approximate_unsafe\<close> can run forever, which is shown.

  \<^item> \<open>Flex_Base\<close>, \<open>Double\<close>, \<open>Flexible_Type\<close>: the type tags with their tables, dates, images, the
    conversions between doubles and integers, and the value type with its serializer.
    \<open>flex_load_depth\<close> bounds the nesting of lists by the bytes left in the archive, which is enough
    because every level takes a byte.

  \<^item> \<open>Flex_Refcount\<close>, \<open>Flex_Values\<close>: the representation of the value type, with a heap, reference counts
    and copy on write. \<open>counted\<close> is the invariant that a count is the number of references; \<open>denotes\<close>
    relates a slot to a value of \<open>Flexible_Type\<close>; \<open>value_step\<close> is the specification, which every operation
    refines.

  \<^item> \<open>Type_Encoding\<close>, \<open>Column_Codec\<close>, \<open>Block_Codec\<close>: the encoder and the two decoders of a block. The
    codecs of the column types are proved in \<open>Column_Codec\<close>; \<open>Block_Codec\<close> composes them with the
    bitmap of missing values and shows that a block is read back by the decoder and, for most column
    types, by the stream decoder.

  \<^item> \<open>String_Escape\<close>: escaping, and unescaping in place, which computes the function \<open>unescape\<close>.

  \<^item> \<open>Csv_Tokenizer\<close>, \<open>Csv_Lines\<close>, \<open>Csv_Writer\<close>: the state machine of the line tokenizer with its
    callbacks, and the writer. The locale \<open>line_callbacks\<close> is what the loop needs to return,
    \<open>line_buffer\<close> what keeps the field buffer in bounds, \<open>token_sink\<close> what a client promises to get every
    field; the callbacks of the overloads of \<open>tokenize_line\<close> interpret them. Rows of strings written
    with quotes are read back.

  \<^item> \<open>Rounding\<close>, \<open>Value_Mapper\<close>, \<open>Space_Saving\<close>, \<open>Sketch_Refinement\<close>, \<open>Frequent_Items\<close>: the space-saving
    sketch on its hash table. The table refines a map; the sketch refines the counters of the published
    algorithm (the detailed state has levels, candidates and a cache), and so reports every frequent item.

  \<^item> \<open>Flex_Operators\<close>: the comparisons and the arithmetic of values.

  \<^item> \<open>Aggregators\<close>, \<open>Aggregator_Laws\<close>, \<open>Aggregate_Results\<close>, \<open>Running_Variance\<close>, \<open>Aggregate_Types\<close>: the
    aggregators as a datatype with a constructor per class. The locale \<open>aggregator\<close> says that combining
    partial results is the same as adding all rows to one instance; it is interpreted on the classes and
    inputs for which it holds. Results equal reference definitions over the rows; the recurrences for mean
    and variance are exact over the reals; an aggregator that is set to input types that it accepts raises
    no exception and returns the type that it announces.

  \<^item> \<open>Groupby\<close>, \<open>Groupby_Elements\<close>, \<open>Groupby_Merge\<close>, \<open>Groupby_Chunks\<close>, \<open>Groupby_Correct\<close>: the container:
    elements hashed into segments, segments that are sorted and spilled when they are full, and the merge
    of the chunks by a heap. Whatever is spilled, the output has a row for every key, with the aggregates
    of its rows.

  \<^item> \<open>Reader_Buffer\<close>, \<open>Rolling\<close>, \<open>Rolling_Correct\<close>: rows read through a buffer (the locale \<open>row_source\<close>), and
    windows that move over them. Segments are computed independently, and the result is that of the
    definition by cells, if the window of the first row of each segment ends inside the column.

  \<^item> \<open>Counting_Sketches\<close>, \<open>Count_Sketch\<close>, \<open>Hyperloglog\<close>: tables of counters. The locale \<open>stream_sketch\<close>
    extends \<open>aggregator\<close> by independence of the order, \<open>set_sketch\<close> by independence of repetitions; the
    three sketches interpret them. Bounds of the estimates follow, and the atomic additions of concurrent
    threads amount to additions one after the other.

  \<^item> \<open>Blocking_Queue\<close>, \<open>Blocking_Queue_Correct\<close>: threads that share a queue, as a state machine whose actions
    are the critical sections. Reachable states have right counters and lose no wake-up, for up to
    $2^{16} - 1$ threads; elements come out in order.

  \<^bold>\<open>What does not hold.\<close> Some theorems show behaviour that the code does not mean: a decoder that reports
  values twice, a loop that does not end, reads of freed memory or behind a field, rows that are not read
  back, a merge of sketches that loses a frequent item, aggregators whose result depends on what was
  spilled, rolling windows that look ahead and are shifted at the end of a column, and threads that
  sleep on although what they wait for has happened. They are listed with the properties of the
  manifest.

  \<^bold>\<open>Not modelled.\<close> Input and output (files, HDFS, S3, sockets), threads other than the interleavings
  named above, the block managers and file formats around the block codec, SFrames, the query engine,
  join, graphs, the quantile sketches, the Boost Spirit grammar, LZ4 and the other vendored libraries,
  and the Python layer. Of the parts modelled: directory archives, reading from streams, the conversion
  of dates from and to doubles, the hashes of values and the visitors of the value type, the quantile
  aggregator, saving and loading of aggregators, the column setup of group-by, and the timed waits of
  the blocking queue.
\<close>

end
